(* ===== verification/Kui_Bytes.thy ===== *)
theory Kui_Bytes
  imports Main "HOL-Library.Word"
begin

text \<open>
  Shared vocabulary of the development: the C integer types as words, byte buffers as lists,
  the little-endian accessors that every component of the program declares for itself
  (\<open>le16\<close>, \<open>get32\<close>, \<open>get64\<close>, \<open>put16\<close>, \<open>put32\<close>, \<open>put64\<close>), bulk copies into a buffer
  (\<open>memcpy\<close> and \<open>memset\<close> are \<open>patch\<close>), saturating counters, and the generic lemmas about
  them that the component theories use.  The collection \<open>byte_simps\<close> holds the rewriting rules
  for reads from patched buffers, \<open>wire_simps\<close> the round trips of the integer encodings.
\<close>

unbundle bit_operations_syntax

type_synonym u8 = "8 word"
type_synonym u16 = "16 word"
type_synonym u32 = "32 word"
type_synonym u64 = "64 word"
type_synonym bytes = "8 word list"

named_theorems byte_simps "reads from patched and sliced buffers"
named_theorems wire_simps "round trips of little-endian encodings"

subsection \<open>Buffers\<close>

text \<open>
  \<open>window p i n\<close> is the C range \<open>p[i..i+n)\<close>; \<open>patch p i q\<close> is \<open>memcpy(p + i, q, length q)\<close>.
\<close>

definition window :: "'a list \<Rightarrow> nat \<Rightarrow> nat \<Rightarrow> 'a list" where
  "window p i n = take n (drop i p)"

definition patch :: "'a list \<Rightarrow> nat \<Rightarrow> 'a list \<Rightarrow> 'a list" where
  "patch p i q = take i p @ q @ drop (i + length q) p"

definition zeroes :: "bytes \<Rightarrow> bool" where
  "zeroes p = list_all (\<lambda>b. b = 0) p"

lemma length_window [byte_simps]: "i + n \<le> length p \<Longrightarrow> length (window p i n) = n"
  by (simp add: window_def)

lemma nth_window [byte_simps]: "i + n \<le> length p \<Longrightarrow> k < n \<Longrightarrow> window p i n ! k = p ! (i + k)"
  by (simp add: window_def)

lemma window_eq_iff:
  "i + n \<le> length p \<Longrightarrow> j + n \<le> length q \<Longrightarrow>
   window p i n = window q j n \<longleftrightarrow> (\<forall>k<n. p ! (i + k) = q ! (j + k))"
  by (simp add: list_eq_iff_nth_eq byte_simps)

lemma window_all [simp]: "window p 0 (length p) = p"
  by (simp add: window_def)

lemma length_patch [byte_simps]: "i + length q \<le> length p \<Longrightarrow> length (patch p i q) = length p"
  by (simp add: patch_def)

lemma nth_patch [byte_simps]:
  "i + length q \<le> length p \<Longrightarrow> k < length p \<Longrightarrow>
   patch p i q ! k = (if i \<le> k \<and> k < i + length q then q ! (k - i) else p ! k)"
  by (auto simp: patch_def nth_append)

lemma patch_Nil [simp]: "patch p i [] = p"
  by (simp add: patch_def)

lemma window_patch_same [byte_simps]:
  "i + length q \<le> length p \<Longrightarrow> n = length q \<Longrightarrow> window (patch p i q) i n = q"
  by (simp add: patch_def window_def)

lemma window_patch_before [byte_simps]:
  "j + n \<le> i \<Longrightarrow> i \<le> length p \<Longrightarrow> window (patch p i q) j n = window p j n"
proof -
  assume "j + n \<le> i" and "i \<le> length p"
  then have "take n (drop j (take i p)) = take n (drop j p)"
    by (simp add: drop_take min_def)
  then show ?thesis
    using \<open>j + n \<le> i\<close> \<open>i \<le> length p\<close> by (simp add: window_def patch_def)
qed

lemma window_patch_after [byte_simps]:
  "i + length q \<le> j \<Longrightarrow> i + length q \<le> length p \<Longrightarrow> window (patch p i q) j n = window p j n"
  by (simp add: window_def patch_def)

lemma zeroes_replicate [simp]: "zeroes (replicate n 0)"
  by (simp add: zeroes_def list_all_iff)

lemma zeroes_iff_replicate: "zeroes p \<longleftrightarrow> p = replicate (length p) 0"
  by (induction p) (auto simp: zeroes_def)

lemma zeroes_nth: "zeroes p \<longleftrightarrow> (\<forall>i<length p. p ! i = 0)"
  by (simp add: zeroes_def list_all_length)

subsection \<open>Little-endian integers\<close>

text \<open>
  A 16-bit field is read as the number the C expression \<open>p[0] | p[1] << 8\<close> denotes; 32- and
  64-bit fields keep their width.
\<close>

definition le16 :: "bytes \<Rightarrow> nat \<Rightarrow> nat" where
  "le16 p i = unat (p ! i) + 256 * unat (p ! (i + 1))"

definition put16 :: "nat \<Rightarrow> bytes" where
  "put16 v = [of_nat v, of_nat (v div 256)]"

definition get32 :: "bytes \<Rightarrow> nat \<Rightarrow> u32" where
  "get32 p i = ucast (p ! i) OR push_bit 8 (ucast (p ! (i + 1)))
     OR push_bit 16 (ucast (p ! (i + 2))) OR push_bit 24 (ucast (p ! (i + 3)))"

definition get64 :: "bytes \<Rightarrow> nat \<Rightarrow> u64" where
  "get64 p i = ucast (get32 p i) OR push_bit 32 (ucast (get32 p (i + 4)))"

definition put32 :: "u32 \<Rightarrow> bytes" where
  "put32 v = map (\<lambda>i. ucast (drop_bit (8 * i) v)) [0..<4]"

definition put64 :: "u64 \<Rightarrow> bytes" where
  "put64 v = put32 (ucast v) @ put32 (ucast (drop_bit 32 v))"

lemma length_put16 [simp]: "length (put16 v) = 2"
  by (simp add: put16_def)

lemma length_put32 [simp]: "length (put32 v) = 4"
  by (simp add: put32_def)

lemma length_put64 [simp]: "length (put64 v) = 8"
  by (simp add: put64_def)

lemma le16_bound: "le16 p i < 65536"
proof -
  have "unat (p ! i) < 256" "unat (p ! (i + 1)) < 256"
    using unsigned_less [of "p ! i"] unsigned_less [of "p ! (i + 1)"] by simp_all
  then show ?thesis by (simp add: le16_def)
qed

lemma le16_put16 [wire_simps]: "v < 65536 \<Longrightarrow> le16 (put16 v) 0 = v"
  by (simp add: le16_def put16_def unat_of_nat)

lemma le16_cong:
  "p ! i = q ! j \<Longrightarrow> p ! (i + 1) = q ! (j + 1) \<Longrightarrow> le16 p i = le16 q j"
  by (simp add: le16_def)

lemma le16_patch_put16 [byte_simps]:
  assumes "i + 2 \<le> length p" and "v < 65536"
  shows "le16 (patch p i (put16 v)) i = v"
proof -
  have "le16 (patch p i (put16 v)) i = le16 (put16 v) 0"
    using assms(1) by (intro le16_cong) (simp_all add: nth_patch)
  then show ?thesis using assms(2) by (simp add: le16_put16)
qed

lemma le16_patch_other [byte_simps]:
  assumes "i + length q \<le> length p" and "j + 2 \<le> length p" and "j + 2 \<le> i \<or> i + length q \<le> j"
  shows "le16 (patch p i q) j = le16 p j"
  using assms by (intro le16_cong) (auto simp: nth_patch)

lemma le16_window [byte_simps]:
  "i + n \<le> length p \<Longrightarrow> k + 2 \<le> n \<Longrightarrow> le16 (window p i n) k = le16 p (i + k)"
  by (intro le16_cong) (simp_all add: byte_simps)

lemma nth_put32 [simp]: "i < 4 \<Longrightarrow> put32 v ! i = ucast (drop_bit (8 * i) v)"
  by (simp add: put32_def)

lemma get32_put32_at [wire_simps]:
  assumes "window p i 4 = put32 v" and "i + 4 \<le> length p"
  shows "get32 p i = v"
proof -
  have nth: "p ! (i + k) = ucast (drop_bit (8 * k) v)" if "k < 4" for k
    using that assms nth_window [of i 4 p k] by simp
  have "p ! i = ucast v" "p ! (i + 1) = ucast (drop_bit 8 v)"
    "p ! (i + 2) = ucast (drop_bit 16 v)" "p ! (i + 3) = ucast (drop_bit 24 v)"
    using nth [of 0] nth [of 1] nth [of 2] nth [of 3] by simp_all
  note bytes = this
  show ?thesis
  proof (rule bit_word_eqI)
    fix n assume "n < LENGTH(32)"
    then consider "n < 8" | "8 \<le> n" "n < 16" | "16 \<le> n" "n < 24" | "24 \<le> n" "n < 32"
      by fastforce
    then show "bit (get32 p i) n = bit v n"
      by cases (auto simp add: get32_def bytes [simplified] bit_or_iff bit_push_bit_iff bit_unsigned_iff
          bit_drop_bit_eq)
  qed
qed

lemma get64_put64_at [wire_simps]:
  assumes "window p i 8 = put64 v" and "i + 8 \<le> length p"
  shows "get64 p i = v"
proof -
  have at: "window p i 8 ! k = p ! (i + k)" if "k < 8" for k
    using that assms(2) by (simp add: nth_window)
  have lo: "window p i 4 = put32 (ucast v)"
  proof (rule nth_equalityI)
    fix k assume "k < length (window p i 4)"
    then show "window p i 4 ! k = put32 (ucast v) ! k"
      using assms at [of k] by (simp add: byte_simps put64_def nth_append)
  qed (use assms in \<open>simp add: byte_simps\<close>)
  have hi: "window p (i + 4) 4 = put32 (ucast (drop_bit 32 v))"
  proof (rule nth_equalityI)
    fix k assume "k < length (window p (i + 4) 4)"
    then show "window p (i + 4) 4 ! k = put32 (ucast (drop_bit 32 v)) ! k"
      using assms at [of "k + 4"] by (simp add: byte_simps put64_def nth_append ac_simps)
  qed (use assms in \<open>simp add: byte_simps\<close>)
  have "get32 p i = ucast v" "get32 p (i + 4) = ucast (drop_bit 32 v)"
    using get32_put32_at [OF lo] get32_put32_at [OF hi] assms(2) by simp_all
  note halves = this
  show ?thesis
  proof (rule bit_word_eqI)
    fix n assume "n < LENGTH(64)"
    then consider "n < 32" | "32 \<le> n" "n < 64"
      by fastforce
    then show "bit (get64 p i) n = bit v n"
      by cases (auto simp add: get64_def halves bit_or_iff bit_push_bit_iff bit_unsigned_iff
          bit_drop_bit_eq)
  qed
qed

text \<open>Writing back what was read.\<close>

lemma bit_u8_high [simp]: "\<not> bit (b :: u8) (8 + n)" "\<not> bit (b :: u8) (16 + n)" "\<not> bit (b :: u8) (24 + n)"
  and bit_u32_high [simp]: "\<not> bit (w :: u32) (32 + n)"
  by (auto dest: bit_imp_le_length)

lemma get32_byte:
  assumes "k < 4"
  shows "ucast (drop_bit (8 * k) (get32 p i)) = p ! (i + k)"
proof -
  consider "k = 0" | "k = 1" | "k = 2" | "k = 3" using assms by fastforce
  then show ?thesis
    by cases (auto intro!: bit_word_eqI simp: get32_def bit_unsigned_iff bit_drop_bit_eq bit_or_iff bit_push_bit_iff)
qed

lemma put32_get32: "i + 4 \<le> length p \<Longrightarrow> put32 (get32 p i) = window p i 4"
  by (rule nth_equalityI) (auto simp: nth_window length_window get32_byte)

lemma window_join: "window p i a @ window p (i + a) b = window p i (a + b)"
  unfolding window_def by (simp add: take_add add.commute)

lemma put64_get64: "i + 8 \<le> length p \<Longrightarrow> put64 (get64 p i) = window p i 8"
proof -
  assume l: "i + 8 \<le> length p"
  have "ucast (get64 p i) = get32 p i" "ucast (drop_bit 32 (get64 p i)) = get32 p (i + 4)"
    unfolding get64_def by (auto intro!: bit_word_eqI simp: bit_unsigned_iff bit_drop_bit_eq bit_or_iff bit_push_bit_iff)
  then show ?thesis using l window_join [of p i 4 4] by (simp add: put64_def put32_get32)
qed

lemma window_joins: "i + a = j \<Longrightarrow> window p i a @ window p j b = window p i (a + b)"
  using window_join [of p i a b] by simp

lemma drop_window: "drop i p = window p i n @ drop (i + n) p"
  unfolding window_def using append_take_drop_id [of n "drop i p"] by (simp add: add.commute)

lemma drop_windows: "drop i p = concat (map (\<lambda>j. window p (i + j * c) c) [0..<n]) @ drop (i + n * c) p"
proof (induction n)
  case (Suc n)
  then show ?case using drop_window [of "i + n * c" p c] by (simp add: algebra_simps)
qed simp

text \<open>
  Saturating 32-bit counters: \<open>if(*n != UINT32_MAX) ++*n\<close>.
\<close>

definition increment :: "u32 \<Rightarrow> u32" where
  "increment n = (if n \<noteq> 0xffffffff then n + 1 else n)"

lemma unat_increment: "unat (increment n) = min (unat n + 1) (2 ^ 32 - 1)"
proof (cases "unat n = 2 ^ 32 - 1")
  case True
  then have "n = 0xffffffff" by (intro unsigned_word_eqI) simp
  then show ?thesis by (simp add: increment_def)
next
  case False
  then have "n \<noteq> 0xffffffff" by auto
  moreover have "unat n < 2 ^ 32" using unsigned_less [of n] by simp
  ultimately show ?thesis using False
    by (simp add: increment_def unat_word_ariths)
qed

end
