(* ===== verification/Kui_Checksums.thy ===== *)
theory Kui_Checksums
  imports Kui_Bytes
begin

text \<open>
  The program's checksums.  CRC32 exists four times in the sources: with a sixteen-entry table
  for the shell (\<open>kui_crc32\<close>, data.c) and for the low resident (\<open>kui_retail_crc32\<close>,
  retail_image.c), with a 256-entry table for the preparation stage (\<open>kui_stage_crc32\<close>) and with
  four tables for the capture engine (\<open>kui_crc32_capture\<close>, hash.c).  The CD error detection code
  (\<open>kui_cd_edc\<close>) is the same construction over another polynomial, and the sector checker of the
  recovery scan builds the same table again.  CRC16 exists four times in crc16.c.  Finally
  recovery_crc.c updates the CRC32 of a whole track when one sector of it is replaced.

  The reference for each is the polynomial register shifted one bit at a time; the locale
  \<open>reflected_register\<close> states what a table-driven loop needs of its tables and proves the loops
  equal to the bit-serial register once, for every polynomial.
\<close>

unbundle bit_operations_syntax

subsection \<open>Models of the routines\<close>

text \<open>One step of a reflected 32-bit register: \<open>v = (v >> 1) ^ ((v & 1) ? poly : 0)\<close>.\<close>

definition crc_bit :: "u32 \<Rightarrow> u32 \<Rightarrow> u32" where
  "crc_bit poly v = drop_bit 1 v XOR (if v AND 1 \<noteq> 0 then poly else 0)"

text \<open>data.c: the nibble table and the loop of \<open>kui_crc32\<close>.\<close>

definition crc32_nibble :: "u32 list" where
  "crc32_nibble =
    [0, 0x1db71064, 0x3b6e20c8, 0x26d930ac, 0x76dc4190, 0x6b6b51f4, 0x4db26158, 0x5005713c,
     0xedb88320, 0xf00f9344, 0xd6d6a3e8, 0xcb61b38c, 0x9b64c2b0, 0x86d3d2d4, 0xa00ae278, 0xbdbdf21c]"

definition nibble_step :: "u32 list \<Rightarrow> u32 \<Rightarrow> u32" where
  "nibble_step table crc = drop_bit 4 crc XOR table ! unat (crc AND 15)"

fun nibble_loop :: "u32 list \<Rightarrow> u32 \<Rightarrow> bytes \<Rightarrow> u32" where
  "nibble_loop table crc [] = crc"
| "nibble_loop table crc (b # bs) =
     nibble_loop table (nibble_step table (nibble_step table (crc XOR ucast b))) bs"

definition kui_crc32 :: "u32 \<Rightarrow> bytes \<Rightarrow> u32" where
  "kui_crc32 previous data = NOT (nibble_loop crc32_nibble (NOT previous) data)"

text \<open>retail_image.c: the same loop, with the complement written as \<open>^ UINT32_MAX\<close>.\<close>

definition kui_retail_crc32 :: "u32 \<Rightarrow> bytes \<Rightarrow> u32" where
  "kui_retail_crc32 previous data =
     nibble_loop crc32_nibble (previous XOR 0xffffffff) data XOR 0xffffffff"

text \<open>stage_fast_crc32.h: one lookup per byte, four bytes per round.\<close>

definition stage_table :: "u32 list" where
  "stage_table =
    [0x00000000, 0x77073096, 0xee0e612c, 0x990951ba, 0x076dc419, 0x706af48f,
     0xe963a535, 0x9e6495a3, 0x0edb8832, 0x79dcb8a4, 0xe0d5e91e, 0x97d2d988,
     0x09b64c2b, 0x7eb17cbd, 0xe7b82d07, 0x90bf1d91, 0x1db71064, 0x6ab020f2,
     0xf3b97148, 0x84be41de, 0x1adad47d, 0x6ddde4eb, 0xf4d4b551, 0x83d385c7,
     0x136c9856, 0x646ba8c0, 0xfd62f97a, 0x8a65c9ec, 0x14015c4f, 0x63066cd9,
     0xfa0f3d63, 0x8d080df5, 0x3b6e20c8, 0x4c69105e, 0xd56041e4, 0xa2677172,
     0x3c03e4d1, 0x4b04d447, 0xd20d85fd, 0xa50ab56b, 0x35b5a8fa, 0x42b2986c,
     0xdbbbc9d6, 0xacbcf940, 0x32d86ce3, 0x45df5c75, 0xdcd60dcf, 0xabd13d59,
     0x26d930ac, 0x51de003a, 0xc8d75180, 0xbfd06116, 0x21b4f4b5, 0x56b3c423,
     0xcfba9599, 0xb8bda50f, 0x2802b89e, 0x5f058808, 0xc60cd9b2, 0xb10be924,
     0x2f6f7c87, 0x58684c11, 0xc1611dab, 0xb6662d3d, 0x76dc4190, 0x01db7106,
     0x98d220bc, 0xefd5102a, 0x71b18589, 0x06b6b51f, 0x9fbfe4a5, 0xe8b8d433,
     0x7807c9a2, 0x0f00f934, 0x9609a88e, 0xe10e9818, 0x7f6a0dbb, 0x086d3d2d,
     0x91646c97, 0xe6635c01, 0x6b6b51f4, 0x1c6c6162, 0x856530d8, 0xf262004e,
     0x6c0695ed, 0x1b01a57b, 0x8208f4c1, 0xf50fc457, 0x65b0d9c6, 0x12b7e950,
     0x8bbeb8ea, 0xfcb9887c, 0x62dd1ddf, 0x15da2d49, 0x8cd37cf3, 0xfbd44c65,
     0x4db26158, 0x3ab551ce, 0xa3bc0074, 0xd4bb30e2, 0x4adfa541, 0x3dd895d7,
     0xa4d1c46d, 0xd3d6f4fb, 0x4369e96a, 0x346ed9fc, 0xad678846, 0xda60b8d0,
     0x44042d73, 0x33031de5, 0xaa0a4c5f, 0xdd0d7cc9, 0x5005713c, 0x270241aa,
     0xbe0b1010, 0xc90c2086, 0x5768b525, 0x206f85b3, 0xb966d409, 0xce61e49f,
     0x5edef90e, 0x29d9c998, 0xb0d09822, 0xc7d7a8b4, 0x59b33d17, 0x2eb40d81,
     0xb7bd5c3b, 0xc0ba6cad, 0xedb88320, 0x9abfb3b6, 0x03b6e20c, 0x74b1d29a,
     0xead54739, 0x9dd277af, 0x04db2615, 0x73dc1683, 0xe3630b12, 0x94643b84,
     0x0d6d6a3e, 0x7a6a5aa8, 0xe40ecf0b, 0x9309ff9d, 0x0a00ae27, 0x7d079eb1,
     0xf00f9344, 0x8708a3d2, 0x1e01f268, 0x6906c2fe, 0xf762575d, 0x806567cb,
     0x196c3671, 0x6e6b06e7, 0xfed41b76, 0x89d32be0, 0x10da7a5a, 0x67dd4acc,
     0xf9b9df6f, 0x8ebeeff9, 0x17b7be43, 0x60b08ed5, 0xd6d6a3e8, 0xa1d1937e,
     0x38d8c2c4, 0x4fdff252, 0xd1bb67f1, 0xa6bc5767, 0x3fb506dd, 0x48b2364b,
     0xd80d2bda, 0xaf0a1b4c, 0x36034af6, 0x41047a60, 0xdf60efc3, 0xa867df55,
     0x316e8eef, 0x4669be79, 0xcb61b38c, 0xbc66831a, 0x256fd2a0, 0x5268e236,
     0xcc0c7795, 0xbb0b4703, 0x220216b9, 0x5505262f, 0xc5ba3bbe, 0xb2bd0b28,
     0x2bb45a92, 0x5cb36a04, 0xc2d7ffa7, 0xb5d0cf31, 0x2cd99e8b, 0x5bdeae1d,
     0x9b64c2b0, 0xec63f226, 0x756aa39c, 0x026d930a, 0x9c0906a9, 0xeb0e363f,
     0x72076785, 0x05005713, 0x95bf4a82, 0xe2b87a14, 0x7bb12bae, 0x0cb61b38,
     0x92d28e9b, 0xe5d5be0d, 0x7cdcefb7, 0x0bdbdf21, 0x86d3d2d4, 0xf1d4e242,
     0x68ddb3f8, 0x1fda836e, 0x81be16cd, 0xf6b9265b, 0x6fb077e1, 0x18b74777,
     0x88085ae6, 0xff0f6a70, 0x66063bca, 0x11010b5c, 0x8f659eff, 0xf862ae69,
     0x616bffd3, 0x166ccf45, 0xa00ae278, 0xd70dd2ee, 0x4e048354, 0x3903b3c2,
     0xa7672661, 0xd06016f7, 0x4969474d, 0x3e6e77db, 0xaed16a4a, 0xd9d65adc,
     0x40df0b66, 0x37d83bf0, 0xa9bcae53, 0xdebb9ec5, 0x47b2cf7f, 0x30b5ffe9,
     0xbdbdf21c, 0xcabac28a, 0x53b39330, 0x24b4a3a6, 0xbad03605, 0xcdd70693,
     0x54de5729, 0x23d967bf, 0xb3667a2e, 0xc4614ab8, 0x5d681b02, 0x2a6f2b94,
     0xb40bbe37, 0xc30c8ea1, 0x5a05df1b, 0x2d02ef8d]"

definition table_step :: "u32 list \<Rightarrow> u32 \<Rightarrow> u8 \<Rightarrow> u32" where
  "table_step table crc b = drop_bit 8 crc XOR table ! unat ((crc XOR ucast b) AND 255)"

fun stage_loop :: "u32 list \<Rightarrow> u32 \<Rightarrow> bytes \<Rightarrow> u32" where
  "stage_loop table crc (a # b # c # d # rest) =
     stage_loop table
       (table_step table (table_step table (table_step table (table_step table crc a) b) c) d) rest"
| "stage_loop table crc (b # rest) = stage_loop table (table_step table crc b) rest"
| "stage_loop table crc [] = crc"

definition kui_stage_crc32 :: "u32 \<Rightarrow> bytes \<Rightarrow> u32" where
  "kui_stage_crc32 previous data =
     stage_loop stage_table (previous XOR 0xffffffff) data XOR 0xffffffff"

text \<open>
  hash.c: \<open>kui_crc32_capture\<close> fills four tables on its first call, then folds four bytes at once.
  The conditional polynomial is the branch-free \<open>poly & (0u - (value & 1u))\<close>.
\<close>

definition crc_bit_mask :: "u32 \<Rightarrow> u32 \<Rightarrow> u32" where
  "crc_bit_mask poly v = drop_bit 1 v XOR (poly AND (0 - (v AND 1)))"

definition byte_table :: "u32 \<Rightarrow> u32 list" where
  "byte_table poly = map (\<lambda>i. (crc_bit_mask poly ^^ 8) (of_nat i)) [0..<256]"

definition next_table :: "u32 list \<Rightarrow> u32 list \<Rightarrow> u32 list" where
  "next_table table0 previous =
     map (\<lambda>i. let v = previous ! i in drop_bit 8 v XOR table0 ! unat (v AND 255)) [0..<256]"

definition capture_tables :: "u32 list list" where
  "capture_tables =
     (let t0 = byte_table 0xedb88320; t1 = next_table t0 t0; t2 = next_table t0 t1;
          t3 = next_table t0 t2 in [t0, t1, t2, t3])"

fun capture_loop :: "u32 list list \<Rightarrow> u32 \<Rightarrow> bytes \<Rightarrow> u32" where
  "capture_loop t crc (a # b # c # d # rest) =
     (let x = crc XOR (ucast a OR push_bit 8 (ucast b) OR push_bit 16 (ucast c) OR push_bit 24 (ucast d))
      in capture_loop t
           (t ! 3 ! unat (x AND 255) XOR t ! 2 ! unat (drop_bit 8 x AND 255)
            XOR t ! 1 ! unat (drop_bit 16 x AND 255) XOR t ! 0 ! unat (drop_bit 24 x)) rest)"
| "capture_loop t crc (b # rest) = capture_loop t (table_step (t ! 0) crc b) rest"
| "capture_loop t crc [] = crc"

definition kui_crc32_capture :: "u32 \<Rightarrow> bytes \<Rightarrow> u32" where
  "kui_crc32_capture previous data = NOT (capture_loop capture_tables (NOT previous) data)"

text \<open>hash.c: the CD error detection code, zero initialised and not complemented.\<close>

fun table_loop :: "u32 list \<Rightarrow> u32 \<Rightarrow> bytes \<Rightarrow> u32" where
  "table_loop table crc [] = crc"
| "table_loop table crc (b # bs) = table_loop table (table_step table crc b) bs"

definition kui_cd_edc :: "bytes \<Rightarrow> u32" where
  "kui_cd_edc data = table_loop (byte_table 0xd8018001) 0 data"

text \<open>
  recovery_crc.c: the zero-byte operator as a matrix of 32 columns, its powers by squaring, and
  the update of a whole checksum when a part followed by \<open>suffix_bytes\<close> bytes is replaced.
\<close>

function matrix_times_from :: "u32 list \<Rightarrow> nat \<Rightarrow> u32 \<Rightarrow> u32 \<Rightarrow> u32" where
  "matrix_times_from matrix k v result =
     (if v = 0 then result
      else matrix_times_from matrix (k + 1) (drop_bit 1 v)
             (if v AND 1 \<noteq> 0 then result XOR matrix ! k else result))"
  by pat_completeness auto
termination
proof (relation "measure (\<lambda>(matrix, k, v, result). unat v)", goal_cases)
  case (2 matrix k v result)
  then have "unat v \<noteq> 0" by (simp add: unsigned_eq_0_iff)
  then show ?case by (simp add: drop_bit_eq_div unat_div)
qed simp

definition matrix_times :: "u32 list \<Rightarrow> u32 \<Rightarrow> u32" where
  "matrix_times matrix value = matrix_times_from matrix 0 value 0"

definition zero_byte_matrix :: "u32 list" where
  "zero_byte_matrix = map (\<lambda>i. (crc_bit 0xedb88320 ^^ 8) (push_bit i 1)) [0..<32]"

definition matrix_square :: "u32 list \<Rightarrow> u32 list" where
  "matrix_square m = map (\<lambda>i. matrix_times m (m ! i)) [0..<32]"

definition recovery_powers :: "nat \<Rightarrow> u32 list" where
  "recovery_powers p = (matrix_square ^^ p) zero_byte_matrix"

text \<open>The loop over the bits of the 64-bit suffix length.\<close>

function recovery_loop :: "nat \<Rightarrow> nat \<Rightarrow> u32 \<Rightarrow> u32" where
  "recovery_loop p suffix delta =
     (if suffix = 0 then delta
      else recovery_loop (p + 1) (suffix div 2)
             (if odd suffix then matrix_times (recovery_powers p) delta else delta))"
  by pat_completeness auto
termination
  by (relation "measure (\<lambda>(p, suffix, delta). suffix)") auto

definition kui_recovery_crc_replace :: "u32 \<Rightarrow> u32 \<Rightarrow> u32 \<Rightarrow> u64 \<Rightarrow> u32" where
  "kui_recovery_crc_replace whole before after suffix_bytes =
     whole XOR recovery_loop 0 (unat suffix_bytes) (before XOR after)"

text \<open>crc16.c: the four CCITT routines and their tables.\<close>

definition crc16_T0 :: "u16 list" where
  "crc16_T0 =
    [0x0000, 0x1021, 0x2042, 0x3063, 0x4084, 0x50a5, 0x60c6, 0x70e7, 0x8108, 0x9129, 0xa14a, 0xb16b,
     0xc18c, 0xd1ad, 0xe1ce, 0xf1ef, 0x1231, 0x0210, 0x3273, 0x2252, 0x52b5, 0x4294, 0x72f7, 0x62d6,
     0x9339, 0x8318, 0xb37b, 0xa35a, 0xd3bd, 0xc39c, 0xf3ff, 0xe3de, 0x2462, 0x3443, 0x0420, 0x1401,
     0x64e6, 0x74c7, 0x44a4, 0x5485, 0xa56a, 0xb54b, 0x8528, 0x9509, 0xe5ee, 0xf5cf, 0xc5ac, 0xd58d,
     0x3653, 0x2672, 0x1611, 0x0630, 0x76d7, 0x66f6, 0x5695, 0x46b4, 0xb75b, 0xa77a, 0x9719, 0x8738,
     0xf7df, 0xe7fe, 0xd79d, 0xc7bc, 0x48c4, 0x58e5, 0x6886, 0x78a7, 0x0840, 0x1861, 0x2802, 0x3823,
     0xc9cc, 0xd9ed, 0xe98e, 0xf9af, 0x8948, 0x9969, 0xa90a, 0xb92b, 0x5af5, 0x4ad4, 0x7ab7, 0x6a96,
     0x1a71, 0x0a50, 0x3a33, 0x2a12, 0xdbfd, 0xcbdc, 0xfbbf, 0xeb9e, 0x9b79, 0x8b58, 0xbb3b, 0xab1a,
     0x6ca6, 0x7c87, 0x4ce4, 0x5cc5, 0x2c22, 0x3c03, 0x0c60, 0x1c41, 0xedae, 0xfd8f, 0xcdec, 0xddcd,
     0xad2a, 0xbd0b, 0x8d68, 0x9d49, 0x7e97, 0x6eb6, 0x5ed5, 0x4ef4, 0x3e13, 0x2e32, 0x1e51, 0x0e70,
     0xff9f, 0xefbe, 0xdfdd, 0xcffc, 0xbf1b, 0xaf3a, 0x9f59, 0x8f78, 0x9188, 0x81a9, 0xb1ca, 0xa1eb,
     0xd10c, 0xc12d, 0xf14e, 0xe16f, 0x1080, 0x00a1, 0x30c2, 0x20e3, 0x5004, 0x4025, 0x7046, 0x6067,
     0x83b9, 0x9398, 0xa3fb, 0xb3da, 0xc33d, 0xd31c, 0xe37f, 0xf35e, 0x02b1, 0x1290, 0x22f3, 0x32d2,
     0x4235, 0x5214, 0x6277, 0x7256, 0xb5ea, 0xa5cb, 0x95a8, 0x8589, 0xf56e, 0xe54f, 0xd52c, 0xc50d,
     0x34e2, 0x24c3, 0x14a0, 0x0481, 0x7466, 0x6447, 0x5424, 0x4405, 0xa7db, 0xb7fa, 0x8799, 0x97b8,
     0xe75f, 0xf77e, 0xc71d, 0xd73c, 0x26d3, 0x36f2, 0x0691, 0x16b0, 0x6657, 0x7676, 0x4615, 0x5634,
     0xd94c, 0xc96d, 0xf90e, 0xe92f, 0x99c8, 0x89e9, 0xb98a, 0xa9ab, 0x5844, 0x4865, 0x7806, 0x6827,
     0x18c0, 0x08e1, 0x3882, 0x28a3, 0xcb7d, 0xdb5c, 0xeb3f, 0xfb1e, 0x8bf9, 0x9bd8, 0xabbb, 0xbb9a,
     0x4a75, 0x5a54, 0x6a37, 0x7a16, 0x0af1, 0x1ad0, 0x2ab3, 0x3a92, 0xfd2e, 0xed0f, 0xdd6c, 0xcd4d,
     0xbdaa, 0xad8b, 0x9de8, 0x8dc9, 0x7c26, 0x6c07, 0x5c64, 0x4c45, 0x3ca2, 0x2c83, 0x1ce0, 0x0cc1,
     0xef1f, 0xff3e, 0xcf5d, 0xdf7c, 0xaf9b, 0xbfba, 0x8fd9, 0x9ff8, 0x6e17, 0x7e36, 0x4e55, 0x5e74,
     0x2e93, 0x3eb2, 0x0ed1, 0x1ef0]"

definition crc16_T2A :: "u16 list" where
  "crc16_T2A =
    [0x0000, 0x3331, 0x6662, 0x5553, 0xccc4, 0xfff5, 0xaaa6, 0x9997, 0x89a9, 0xba98, 0xefcb, 0xdcfa,
     0x456d, 0x765c, 0x230f, 0x103e, 0x0373, 0x3042, 0x6511, 0x5620, 0xcfb7, 0xfc86, 0xa9d5, 0x9ae4,
     0x8ada, 0xb9eb, 0xecb8, 0xdf89, 0x461e, 0x752f, 0x207c, 0x134d, 0x06e6, 0x35d7, 0x6084, 0x53b5,
     0xca22, 0xf913, 0xac40, 0x9f71, 0x8f4f, 0xbc7e, 0xe92d, 0xda1c, 0x438b, 0x70ba, 0x25e9, 0x16d8,
     0x0595, 0x36a4, 0x63f7, 0x50c6, 0xc951, 0xfa60, 0xaf33, 0x9c02, 0x8c3c, 0xbf0d, 0xea5e, 0xd96f,
     0x40f8, 0x73c9, 0x269a, 0x15ab, 0x0dcc, 0x3efd, 0x6bae, 0x589f, 0xc108, 0xf239, 0xa76a, 0x945b,
     0x8465, 0xb754, 0xe207, 0xd136, 0x48a1, 0x7b90, 0x2ec3, 0x1df2, 0x0ebf, 0x3d8e, 0x68dd, 0x5bec,
     0xc27b, 0xf14a, 0xa419, 0x9728, 0x8716, 0xb427, 0xe174, 0xd245, 0x4bd2, 0x78e3, 0x2db0, 0x1e81,
     0x0b2a, 0x381b, 0x6d48, 0x5e79, 0xc7ee, 0xf4df, 0xa18c, 0x92bd, 0x8283, 0xb1b2, 0xe4e1, 0xd7d0,
     0x4e47, 0x7d76, 0x2825, 0x1b14, 0x0859, 0x3b68, 0x6e3b, 0x5d0a, 0xc49d, 0xf7ac, 0xa2ff, 0x91ce,
     0x81f0, 0xb2c1, 0xe792, 0xd4a3, 0x4d34, 0x7e05, 0x2b56, 0x1867, 0x1b98, 0x28a9, 0x7dfa, 0x4ecb,
     0xd75c, 0xe46d, 0xb13e, 0x820f, 0x9231, 0xa100, 0xf453, 0xc762, 0x5ef5, 0x6dc4, 0x3897, 0x0ba6,
     0x18eb, 0x2bda, 0x7e89, 0x4db8, 0xd42f, 0xe71e, 0xb24d, 0x817c, 0x9142, 0xa273, 0xf720, 0xc411,
     0x5d86, 0x6eb7, 0x3be4, 0x08d5, 0x1d7e, 0x2e4f, 0x7b1c, 0x482d, 0xd1ba, 0xe28b, 0xb7d8, 0x84e9,
     0x94d7, 0xa7e6, 0xf2b5, 0xc184, 0x5813, 0x6b22, 0x3e71, 0x0d40, 0x1e0d, 0x2d3c, 0x786f, 0x4b5e,
     0xd2c9, 0xe1f8, 0xb4ab, 0x879a, 0x97a4, 0xa495, 0xf1c6, 0xc2f7, 0x5b60, 0x6851, 0x3d02, 0x0e33,
     0x1654, 0x2565, 0x7036, 0x4307, 0xda90, 0xe9a1, 0xbcf2, 0x8fc3, 0x9ffd, 0xaccc, 0xf99f, 0xcaae,
     0x5339, 0x6008, 0x355b, 0x066a, 0x1527, 0x2616, 0x7345, 0x4074, 0xd9e3, 0xead2, 0xbf81, 0x8cb0,
     0x9c8e, 0xafbf, 0xfaec, 0xc9dd, 0x504a, 0x637b, 0x3628, 0x0519, 0x10b2, 0x2383, 0x76d0, 0x45e1,
     0xdc76, 0xef47, 0xba14, 0x8925, 0x991b, 0xaa2a, 0xff79, 0xcc48, 0x55df, 0x66ee, 0x33bd, 0x008c,
     0x13c1, 0x20f0, 0x75a3, 0x4692, 0xdf05, 0xec34, 0xb967, 0x8a56, 0x9a68, 0xa959, 0xfc0a, 0xcf3b,
     0x56ac, 0x659d, 0x30ce, 0x03ff]"

definition crc16_T2B :: "u16 list" where
  "crc16_T2B =
    [0x0000, 0x1021, 0x2042, 0x3063, 0x4084, 0x50a5, 0x60c6, 0x70e7, 0x8108, 0x9129, 0xa14a, 0xb16b,
     0xc18c, 0xd1ad, 0xe1ce, 0xf1ef, 0x1231, 0x0210, 0x3273, 0x2252, 0x52b5, 0x4294, 0x72f7, 0x62d6,
     0x9339, 0x8318, 0xb37b, 0xa35a, 0xd3bd, 0xc39c, 0xf3ff, 0xe3de, 0x2462, 0x3443, 0x0420, 0x1401,
     0x64e6, 0x74c7, 0x44a4, 0x5485, 0xa56a, 0xb54b, 0x8528, 0x9509, 0xe5ee, 0xf5cf, 0xc5ac, 0xd58d,
     0x3653, 0x2672, 0x1611, 0x0630, 0x76d7, 0x66f6, 0x5695, 0x46b4, 0xb75b, 0xa77a, 0x9719, 0x8738,
     0xf7df, 0xe7fe, 0xd79d, 0xc7bc, 0x48c4, 0x58e5, 0x6886, 0x78a7, 0x0840, 0x1861, 0x2802, 0x3823,
     0xc9cc, 0xd9ed, 0xe98e, 0xf9af, 0x8948, 0x9969, 0xa90a, 0xb92b, 0x5af5, 0x4ad4, 0x7ab7, 0x6a96,
     0x1a71, 0x0a50, 0x3a33, 0x2a12, 0xdbfd, 0xcbdc, 0xfbbf, 0xeb9e, 0x9b79, 0x8b58, 0xbb3b, 0xab1a,
     0x6ca6, 0x7c87, 0x4ce4, 0x5cc5, 0x2c22, 0x3c03, 0x0c60, 0x1c41, 0xedae, 0xfd8f, 0xcdec, 0xddcd,
     0xad2a, 0xbd0b, 0x8d68, 0x9d49, 0x7e97, 0x6eb6, 0x5ed5, 0x4ef4, 0x3e13, 0x2e32, 0x1e51, 0x0e70,
     0xff9f, 0xefbe, 0xdfdd, 0xcffc, 0xbf1b, 0xaf3a, 0x9f59, 0x8f78, 0x9188, 0x81a9, 0xb1ca, 0xa1eb,
     0xd10c, 0xc12d, 0xf14e, 0xe16f, 0x1080, 0x00a1, 0x30c2, 0x20e3, 0x5004, 0x4025, 0x7046, 0x6067,
     0x83b9, 0x9398, 0xa3fb, 0xb3da, 0xc33d, 0xd31c, 0xe37f, 0xf35e, 0x02b1, 0x1290, 0x22f3, 0x32d2,
     0x4235, 0x5214, 0x6277, 0x7256, 0xb5ea, 0xa5cb, 0x95a8, 0x8589, 0xf56e, 0xe54f, 0xd52c, 0xc50d,
     0x34e2, 0x24c3, 0x14a0, 0x0481, 0x7466, 0x6447, 0x5424, 0x4405, 0xa7db, 0xb7fa, 0x8799, 0x97b8,
     0xe75f, 0xf77e, 0xc71d, 0xd73c, 0x26d3, 0x36f2, 0x0691, 0x16b0, 0x6657, 0x7676, 0x4615, 0x5634,
     0xd94c, 0xc96d, 0xf90e, 0xe92f, 0x99c8, 0x89e9, 0xb98a, 0xa9ab, 0x5844, 0x4865, 0x7806, 0x6827,
     0x18c0, 0x08e1, 0x3882, 0x28a3, 0xcb7d, 0xdb5c, 0xeb3f, 0xfb1e, 0x8bf9, 0x9bd8, 0xabbb, 0xbb9a,
     0x4a75, 0x5a54, 0x6a37, 0x7a16, 0x0af1, 0x1ad0, 0x2ab3, 0x3a92, 0xfd2e, 0xed0f, 0xdd6c, 0xcd4d,
     0xbdaa, 0xad8b, 0x9de8, 0x8dc9, 0x7c26, 0x6c07, 0x5c64, 0x4c45, 0x3ca2, 0x2c83, 0x1ce0, 0x0cc1,
     0xef1f, 0xff3e, 0xcf5d, 0xdf7c, 0xaf9b, 0xbfba, 0x8fd9, 0x9ff8, 0x6e17, 0x7e36, 0x4e55, 0x5e74,
     0x2e93, 0x3eb2, 0x0ed1, 0x1ef0]"

definition crc16_TN :: "u16 list" where
  "crc16_TN =
    [0x0000, 0x1021, 0x2042, 0x3063, 0x4084, 0x50a5, 0x60c6, 0x70e7,
     0x8108, 0x9129, 0xa14a, 0xb16b, 0xc18c, 0xd1ad, 0xe1ce, 0xf1ef]"

fun kui_crc16_ref :: "u16 \<Rightarrow> bytes \<Rightarrow> u16" where
  "kui_crc16_ref crc [] = crc"
| "kui_crc16_ref crc (b # bs) =
     (let t = drop_bit 8 crc XOR ucast b; tmp = t XOR drop_bit 4 t
      in kui_crc16_ref (push_bit 8 crc XOR push_bit 12 tmp XOR push_bit 5 tmp XOR tmp) bs)"

fun kui_crc16_table :: "u16 \<Rightarrow> bytes \<Rightarrow> u16" where
  "kui_crc16_table crc [] = crc"
| "kui_crc16_table crc (b # bs) =
     kui_crc16_table (push_bit 8 crc XOR crc16_T0 ! unat (drop_bit 8 crc XOR ucast b)) bs"

fun kui_crc16_slice2 :: "u16 \<Rightarrow> bytes \<Rightarrow> u16" where
  "kui_crc16_slice2 crc (a # b # rest) =
     (let x = crc XOR (push_bit 8 (ucast a) OR ucast b)
      in kui_crc16_slice2
           (crc16_T2A ! unat (drop_bit 8 x) XOR crc16_T2B ! unat (x AND 0xff)) rest)"
| "kui_crc16_slice2 crc [b] =
     push_bit 8 crc XOR crc16_T0 ! unat (drop_bit 8 crc XOR ucast b)"
| "kui_crc16_slice2 crc [] = crc"

fun kui_crc16_nibble :: "u16 \<Rightarrow> bytes \<Rightarrow> u16" where
  "kui_crc16_nibble crc [] = crc"
| "kui_crc16_nibble crc (b # bs) =
     (let c1 = push_bit 4 crc XOR
            crc16_TN ! unat ((drop_bit 12 crc XOR ucast (drop_bit 4 b)) AND 15);
          c2 = push_bit 4 c1 XOR
            crc16_TN ! unat ((drop_bit 12 c1 XOR ucast (b AND 15)) AND 15)
      in kui_crc16_nibble c2 bs)"

subsection \<open>Linear registers\<close>

text \<open>
  A register update is linear over XOR.  Everything a table-driven routine relies on follows from
  that and from one fact per polynomial: how the register moves bits that meet no feedback.
\<close>

lemma xor_pow2_nat: "i < 2 ^ n \<Longrightarrow> i XOR 2 ^ n = i + (2 ^ n :: nat)"
proof -
  assume "i < 2 ^ n"
  then have "\<not> bit i n"
    by (metis bit_take_bit_iff less_irrefl_nat take_bit_nat_eq_self_iff)
  then have "i AND 2 ^ n = 0"
    by (intro bit_eqI) (auto simp: bit_and_iff bit_exp_iff)
  then show ?thesis
    by (metis disjunctive_add_eq_xor)
qed

lemma of_nat_add_pow2:
  "i < 2 ^ n \<Longrightarrow> (of_nat (i + 2 ^ n) :: 'a::len word) = of_nat i XOR push_bit n 1"
  by (simp add: xor_pow2_nat [symmetric] of_nat_xor_eq push_bit_of_1)

text \<open>
  A table of a linear function is spanned by the entries at the powers of two: each power of two
  appends the table so far, shifted by its entry.
\<close>

definition span_table :: "'a::len word list \<Rightarrow> 'a word list" where
  "span_table = foldl (\<lambda>t b. t @ map (\<lambda>x. x XOR b) t) [0]"

locale linear_register =
  fixes step :: "'a::len word \<Rightarrow> 'a word"
  assumes step_xor: "step (a XOR b) = step a XOR step b"
begin

lemma steps_xor: "(step ^^ n) (a XOR b) = (step ^^ n) a XOR (step ^^ n) b"
  by (induction n) (simp_all add: step_xor)

lemma step_zero: "step 0 = 0"
  using step_xor [of 0 0] by simp

lemma steps_zero: "(step ^^ n) 0 = 0"
  by (induction n) (simp_all add: step_zero)

lemma steps_span:
  "span_table (map (\<lambda>k. (step ^^ m) (push_bit k 1)) [0..<n]) = map (\<lambda>i. (step ^^ m) (of_nat i)) [0..<2 ^ n]"
proof (induction n)
  case 0
  show ?case by (simp add: span_table_def steps_zero)
next
  case (Suc n)
  have up: "[0..<2 ^ Suc n] = [0..<2 ^ n] @ map (\<lambda>i. i + 2 ^ n) [0..<2 ^ n]"
    using map_add_upt [of "2 ^ n" "2 ^ n"] upt_add_eq_append [of 0 "2 ^ n" "2 ^ n"]
    by (simp add: mult_2)
  have "map (\<lambda>i. (step ^^ m) (of_nat i)) [0..<2 ^ Suc n]
      = map (\<lambda>i. (step ^^ m) (of_nat i)) [0..<2 ^ n]
        @ map (\<lambda>i. (step ^^ m) (of_nat (i + 2 ^ n))) [0..<2 ^ n]"
    by (simp only: up map_append map_map comp_def)
  also have "map (\<lambda>i. (step ^^ m) (of_nat (i + 2 ^ n))) [0..<2 ^ n]
      = map (\<lambda>x. x XOR (step ^^ m) (push_bit n 1)) (map (\<lambda>i. (step ^^ m) (of_nat i)) [0..<2 ^ n])"
    by (simp add: of_nat_add_pow2 steps_xor del: of_nat_add)
  finally show ?case
    using Suc.IH by (simp add: span_table_def)
qed

end

text \<open>The reflected register: a shift to the right, with feedback from bit 0.\<close>

lemma crc_bit_xor: "crc_bit p (a XOR b) = crc_bit p a XOR crc_bit p b"
proof -
  have odd: "(v AND 1 \<noteq> 0) = bit v 0" for v :: u32
    by (simp add: and_one_eq bit_0 odd_iff_mod_2_eq_one)
  show ?thesis
    unfolding crc_bit_def odd
    by (rule bit_word_eqI) (auto simp: bit_xor_iff bit_drop_bit_eq)
qed

interpretation serial: linear_register "crc_bit poly" for poly
  by unfold_locales (rule crc_bit_xor)

lemma crc_bit_even: "take_bit (Suc n) v = 0 \<Longrightarrow> crc_bit p v = drop_bit 1 v"
proof -
  assume "take_bit (Suc n) v = 0"
  then have "\<not> bit v 0" by (metis bit_0_eq bit_take_bit_iff bot_apply bot_bool_def zero_less_Suc)
  then show ?thesis by (simp add: crc_bit_def and_one_eq bit_0 odd_iff_mod_2_eq_one)
qed

lemma crc_bits_shift: "take_bit n v = 0 \<Longrightarrow> (crc_bit p ^^ n) v = drop_bit n v"
proof (induction n arbitrary: v)
  case (Suc n)
  have "take_bit n (drop_bit 1 v) = drop_bit 1 (take_bit (Suc n) v)"
    by (rule bit_word_eqI) (auto simp: bit_take_bit_iff bit_drop_bit_eq)
  then have "take_bit n (drop_bit 1 v) = 0" using Suc.prems by simp
  then show ?case
    using Suc.IH [of "drop_bit 1 v"] crc_bit_even [OF Suc.prems]
    by (simp add: funpow_Suc_right del: funpow.simps)
qed simp

lemma xor_take_bit: "take_bit n (v XOR take_bit n v) = (0 :: 'a::len word)"
  by simp

lemma crc_bits_split: "(crc_bit p ^^ n) v = drop_bit n v XOR (crc_bit p ^^ n) (take_bit n v)"
proof -
  have v: "v = (v XOR take_bit n v) XOR take_bit n v" by (simp add: xor.assoc)
  have "(crc_bit p ^^ n) (v XOR take_bit n v) = drop_bit n (v XOR take_bit n v)"
    by (rule crc_bits_shift) simp
  also have "drop_bit n (v XOR take_bit n v) = drop_bit n v"
    by (rule bit_word_eqI) (auto simp: bit_xor_iff bit_drop_bit_eq bit_take_bit_iff)
  finally show ?thesis
    by (subst v) (simp add: serial.steps_xor)
qed

lemma and_mask_word: "x AND 255 = take_bit 8 x" "x AND 15 = take_bit 4 x" for x :: "'a::len word"
  using take_bit_eq_mask [of 8 x] take_bit_eq_mask [of 4 x] by (simp_all add: mask_numeral)

lemma of_nat_unat_take_bit: "of_nat (unat (take_bit n x)) = take_bit n (x :: 'a::len word)"
  by simp

lemma unat_take_bit_less: "unat (take_bit n x) < 2 ^ n" for x :: "'a::len word"
  by (metis take_bit_nat_less_exp unsigned_take_bit_eq)

text \<open>The bit-serial reference: eight register steps per byte.\<close>

fun serial_loop :: "u32 \<Rightarrow> u32 \<Rightarrow> bytes \<Rightarrow> u32" where
  "serial_loop poly crc [] = crc"
| "serial_loop poly crc (b # bs) = serial_loop poly ((crc_bit poly ^^ 8) (crc XOR ucast b)) bs"

text \<open>
  What a byte table and a nibble table promise to the loops that use them.
\<close>

locale reflected_register =
  fixes poly :: u32 and table :: "u32 list"
  assumes table_eq: "table = map (\<lambda>i. (crc_bit poly ^^ 8) (of_nat i)) [0..<256]"
begin

lemma table_nth: "table ! unat (take_bit 8 x) = (crc_bit poly ^^ 8) (take_bit 8 (x :: u32))"
  using unat_take_bit_less [of 8 x] by (simp add: table_eq)

lemma table_step_serial: "table_step table crc b = (crc_bit poly ^^ 8) (crc XOR ucast b)"
proof -
  have "drop_bit 8 (crc XOR ucast b) = drop_bit 8 crc"
    by (rule bit_word_eqI) (auto simp: bit_xor_iff bit_drop_bit_eq bit_unsigned_iff
        dest: bit_imp_le_length)
  then show ?thesis
    using crc_bits_split [of 8 poly "crc XOR ucast b"] table_nth [of "crc XOR ucast b"]
    by (simp add: table_step_def and_mask_word)
qed

lemma stage_loop_any: "t = table \<Longrightarrow> stage_loop t crc bs = serial_loop poly crc bs"
  by (induction t crc bs rule: stage_loop.induct) (simp_all add: table_step_serial)

lemmas stage_loop_serial = stage_loop_any [OF refl]

lemma table_loop_serial: "table_loop table crc bs = serial_loop poly crc bs"
  by (induction bs arbitrary: crc) (simp_all add: table_step_serial)

lemma next_table_step:
  assumes "prev = map (\<lambda>i. (crc_bit poly ^^ n) (of_nat i)) [0..<256]"
  shows "next_table table prev = map (\<lambda>i. (crc_bit poly ^^ (8 + n)) (of_nat i)) [0..<256]"
proof -
  have "drop_bit 8 v XOR table ! unat (v AND 255) = (crc_bit poly ^^ 8) v" for v
    using crc_bits_split [of 8 poly v] by (simp add: and_mask_word table_nth)
  then show ?thesis
    by (simp add: next_table_def assms funpow_add Let_def)
qed

end

locale nibble_register =
  fixes poly :: u32 and table :: "u32 list"
  assumes nibble_eq: "table = map (\<lambda>i. (crc_bit poly ^^ 4) (of_nat i)) [0..<16]"
begin

lemma nibble_step_serial: "nibble_step table v = (crc_bit poly ^^ 4) v"
  using crc_bits_split [of 4 poly v] unat_take_bit_less [of 4 v]
  by (simp add: nibble_step_def and_mask_word nibble_eq)

lemma nibble_loop_serial: "nibble_loop table crc bs = serial_loop poly crc bs"
proof (induction bs arbitrary: crc)
  case (Cons b bs)
  have "nibble_step table (nibble_step table v) = (crc_bit poly ^^ 8) v" for v
    using funpow_add [of 4 4 "crc_bit poly"] by (simp add: nibble_step_serial)
  with Cons.IH show ?case by simp
qed simp

end

text \<open>The tables of the sources satisfy these contracts.\<close>

lemma funpow_numeral: "(f ^^ numeral k) x = (f ^^ pred_numeral k) (f x)"
  by (simp add: numeral_eq_Suc funpow_swap1)

lemma crc32_nibble_table:
  "crc32_nibble = map (\<lambda>i. (crc_bit 0xedb88320 ^^ 4) (of_nat i)) [0..<16]"
proof -
  have ks: "[0..<4] = [0, 1, 2, 3::nat]" by code_simp
  have "crc32_nibble = span_table (map (\<lambda>k. (crc_bit 0xedb88320 ^^ 4) (push_bit k 1)) [0..<4])"
    unfolding ks list.map funpow_numeral
    by (simp add: crc32_nibble_def span_table_def crc_bit_def funpow_numeral)
  then show ?thesis
    using serial.steps_span [of 4 "0xedb88320" 4] by simp
qed

lemma stage_table_eq:
  "stage_table = map (\<lambda>i. (crc_bit 0xedb88320 ^^ 8) (of_nat i)) [0..<256]"
proof -
  have ks: "[0..<8] = [0, 1, 2, 3, 4, 5, 6, 7::nat]" by code_simp
  have "stage_table = span_table (map (\<lambda>k. (crc_bit 0xedb88320 ^^ 8) (push_bit k 1)) [0..<8])"
    unfolding ks list.map funpow_numeral
    by (simp add: stage_table_def span_table_def crc_bit_def funpow_numeral)
  then show ?thesis
    using serial.steps_span [of 8 "0xedb88320" 8] by simp
qed

lemma crc_bit_mask_eq: "crc_bit_mask poly v = crc_bit poly v"
proof (cases "bit v 0")
  case True
  then have "v AND 1 = 1" by (simp add: and_one_eq bit_0 odd_iff_mod_2_eq_one)
  then show ?thesis by (simp add: crc_bit_def crc_bit_mask_def)
next
  case False
  then have "v AND 1 = 0" by (simp add: and_one_eq bit_0 even_iff_mod_2_eq_zero)
  then show ?thesis by (simp add: crc_bit_def crc_bit_mask_def)
qed

lemma byte_table_eq: "byte_table poly = map (\<lambda>i. (crc_bit poly ^^ 8) (of_nat i)) [0..<256]"
proof -
  have "crc_bit_mask poly = crc_bit poly" by (rule ext) (rule crc_bit_mask_eq)
  then show ?thesis by (simp add: byte_table_def)
qed

interpretation crc32_nibbles: nibble_register "0xedb88320" crc32_nibble
  by unfold_locales (rule crc32_nibble_table)

interpretation crc32_stage: reflected_register "0xedb88320" stage_table
  by unfold_locales (rule stage_table_eq)

interpretation crc32_bytes: reflected_register poly "byte_table poly" for poly
  by unfold_locales (rule byte_table_eq)

text \<open>The capture engine's four tables hold one to four byte steps.\<close>

lemma capture_tables_eq:
  "capture_tables = map (\<lambda>k. map (\<lambda>i. (crc_bit 0xedb88320 ^^ (8 * Suc k)) (of_nat i)) [0..<256]) [0..<4]"
proof -
  let ?t = "\<lambda>n. map (\<lambda>i. (crc_bit 0xedb88320 ^^ n) (of_nat i)) [0..<256]"
  have ks: "[0..<4] = [0, 1, 2, 3::nat]" by code_simp
  note t0 = byte_table_eq [of "0xedb88320"]
  note t1 = crc32_bytes.next_table_step [OF t0]
  note t2 = crc32_bytes.next_table_step [OF t1]
  note t3 = crc32_bytes.next_table_step [OF t2]
  show ?thesis
    unfolding ks using t0 t1 t2 t3 by (simp add: capture_tables_def Let_def)
qed

lemma capture_table_nth:
  assumes "k < 4"
  shows "capture_tables ! k ! unat (take_bit 8 x) = (crc_bit 0xedb88320 ^^ (8 * Suc k)) (take_bit 8 (x :: u32))"
  using assms unat_take_bit_less [of 8 x] by (simp add: capture_tables_eq del: upt.simps funpow.simps mult_Suc_right)

lemma crc_bits_push_byte:
  assumes "n \<le> 24"
  shows "(crc_bit p ^^ n) (push_bit n (ucast (b :: u8))) = ucast b"
proof -
  have "(crc_bit p ^^ n) (push_bit n (ucast b)) = drop_bit n (push_bit n (ucast b))"
    by (rule crc_bits_shift) (simp add: take_bit_push_bit)
  also have "drop_bit n (push_bit n (ucast b :: u32)) = ucast b"
    by (rule bit_word_eqI)
      (use assms in \<open>auto simp: bit_drop_bit_eq bit_push_bit_iff bit_unsigned_iff dest: bit_imp_le_length\<close>)
  finally show ?thesis .
qed

text \<open>Four bytes at once: the register step by step, and the four lookups.\<close>

lemma four_bytes_serial:
  fixes a b c d :: u8 and p :: u32
  defines "B \<equiv> crc_bit p ^^ 8"
  shows "B (B (B (B (crc XOR ucast a) XOR ucast b) XOR ucast c) XOR ucast d) =
    (crc_bit p ^^ 32) (crc XOR (ucast a OR push_bit 8 (ucast b) OR push_bit 16 (ucast c)
      OR push_bit 24 (ucast d)))"
proof -
  have x: "crc XOR (ucast a OR push_bit 8 (ucast b) OR push_bit 16 (ucast c) OR push_bit 24 (ucast d))
      = crc XOR ucast a XOR push_bit 8 (ucast b) XOR push_bit 16 (ucast c) XOR push_bit 24 (ucast d)"
    by (rule bit_word_eqI)
      (auto simp: bit_xor_iff bit_or_iff bit_push_bit_iff bit_unsigned_iff dest: bit_imp_le_length)
  have add8: "(crc_bit p ^^ n) (B y XOR ucast e) = (crc_bit p ^^ (n + 8)) (y XOR push_bit 8 (ucast (e :: u8)))" for n y e
    using crc_bits_push_byte [of 8 p e]
    by (simp add: B_def funpow_add serial.steps_xor)
  have add16: "(crc_bit p ^^ n) ((crc_bit p ^^ 16) y XOR ucast e)
      = (crc_bit p ^^ (n + 16)) (y XOR push_bit 16 (ucast (e :: u8)))" for n y e
    using crc_bits_push_byte [of 16 p e]
    by (simp add: funpow_add serial.steps_xor)
  have add24: "(crc_bit p ^^ n) ((crc_bit p ^^ 24) y XOR ucast e)
      = (crc_bit p ^^ (n + 24)) (y XOR push_bit 24 (ucast (e :: u8)))" for n y e
    using crc_bits_push_byte [of 24 p e]
    by (simp add: funpow_add serial.steps_xor)
  have "B (B (B (B (crc XOR ucast a) XOR ucast b) XOR ucast c) XOR ucast d)
      = (crc_bit p ^^ 8) ((crc_bit p ^^ 8) ((crc_bit p ^^ 8) (B (crc XOR ucast a) XOR ucast b) XOR ucast c) XOR ucast d)"
    by (simp add: B_def)
  also have "\<dots> = (crc_bit p ^^ 32) (crc XOR ucast a XOR push_bit 8 (ucast b) XOR push_bit 16 (ucast c)
      XOR push_bit 24 (ucast d))"
    using add8 [of 8] add16 [of 8] add24 [of 8] by (simp add: xor.assoc)
  finally show ?thesis by (simp only: x)
qed

lemma four_lookups:
  "capture_tables ! 3 ! unat (x AND 255) XOR capture_tables ! 2 ! unat (drop_bit 8 x AND 255)
     XOR capture_tables ! 1 ! unat (drop_bit 16 x AND 255) XOR capture_tables ! 0 ! unat (drop_bit 24 x)
   = (crc_bit 0xedb88320 ^^ 32) x"
proof -
  let ?c = "\<lambda>n. crc_bit 0xedb88320 ^^ n"
  have split: "?c (n + 8) v = ?c n (drop_bit 8 v) XOR ?c (n + 8) (take_bit 8 v)" for n v
    using crc_bits_split [of 8 "0xedb88320" v] by (simp add: funpow_add serial.steps_xor)
  have top: "take_bit 8 (drop_bit 24 x) = drop_bit 24 x"
    by (rule bit_word_eqI) (auto simp: bit_take_bit_iff bit_drop_bit_eq dest: bit_imp_le_length)
  have "?c 32 x = ?c 8 (drop_bit 24 x) XOR ?c 16 (take_bit 8 (drop_bit 16 x))
      XOR ?c 24 (take_bit 8 (drop_bit 8 x)) XOR ?c 32 (take_bit 8 x)"
    using split [of 24 x] split [of 16 "drop_bit 8 x"] split [of 8 "drop_bit 16 x"]
    by (simp add: xor.assoc)
  then show ?thesis
    using capture_table_nth [of 0 "drop_bit 24 x"] capture_table_nth [of 1 "drop_bit 16 x"]
      capture_table_nth [of 2 "drop_bit 8 x"] capture_table_nth [of 3 x]
    by (simp add: and_mask_word top ac_simps)
qed

lemma capture_loop_serial: "t = capture_tables \<Longrightarrow> capture_loop t crc bs = serial_loop 0xedb88320 crc bs"
proof (induction t crc bs rule: capture_loop.induct)
  case (1 t crc a b c d rest)
  then show ?case
    unfolding capture_loop.simps Let_def 1(2) four_lookups
    by (simp add: four_bytes_serial)
qed (simp_all add: capture_tables_def Let_def crc32_bytes.table_step_serial)

subsection \<open>Replacing one part of a checksummed whole\<close>

lemma serial_loop_append: "serial_loop p crc (xs @ ys) = serial_loop p (serial_loop p crc xs) ys"
  by (induction xs arbitrary: crc) simp_all

lemma serial_loop_diff:
  "serial_loop p (a XOR b) bs = (crc_bit p ^^ (8 * length bs)) a XOR serial_loop p b bs"
proof (induction bs arbitrary: a b)
  case (Cons x bs)
  have "serial_loop p (a XOR b) (x # bs)
      = serial_loop p ((crc_bit p ^^ 8) a XOR (crc_bit p ^^ 8) (b XOR ucast x)) bs"
    by (simp add: serial.steps_xor xor.assoc)
  also have "\<dots> = (crc_bit p ^^ (8 * length bs)) ((crc_bit p ^^ 8) a)
      XOR serial_loop p ((crc_bit p ^^ 8) (b XOR ucast x)) bs"
    by (rule Cons.IH)
  also have "(crc_bit p ^^ (8 * length bs)) ((crc_bit p ^^ 8) a) = (crc_bit p ^^ (8 * length (x # bs))) a"
    using funpow_add [of "8 * length bs" 8 "crc_bit p"] by (simp add: add.commute)
  finally show ?case by (simp only: serial_loop.simps)
qed simp

lemma serial_loop_replace:
  assumes "length before = length after"
  shows "serial_loop p s (pre @ after @ suffix) =
    serial_loop p s (pre @ before @ suffix) XOR
    (crc_bit p ^^ (8 * length suffix)) (serial_loop p c before XOR serial_loop p c after)"
proof -
  have cut: "serial_loop p e bs = (crc_bit p ^^ (8 * length bs)) e XOR serial_loop p 0 bs" for e bs
    using serial_loop_diff [of p e 0 bs] by simp
  let ?u = "serial_loop p s pre"
  have "serial_loop p ?u before XOR serial_loop p ?u after = serial_loop p c before XOR serial_loop p c after"
    using cut [of ?u before] cut [of ?u after] cut [of c before] cut [of c after] assms
    by (simp add: ac_simps)
  then have mid: "serial_loop p ?u after
      = (serial_loop p c before XOR serial_loop p c after) XOR serial_loop p ?u before"
    by (metis xor.assoc xor.commute xor.left_neutral xor_self_eq)
  show ?thesis
    unfolding serial_loop_append mid serial_loop_diff by (simp add: xor.commute)
qed

declare matrix_times_from.simps [simp del] recovery_loop.simps [simp del]

lemma push_bit_split_low:
  "push_bit k v = (if v AND 1 \<noteq> 0 then push_bit k 1 else 0) XOR push_bit (k + 1) (drop_bit 1 v)"
  for v :: "'a::len word"
proof -
  have low: "(v AND 1 \<noteq> 0) = bit v 0"
    by (simp add: and_one_eq bit_0 odd_iff_mod_2_eq_one)
  have "v = (if bit v 0 then 1 else 0) XOR push_bit 1 (drop_bit 1 v)"
  proof (rule bit_word_eqI)
    fix n assume "n < LENGTH('a)"
    then show "bit v n = bit ((if bit v 0 then 1 else 0) XOR push_bit 1 (drop_bit 1 v)) n"
      by (cases n) (auto simp: bit_xor_iff bit_push_bit_iff bit_drop_bit_eq bit_1_iff
          simp del: push_bit_of_Suc_0 push_bit_Suc)
  qed
  then have "push_bit k v = push_bit k ((if bit v 0 then 1 else 0) XOR push_bit 1 (drop_bit 1 v))"
    by (rule arg_cong)
  also have "\<dots> = (if v AND 1 \<noteq> 0 then push_bit k 1 else 0) XOR push_bit (k + 1) (drop_bit 1 v)"
    unfolding low by (simp only: push_bit_xor push_bit_push_bit split: if_splits) simp
  finally show ?thesis .
qed

lemma matrix_times_from_linear:
  assumes lin: "\<And>a b. f (a XOR b) = f a XOR f b"
    and mat: "\<And>j. j < 32 \<Longrightarrow> m ! j = f (push_bit j 1)"
  shows "(\<And>n. bit v n \<Longrightarrow> n + k < 32) \<Longrightarrow> matrix_times_from m k v r = r XOR f (push_bit k v)"
proof (induction v arbitrary: k r rule: measure_induct_rule [of unat])
  case (less v)
  have f0: "f 0 = 0" using lin [of 0 0] by simp
  show ?case
  proof (cases "v = 0")
    case False
    then obtain n where "bit v n" by (auto simp: bit_eq_iff)
    then have "k < 32" using less.prems by fastforce
    have "unat v \<noteq> 0" using False by (simp add: unsigned_eq_0_iff)
    have "unat (drop_bit 1 v) < unat v"
      using \<open>unat v \<noteq> 0\<close> by (simp add: drop_bit_eq_div unat_div)
    then have rec: "matrix_times_from m (k + 1) (drop_bit 1 v) r' = r' XOR f (push_bit (k + 1) (drop_bit 1 v))" for r'
      by (rule less.IH) (use less.prems in \<open>fastforce simp: bit_drop_bit_eq\<close>)
    have "f (push_bit k v) = (if v AND 1 \<noteq> 0 then m ! k else 0) XOR f (push_bit (k + 1) (drop_bit 1 v))"
      using lin mat [OF \<open>k < 32\<close>] f0 by (subst push_bit_split_low) simp
    then show ?thesis
      using False rec by (subst matrix_times_from.simps) (auto simp: xor.assoc)
  qed (simp add: matrix_times_from.simps f0)
qed

lemma matrix_times_linear:
  assumes "\<And>a b. f (a XOR b) = f a XOR f b" and "m = map (\<lambda>j. f (push_bit j 1)) [0..<32]"
  shows "matrix_times m v = f v"
proof -
  have "n + 0 < 32" if "bit v n" for n
    using bit_imp_le_length [OF that] by simp
  then have "matrix_times_from m 0 v 0 = 0 XOR f (push_bit 0 v)"
    by (intro matrix_times_from_linear assms(1)) (simp_all add: assms(2))
  then show ?thesis by (simp add: matrix_times_def)
qed

lemma recovery_powers_eq:
  "recovery_powers p = map (\<lambda>j. (crc_bit 0xedb88320 ^^ (8 * 2 ^ p)) (push_bit j 1)) [0..<32]"
proof (induction p)
  case 0
  show ?case by (simp add: recovery_powers_def zero_byte_matrix_def)
next
  case (Suc p)
  let ?f = "crc_bit 0xedb88320 ^^ (8 * 2 ^ p)"
  have "matrix_times (recovery_powers p) v = ?f v" for v
    by (rule matrix_times_linear [OF serial.steps_xor Suc.IH])
  moreover have "?f (?f v) = (crc_bit 0xedb88320 ^^ (8 * 2 ^ Suc p)) v" for v
    using funpow_add [of "8 * 2 ^ p" "8 * 2 ^ p" "crc_bit 0xedb88320"] by (simp add: mult.commute)
  ultimately show ?case
    using Suc.IH by (simp add: recovery_powers_def matrix_square_def)
qed

lemma recovery_loop_eq:
  "recovery_loop p suffix delta = (crc_bit 0xedb88320 ^^ (8 * (suffix * 2 ^ p))) delta"
proof (induction p suffix delta rule: recovery_loop.induct)
  case (1 p suffix delta)
  let ?c = "\<lambda>n. crc_bit 0xedb88320 ^^ n"
  show ?case
  proof (cases "suffix = 0")
    case False
    have mt: "matrix_times (recovery_powers p) v = ?c (8 * 2 ^ p) v" for v
      by (rule matrix_times_linear [OF serial.steps_xor recovery_powers_eq])
    have "recovery_loop p suffix delta = ?c (8 * (suffix div 2 * 2 ^ (p + 1)))
        (if odd suffix then ?c (8 * 2 ^ p) delta else delta)"
      using "1.IH" [OF False] False by (simp add: recovery_loop.simps [of p suffix] mt)
    also have "\<dots> = ?c (8 * (suffix div 2 * 2 ^ (p + 1)) + (if odd suffix then 8 * 2 ^ p else 0)) delta"
      by (simp add: funpow_add)
    also have "8 * (suffix div 2 * 2 ^ (p + 1)) + (if odd suffix then 8 * 2 ^ p else 0) = 8 * (suffix * 2 ^ p)"
      by (auto elim!: evenE oddE simp: algebra_simps)
    finally show ?thesis .
  qed (simp add: recovery_loop.simps)
qed

text \<open>Every CRC32 routine is the complement of the serial register.\<close>

lemma not_eq_xor_max: "NOT x = x XOR 0xffffffff" for x :: u32
proof -
  have "(0xffffffff :: u32) + 1 = 0" by simp
  then have "(0xffffffff :: u32) = - 1" by (simp only: eq_neg_iff_add_eq_0)
  then show ?thesis by (metis bit.xor_one_right)
qed

lemma kui_crc32_serial: "kui_crc32 c data = NOT (serial_loop 0xedb88320 (NOT c) data)"
  by (simp add: kui_crc32_def crc32_nibbles.nibble_loop_serial)

lemma kui_retail_crc32_serial: "kui_retail_crc32 c data = NOT (serial_loop 0xedb88320 (NOT c) data)"
  by (simp add: kui_retail_crc32_def crc32_nibbles.nibble_loop_serial not_eq_xor_max)

text \<open>
  C10. The four CRC32 routines of the program compute the same function: the shell's and the low
  resident's nibble loops, the preparation stage's unrolled byte table and the capture engine's
  four-table loop agree on every previous value and every buffer.
\<close>

theorem crc32_routines_agree:
  "kui_retail_crc32 previous data = kui_crc32 previous data
   \<and> kui_stage_crc32 previous data = kui_crc32 previous data
   \<and> kui_crc32_capture previous data = kui_crc32 previous data"
  by (simp add: kui_crc32_serial kui_retail_crc32_serial kui_stage_crc32_def kui_crc32_capture_def
      crc32_stage.stage_loop_serial capture_loop_serial not_eq_xor_max)

lemma kui_crc32_append: "kui_crc32 c (xs @ ys) = kui_crc32 (kui_crc32 c xs) ys"
  by (simp add: kui_crc32_serial serial_loop_append)

text \<open>
  C11. Replacing a part of a file by another of the same length and correcting the checksum
  with \<open>kui_recovery_crc_replace\<close> gives the CRC32 of the new file: the sector repair of the recovery
  path never needs to read the rest of the track again.
\<close>

theorem recovery_crc_replace_correct:
  assumes "length before = length after" and "length suffix < 2 ^ 64"
  shows "kui_recovery_crc_replace (kui_crc32 0 (pre @ before @ suffix)) (kui_crc32 0 before)
      (kui_crc32 0 after) (of_nat (length suffix)) = kui_crc32 0 (pre @ after @ suffix)"
proof -
  have n: "unat (of_nat (length suffix) :: u64) = length suffix"
    using assms(2) by (simp add: unat_of_nat take_bit_nat_eq_self)
  let ?s = "serial_loop 0xedb88320 0xffffffff"
  have "?s (pre @ after @ suffix) = ?s (pre @ before @ suffix) XOR
      (crc_bit 0xedb88320 ^^ (8 * length suffix)) (?s before XOR ?s after)"
    by (rule serial_loop_replace [OF assms(1)])
  then show ?thesis
    by (simp add: kui_recovery_crc_replace_def recovery_loop_eq n kui_crc32_serial ac_simps not_eq_xor_max)
qed

theorem recovery_crc_replace_witness:
  "length [1 :: u8, 2] = length [3 :: u8, 4] \<and> length [5 :: u8] < 2 ^ 64 \<and>
   kui_recovery_crc_replace (kui_crc32 0 ([9] @ [1, 2] @ [5])) (kui_crc32 0 [1, 2])
      (kui_crc32 0 [3, 4]) (of_nat (length [5 :: u8])) = kui_crc32 0 ([9] @ [3, 4] @ [5])"
  using recovery_crc_replace_correct [of "[1, 2]" "[3, 4]" "[5]" "[9]"] by simp

subsection \<open>CRC16\<close>

text \<open>One step of the CCITT register: a shift to the left, with feedback from bit 15.\<close>

definition crc16_bit :: "u16 \<Rightarrow> u16" where
  "crc16_bit v = push_bit 1 v XOR (if bit v 15 then 0x1021 else 0)"

interpretation ccitt: linear_register crc16_bit
proof
  fix a b :: u16
  show "crc16_bit (a XOR b) = crc16_bit a XOR crc16_bit b"
    unfolding crc16_bit_def
    by (rule bit_word_eqI) (auto simp: bit_xor_iff bit_push_bit_iff)
qed

lemma crc16_bits_shift: "n + k \<le> 16 \<Longrightarrow> (\<And>i. bit v i \<Longrightarrow> i < k) \<Longrightarrow> (crc16_bit ^^ n) v = push_bit n v"
proof (induction n arbitrary: k v)
  case (Suc n)
  then have "\<not> bit v 15" by fastforce
  then have step: "crc16_bit v = push_bit 1 v" by (simp add: crc16_bit_def)
  have "(crc16_bit ^^ n) (push_bit 1 v) = push_bit n (push_bit 1 v)"
  proof (rule Suc.IH [of "Suc k"])
    show "i < Suc k" if "bit (push_bit 1 v) i" for i
      using that Suc.prems(2) [of "i - 1"] unfolding bit_push_bit_iff by auto
  qed (use Suc.prems in simp)
  then show ?case
    using step by (simp add: funpow_Suc_right push_bit_push_bit del: funpow.simps)
qed simp

lemma crc16_bits_split:
  "n \<le> 16 \<Longrightarrow> (crc16_bit ^^ n) v = push_bit n v XOR (crc16_bit ^^ 16) (drop_bit (16 - n) v)"
proof -
  assume n: "n \<le> 16"
  let ?low = "take_bit (16 - n) v" and ?top = "drop_bit (16 - n) v"
  have v: "v = ?low XOR push_bit (16 - n) ?top"
    by (rule bit_word_eqI) (auto simp: bit_xor_iff bit_take_bit_iff bit_push_bit_iff bit_drop_bit_eq)
  have "(crc16_bit ^^ n) ?low = push_bit n ?low"
    by (rule crc16_bits_shift [of _ "16 - n"]) (use n in \<open>auto simp: bit_take_bit_iff\<close>)
  also have "push_bit n ?low = push_bit n v"
    by (rule bit_word_eqI) (auto simp: bit_take_bit_iff bit_push_bit_iff)
  finally have low: "(crc16_bit ^^ n) ?low = push_bit n v" .
  have "(crc16_bit ^^ (16 - n)) ?top = push_bit (16 - n) ?top"
    by (rule crc16_bits_shift [of _ n])
      (use n in \<open>auto simp: bit_drop_bit_eq dest!: bit_imp_le_length\<close>)
  then have "(crc16_bit ^^ n) (push_bit (16 - n) ?top) = (crc16_bit ^^ 16) ?top"
    using n funpow_add [of n "16 - n" crc16_bit] by simp
  then show ?thesis
    using low by (subst v) (simp add: ccitt.steps_xor)
qed

lemma crc16_tables:
  "crc16_T0 = map (\<lambda>i. (crc16_bit ^^ 16) (of_nat i)) [0..<256]"
  "crc16_T2A = map (\<lambda>i. (crc16_bit ^^ 24) (of_nat i)) [0..<256]"
  "crc16_T2B = map (\<lambda>i. (crc16_bit ^^ 16) (of_nat i)) [0..<256]"
  "crc16_TN = map (\<lambda>i. (crc16_bit ^^ 16) (of_nat i)) [0..<16]"
proof -
  have ks: "[0..<8] = [0, 1, 2, 3, 4, 5, 6, 7::nat]" "[0..<4] = [0, 1, 2, 3::nat]" by code_simp+
  have "crc16_T0 = span_table (map (\<lambda>k. (crc16_bit ^^ 16) (push_bit k 1)) [0..<8])"
    unfolding ks list.map by (simp add: crc16_T0_def span_table_def crc16_bit_def funpow_numeral)
  then show t0: "crc16_T0 = map (\<lambda>i. (crc16_bit ^^ 16) (of_nat i)) [0..<256]"
    using ccitt.steps_span [of 16 8] by simp
  have "crc16_T2A = span_table (map (\<lambda>k. (crc16_bit ^^ 24) (push_bit k 1)) [0..<8])"
    unfolding ks list.map by (simp add: crc16_T2A_def span_table_def crc16_bit_def funpow_numeral)
  then show "crc16_T2A = map (\<lambda>i. (crc16_bit ^^ 24) (of_nat i)) [0..<256]"
    using ccitt.steps_span [of 24 8] by simp
  have "crc16_T2B = crc16_T0" by (simp add: crc16_T2B_def crc16_T0_def)
  with t0 show "crc16_T2B = map (\<lambda>i. (crc16_bit ^^ 16) (of_nat i)) [0..<256]" by simp
  have "crc16_TN = span_table (map (\<lambda>k. (crc16_bit ^^ 16) (push_bit k 1)) [0..<4])"
    unfolding ks list.map by (simp add: crc16_TN_def span_table_def crc16_bit_def funpow_numeral)
  then show "crc16_TN = map (\<lambda>i. (crc16_bit ^^ 16) (of_nat i)) [0..<16]"
    using ccitt.steps_span [of 16 4] by simp
qed

text \<open>The table-free fold of the reference routine.\<close>

definition crc16_fold :: "u16 \<Rightarrow> u16" where
  "crc16_fold t = (let tmp = t XOR drop_bit 4 t in push_bit 12 tmp XOR push_bit 5 tmp XOR tmp)"

interpretation ccitt_fold: linear_register crc16_fold
  by unfold_locales (simp add: crc16_fold_def Let_def drop_bit_xor push_bit_xor ac_simps)

lemma crc16_fold_table: "crc16_T0 = map (\<lambda>i. crc16_fold (of_nat i)) [0..<256]"
proof -
  have ks: "[0..<8] = [0, 1, 2, 3, 4, 5, 6, 7::nat]" by code_simp
  have "crc16_T0 = span_table (map (\<lambda>k. (crc16_fold ^^ 1) (push_bit k 1)) [0..<8])"
    unfolding ks list.map by (simp add: crc16_T0_def span_table_def crc16_fold_def)
  then show ?thesis using ccitt_fold.steps_span [of 1 8] by simp
qed

lemma crc16_top_byte: "unat (drop_bit 8 crc XOR ucast (b :: u8)) < 256" for crc :: u16
proof -
  have "take_bit 8 (drop_bit 8 crc XOR ucast b) = drop_bit 8 crc XOR (ucast b :: u16)"
    by (rule bit_word_eqI) (auto simp: bit_take_bit_iff bit_xor_iff bit_drop_bit_eq bit_unsigned_iff
        dest: bit_imp_le_length)
  then show ?thesis using unat_take_bit_less [of 8 "drop_bit 8 crc XOR (ucast b :: u16)"] by simp
qed

lemma crc16_byte_step:
  "(crc16_bit ^^ 8) (crc XOR push_bit 8 (ucast b)) =
     push_bit 8 crc XOR crc16_T0 ! unat (drop_bit 8 crc XOR ucast (b :: u8))"
proof -
  have "drop_bit 8 (crc XOR push_bit 8 (ucast b :: u16)) = drop_bit 8 crc XOR ucast b"
    by (rule bit_word_eqI) (auto simp: bit_xor_iff bit_drop_bit_eq bit_push_bit_iff bit_unsigned_iff
        dest: bit_imp_le_length)
  moreover have "push_bit 8 (crc XOR push_bit 8 (ucast b :: u16)) = push_bit 8 crc"
    by (rule bit_word_eqI) (auto simp: bit_xor_iff bit_push_bit_iff bit_unsigned_iff
        dest: bit_imp_le_length)
  ultimately show ?thesis
    using crc16_bits_split [of 8 "crc XOR push_bit 8 (ucast b)"] crc16_top_byte [of crc b]
    by (simp add: crc16_tables(1))
qed

fun crc16_serial :: "u16 \<Rightarrow> bytes \<Rightarrow> u16" where
  "crc16_serial crc [] = crc"
| "crc16_serial crc (b # bs) = crc16_serial ((crc16_bit ^^ 8) (crc XOR push_bit 8 (ucast b))) bs"

lemma crc16_table_serial: "kui_crc16_table crc bs = crc16_serial crc bs"
  by (induction bs arbitrary: crc) (simp_all add: crc16_byte_step)

lemma crc16_ref_serial: "kui_crc16_ref crc bs = crc16_serial crc bs"
proof (induction bs arbitrary: crc)
  case (Cons b bs)
  have "crc16_T0 ! unat (drop_bit 8 crc XOR ucast b) = crc16_fold (drop_bit 8 crc XOR ucast b)"
    using crc16_top_byte [of crc b] by (simp add: crc16_fold_table)
  then show ?case
    using Cons.IH by (simp add: crc16_byte_step crc16_fold_def Let_def)
qed simp

lemma crc16_nibble_step:
  "push_bit 4 c XOR crc16_TN ! unat ((drop_bit 12 c XOR k) AND 15) = (crc16_bit ^^ 4) (c XOR push_bit 12 k)"
proof -
  have "drop_bit 12 (c XOR push_bit 12 k) = (drop_bit 12 c XOR k) AND 15"
    unfolding and_mask_word
  proof (rule bit_word_eqI)
    fix n
    show "bit (drop_bit 12 (c XOR push_bit 12 k)) n = bit (take_bit 4 (drop_bit 12 c XOR k)) n"
      using bit_imp_le_length [of c "12 + n"]
      by (auto simp: bit_xor_iff bit_drop_bit_eq bit_push_bit_iff bit_take_bit_iff)
  qed
  moreover have "push_bit 4 (c XOR push_bit 12 k) = push_bit 4 c"
    by (rule bit_word_eqI) (auto simp: bit_xor_iff bit_push_bit_iff)
  ultimately show ?thesis
    using crc16_bits_split [of 4 "c XOR push_bit 12 k"] unat_take_bit_less [of 4 "drop_bit 12 c XOR k"]
    by (simp add: crc16_tables(4) and_mask_word)
qed

lemma crc16_nibble_serial: "kui_crc16_nibble crc bs = crc16_serial crc bs"
proof (induction bs arbitrary: crc)
  case (Cons b bs)
  let ?hi = "ucast (drop_bit 4 b) :: u16" and ?lo = "ucast (b AND 15) :: u16"
  have b: "push_bit 8 (ucast b) = push_bit 12 ?hi XOR push_bit 8 ?lo"
    unfolding and_mask_word
    by (rule bit_word_eqI)
      (auto simp: bit_xor_iff bit_push_bit_iff bit_unsigned_iff bit_drop_bit_eq bit_take_bit_iff)
  have "(crc16_bit ^^ 4) (push_bit 8 ?lo) = push_bit 4 (push_bit 8 ?lo)"
    unfolding and_mask_word
    by (rule crc16_bits_shift [of _ 12]) (auto simp: bit_push_bit_iff bit_unsigned_iff bit_take_bit_iff)
  then have "(crc16_bit ^^ 4) ((crc16_bit ^^ 4) (crc XOR push_bit 12 ?hi) XOR push_bit 12 ?lo)
      = (crc16_bit ^^ 8) (crc XOR push_bit 8 (ucast b))"
    using funpow_add [of 4 4 crc16_bit] by (simp add: b ccitt.steps_xor xor.assoc push_bit_push_bit)
  then show ?case
    using Cons.IH by (simp add: Let_def crc16_nibble_step)
qed simp

lemma word_split_byte: "v = push_bit 8 (drop_bit 8 v) XOR take_bit 8 v" for v :: "'a::len word"
  by (rule bit_word_eqI) (auto simp: bit_xor_iff bit_take_bit_iff bit_push_bit_iff bit_drop_bit_eq)

lemma bit_top_byte: "bit (drop_bit 8 v) i \<Longrightarrow> i < 8" for v :: u16
  by (auto simp: bit_drop_bit_eq dest!: bit_imp_le_length)

lemma crc16_slice_step:
  "(crc16_bit ^^ 8) ((crc16_bit ^^ 8) (crc XOR push_bit 8 (ucast a)) XOR push_bit 8 (ucast b)) =
   (let x = crc XOR (push_bit 8 (ucast a) OR ucast (b :: u8))
    in crc16_T2A ! unat (drop_bit 8 x) XOR crc16_T2B ! unat (x AND 0xff))"
proof -
  let ?x = "crc XOR (push_bit 8 (ucast a) OR ucast b) :: u16"
  have x: "?x = crc XOR push_bit 8 (ucast a) XOR ucast b"
    by (rule bit_word_eqI) (auto simp: bit_xor_iff bit_or_iff bit_push_bit_iff bit_unsigned_iff
        dest: bit_imp_le_length)
  have "(crc16_bit ^^ 8) (ucast b) = push_bit 8 (ucast b)"
    by (rule crc16_bits_shift [of _ 8]) (auto simp: bit_unsigned_iff dest: bit_imp_le_length)
  then have "(crc16_bit ^^ 8) ((crc16_bit ^^ 8) (crc XOR push_bit 8 (ucast a)) XOR push_bit 8 (ucast b))
      = (crc16_bit ^^ 16) ?x"
    using funpow_add [of 8 8 crc16_bit] by (simp add: x ccitt.steps_xor xor.assoc)
  also have "(crc16_bit ^^ 16) ?x = (crc16_bit ^^ 24) (drop_bit 8 ?x) XOR (crc16_bit ^^ 16) (take_bit 8 ?x)"
  proof -
    have s: "?x = push_bit 8 (drop_bit 8 ?x) XOR take_bit 8 ?x" by (rule word_split_byte)
    have "(crc16_bit ^^ 8) (drop_bit 8 ?x) = push_bit 8 (drop_bit 8 ?x)"
      by (rule crc16_bits_shift [of _ 8], simp) (erule bit_top_byte)
    then have "(crc16_bit ^^ 16) (push_bit 8 (drop_bit 8 ?x)) = (crc16_bit ^^ 24) (drop_bit 8 ?x)"
      using funpow_add [of 16 8 crc16_bit] by simp
    then show ?thesis by (subst s) (simp only: ccitt.steps_xor)
  qed
  also have "\<dots> = crc16_T2A ! unat (drop_bit 8 ?x) XOR crc16_T2B ! unat (?x AND 0xff)"
    using unat_take_bit_less [of 8 ?x] crc16_top_byte [of ?x 0]
    by (simp add: crc16_tables(2,3) and_mask_word)
  finally show ?thesis by (simp only: Let_def)
qed

lemma crc16_slice2_serial: "kui_crc16_slice2 crc bs = crc16_serial crc bs"
proof (induction crc bs rule: kui_crc16_slice2.induct)
  case (1 crc a b rest)
  show ?case
    using "1.IH" [OF refl] by (simp add: Let_def crc16_slice_step)
qed (simp_all add: crc16_byte_step)

text \<open>
  C14. The four CRC16 routines agree: the shift-and-fold reference, the 256-entry table, the
  two-byte slicing loop and the nibble loop compute the same CCITT register for every start value
  and every buffer.
\<close>

theorem crc16_routines_agree:
  "kui_crc16_table crc data = kui_crc16_ref crc data
   \<and> kui_crc16_slice2 crc data = kui_crc16_ref crc data
   \<and> kui_crc16_nibble crc data = kui_crc16_ref crc data"
  by (simp add: crc16_table_serial crc16_ref_serial crc16_slice2_serial crc16_nibble_serial)
end
