(* ===== verification/Vmu_Image.thy ===== *)
theory Vmu_Image
  imports Kui_Bytes
begin

text \<open>
  The 128 KiB card image (src/core/vmu_image.c): 256 blocks of 512 bytes, block 255 the root,
  254 the allocation table (FAT), 253 down to 241 the directory of 208 entries, 0 to 199 the
  user area.  \<open>kui_vmu_image_format_blank\<close> prepares a new image through block callbacks and
  \<open>kui_vmu_image_validate\<close> admits an existing one.

  A card held in memory is a function from block numbers to block contents.  Callbacks are
  functions on an explicit context; \<open>None\<close> (or \<open>False\<close>) is their nonzero return.  The locale
  \<open>honest_reader\<close> states what a block reader promises: it may fail at any call but a successful
  read returns the block it stands for.  The scratch block of the workspace and the partly marked
  \<open>used\<close> flags of a failed scan are not tracked (every user reloads them), and the NULL tests on
  the workspace and summary pointers have no counterpart.  The specification of a well-formed card is \<open>wf_card\<close>; the
  admission check is proved to decide it.
\<close>

unbundle bit_operations_syntax

subsection \<open>Geometry and types\<close>

abbreviation vmu_root :: nat where "vmu_root \<equiv> 255"
abbreviation vmu_fat :: nat where "vmu_fat \<equiv> 254"
abbreviation vmu_dir_first :: nat where "vmu_dir_first \<equiv> 253"
abbreviation vmu_dir_last :: nat where "vmu_dir_last \<equiv> 241"
abbreviation vmu_free :: nat where "vmu_free \<equiv> 0xfffc"
abbreviation vmu_end :: nat where "vmu_end \<equiv> 0xfffa"
abbreviation vmu_image_bytes :: nat where "vmu_image_bytes \<equiv> 131072"

type_synonym card = "nat \<Rightarrow> bytes"

datatype vmu_image_result =
  Image_OK | Image_Argument | Image_IO | Image_Not_Blank | Image_Geometry | Image_Filesystem | Image_Verify

record 'c vmu_image_io =
  io_context :: 'c
  io_read_block :: "('c \<Rightarrow> nat \<Rightarrow> 'c \<times> bytes option) option"
  io_write_block :: "('c \<Rightarrow> nat \<Rightarrow> bytes \<Rightarrow> 'c \<times> bool) option"
  io_sync :: "('c \<Rightarrow> 'c \<times> bool) option"

record vmu_image_workspace =
  ws_block :: bytes
  ws_fat :: bytes
  ws_used :: "bool list"

record vmu_image_summary =
  sm_files :: nat
  sm_game_files :: nat
  sm_used_blocks :: nat
  sm_free_blocks :: nat

definition no_summary :: vmu_image_summary where
  "no_summary = \<lparr>sm_files = 0, sm_game_files = 0, sm_used_blocks = 0, sm_free_blocks = 0\<rparr>"

subsection \<open>Formatting\<close>

definition default_time :: bytes where
  "default_time = [0x20, 0x00, 0x01, 0x01, 0, 0, 0, 5]"

definition unbcd :: "u8 \<Rightarrow> int" where
  "unbcd b = (if b AND 15 > 9 \<or> drop_bit 4 b > 9 then - 1
     else uint (drop_bit 4 b) * 10 + uint (b AND 15))"

definition month_days :: "nat list" where
  "month_days = [31, 28, 31, 30, 31, 30, 31, 31, 30, 31, 30, 31]"

definition valid_time :: "bytes \<Rightarrow> bool" where
  "valid_time p =
     (let cent = unbcd (p ! 0); year = unbcd (p ! 1); month = unbcd (p ! 2); day = unbcd (p ! 3);
          hour = unbcd (p ! 4); minute = unbcd (p ! 5); second = unbcd (p ! 6)
      in if cent < 0 \<or> year < 0 \<or> month < 1 \<or> month > 12 \<or> day < 1 \<or> hour < 0 \<or> hour > 23
            \<or> minute < 0 \<or> minute > 59 \<or> second < 0 \<or> second > 59 \<or> p ! 7 > 6
         then False
         else let full_year = nat (cent * 100 + year); limit = month_days ! nat (month - 1)
              in nat day \<le> (if month = 2 \<and> full_year mod 4 = 0 \<and> (full_year mod 100 \<noteq> 0 \<or> full_year mod 400 = 0)
                            then limit + 1 else limit))"

definition system_next :: "nat \<Rightarrow> nat" where
  "system_next block =
     (if block < vmu_dir_last then vmu_free
      else if vmu_dir_last < block \<and> block \<le> vmu_dir_first then block - 1 else vmu_end)"

definition make_block :: "nat \<Rightarrow> bytes \<Rightarrow> bytes" where
  "make_block block stamp =
     (if block = vmu_fat then concat (map (\<lambda>i. put16 (system_next i)) [0..<256])
      else if block = vmu_root then
        (let out = patch (replicate 512 0) 0 (replicate 16 0x55);
             out = patch out 0x30 stamp;
             out = patch out 0x40 (put16 255);
             out = patch out 0x44 (put16 vmu_root);
             out = patch out 0x46 (put16 vmu_fat);
             out = patch out 0x48 (put16 1);
             out = patch out 0x4a (put16 vmu_dir_first);
             out = patch out 0x4c (put16 13);
             out = patch out 0x50 (put16 200)
         in patch out 0x52 (put16 31))
      else replicate 512 0)"

definition kui_vmu_image_blank_block :: "nat \<Rightarrow> vmu_image_result \<times> bytes option" where
  "kui_vmu_image_blank_block block =
     (if block \<ge> 256 then (Image_Argument, None) else (Image_OK, Some (make_block block default_time)))"

fun blank_check :: "('c \<Rightarrow> nat \<Rightarrow> 'c \<times> bytes option) \<Rightarrow> 'c \<Rightarrow> nat list \<Rightarrow> 'c \<times> vmu_image_result" where
  "blank_check rd c [] = (c, Image_OK)"
| "blank_check rd c (b # bs) =
     (case rd c b of (c', None) \<Rightarrow> (c', Image_IO)
      | (c', Some d) \<Rightarrow> if \<not> zeroes d then (c', Image_Not_Blank) else blank_check rd c' bs)"

fun write_blocks :: "('c \<Rightarrow> nat \<Rightarrow> bytes \<Rightarrow> 'c \<times> bool) \<Rightarrow> 'c \<Rightarrow> bytes \<Rightarrow> nat list \<Rightarrow> 'c \<times> bool" where
  "write_blocks wr c stamp [] = (c, True)"
| "write_blocks wr c stamp (b # bs) =
     (case wr c b (make_block b stamp) of (c', ok) \<Rightarrow>
        if ok then write_blocks wr c' stamp bs else (c', False))"

fun verify_blocks :: "('c \<Rightarrow> nat \<Rightarrow> 'c \<times> bytes option) \<Rightarrow> 'c \<Rightarrow> bytes \<Rightarrow> nat list \<Rightarrow> 'c \<times> vmu_image_result" where
  "verify_blocks rd c stamp [] = (c, Image_OK)"
| "verify_blocks rd c stamp (b # bs) =
     (case rd c b of (c', None) \<Rightarrow> (c', Image_IO)
      | (c', Some d) \<Rightarrow> if d \<noteq> make_block b stamp then (c', Image_Verify)
                       else verify_blocks rd c' stamp bs)"

text \<open>
  The whole formatter: nothing is written before every block has been read as zero, and the root
  is written last, between two barriers.
\<close>

definition kui_vmu_image_format_blank ::
    "'c vmu_image_io option \<Rightarrow> nat \<Rightarrow> bytes option \<Rightarrow> ('c option \<times> vmu_image_result)" where
  "kui_vmu_image_format_blank io image_bytes timestamp =
     (case io of None \<Rightarrow> (None, Image_Argument)
      | Some dev \<Rightarrow>
        (case (io_read_block dev, io_write_block dev, io_sync dev) of
           (Some rd, Some wr, Some sy) \<Rightarrow>
             (let c0 = io_context dev;
                  stamp = (case timestamp of None \<Rightarrow> default_time | Some t \<Rightarrow> t)
              in if image_bytes \<noteq> vmu_image_bytes then (Some c0, Image_Argument)
                 else if \<not> valid_time stamp then (Some c0, Image_Argument)
                 else case blank_check rd c0 [0..<256] of (c1, r) \<Rightarrow>
                   if r \<noteq> Image_OK then (Some c1, r)
                   else case write_blocks wr c1 stamp [0..<vmu_root] of (c2, ok) \<Rightarrow>
                     if \<not> ok then (Some c2, Image_IO)
                     else case sy c2 of (c3, ok) \<Rightarrow>
                       if \<not> ok then (Some c3, Image_IO)
                       else case wr c3 vmu_root (make_block vmu_root stamp) of (c4, ok) \<Rightarrow>
                         if \<not> ok then (Some c4, Image_IO)
                         else case sy c4 of (c5, ok) \<Rightarrow>
                           if \<not> ok then (Some c5, Image_IO)
                           else case verify_blocks rd c5 stamp [0..<256] of (c6, r) \<Rightarrow> (Some c6, r))
         | _ \<Rightarrow> (Some (io_context dev), Image_Argument)))"

subsection \<open>Admission\<close>

definition root_geometry :: "bytes \<Rightarrow> bool" where
  "root_geometry root =
     ((\<forall>i<16. root ! i = 0x55) \<and> le16 root 0x46 = vmu_fat \<and> le16 root 0x48 = 1
      \<and> le16 root 0x4a = vmu_dir_first \<and> le16 root 0x4c = 13 \<and> le16 root 0x50 = 200)"

fun read_all :: "('c \<Rightarrow> nat \<Rightarrow> 'c \<times> bytes option) \<Rightarrow> 'c \<Rightarrow> nat list \<Rightarrow> bytes \<Rightarrow> 'c \<times> bytes option" where
  "read_all rd c [] buf = (c, Some buf)"
| "read_all rd c (b # bs) buf =
     (case rd c b of (c', None) \<Rightarrow> (c', None) | (c', Some d) \<Rightarrow> read_all rd c' bs d)"

definition system_allocation :: "bytes \<Rightarrow> bool" where
  "system_allocation fat = list_all (\<lambda>b. le16 fat (2 * b) = system_next b) [200..<256]"

fun scan_user :: "bytes \<Rightarrow> nat list \<Rightarrow> nat \<Rightarrow> nat option" where
  "scan_user fat [] free = Some free"
| "scan_user fat (b # bs) free =
     (let next = le16 fat (2 * b) in
      if next = vmu_free then scan_user fat bs (free + 1)
      else if next \<noteq> vmu_end \<and> next \<ge> 200 then None
      else scan_user fat bs free)"

text \<open>
  The inner loop over the blocks of one file: \<open>k\<close> blocks are left, \<open>n\<close> have been visited, \<open>at\<close> is
  the next one.
\<close>

fun walk_chain :: "bytes \<Rightarrow> bool \<Rightarrow> nat \<Rightarrow> nat \<Rightarrow> nat \<Rightarrow> bool list \<times> nat \<Rightarrow> (bool list \<times> nat) option" where
  "walk_chain fat game 0 n at (used, cnt) = Some (used, cnt)"
| "walk_chain fat game (Suc k) n at (used, cnt) =
     (if at \<ge> 200 \<or> used ! at \<or> (game \<and> at \<noteq> n) then None
      else let used' = used[at := True]; next = le16 fat (2 * at) in
           if k = 0 then (if next \<noteq> vmu_end then None else Some (used', cnt + 1))
           else walk_chain fat game k (n + 1) next (used', cnt + 1))"

definition check_entry ::
    "bytes \<Rightarrow> bytes \<Rightarrow> bool list \<times> vmu_image_summary \<Rightarrow> (bool list \<times> vmu_image_summary) option" where
  "check_entry fat e st =
     (case st of (used, r) \<Rightarrow>
      if e ! 0 = 0 then Some (used, r)
      else let blocks = le16 e 24; at = le16 e 2; game = (e ! 0 = 0xcc) in
        if (e ! 0 \<noteq> 0x33 \<and> e ! 0 \<noteq> 0xcc) \<or> blocks = 0 \<or> blocks > 200 \<or> le16 e 26 \<ge> blocks then None
        else if game \<and> (sm_game_files r \<noteq> 0 \<or> at \<noteq> 0) then None
        else let r' = (if game then r\<lparr>sm_game_files := sm_game_files r + 1\<rparr> else r) in
          case walk_chain fat game blocks 0 at (used, sm_used_blocks r') of None \<Rightarrow> None
          | Some (used', cnt) \<Rightarrow> Some (used', r'\<lparr>sm_used_blocks := cnt, sm_files := sm_files r' + 1\<rparr>))"

fun check_entries ::
    "bytes \<Rightarrow> bytes list \<Rightarrow> bool list \<times> vmu_image_summary \<Rightarrow> (bool list \<times> vmu_image_summary) option" where
  "check_entries fat [] st = Some st"
| "check_entries fat (e # es) st =
     (case check_entry fat e st of None \<Rightarrow> None | Some st' \<Rightarrow> check_entries fat es st')"

definition block_entries :: "bytes \<Rightarrow> bytes list" where
  "block_entries blk = map (\<lambda>slot. window blk (32 * slot) 32) [0..<16]"

fun scan_directory ::
    "('c \<Rightarrow> nat \<Rightarrow> 'c \<times> bytes option) \<Rightarrow> 'c \<Rightarrow> bytes \<Rightarrow> nat list \<Rightarrow> bool list \<times> vmu_image_summary
     \<Rightarrow> 'c \<times> (vmu_image_result + bool list \<times> vmu_image_summary)" where
  "scan_directory rd c fat [] st = (c, Inr st)"
| "scan_directory rd c fat (d # ds) st =
     (case rd c d of (c', None) \<Rightarrow> (c', Inl Image_IO)
      | (c', Some blk) \<Rightarrow>
         (case check_entries fat (block_entries blk) st of None \<Rightarrow> (c', Inl Image_Filesystem)
          | Some st' \<Rightarrow> scan_directory rd c' fat ds st'))"

definition directory_blocks :: "nat list" where
  "directory_blocks = rev [vmu_dir_last..<vmu_dir_first + 1]"

text \<open>
  The admission check.  It returns the context, the result, the work areas as they are left and
  the summary (cleared on failure).
\<close>

definition kui_vmu_image_validate ::
    "('c \<Rightarrow> nat \<Rightarrow> 'c \<times> bytes option) option \<Rightarrow> 'c \<Rightarrow> nat \<Rightarrow> vmu_image_workspace
     \<Rightarrow> 'c \<times> vmu_image_result \<times> vmu_image_workspace \<times> vmu_image_summary" where
  "kui_vmu_image_validate reader c image_bytes work =
     (case reader of None \<Rightarrow> (c, Image_Argument, work, no_summary)
      | Some rd \<Rightarrow>
      if image_bytes \<noteq> vmu_image_bytes then (c, Image_Argument, work, no_summary)
      else case read_all rd c [0..<256] (ws_block work) of
        (c1, None) \<Rightarrow> (c1, Image_IO, work, no_summary)
      | (c1, Some root) \<Rightarrow>
        (let work = work\<lparr>ws_block := root\<rparr> in
         if \<not> root_geometry root then (c1, Image_Geometry, work, no_summary)
         else case rd c1 vmu_fat of
           (c2, None) \<Rightarrow> (c2, Image_IO, work, no_summary)
         | (c2, Some fat) \<Rightarrow>
           (let work = work\<lparr>ws_fat := fat\<rparr> in
            if \<not> system_allocation fat then (c2, Image_Filesystem, work, no_summary)
            else case scan_user fat [0..<200] 0 of
              None \<Rightarrow> (c2, Image_Filesystem, work, no_summary)
            | Some free \<Rightarrow>
              (let work = work\<lparr>ws_used := replicate 200 False\<rparr> in
               case scan_directory rd c2 fat directory_blocks
                   (ws_used work, no_summary\<lparr>sm_free_blocks := free\<rparr>) of
                 (c3, Inl r) \<Rightarrow> (c3, r, work, no_summary)
               | (c3, Inr (used, r)) \<Rightarrow>
                 (let work = work\<lparr>ws_used := used\<rparr> in
                  if \<not> list_all (\<lambda>b. used ! b \<or> le16 fat (2 * b) = vmu_free) [0..<200]
                  then (c3, Image_Filesystem, work, no_summary)
                  else if sm_used_blocks r + sm_free_blocks r \<noteq> 200
                  then (c3, Image_Filesystem, work, no_summary)
                  else (c3, Image_OK, work, r))))))"

text \<open>
  The in-memory block readers: \<open>read_image\<close> of vmu_image_merge.c, \<open>read_block\<close> of
  vmu_image_pack.c, \<open>subset_read\<close> of vmu_image_subset.c and \<open>plan_read\<close> of vmu_import_plan.c are
  this function.
\<close>

definition read_image :: "card \<Rightarrow> nat \<Rightarrow> card \<times> bytes option" where
  "read_image img block = (img, if block \<ge> 256 then None else Some (img block))"

subsection \<open>Specification of a well-formed card\<close>

fun chain :: "bytes \<Rightarrow> nat \<Rightarrow> nat \<Rightarrow> nat list" where
  "chain fat at 0 = []"
| "chain fat at (Suc k) = at # chain fat (le16 fat (2 * at)) k"

definition entry_chain :: "bytes \<Rightarrow> bytes \<Rightarrow> nat list" where
  "entry_chain fat e = chain fat (le16 e 2) (le16 e 24)"

definition is_game :: "bytes \<Rightarrow> bool" where
  "is_game e = (e ! 0 = 0xcc)"

definition entry_ok :: "bytes \<Rightarrow> bytes \<Rightarrow> bool" where
  "entry_ok fat e =
     ((e ! 0 = 0x33 \<or> is_game e) \<and> 0 < le16 e 24 \<and> le16 e 24 \<le> 200 \<and> le16 e 26 < le16 e 24
      \<and> (\<forall>b\<in>set (entry_chain fat e). b < 200)
      \<and> le16 fat (2 * last (entry_chain fat e)) = vmu_end
      \<and> (is_game e \<longrightarrow> entry_chain fat e = [0..<le16 e 24]))"

definition dir_entries :: "card \<Rightarrow> bytes list" where
  "dir_entries img = concat (map (\<lambda>d. block_entries (img d)) directory_blocks)"

definition live_entries :: "card \<Rightarrow> bytes list" where
  "live_entries img = filter (\<lambda>e. e ! 0 \<noteq> 0) (dir_entries img)"

definition files_ok :: "bytes \<Rightarrow> bytes list \<Rightarrow> bool" where
  "files_ok fat es =
     ((\<forall>e\<in>set es. entry_ok fat e) \<and> length (filter is_game es) \<le> 1
      \<and> distinct (concat (map (entry_chain fat) es)))"

definition wf_card :: "card \<Rightarrow> bool" where
  "wf_card img =
     (let fat = img vmu_fat; es = live_entries img in
      root_geometry (img vmu_root) \<and> system_allocation fat \<and> files_ok fat es
      \<and> set (concat (map (entry_chain fat) es)) = {b. b < 200 \<and> le16 fat (2 * b) \<noteq> vmu_free})"

definition card_summary :: "card \<Rightarrow> vmu_image_summary" where
  "card_summary img =
     (let es = live_entries img; n = length (concat (map (entry_chain (img vmu_fat)) es)) in
      \<lparr>sm_files = length es, sm_game_files = length (filter is_game es), sm_used_blocks = n,
       sm_free_blocks = 200 - n\<rparr>)"

definition validate_card :: "card \<Rightarrow> vmu_image_workspace \<Rightarrow> vmu_image_result \<times> vmu_image_workspace \<times> vmu_image_summary" where
  "validate_card img work = snd (kui_vmu_image_validate (Some read_image) img vmu_image_bytes work)"

subsection \<open>The admission check decides the specification\<close>

text \<open>Marking blocks as used.\<close>

definition mark :: "bool list \<Rightarrow> nat list \<Rightarrow> bool list" where
  "mark used bs = fold (\<lambda>b u. u[b := True]) bs used"

lemma mark_simps [simp]:
  "mark used [] = used" "mark used (b # bs) = mark (used[b := True]) bs"
  "mark used (as @ bs) = mark (mark used as) bs"
  by (simp_all add: mark_def)

lemma length_mark [simp]: "length (mark used bs) = length used"
  by (induction bs arbitrary: used) simp_all

lemma nth_set_flag: "b < length used \<Longrightarrow> used[a := True] ! b \<longleftrightarrow> a = b \<or> used ! b"
  by (cases "a = b") simp_all

lemma nth_mark [simp]:
  "b < length used \<Longrightarrow> mark used bs ! b \<longleftrightarrow> used ! b \<or> b \<in> set bs"
  by (induction bs arbitrary: used) (auto simp: nth_set_flag)

lemma length_chain [simp]: "length (chain fat at k) = k"
  by (induction k arbitrary: at) simp_all

lemma chain_eq_Nil [simp]: "chain fat at k = [] \<longleftrightarrow> k = 0"
  by (cases k) simp_all

definition walk_ok :: "bytes \<Rightarrow> bool \<Rightarrow> nat \<Rightarrow> nat list \<Rightarrow> bool list \<Rightarrow> bool" where
  "walk_ok fat game n bs used =
     (bs = [] \<or> (\<forall>b\<in>set bs. b < 200 \<and> \<not> used ! b) \<and> distinct bs
      \<and> (game \<longrightarrow> bs = [n..<n + length bs]) \<and> le16 fat (2 * last bs) = vmu_end)"

lemma upt_Cons_eq: "at # bs = [n..<Suc (n + length bs)] \<longleftrightarrow> at = n \<and> bs = [Suc n..<Suc (n + length bs)]"
  by (auto simp: upt_conv_Cons simp del: upt_Suc)

lemma walk_ok_Cons:
  assumes "bs \<noteq> []" and "length used = 200"
  shows "walk_ok fat game n (at # bs) used \<longleftrightarrow>
    at < 200 \<and> \<not> used ! at \<and> (game \<longrightarrow> at = n) \<and> walk_ok fat game (Suc n) bs (used[at := True])"
  using assms unfolding walk_ok_def
  by (auto simp: upt_Cons_eq nth_set_flag simp del: upt_Suc)

lemma walk_chain_eq:
  "length used = 200 \<Longrightarrow>
   walk_chain fat game k n at (used, cnt) =
     (if walk_ok fat game n (chain fat at k) used then Some (mark used (chain fat at k), cnt + k) else None)"
proof (induction k arbitrary: n at used cnt)
  case 0
  then show ?case by (simp add: walk_ok_def)
next
  case (Suc k)
  show ?case
  proof (cases "k = 0")
    case True
    then show ?thesis by (auto simp: walk_ok_def Let_def)
  next
    case False
    have "walk_chain fat game (Suc k) n at (used, cnt) =
      (if at \<ge> 200 \<or> used ! at \<or> (game \<and> at \<noteq> n) then None
       else walk_chain fat game k (Suc n) (le16 fat (2 * at)) (used[at := True], Suc cnt))"
      using False by (simp add: Let_def)
    then show ?thesis
      using Suc.IH [of "used[at := True]" "Suc n" "le16 fat (2 * at)" "Suc cnt"] Suc.prems False
      by (auto simp: walk_ok_Cons)
  qed
qed

lemma check_entry_eq:
  assumes "length used = 200" and "e ! 0 \<noteq> 0"
  shows "check_entry fat e (used, r) =
    (if entry_ok fat e \<and> (is_game e \<longrightarrow> sm_game_files r = 0) \<and> distinct (entry_chain fat e)
        \<and> (\<forall>b\<in>set (entry_chain fat e). \<not> used ! b)
     then Some (mark used (entry_chain fat e),
       r\<lparr>sm_files := sm_files r + 1, sm_game_files := sm_game_files r + (if is_game e then 1 else 0),
         sm_used_blocks := sm_used_blocks r + length (entry_chain fat e)\<rparr>)
     else None)"
proof (cases "(e ! 0 = 0x33 \<or> is_game e) \<and> 0 < le16 e 24 \<and> le16 e 24 \<le> 200 \<and> le16 e 26 < le16 e 24")
  case False
  then have "check_entry fat e (used, r) = None" "\<not> entry_ok fat e"
    using assms by (auto simp: check_entry_def entry_ok_def is_game_def Let_def)
  then show ?thesis by simp
next
  case True
  let ?bs = "entry_chain fat e"
  have len: "length ?bs = le16 e 24" by (simp add: entry_chain_def)
  have nonempty: "?bs \<noteq> []" using True by (simp add: entry_chain_def)
  have ok: "entry_ok fat e \<and> distinct ?bs \<and> (\<forall>b\<in>set ?bs. \<not> used ! b) \<longleftrightarrow> walk_ok fat (is_game e) 0 ?bs used"
    using True nonempty len by (auto simp: entry_ok_def walk_ok_def)
  have first: "hd ?bs = le16 e 2" using True by (cases "le16 e 24") (auto simp: entry_chain_def)
  have game0: "le16 e 2 = 0" if "is_game e" "walk_ok fat (is_game e) 0 ?bs used"
  proof -
    have "?bs = [0..<le16 e 24]" using that nonempty len by (simp add: walk_ok_def)
    then show ?thesis using first True by (metis hd_upt)
  qed
  show ?thesis
    using assms True game0 ok
    by (auto simp: check_entry_def Let_def is_game_def [symmetric] walk_chain_eq entry_chain_def [symmetric] len)
qed

text \<open>All entries of a directory, folded in order.\<close>

lemma check_entries_append:
  "check_entries fat (xs @ ys) st =
     (case check_entries fat xs st of None \<Rightarrow> None | Some st' \<Rightarrow> check_entries fat ys st')"
  by (induction xs arbitrary: st) (auto split: option.splits)

lemma check_entry_skip: "e ! 0 = 0 \<Longrightarrow> check_entry fat e st = Some st"
  by (cases st) (simp add: check_entry_def)

definition add_files :: "bytes \<Rightarrow> bytes list \<Rightarrow> vmu_image_summary \<Rightarrow> vmu_image_summary" where
  "add_files fat es r =
     r\<lparr>sm_files := sm_files r + length es, sm_game_files := sm_game_files r + length (filter is_game es),
       sm_used_blocks := sm_used_blocks r + length (concat (map (entry_chain fat) es))\<rparr>"

lemma check_entries_eq:
  assumes "length used = 200" and "sm_game_files r \<le> 1"
  shows "check_entries fat es (used, r) =
    (let live = filter (\<lambda>e. e ! 0 \<noteq> 0) es; bs = concat (map (entry_chain fat) live) in
     if (\<forall>e\<in>set live. entry_ok fat e) \<and> distinct bs \<and> (\<forall>b\<in>set bs. \<not> used ! b)
        \<and> sm_game_files r + length (filter is_game live) \<le> 1
     then Some (mark used bs, add_files fat live r) else None)"
  using assms
proof (induction es arbitrary: used r)
  case Nil
  then show ?case by (simp add: add_files_def Let_def)
next
  case (Cons e es)
  show ?case
  proof (cases "e ! 0 = 0")
    case True
    then show ?thesis using Cons by (simp add: check_entry_skip)
  next
    case False
    let ?c = "entry_chain fat e" and ?live = "filter (\<lambda>e. e ! 0 \<noteq> 0) es"
    let ?r = "r\<lparr>sm_files := sm_files r + 1, sm_game_files := sm_game_files r + (if is_game e then 1 else 0),
         sm_used_blocks := sm_used_blocks r + length ?c\<rparr>"
    let ?good = "entry_ok fat e \<and> (is_game e \<longrightarrow> sm_game_files r = 0) \<and> distinct ?c \<and> (\<forall>b\<in>set ?c. \<not> used ! b)"
    have in_range: "\<forall>b\<in>set bs. b < 200" if "\<forall>e\<in>set xs. entry_ok fat e" "bs = concat (map (entry_chain fat) xs)" for xs bs
      using that by (auto simp: entry_ok_def)
    show ?thesis
    proof (cases ?good)
      case True
      have IH: "check_entries fat es (mark used ?c, ?r) =
        (let bs = concat (map (entry_chain fat) ?live) in
         if (\<forall>e\<in>set ?live. entry_ok fat e) \<and> distinct bs \<and> (\<forall>b\<in>set bs. \<not> mark used ?c ! b)
            \<and> sm_game_files ?r + length (filter is_game ?live) \<le> 1
         then Some (mark (mark used ?c) bs, add_files fat ?live ?r) else None)"
        using Cons.IH [of "mark used ?c" ?r] Cons.prems True by (simp add: Let_def)
      let ?bs = "concat (map (entry_chain fat) ?live)"
      have step: "check_entries fat (e # es) (used, r) = check_entries fat es (mark used ?c, ?r)"
        using True False Cons.prems by (simp add: check_entry_eq)
      have unused: "(\<forall>b\<in>set ?bs. \<not> mark used ?c ! b) \<longleftrightarrow> (\<forall>b\<in>set ?bs. \<not> used ! b) \<and> set ?c \<inter> set ?bs = {}"
        if "\<forall>e\<in>set ?live. entry_ok fat e"
      proof -
        have "mark used ?c ! b \<longleftrightarrow> used ! b \<or> b \<in> set ?c" if "b \<in> set ?bs" for b
          using that in_range [OF \<open>\<forall>e\<in>set ?live. entry_ok fat e\<close> refl] Cons.prems by (intro nth_mark) auto
        then show ?thesis by blast
      qed
      have games: "sm_game_files ?r + length (filter is_game ?live) =
          sm_game_files r + length (filter is_game (e # ?live))" by simp
      have sum: "add_files fat ?live ?r = add_files fat (e # ?live) r"
        by (simp add: add_files_def add.assoc)
      have cond: "((\<forall>e\<in>set ?live. entry_ok fat e) \<and> distinct ?bs \<and> (\<forall>b\<in>set ?bs. \<not> mark used ?c ! b)
            \<and> sm_game_files ?r + length (filter is_game ?live) \<le> 1) \<longleftrightarrow>
          ((\<forall>x\<in>set (e # ?live). entry_ok fat x) \<and> distinct (?c @ ?bs) \<and> (\<forall>b\<in>set (?c @ ?bs). \<not> used ! b)
            \<and> sm_game_files r + length (filter is_game (e # ?live)) \<le> 1)"
        unfolding games using True unused
        by (simp only: list.set ball_simps distinct_append set_append ball_Un) blast
      have live: "filter (\<lambda>e. e ! 0 \<noteq> 0) (e # es) = e # ?live" using False by simp
      show ?thesis
        unfolding step IH Let_def live list.map concat.simps mark_simps cond sum ..
    next
      case bad: False
      then have "check_entry fat e (used, r) = None"
        unfolding check_entry_eq [OF Cons.prems(1) False] by (rule if_not_P)
      then have "check_entries fat (e # es) (used, r) = None" by simp
      then show ?thesis
        using bad False Cons.prems by (auto simp: Let_def)
    qed
  qed
qed

lemma scan_directory_image:
  "\<forall>d\<in>set ds. d < 256 \<Longrightarrow>
   scan_directory read_image img fat ds st =
     (img, case check_entries fat (concat (map (\<lambda>d. block_entries (img d)) ds)) st of
        None \<Rightarrow> Inl Image_Filesystem | Some st' \<Rightarrow> Inr st')"
  by (induction ds arbitrary: st) (auto simp: read_image_def check_entries_append split: option.splits)

lemma read_all_image:
  "\<forall>b\<in>set bs. b < 256 \<Longrightarrow> read_all read_image img bs buf = (img, Some (if bs = [] then buf else img (last bs)))"
  by (induction bs arbitrary: buf) (auto simp: read_image_def)

lemma scan_user_eq:
  "scan_user fat bs free =
     (if \<forall>b\<in>set bs. le16 fat (2 * b) = vmu_free \<or> le16 fat (2 * b) = vmu_end \<or> le16 fat (2 * b) < 200
      then Some (free + length (filter (\<lambda>b. le16 fat (2 * b) = vmu_free) bs)) else None)"
  by (induction bs arbitrary: free) (auto simp: Let_def)


lemma chain_next: "b \<in> set (chain fat at k) \<Longrightarrow> le16 fat (2 * b) \<in> set (chain fat at k) \<or> b = last (chain fat at k)"
proof (induction k arbitrary: at)
  case (Suc k)
  show ?case
  proof (cases k)
    case (Suc k')
    then show ?thesis using Suc.IH [of "le16 fat (2 * at)"] \<open>b \<in> _\<close> by auto
  qed (use Suc.prems in simp)
qed simp

lemma entry_chain_next:
  "entry_ok fat e \<Longrightarrow> b \<in> set (entry_chain fat e) \<Longrightarrow> le16 fat (2 * b) = vmu_end \<or> le16 fat (2 * b) < 200"
  using chain_next [of b fat] by (auto simp: entry_ok_def entry_chain_def)

lemma files_ok_next:
  "files_ok fat es \<Longrightarrow> b \<in> set (concat (map (entry_chain fat) es)) \<Longrightarrow>
   b < 200 \<and> (le16 fat (2 * b) = vmu_end \<or> le16 fat (2 * b) < 200)"
  using entry_chain_next [of fat] by (fastforce simp: files_ok_def entry_ok_def)

lemma card_filter_split: "length (filter P [0..<n]) + length (filter (\<lambda>b. \<not> P b) [0..<n]) = n"
  using sum_length_filter_compl [of P "[0..<n]"] by simp

lemma validate_card_eq:
  fixes img work
  defines "fat \<equiv> img vmu_fat" and "es \<equiv> live_entries img"
  defines "bs \<equiv> concat (map (entry_chain fat) es)"
  defines "free \<equiv> length (filter (\<lambda>b. le16 fat (2 * b) = vmu_free) [0..<200])"
  shows "validate_card img work =
    (if \<not> root_geometry (img vmu_root) then (Image_Geometry, work\<lparr>ws_block := img vmu_root\<rparr>, no_summary)
     else let work = work\<lparr>ws_block := img vmu_root, ws_fat := fat\<rparr> in
     if \<not> system_allocation fat \<or> \<not> (\<forall>b<200. le16 fat (2 * b) = vmu_free \<or> le16 fat (2 * b) = vmu_end \<or> le16 fat (2 * b) < 200)
     then (Image_Filesystem, work, no_summary)
     else if \<not> files_ok fat es then (Image_Filesystem, work\<lparr>ws_used := replicate 200 False\<rparr>, no_summary)
     else let work = work\<lparr>ws_used := mark (replicate 200 False) bs\<rparr> in
     if \<not> (\<forall>b<200. b \<in> set bs \<or> le16 fat (2 * b) = vmu_free) \<or> length bs + free \<noteq> 200
     then (Image_Filesystem, work, no_summary)
     else (Image_OK, work, add_files fat es (no_summary\<lparr>sm_free_blocks := free\<rparr>)))"
proof -
  have read: "read_all read_image img [0..<256] (ws_block work) = (img, Some (img 255))"
    by (simp add: read_all_image)
  have fat: "read_image img vmu_fat = (img, Some fat)"
    by (simp add: read_image_def fat_def)
  have user: "scan_user fat [0..<200] 0 =
    (if \<forall>b<200. le16 fat (2 * b) = vmu_free \<or> le16 fat (2 * b) = vmu_end \<or> le16 fat (2 * b) < 200
     then Some free else None)"
    by (simp add: scan_user_eq free_def Ball_def)
  have scan: "scan_directory read_image img fat directory_blocks (replicate 200 False, no_summary\<lparr>sm_free_blocks := free\<rparr>) =
    (img, if files_ok fat es
     then Inr (mark (replicate 200 False) bs, add_files fat es (no_summary\<lparr>sm_free_blocks := free\<rparr>))
     else Inl Image_Filesystem)"
  proof -
    have "\<forall>d\<in>set directory_blocks. d < 256" by (auto simp: directory_blocks_def)
    moreover have "\<not> replicate 200 False ! b" if "\<forall>e\<in>set es. entry_ok fat e" "e \<in> set es" "b \<in> set (entry_chain fat e)" for e b
      using that by (auto simp: entry_ok_def)
    ultimately show ?thesis
      by (auto simp: scan_directory_image check_entries_eq dir_entries_def [symmetric]
          live_entries_def [symmetric] es_def [symmetric] bs_def [symmetric] files_ok_def no_summary_def Let_def)
  qed
  have all: "list_all (\<lambda>b. mark (replicate 200 False) bs ! b \<or> le16 fat (2 * b) = vmu_free) [0..<200] \<longleftrightarrow>
      (\<forall>b<200. b \<in> set bs \<or> le16 fat (2 * b) = vmu_free)"
    by (auto simp: list_all_iff)
  have sums: "sm_used_blocks (add_files fat es (no_summary\<lparr>sm_free_blocks := free\<rparr>)) = length bs"
    "sm_free_blocks (add_files fat es (no_summary\<lparr>sm_free_blocks := free\<rparr>)) = free"
    by (simp_all add: add_files_def bs_def no_summary_def)
  show ?thesis
    by (auto simp add: validate_card_def kui_vmu_image_validate_def read fat user scan all sums Let_def)
qed

lemma wf_card_counts:
  assumes "files_ok fat es" and "set bs = {b. b < 200 \<and> le16 fat (2 * b) \<noteq> vmu_free}"
    and "bs = concat (map (entry_chain fat) es)"
  shows "length bs + length (filter (\<lambda>b. le16 fat (2 * b) = vmu_free) [0..<200]) = 200"
proof -
  have "distinct bs" using assms(1,3) by (simp add: files_ok_def)
  then have "length bs = card {b. b < 200 \<and> le16 fat (2 * b) \<noteq> vmu_free}"
    using assms(2) by (metis distinct_card)
  also have "{b. b < 200 \<and> le16 fat (2 * b) \<noteq> vmu_free} = set (filter (\<lambda>b. le16 fat (2 * b) \<noteq> vmu_free) [0..<200])"
    by auto
  also have "card \<dots> = length (filter (\<lambda>b. le16 fat (2 * b) \<noteq> vmu_free) [0..<200])"
    by (rule distinct_card) simp
  finally show ?thesis
    using card_filter_split [of "\<lambda>b. le16 fat (2 * b) = vmu_free" 200] by linarith
qed

lemma wf_card_validates:
  assumes "wf_card img"
  shows "validate_card img work =
    (Image_OK, work\<lparr>ws_block := img vmu_root, ws_fat := img vmu_fat,
       ws_used := mark (replicate 200 False) (concat (map (entry_chain (img vmu_fat)) (live_entries img)))\<rparr>,
     card_summary img)"
proof -
  let ?fat = "img vmu_fat" and ?es = "live_entries img"
  let ?bs = "concat (map (entry_chain ?fat) ?es)"
  have wf: "root_geometry (img vmu_root)" "system_allocation ?fat" "files_ok ?fat ?es"
    "set ?bs = {b. b < 200 \<and> le16 ?fat (2 * b) \<noteq> vmu_free}"
    using assms by (simp_all add: wf_card_def Let_def)
  have next_ok: "\<forall>b<200. le16 ?fat (2 * b) = vmu_free \<or> le16 ?fat (2 * b) = vmu_end \<or> le16 ?fat (2 * b) < 200"
    using files_ok_next [OF wf(3)] wf(4) by blast
  have covered: "\<forall>b<200. b \<in> set ?bs \<or> le16 ?fat (2 * b) = vmu_free" using wf(4) by blast
  note cnt = wf_card_counts [OF wf(3,4) refl]
  then have free: "length (filter (\<lambda>b. le16 ?fat (2 * b) = vmu_free) [0..<200]) = 200 - length ?bs" by simp
  show ?thesis
    unfolding validate_card_eq Let_def
    using wf(1-3) next_ok covered cnt
    by (simp only: simp_thms if_True if_False free) (simp add: add_files_def card_summary_def no_summary_def Let_def)
qed

lemma validate_decides: "fst (validate_card img work) = Image_OK \<longleftrightarrow> wf_card img"
proof
  assume "wf_card img"
  then show "fst (validate_card img work) = Image_OK" by (simp add: wf_card_validates)
next
  let ?fat = "img vmu_fat" and ?es = "live_entries img"
  let ?bs = "concat (map (entry_chain ?fat) ?es)"
  assume "fst (validate_card img work) = Image_OK"
  then have "root_geometry (img vmu_root)" "system_allocation ?fat" "files_ok ?fat ?es"
    and cover: "\<forall>b<200. b \<in> set ?bs \<or> le16 ?fat (2 * b) = vmu_free"
    unfolding validate_card_eq Let_def by (auto split: if_splits)
  moreover have "b < 200 \<and> le16 ?fat (2 * b) \<noteq> vmu_free" if "b \<in> set ?bs" for b
    using files_ok_next [OF \<open>files_ok ?fat ?es\<close> that] by auto
  ultimately show "wf_card img"
    using cover unfolding wf_card_def Let_def by blast
qed

text \<open>
  C5. The admission check accepts a card exactly when it is well formed: standard geometry,
  intact system allocation, every file a chain of user blocks of its declared length that ends with
  the end mark, chains disjoint, at most one game file at block 0 in sequence, and no allocated block
  outside a file.  So cycles, shared blocks, orphans and truncated chains are all refused, and no
  well-formed card is.
\<close>

theorem vmu_image_validate_decides: "fst (validate_card img work) = Image_OK \<longleftrightarrow> wf_card img"
  by (rule validate_decides)

subsection \<open>Readers that may fail\<close>

text \<open>
  A block reader with a context.  \<open>view c\<close> is the card the context stands for and \<open>sound c\<close> the
  states in which its answers count: whenever a read succeeds it returns the block of the view,
  and the view stays.
\<close>

lemma read_image_lt [simp]: "b < 256 \<Longrightarrow> read_image img b = (img, Some (img b))"
  by (simp add: read_image_def)

locale honest_reader =
  fixes rd :: "'c \<Rightarrow> nat \<Rightarrow> 'c \<times> bytes option"
    and view :: "'c \<Rightarrow> card"
    and sound :: "'c \<Rightarrow> bool"
  assumes read_honest: "\<lbrakk>sound c; b < 256; rd c b = (c', Some d)\<rbrakk> \<Longrightarrow> d = view c b \<and> sound c' \<and> view c' = view c"
begin

lemma read_all_honest:
  "\<lbrakk>sound c; \<forall>b\<in>set bs. b < 256; read_all rd c bs buf = (c', Some d)\<rbrakk> \<Longrightarrow>
   read_all read_image (view c) bs buf = (view c, Some d) \<and> sound c' \<and> view c' = view c"
proof (induction bs arbitrary: c buf)
  case (Cons b bs)
  then obtain c1 d1 where "rd c b = (c1, Some d1)" "read_all rd c1 bs d1 = (c', Some d)"
    by (auto split: prod.splits option.splits)
  moreover from this Cons.prems read_honest [of c b c1 d1] have "d1 = view c b" "sound c1" "view c1 = view c"
    by auto
  ultimately show ?case using Cons.IH [of c1 d1] Cons.prems by simp
qed simp

lemma scan_directory_honest:
  "\<lbrakk>sound c; \<forall>d\<in>set ds. d < 256; scan_directory rd c fat ds st = (c', x); x \<noteq> Inl Image_IO\<rbrakk> \<Longrightarrow>
   scan_directory read_image (view c) fat ds st = (view c, x)"
proof (induction ds arbitrary: c st)
  case (Cons d ds)
  then obtain c1 blk where rd: "rd c d = (c1, Some blk)"
    by (auto split: prod.splits option.splits)
  with Cons.prems read_honest [of c d c1 blk] have "blk = view c d" "sound c1" "view c1 = view c" by auto
  then show ?case
    using Cons.IH [of c1] Cons.prems rd
    by (cases "check_entries fat (block_entries blk) st") auto
qed simp

theorem validate_honest:
  assumes "sound c" and "kui_vmu_image_validate (Some rd) c vmu_image_bytes work = (c', r, w, s)" and "r \<noteq> Image_IO"
  shows "validate_card (view c) work = (r, w, s)"
proof -
  obtain c1 x where all: "read_all rd c [0..<256] (ws_block work) = (c1, x)" by fastforce
  with assms(2,3) obtain root where root: "x = Some root"
    by (cases x) (auto simp: kui_vmu_image_validate_def)
  have img: "read_all read_image (view c) [0..<256] (ws_block work) = (view c, Some root)"
    and c1: "sound c1" "view c1 = view c"
    using read_all_honest [OF assms(1), of "[0..<256]" "ws_block work" c1 root] all root by auto
  show ?thesis
  proof (cases "root_geometry root")
    case False
    then show ?thesis
      using assms(2) all root img by (auto simp: validate_card_def kui_vmu_image_validate_def Let_def)
  next
    case True
    obtain c2 y where "rd c1 vmu_fat = (c2, y)" by fastforce
    with assms(2,3) True all root obtain fat where fat: "rd c1 vmu_fat = (c2, Some fat)"
      by (cases y) (auto simp: kui_vmu_image_validate_def Let_def)
    have c2: "fat = view c vmu_fat" "sound c2" "view c2 = view c"
      using read_honest [OF c1(1) _ fat] c1 by auto
    obtain c3 z where scan: "scan_directory rd c2 fat directory_blocks
        (replicate 200 False, no_summary\<lparr>sm_free_blocks := the (scan_user fat [0..<200] 0)\<rparr>) = (c3, z)" by fastforce
    have dirs: "\<forall>d\<in>set directory_blocks. d < 256" by (auto simp: directory_blocks_def)
    show ?thesis
    proof (cases "system_allocation fat \<and> scan_user fat [0..<200] 0 \<noteq> None \<and> z \<noteq> Inl Image_IO")
      case True
      then have "scan_directory read_image (view c) fat directory_blocks
        (replicate 200 False, no_summary\<lparr>sm_free_blocks := the (scan_user fat [0..<200] 0)\<rparr>) = (view c, z)"
        using scan_directory_honest [OF c2(2) dirs scan] c2(3) by simp
      then show ?thesis
        using assms(2) all root img \<open>root_geometry root\<close> fat c2(1) scan True
        by (auto simp: validate_card_def kui_vmu_image_validate_def Let_def read_image_def
            split: option.splits sum.splits prod.splits if_splits)
    next
      case False
      then show ?thesis
        using assms(2,3) all root img \<open>root_geometry root\<close> fat c2(1) scan
        by (auto simp: validate_card_def kui_vmu_image_validate_def Let_def read_image_def
            split: option.splits sum.splits prod.splits if_splits)
    qed
  qed
qed

corollary validate_honest_wf:
  assumes "sound c" and "kui_vmu_image_validate (Some rd) c vmu_image_bytes work = (c', Image_OK, w, s)"
  shows "wf_card (view c) \<and> s = card_summary (view c) \<and> ws_fat w = view c vmu_fat"
proof -
  have "validate_card (view c) work = (Image_OK, w, s)" by (rule validate_honest [OF assms]) simp
  then show ?thesis
    using validate_decides [of "view c" work] wf_card_validates [of "view c" work] by auto
qed

end

lemma live_entries_cong: "(\<And>b. b < 256 \<Longrightarrow> f b = g b) \<Longrightarrow> live_entries f = live_entries g"
  unfolding live_entries_def dir_entries_def
  by (rule arg_cong [where f = "\<lambda>x. filter _ (concat x)"], rule map_cong) (auto simp: directory_blocks_def)

lemma validate_card_cong: "(\<And>b. b < 256 \<Longrightarrow> f b = g b) \<Longrightarrow> validate_card f work = validate_card g work"
proof -
  assume same: "\<And>b. b < 256 \<Longrightarrow> f b = g b"
  have "f 254 = g 254" "f 255 = g 255" "live_entries f = live_entries g"
    using same by (simp_all add: live_entries_cong [OF same])
  then show ?thesis unfolding validate_card_eq by (simp only:)
qed

interpretation memory_reader: honest_reader read_image "\<lambda>img. img" "\<lambda>_. True"
  by unfold_locales (auto simp: read_image_def split: if_splits)

subsection \<open>The blank card\<close>

lemma concat_pairs_nth:
  assumes "\<And>i. length (f i) = 2" and "i < n" and "k < 2"
  shows "concat (map f [0..<n]) ! (2 * i + k) = f i ! k"
  using assms(2)
proof (induction n)
  case (Suc n)
  have len: "length (concat (map f [0..<m])) = 2 * m" for m
    by (induction m) (simp_all add: assms(1))
  show ?case
  proof (cases "i = n")
    case True
    then show ?thesis using assms(1,3) by (simp add: nth_append len)
  next
    case False
    then show ?thesis using Suc assms(3) by (simp add: nth_append len)
  qed
qed simp

lemma length_fat_block [simp]: "length (make_block vmu_fat stamp) = 512"
  by (simp add: make_block_def length_concat comp_def sum_list_triv)

lemma system_next_bound: "system_next b < 65536"
  by (auto simp: system_next_def)

lemma le16_fat_block: "b < 256 \<Longrightarrow> le16 (make_block vmu_fat stamp) (2 * b) = system_next b"
proof -
  assume "b < 256"
  then have "le16 (make_block vmu_fat stamp) (2 * b) = le16 (put16 (system_next b)) 0"
    using concat_pairs_nth [of "\<lambda>i. put16 (system_next i)" b 256 0]
      concat_pairs_nth [of "\<lambda>i. put16 (system_next i)" b 256 1]
    by (intro le16_cong) (simp_all add: make_block_def)
  then show ?thesis using system_next_bound by (simp add: le16_put16)
qed

lemma root_block_geometry: "length stamp = 8 \<Longrightarrow> root_geometry (make_block vmu_root stamp)"
  by (simp add: root_geometry_def make_block_def Let_def byte_simps)

lemma blank_live_entries: "live_entries (\<lambda>b. make_block b stamp) = []"
proof -
  have "window (replicate 512 0) (32 * s) 32 ! 0 = (0 :: u8)" if "s < 16" for s
    using that by (simp add: nth_window)
  moreover have "\<forall>d\<in>set directory_blocks. make_block d stamp = replicate 512 0"
    by (auto simp: directory_blocks_def make_block_def)
  ultimately show ?thesis
    by (auto simp: live_entries_def dir_entries_def block_entries_def filter_empty_conv)
qed

lemma blank_system_allocation: "system_allocation (make_block vmu_fat stamp)"
  unfolding system_allocation_def list_all_iff set_upt by (auto simp: le16_fat_block)

lemma blank_user_free: "{b. b < 200 \<and> le16 (make_block vmu_fat stamp) (2 * b) \<noteq> vmu_free} = {}"
  by (auto simp: le16_fat_block system_next_def)

lemma blank_card_wf: "length stamp = 8 \<Longrightarrow> wf_card (\<lambda>b. make_block b stamp)"
  unfolding wf_card_def Let_def blank_live_entries blank_user_free
  by (simp add: root_block_geometry blank_system_allocation files_ok_def)

text \<open>
  The canonical blank card, the 256 blocks of \<open>kui_vmu_image_blank_block\<close>, is admitted as a
  card with no file, no game, no used block and 200 free ones.
\<close>

theorem blank_card_admitted:
  "case validate_card (\<lambda>b. the (snd (kui_vmu_image_blank_block b))) work of (r, w, s) \<Rightarrow>
     r = Image_OK \<and> s = \<lparr>sm_files = 0, sm_game_files = 0, sm_used_blocks = 0, sm_free_blocks = 200\<rparr>"
proof -
  let ?blank = "\<lambda>b. the (snd (kui_vmu_image_blank_block b))" and ?made = "\<lambda>b. make_block b default_time"
  have same: "?blank b = ?made b" if "b < 256" for b
    using that by (simp add: kui_vmu_image_blank_block_def)
  have "validate_card ?blank work = validate_card ?made work"
    by (rule validate_card_cong) (rule same)
  then show ?thesis
    by (simp add: wf_card_validates blank_card_wf default_time_def card_summary_def blank_live_entries)
qed

context honest_reader
begin

lemma blank_check_honest:
  "\<lbrakk>sound c; \<forall>b\<in>set bs. b < 256; blank_check rd c bs = (c', r)\<rbrakk> \<Longrightarrow>
   (r = Image_OK \<longrightarrow> sound c' \<and> (\<forall>b\<in>set bs. zeroes (view c b))) \<and>
   (r = Image_OK \<or> r = Image_Not_Blank \<longrightarrow> view c' = view c) \<and>
   (r = Image_Not_Blank \<longrightarrow> (\<exists>b\<in>set bs. \<not> zeroes (view c b)))"
proof (induction bs arbitrary: c)
  case (Cons b bs)
  show ?case
  proof (cases "snd (rd c b)")
    case None
    then show ?thesis using Cons.prems by (auto split: prod.splits)
  next
    case (Some d)
    then obtain c1 where rd: "rd c b = (c1, Some d)" by (cases "rd c b") simp
    with Cons.prems have "d = view c b" "sound c1" "view c1 = view c"
      using read_honest [of c b c1 d] by auto
    then show ?thesis using Cons.IH [of c1] Cons.prems rd by (cases "zeroes d") auto
  qed
qed simp

lemma verify_blocks_honest:
  "\<lbrakk>sound c; \<forall>b\<in>set bs. b < 256; verify_blocks rd c stamp bs = (c', Image_OK)\<rbrakk> \<Longrightarrow>
   view c' = view c \<and> (\<forall>b\<in>set bs. view c b = make_block b stamp)"
proof (induction bs arbitrary: c)
  case (Cons b bs)
  then obtain c1 d where rd: "rd c b = (c1, Some d)"
    by (auto split: prod.splits option.splits)
  with Cons.prems have "d = view c b" "sound c1" "view c1 = view c"
    using read_honest [of c b c1 d] by auto
  then show ?case using Cons.IH [of c1] Cons.prems rd by (cases "d = make_block b stamp") auto
qed simp

end

lemma write_blocks_keeps:
  assumes "\<And>c b d c' ok. P c \<Longrightarrow> wr c b d = (c', ok) \<Longrightarrow> P c'"
  shows "P c \<Longrightarrow> write_blocks wr c stamp bs = (c', ok) \<Longrightarrow> P c'"
  by (induction bs arbitrary: c) (auto split: prod.splits if_splits dest: assms)

lemma wf_card_cong: "(\<And>b. b < 256 \<Longrightarrow> f b = g b) \<Longrightarrow> wf_card f = wf_card g"
  by (simp add: wf_card_def live_entries_cong [of f g])

lemma verify_blocks_cases:
  "verify_blocks rd c stamp bs = (c', r) \<Longrightarrow> r = Image_OK \<or> r = Image_IO \<or> r = Image_Verify"
  by (induction bs arbitrary: c) (auto split: prod.splits option.splits if_splits)

lemma valid_time_default [simp]: "valid_time default_time"
  by (simp add: valid_time_def default_time_def unbcd_def month_days_def Let_def drop_bit_eq_div)

lemma blank_check_keeps:
  assumes "\<And>c b c' x. P c \<Longrightarrow> b < 256 \<Longrightarrow> rd c b = (c', x) \<Longrightarrow> P c'"
  shows "P c \<Longrightarrow> \<forall>b\<in>set bs. b < 256 \<Longrightarrow> blank_check rd c bs = (c', r) \<Longrightarrow> P c'"
  by (induction bs arbitrary: c) (auto split: prod.splits option.splits if_splits dest: assms)

lemma blank_check_cases:
  "blank_check rd c bs = (c', r) \<Longrightarrow> r = Image_OK \<or> r = Image_IO \<or> r = Image_Not_Blank"
  by (induction bs arbitrary: c) (auto split: prod.splits option.splits if_splits)

text \<open>
  C9. Formatting never destroys data and never claims a card it did not verify.  Take a device whose reads, also those that fail,
  leave the card alone and return what it holds when they succeed, and whose writes and barriers do anything.  In every outcome, I/O
  failures included: a card with a nonzero byte is exactly as it was and is answered with \<open>Image_Not_Blank\<close>, \<open>Image_IO\<close> or
  \<open>Image_Argument\<close>; a call that is refused as \<open>Image_Argument\<close> or \<open>Image_Not_Blank\<close> changes nothing, the latter only for a card with a
  nonzero byte; so only a card that was all zero is ever written.  When the formatter returns \<open>Image_OK\<close>, every block was zero before,
  the size and the timestamp were right, the device now holds the canonical blank card, and that card is well formed.
\<close>

theorem format_blank_safe:
  assumes "honest_reader rd view sound" and "sound c"
    and "\<And>c b c' x. sound c \<Longrightarrow> b < 256 \<Longrightarrow> rd c b = (c', x) \<Longrightarrow> sound c' \<and> view c' = view c"
    and "\<And>c b d c' ok. sound c \<Longrightarrow> wr c b d = (c', ok) \<Longrightarrow> sound c'"
    and "\<And>c c' ok. sound c \<Longrightarrow> sy c = (c', ok) \<Longrightarrow> sound c'"
    and "stamp = (case ts of None \<Rightarrow> default_time | Some t \<Rightarrow> t)" and "length stamp = 8"
    and "kui_vmu_image_format_blank
      (Some \<lparr>io_context = c, io_read_block = Some rd, io_write_block = Some wr, io_sync = Some sy\<rparr>) n ts = (Some c', r)"
  shows "((\<exists>b<256. \<not> zeroes (view c b)) \<longrightarrow> view c' = view c \<and> (r = Image_Not_Blank \<or> r = Image_IO \<or> r = Image_Argument)) \<and>
    (r = Image_Argument \<or> r = Image_Not_Blank \<longrightarrow> view c' = view c) \<and>
    (r = Image_Not_Blank \<longrightarrow> (\<exists>b<256. \<not> zeroes (view c b))) \<and>
    (r = Image_OK \<longrightarrow> (\<forall>b<256. zeroes (view c b)) \<and> n = vmu_image_bytes \<and> valid_time stamp \<and> wf_card (view c') \<and>
      (\<forall>b<256. view c' b = make_block b stamp))"
proof (cases "n = vmu_image_bytes \<and> valid_time stamp")
  case False
  then show ?thesis using assms(8) by (auto simp: kui_vmu_image_format_blank_def assms(6) [symmetric] Let_def split: if_splits)
next
  case go: True
  obtain c1 r1 where check: "blank_check rd c [0..<256] = (c1, r1)" by fastforce
  note blank = honest_reader.blank_check_honest [OF assms(1,2) _ check]
  have keep: "sound c1 \<and> view c1 = view c"
    by (rule blank_check_keeps [where P = "\<lambda>x. sound x \<and> view x = view c", OF _ _ _ check]) (use assms(2,3) in auto)
  have run: "(c', r) = (if r1 \<noteq> Image_OK then (c1, r1) else case write_blocks wr c1 stamp [0..<vmu_root] of (c2, ok) \<Rightarrow>
      if \<not> ok then (c2, Image_IO) else case sy c2 of (c3, ok) \<Rightarrow> if \<not> ok then (c3, Image_IO)
      else case wr c3 vmu_root (make_block vmu_root stamp) of (c4, ok) \<Rightarrow> if \<not> ok then (c4, Image_IO)
      else case sy c4 of (c5, ok) \<Rightarrow> if \<not> ok then (c5, Image_IO) else verify_blocks rd c5 stamp [0..<256])"
    using assms(8) go check
    by (auto simp: kui_vmu_image_format_blank_def assms(6) [symmetric] Let_def simp del: upt_rec_numeral split: if_splits prod.splits)
  show ?thesis
  proof (cases "r1 = Image_OK")
    case False
    then have "c' = c1" "r = r1" using run by simp_all
    then show ?thesis using False blank_check_cases [OF check] blank keep by auto
  next
    case r1: True
    obtain c2 ok2 where w: "write_blocks wr c1 stamp [0..<vmu_root] = (c2, ok2)" by fastforce
    obtain c3 ok3 where s3: "sy c2 = (c3, ok3)" by fastforce
    obtain c4 ok4 where w4: "wr c3 vmu_root (make_block vmu_root stamp) = (c4, ok4)" by fastforce
    obtain c5 ok5 where s5: "sy c4 = (c5, ok5)" by fastforce
    obtain c6 r6 where ver: "verify_blocks rd c5 stamp [0..<256] = (c6, r6)" by fastforce
    have out: "r = Image_IO \<or> r = Image_Verify \<or> r = Image_OK \<and> c' = c6 \<and> r6 = Image_OK"
      using run r1 w s3 w4 s5 ver verify_blocks_cases [OF ver] by (auto simp del: upt_rec_numeral split: if_splits)
    have zero: "\<forall>b<256. zeroes (view c b)" using blank r1 by auto
    have "sound c2" using write_blocks_keeps [where P = sound and wr = wr] assms(4) w keep by blast
    then have "sound c5"
      using assms(5) [OF _ s3] assms(4) [OF _ w4] assms(5) [OF _ s5] by blast
    then have "\<forall>b<256. view c6 b = make_block b stamp" if "r6 = Image_OK"
      using honest_reader.verify_blocks_honest [OF assms(1), of c5 "[0..<256]" stamp c6] ver that by auto
    then show ?thesis
      using out zero go wf_card_cong [of "view c6" "\<lambda>b. make_block b stamp"] blank_card_wf [OF assms(7)]
      by auto
  qed
qed

text \<open>
  A device that keeps what it is given, the instance on which the formatter is run below.
\<close>

definition memory_io :: "card \<Rightarrow> card vmu_image_io" where
  "memory_io img = \<lparr>io_context = img, io_read_block = Some read_image,
     io_write_block = Some (\<lambda>c b d. (c(b := d), True)), io_sync = Some (\<lambda>c. (c, True))\<rparr>"

lemma memory_blank_check: "\<forall>b\<in>set bs. b < 256 \<and> zeroes (img b) \<Longrightarrow> blank_check read_image img bs = (img, Image_OK)"
  by (induction bs) auto

lemma memory_write_blocks:
  "write_blocks (\<lambda>c b d. (c(b := d), True)) img stamp bs = ((\<lambda>b. if b \<in> set bs then make_block b stamp else img b), True)"
  by (induction bs arbitrary: img) (auto simp: fun_eq_iff)

lemma memory_verify:
  "\<forall>b\<in>set bs. b < 256 \<and> img b = make_block b stamp \<Longrightarrow> verify_blocks read_image img stamp bs = (img, Image_OK)"
  by (induction bs) auto

lemma memory_format:
  assumes "\<forall>b<256. zeroes (img b)" and "valid_time (case ts of None \<Rightarrow> default_time | Some t \<Rightarrow> t)"
  shows "kui_vmu_image_format_blank (Some (memory_io img)) vmu_image_bytes ts =
    (Some (\<lambda>b. if b < 256 then make_block b (case ts of None \<Rightarrow> default_time | Some t \<Rightarrow> t) else img b), Image_OK)"
proof -
  let ?stamp = "case ts of None \<Rightarrow> default_time | Some t \<Rightarrow> t"
  have check: "blank_check read_image img [0..<256] = (img, Image_OK)"
    using assms(1) by (intro memory_blank_check) auto
  have final: "(\<lambda>b. if b < vmu_root then make_block b ?stamp else img b)(vmu_root := make_block vmu_root ?stamp) =
      (\<lambda>b. if b < 256 then make_block b ?stamp else img b)" (is "_ = ?out")
    by (auto simp: fun_eq_iff)
  have verify: "verify_blocks read_image ?out ?stamp [0..<256] = (?out, Image_OK)"
    by (rule memory_verify) auto
  show ?thesis
    using check assms(2) verify
    by (simp add: kui_vmu_image_format_blank_def memory_io_def memory_write_blocks final Let_def del: upt_rec_numeral)
qed

lemma memory_refuses:
  assumes "\<not> zeroes (img 0)"
  shows "kui_vmu_image_format_blank (Some (memory_io img)) vmu_image_bytes None = (Some img, Image_Not_Blank)"
proof -
  have "[0..<256] = 0 # [1..<256 :: nat]" by (simp add: upt_conv_Cons del: upt_rec_numeral)
  then have "blank_check read_image img [0..<256] = (img, Image_Not_Blank)" using assms by (simp del: upt_rec_numeral)
  then show ?thesis by (simp add: kui_vmu_image_format_blank_def memory_io_def Let_def del: upt_rec_numeral)
qed

text \<open>Two runs: the blank device is formatted and holds a well-formed card, a device with one byte set is refused as it is.\<close>

theorem format_blank_safe_witness:
  "kui_vmu_image_format_blank (Some (memory_io (\<lambda>b. replicate 512 0))) vmu_image_bytes None =
     (Some (\<lambda>b. if b < 256 then make_block b default_time else replicate 512 0), Image_OK) \<and>
   wf_card (\<lambda>b. if b < 256 then make_block b default_time else replicate 512 0) \<and>
   kui_vmu_image_format_blank (Some (memory_io (\<lambda>b. 1 # replicate 511 0))) vmu_image_bytes None =
     (Some (\<lambda>b. 1 # replicate 511 0), Image_Not_Blank) \<and>
   (\<exists>b<256. \<not> zeroes ((\<lambda>b :: nat. 1 # replicate 511 0) b))"
proof -
  let ?out = "\<lambda>b. if b < 256 then make_block b default_time else replicate 512 0" and ?bad = "\<lambda>b :: nat. 1 # replicate 511 0 :: bytes"
  have run: "kui_vmu_image_format_blank (Some (memory_io (\<lambda>b. replicate 512 0))) vmu_image_bytes None = (Some ?out, Image_OK)"
    using memory_format [of "\<lambda>b. replicate 512 0" None] by (simp add: fun_eq_iff cong: if_cong)
  have bad: "kui_vmu_image_format_blank (Some (memory_io ?bad)) vmu_image_bytes None = (Some ?bad, Image_Not_Blank)"
    by (rule memory_refuses) (simp add: zeroes_def)
  note safe = format_blank_safe [OF memory_reader.honest_reader_axioms TrueI _ TrueI TrueI refl, where ts = None]
  have t: "length default_time = 8" by (simp add: default_time_def)
  have "wf_card ?out"
    using safe [OF _ _ run [unfolded memory_io_def]] by (simp add: t)
  moreover have "\<exists>b<256. \<not> zeroes (?bad b)"
    using safe [OF _ _ bad [unfolded memory_io_def]] by (simp add: t)
  ultimately show ?thesis using run bad by blast
qed

end
