(* ===== verification/Vmu_Store.thy ===== *)
theory Vmu_Store
  imports Kui_Checksums
begin

text \<open>
  The redo store under a card image (src/core/vmu_store.c): a 256-sector image file and a
  two-sector journal sidecar on an SD card, addressed through extent maps.  A block write zeroes
  the marker, stores the payload, stores a CRC-protected marker and only then overwrites the image
  sector, with a barrier after each step; opening replays a committed record.

  The sector device is a parameter: three callbacks on an explicit context (\<open>None\<close> and \<open>False\<close> are
  the nonzero returns).  What the header of the component demands of it is the predicate
  \<open>sector_device\<close>: \<open>live\<close> is what reads return and \<open>crash\<close> the set of media contents that a power
  loss may leave behind.  A barrier that succeeds leaves only the live contents, a write may leave any bytes in
  its own sector (for the marker sector: the new bytes, the old ones, or bytes that fail the CRC)
  and damages no other.  The tests for NULL pointers have no counterpart.
\<close>

unbundle bit_operations_syntax

subsection \<open>Configuration and state\<close>

datatype vmu_store_result =
  Store_OK | Store_Argument | Store_Mapping | Store_IO | Store_Corrupt | Store_Blocked | Store_Identity

record store_extent =
  first_lba :: u64
  sectors :: u32

record 'c vmu_store_io =
  dev_context :: 'c
  read_sector :: "'c \<Rightarrow> u64 \<Rightarrow> 'c \<times> bytes option"
  write_sector :: "'c \<Rightarrow> u64 \<Rightarrow> bytes \<Rightarrow> 'c \<times> bool"
  dev_sync :: "'c \<Rightarrow> 'c \<times> bool"

record vmu_store_config =
  cfg_card_sectors :: u64
  cfg_image_id :: bytes
  image_extents :: "store_extent list"
  journal_extents :: "store_extent list"

record 'c vmu_store =
  st_io :: "'c vmu_store_io"
  st_image :: "store_extent list"
  st_journal :: "store_extent list"
  st_card_sectors :: u64
  st_sequence :: u64
  mapping_crc :: u32
  st_image_id :: bytes
  st_data :: bytes
  st_marker :: bytes
  st_ready :: bool

definition marker_magic :: bytes where
  "marker_magic = [0x4b, 0x55, 0x49, 0x56, 0x4d, 0x55, 0x4a, 0x31]"

subsection \<open>Extent maps\<close>

definition extents_meet :: "store_extent \<Rightarrow> store_extent \<Rightarrow> bool" where
  "extents_meet a b = (first_lba a < first_lba b + ucast (sectors b) \<and> first_lba b < first_lba a + ucast (sectors a))"

fun extents_scan :: "store_extent list \<Rightarrow> store_extent list \<Rightarrow> u64 \<Rightarrow> nat \<Rightarrow> nat \<Rightarrow> bool" where
  "extents_scan seen [] capacity expected tot = (tot = expected)"
| "extents_scan seen (e # es) capacity expected tot =
     (let n = sectors e in
      if n = 0 \<or> unat n > expected - tot \<or> ucast n > capacity \<or> first_lba e > capacity - ucast n then False
      else if \<not> list_all (\<lambda>d. \<not> extents_meet e d) seen then False
      else extents_scan (seen @ [e]) es capacity expected (tot + unat n))"

definition extents_valid :: "store_extent list \<Rightarrow> u64 \<Rightarrow> nat \<Rightarrow> bool" where
  "extents_valid e capacity expected =
     (if e = [] \<or> length e > 16 then False else extents_scan [] e capacity expected 0)"

definition maps_valid :: "vmu_store_config \<Rightarrow> bool" where
  "maps_valid c =
     (if cfg_card_sectors c = 0 \<or> zeroes (cfg_image_id c)
         \<or> \<not> extents_valid (image_extents c) (cfg_card_sectors c) 256
         \<or> \<not> extents_valid (journal_extents c) (cfg_card_sectors c) 2 then False
      else list_all (\<lambda>a. list_all (\<lambda>b. \<not> extents_meet a b) (journal_extents c)) (image_extents c))"

definition extent_crc :: "u32 \<Rightarrow> store_extent \<Rightarrow> u32" where
  "extent_crc crc e = kui_retail_crc32 crc (put64 (first_lba e) @ put32 (sectors e))"

definition map_crc :: "'c vmu_store \<Rightarrow> u32" where
  "map_crc s =
     (let crc = kui_retail_crc32 0 (st_image_id s);
          wire = put64 (st_card_sectors s) @ put32 (of_nat (length (st_image s))) @ put32 (of_nat (length (st_journal s)));
          crc = kui_retail_crc32 crc wire;
          crc = foldl extent_crc crc (st_image s)
      in foldl extent_crc crc (st_journal s))"

fun sector_lba :: "store_extent list \<Rightarrow> nat \<Rightarrow> u64" where
  "sector_lba [] logical = 0xffffffffffffffff"
| "sector_lba (e # es) logical =
     (if logical < unat (sectors e) then first_lba e + of_nat logical
      else sector_lba es (logical - unat (sectors e)))"

subsection \<open>Device calls\<close>

definition set_context :: "'c vmu_store \<Rightarrow> 'c \<Rightarrow> 'c vmu_store" where
  "set_context s c = s\<lparr>st_io := (st_io s)\<lparr>dev_context := c\<rparr>\<rparr>"

abbreviation store_context :: "'c vmu_store \<Rightarrow> 'c" where
  "store_context s \<equiv> dev_context (st_io s)"

definition store_read_sector :: "'c vmu_store \<Rightarrow> u64 \<Rightarrow> 'c vmu_store \<times> bytes option" where
  "store_read_sector s lba =
     (case read_sector (st_io s) (store_context s) lba of (c, d) \<Rightarrow> (set_context s c, d))"

definition io_error :: "'c vmu_store \<Rightarrow> 'c vmu_store \<times> vmu_store_result" where
  "io_error s = (s\<lparr>st_ready := False\<rparr>, Store_IO)"

definition write_sync :: "'c vmu_store \<Rightarrow> u64 \<Rightarrow> bytes \<Rightarrow> 'c vmu_store \<times> vmu_store_result" where
  "write_sync s lba data =
     (case write_sector (st_io s) (store_context s) lba data of (c, ok) \<Rightarrow>
        if \<not> ok then io_error (set_context s c)
        else case dev_sync (st_io s) c of (c, ok) \<Rightarrow>
          if \<not> ok then io_error (set_context s c) else (set_context s c, Store_OK))"

subsection \<open>Operations\<close>

definition marker_crc_ok :: "bytes \<Rightarrow> bool" where
  "marker_crc_ok m = (get32 m 508 = kui_retail_crc32 0 (window m 0 508))"

definition marker_fields_ok :: "bytes \<Rightarrow> bool" where
  "marker_fields_ok m =
     (window m 0 8 = marker_magic \<and> get32 m 8 = 1 \<and> get32 m 12 = 512
      \<and> get32 m 44 < 256 \<and> get32 m 52 = 1 \<and> zeroes (window m 64 444))"

definition marker_identity_ok :: "'c vmu_store \<Rightarrow> bytes \<Rightarrow> bool" where
  "marker_identity_ok s m =
     (window m 16 16 = st_image_id s \<and> get64 m 32 = st_card_sectors s \<and> get32 m 40 = mapping_crc s)"

definition recover :: "'c vmu_store \<Rightarrow> 'c vmu_store \<times> vmu_store_result" where
  "recover s =
     (case store_read_sector s (sector_lba (st_journal s) 1) of
        (s, None) \<Rightarrow> io_error s
      | (s, Some m) \<Rightarrow>
        (let s = s\<lparr>st_marker := m\<rparr> in
         if \<not> marker_crc_ok m then (s, Store_OK)
         else if \<not> marker_fields_ok m then (s, Store_Corrupt)
         else if \<not> marker_identity_ok s m then (s, Store_Identity)
         else case store_read_sector s (sector_lba (st_journal s) 0) of
            (s, None) \<Rightarrow> io_error s
          | (s, Some d) \<Rightarrow>
            (let s = s\<lparr>st_data := d\<rparr> in
             if get32 m 48 \<noteq> kui_retail_crc32 0 d then (s, Store_Corrupt)
             else let s = s\<lparr>st_sequence := get64 m 56\<rparr> in
               case dev_sync (st_io s) (store_context s) of (c, ok) \<Rightarrow>
                 if \<not> ok then io_error (set_context s c)
                 else write_sync (set_context s c) (sector_lba (st_image s) (unat (get32 m 44))) d)))"

definition kui_vmu_store_open :: "'c vmu_store_io \<Rightarrow> vmu_store_config \<Rightarrow> 'c vmu_store \<times> vmu_store_result" where
  "kui_vmu_store_open io c =
     (let s = \<lparr>st_io = io, st_image = [], st_journal = [], st_card_sectors = 0, st_sequence = 0,
               mapping_crc = 0, st_image_id = replicate 16 0, st_data = replicate 512 0,
               st_marker = replicate 512 0, st_ready = False\<rparr>
      in if \<not> maps_valid c then (s, Store_Mapping)
         else let s = s\<lparr>st_card_sectors := cfg_card_sectors c, st_image := image_extents c,
                        st_journal := journal_extents c, st_image_id := cfg_image_id c\<rparr>;
                  s = s\<lparr>mapping_crc := map_crc s\<rparr>
              in case recover s of (s, r) \<Rightarrow> (if r = Store_OK then s\<lparr>st_ready := True\<rparr> else s, r))"

definition kui_vmu_store_read :: "'c vmu_store \<Rightarrow> nat \<Rightarrow> 'c vmu_store \<times> vmu_store_result \<times> bytes option" where
  "kui_vmu_store_read s block =
     (if block \<ge> 256 then (s, Store_Argument, None)
      else if \<not> st_ready s then (s, Store_Blocked, None)
      else case store_read_sector s (sector_lba (st_image s) block) of
          (s, None) \<Rightarrow> (case io_error s of (s, r) \<Rightarrow> (s, r, None))
        | (s, Some d) \<Rightarrow> (s, Store_OK, Some d))"

text \<open>The commit marker, built over a zeroed sector.\<close>

definition store_marker :: "'c vmu_store \<Rightarrow> nat \<Rightarrow> bytes \<Rightarrow> u64 \<Rightarrow> bytes" where
  "store_marker s block data sequence =
     (let m = patch (replicate 512 0) 0 marker_magic;
          m = patch m 8 (put32 1);
          m = patch m 12 (put32 512);
          m = patch m 16 (st_image_id s);
          m = patch m 32 (put64 (st_card_sectors s));
          m = patch m 40 (put32 (mapping_crc s));
          m = patch m 44 (put32 (of_nat block));
          m = patch m 48 (put32 (kui_retail_crc32 0 data));
          m = patch m 52 (put32 1);
          m = patch m 56 (put64 sequence)
      in patch m 508 (put32 (kui_retail_crc32 0 (window m 0 508))))"

definition kui_vmu_store_write :: "'c vmu_store \<Rightarrow> nat \<Rightarrow> bytes \<Rightarrow> 'c vmu_store \<times> vmu_store_result" where
  "kui_vmu_store_write s block sector =
     (if block \<ge> 256 then (s, Store_Argument)
      else if \<not> st_ready s then (s, Store_Blocked)
      else let s = s\<lparr>st_data := sector, st_marker := replicate 512 0\<rparr>;
               marker_lba = sector_lba (st_journal s) 1
           in case write_sync s marker_lba (st_marker s) of (s, r) \<Rightarrow>
             if r \<noteq> Store_OK then (s, r)
             else case write_sync s (sector_lba (st_journal s) 0) (st_data s) of (s, r) \<Rightarrow>
               if r \<noteq> Store_OK then (s, r)
               else let s = s\<lparr>st_sequence := (if st_sequence s = 0xffffffffffffffff then 1 else st_sequence s + 1)\<rparr>;
                        s = s\<lparr>st_marker := store_marker s block (st_data s) (st_sequence s)\<rparr>
                    in case write_sync s marker_lba (st_marker s) of (s, r) \<Rightarrow>
                      if r \<noteq> Store_OK then (s, r)
                      else write_sync s (sector_lba (st_image s) block) (st_data s))"

definition kui_vmu_store_sync :: "'c vmu_store \<Rightarrow> 'c vmu_store \<times> vmu_store_result" where
  "kui_vmu_store_sync s =
     (if \<not> st_ready s then (s, Store_Blocked)
      else case dev_sync (st_io s) (store_context s) of (c, ok) \<Rightarrow>
        if \<not> ok then io_error (set_context s c) else (set_context s c, Store_OK))"

definition kui_vmu_store_checkpoint :: "'c vmu_store \<Rightarrow> 'c vmu_store \<times> vmu_store_result" where
  "kui_vmu_store_checkpoint s =
     (case kui_vmu_store_sync s of (s, r) \<Rightarrow>
        if r \<noteq> Store_OK then (s, r)
        else let s = s\<lparr>st_marker := replicate 512 0\<rparr>
             in write_sync s (sector_lba (st_journal s) 1) (st_marker s))"

subsection \<open>Maps place every logical sector on its own card sector\<close>

definition extent_range :: "store_extent \<Rightarrow> nat set" where
  "extent_range e = {unat (first_lba e)..<unat (first_lba e) + unat (sectors e)}"

definition extent_in :: "u64 \<Rightarrow> store_extent \<Rightarrow> bool" where
  "extent_in cap e = (sectors e \<noteq> 0 \<and> unat (first_lba e) + unat (sectors e) \<le> unat cap)"

definition map_sectors :: "store_extent list \<Rightarrow> nat" where
  "map_sectors es = sum_list (map (\<lambda>e. unat (sectors e)) es)"

lemma unat_ucast_32_64 [simp]: "unat (ucast (n :: u32) :: u64) = unat n"
proof -
  have "unat n < 2 ^ 32" using unsigned_less [of n, where ?'a = nat] by simp
  then have "unat n < 2 ^ 64" by simp
  then show ?thesis by (simp add: unsigned_ucast_eq take_bit_nat_eq_self)
qed

lemma extent_in_check:
  "(n = 0 \<or> unat n > k \<or> ucast n > cap \<or> first_lba e > cap - ucast n) = 
   (\<not> (unat n \<le> k \<and> extent_in cap e))" if "n = sectors e" for cap :: u64
proof (cases "ucast n \<le> cap")
  case True
  then have "unat (cap - ucast n) = unat cap - unat n"
    by (simp add: unat_sub)
  moreover have "unat n \<le> unat cap" using True by (simp add: word_le_nat_alt)
  ultimately show ?thesis
    using that by (auto simp: extent_in_def word_less_nat_alt word_le_nat_alt)
next
  case False
  then show ?thesis
    using that by (auto simp: extent_in_def word_less_nat_alt word_le_nat_alt)
qed

lemma extent_end:
  "extent_in cap e \<Longrightarrow> unat (first_lba e + ucast (sectors e)) = unat (first_lba e) + unat (sectors e)"
proof -
  assume "extent_in cap e"
  moreover have "unat cap < 2 ^ 64" using unsigned_less [of cap] by simp
  ultimately show ?thesis by (simp add: extent_in_def unat_word_ariths)
qed

lemma unat_pos: "0 < unat n \<longleftrightarrow> n \<noteq> 0" for n :: "'a::len word"
  using unsigned_eq_0_iff [of n] by auto

lemma extents_meet_iff:
  assumes "extent_in cap a" and "extent_in cap b"
  shows "extents_meet a b \<longleftrightarrow> extent_range a \<inter> extent_range b \<noteq> {}"
proof -
  have "0 < unat (sectors a)" "0 < unat (sectors b)"
    using assms by (simp_all add: extent_in_def unat_pos)
  then show ?thesis
    using extent_end [OF assms(1)] extent_end [OF assms(2)]
    by (auto simp: extents_meet_def extent_range_def word_less_nat_alt Int_atLeastLessThan max_def min_def)
qed

lemma extents_scan_sound:
  "extents_scan seen es cap expected tot \<Longrightarrow> tot \<le> expected \<Longrightarrow> \<forall>d\<in>set seen. extent_in cap d \<Longrightarrow>
   (\<forall>e\<in>set es. extent_in cap e \<and> (\<forall>d\<in>set seen. extent_range d \<inter> extent_range e = {})) \<and>
   sorted_wrt (\<lambda>a b. extent_range a \<inter> extent_range b = {}) es \<and> tot + map_sectors es = expected"
proof (induction es arbitrary: seen tot)
  case Nil
  then show ?case by (simp add: map_sectors_def)
next
  case (Cons e es)
  have step: "unat (sectors e) \<le> expected - tot" "extent_in cap e" "\<forall>d\<in>set seen. \<not> extents_meet e d"
    "extents_scan (seen @ [e]) es cap expected (tot + unat (sectors e))"
    using Cons.prems(1) unfolding extents_scan.simps Let_def extent_in_check [OF refl]
    by (auto split: if_splits simp: list_all_iff)
  have "\<forall>d\<in>set seen. extent_range d \<inter> extent_range e = {}"
    using step(2,3) Cons.prems(3) extents_meet_iff by blast
  moreover have "(\<forall>x\<in>set es. extent_in cap x \<and> (\<forall>d\<in>set (seen @ [e]). extent_range d \<inter> extent_range x = {})) \<and>
     sorted_wrt (\<lambda>a b. extent_range a \<inter> extent_range b = {}) es \<and>
     tot + unat (sectors e) + map_sectors es = expected"
    using step Cons.prems by (intro Cons.IH) auto
  ultimately show ?case using step(2) by (auto simp: map_sectors_def)
qed

definition map_ok :: "u64 \<Rightarrow> nat \<Rightarrow> store_extent list \<Rightarrow> bool" where
  "map_ok cap n es =
     ((\<forall>e\<in>set es. extent_in cap e) \<and> sorted_wrt (\<lambda>a b. extent_range a \<inter> extent_range b = {}) es \<and> map_sectors es = n)"

lemma extents_valid_map_ok: "extents_valid es cap n \<Longrightarrow> map_ok cap n es"
  using extents_scan_sound [of "[]" es cap n 0] by (auto simp: extents_valid_def map_ok_def split: if_splits)

lemma sector_lba_range:
  "\<forall>e\<in>set es. extent_in cap e \<Longrightarrow> l < map_sectors es \<Longrightarrow> \<exists>e\<in>set es. unat (sector_lba es l) \<in> extent_range e"
proof (induction es arbitrary: l)
  case (Cons e es)
  show ?case
  proof (cases "l < unat (sectors e)")
    case True
    have "unat cap < 2 ^ 64" using unsigned_less [of cap] by simp
    with True Cons.prems have "unat (first_lba e + of_nat l) = unat (first_lba e) + l"
      by (simp add: extent_in_def unat_word_ariths unat_of_nat)
    then show ?thesis using True by (simp add: extent_range_def)
  next
    case False
    then show ?thesis using Cons.IH [of "l - unat (sectors e)"] Cons.prems by (auto simp: map_sectors_def)
  qed
qed (simp add: map_sectors_def)

lemma sector_lba_inj:
  "\<forall>e\<in>set es. extent_in cap e \<Longrightarrow> sorted_wrt (\<lambda>a b. extent_range a \<inter> extent_range b = {}) es \<Longrightarrow>
   l < map_sectors es \<Longrightarrow> k < map_sectors es \<Longrightarrow> sector_lba es l = sector_lba es k \<Longrightarrow> l = k"
proof (induction es arbitrary: l k)
  case (Cons e es)
  have first: "unat (sector_lba (e # es) i) = unat (first_lba e) + i" if "i < unat (sectors e)" for i
  proof -
    have "unat cap < 2 ^ 64" using unsigned_less [of cap] by simp
    with that Cons.prems show ?thesis by (simp add: extent_in_def unat_word_ariths unat_of_nat)
  qed
  have later: "unat (sector_lba (e # es) i) \<notin> extent_range e" if "\<not> i < unat (sectors e)" "i < map_sectors (e # es)" for i
  proof -
    have "i - unat (sectors e) < map_sectors es" using that by (simp add: map_sectors_def)
    then obtain d where "d \<in> set es" "unat (sector_lba es (i - unat (sectors e))) \<in> extent_range d"
      using sector_lba_range [of es cap] Cons.prems(1) by auto
    then show ?thesis using that Cons.prems(2) by auto
  qed
  consider "l < unat (sectors e)" "k < unat (sectors e)" | "\<not> l < unat (sectors e)" "\<not> k < unat (sectors e)"
    | "l < unat (sectors e)" "\<not> k < unat (sectors e)" | "\<not> l < unat (sectors e)" "k < unat (sectors e)" by blast
  then show ?case
  proof cases
    case 1
    then show ?thesis using first [OF 1(1)] first [OF 1(2)] Cons.prems(5) by (metis add_left_cancel)
  next
    case 2
    then have "l - unat (sectors e) = k - unat (sectors e)"
      using Cons.prems by (intro Cons.IH) (simp_all add: map_sectors_def)
    then show ?thesis using 2 by simp
  next
    case 3
    then have "unat (sector_lba (e # es) l) \<in> extent_range e"
      unfolding first [OF 3(1)] extent_range_def by simp
    then show ?thesis using later [OF 3(2) Cons.prems(4)] Cons.prems(5) by metis
  next
    case 4
    then have "unat (sector_lba (e # es) k) \<in> extent_range e"
      unfolding first [OF 4(2)] extent_range_def by simp
    then show ?thesis using later [OF 4(1) Cons.prems(3)] Cons.prems(5) by metis
  qed
qed (simp add: map_sectors_def)

definition all_sectors :: "vmu_store_config \<Rightarrow> u64 list" where
  "all_sectors c = map (sector_lba (image_extents c)) [0..<256] @ map (sector_lba (journal_extents c)) [0..<2]"

lemma maps_separate:
  assumes "maps_valid c"
  shows "distinct (all_sectors c) \<and> (\<forall>lba\<in>set (all_sectors c). lba < cfg_card_sectors c)"
proof -
  have im: "map_ok (cfg_card_sectors c) 256 (image_extents c)" and jo: "map_ok (cfg_card_sectors c) 2 (journal_extents c)"
    and apart: "\<forall>a\<in>set (image_extents c). \<forall>b\<in>set (journal_extents c). \<not> extents_meet a b"
    using assms extents_valid_map_ok by (auto simp: maps_valid_def list_all_iff split: if_splits)
  have below: "sector_lba es l < cap" if "map_ok cap n es" "l < n" for es l cap n
  proof -
    from that obtain e where "extent_in cap e" "unat (sector_lba es l) \<in> extent_range e"
      using sector_lba_range [of es cap l] by (auto simp: map_ok_def)
    then show ?thesis by (auto simp: extent_in_def extent_range_def word_less_nat_alt)
  qed
  have inj: "inj_on (sector_lba es) (set [0..<n])" if "map_ok cap n es" for es cap n
    using that sector_lba_inj [of es cap] by (auto simp: map_ok_def inj_on_def)
  have "sector_lba (image_extents c) l \<noteq> sector_lba (journal_extents c) k" if lk: "l < 256" "k < 2" for l k
  proof -
    obtain a where a: "a \<in> set (image_extents c)" "unat (sector_lba (image_extents c) l) \<in> extent_range a"
      using sector_lba_range [of "image_extents c" "cfg_card_sectors c" l] im lk by (auto simp: map_ok_def)
    obtain b where b: "b \<in> set (journal_extents c)" "unat (sector_lba (journal_extents c) k) \<in> extent_range b"
      using sector_lba_range [of "journal_extents c" "cfg_card_sectors c" k] jo lk by (auto simp: map_ok_def)
    have "extent_range a \<inter> extent_range b = {}"
      using a b apart im jo extents_meet_iff by (metis map_ok_def)
    then show ?thesis using a b by auto
  qed
  moreover have "distinct (map (sector_lba (image_extents c)) [0..<256])" "distinct (map (sector_lba (journal_extents c)) [0..<2])"
    using inj [OF im] inj [OF jo] by (simp_all only: distinct_map distinct_upt simp_thms)
  ultimately show ?thesis
    unfolding all_sectors_def distinct_append using below [OF im] below [OF jo] by auto
qed

text \<open>
  C13. A configuration that passes \<open>maps_valid\<close> gives the 256 image sectors and the 2 journal sectors 258
  different card sectors, all below the card's capacity: no store operation can reach another file's
  sector, and the journal never lies in the image.
\<close>

theorem maps_valid_separates:
  "maps_valid c \<Longrightarrow> distinct (all_sectors c) \<and> (\<forall>lba\<in>set (all_sectors c). lba < cfg_card_sectors c)"
  by (rule maps_separate)

text \<open>The marker that a write builds passes every check of \<open>recover\<close>.\<close>

lemma store_marker_fields:
  fixes s block data q
  assumes "length (st_image_id s) = 16" and "block < 256"
  defines "m \<equiv> store_marker s block data q"
  shows "marker_crc_ok m" and "marker_fields_ok m" and "marker_identity_ok s m"
    and "get32 m 44 = of_nat block" and "get32 m 48 = kui_retail_crc32 0 data" and "length m = 512"
proof -
  note parts = m_def store_marker_def Let_def marker_magic_def assms(1) byte_simps
  have w: "window m 0 8 = marker_magic" "window m 8 4 = put32 1" "window m 12 4 = put32 512"
    "window m 16 16 = st_image_id s" "window m 32 8 = put64 (st_card_sectors s)"
    "window m 40 4 = put32 (mapping_crc s)" "window m 44 4 = put32 (of_nat block)"
    "window m 48 4 = put32 (kui_retail_crc32 0 data)" "window m 52 4 = put32 1"
    "window m 508 4 = put32 (kui_retail_crc32 0 (window m 0 508))"
    "window m 64 444 = window (replicate 512 0) 64 444"
    by (simp_all add: parts)
  show len: "length m = 512" by (simp add: parts)
  note g = get32_put32_at [OF w(2)] get32_put32_at [OF w(3)] get64_put64_at [OF w(5)] get32_put32_at [OF w(6)]
    get32_put32_at [OF w(7)] get32_put32_at [OF w(8)] get32_put32_at [OF w(9)] get32_put32_at [OF w(10)]
  show "marker_crc_ok m" using g len by (simp add: marker_crc_ok_def)
  show "get32 m 44 = of_nat block" "get32 m 48 = kui_retail_crc32 0 data" using g len by simp_all
  show "marker_identity_ok s m" using g w len by (simp add: marker_identity_ok_def)
  have "(of_nat block :: u32) < 256" using assms(2) by (simp add: word_less_nat_alt unat_of_nat)
  moreover have "zeroes (window m 64 444)" unfolding w(11) by (simp add: window_def)
  ultimately show "marker_fields_ok m" using g w(1) len by (simp add: marker_fields_ok_def)
qed

lemma nibble_loop_zeroes:
  "nibble_loop t c (replicate (numeral n) 0) =
   nibble_loop t (nibble_step t (nibble_step t c)) (replicate (pred_numeral n) 0)"
  by (simp add: numeral_eq_Suc)

lemma cleared_marker_crc: "nibble_loop crc32_nibble 0xffffffff (replicate 508 0) \<noteq> 0xffffffff"
  by (simp add: nibble_loop_zeroes nibble_step_def crc32_nibble_def)

lemma xor_zero_eq: "x XOR y = 0 \<Longrightarrow> x = y" for x y :: "'a::len word"
  by (metis xor.assoc xor.left_neutral xor_self_eq xor.right_neutral)

lemma cleared_marker: "\<not> marker_crc_ok (replicate 512 0)"
proof
  assume "marker_crc_ok (replicate 512 0)"
  then have "nibble_loop crc32_nibble 0xffffffff (replicate 508 0) XOR 0xffffffff = 0"
    by (simp add: marker_crc_ok_def kui_retail_crc32_def window_def get32_def)
  then show False using cleared_marker_crc xor_zero_eq by blast
qed

subsection \<open>Power loss\<close>

definition sector_device ::
    "'c vmu_store_io \<Rightarrow> ('c \<Rightarrow> u64 \<Rightarrow> bytes) \<Rightarrow> ('c \<Rightarrow> (u64 \<Rightarrow> bytes) set) \<Rightarrow> u64 \<Rightarrow> bool" where
  "sector_device io live crash marker_lba =
     ((\<forall>c l c' d. read_sector io c l = (c', Some d) \<longrightarrow> d = live c l \<and> live c' = live c)
    \<and> (\<forall>c l c' d. read_sector io c l = (c', d) \<longrightarrow> crash c' \<subseteq> crash c)
    \<and> (\<forall>c l d c' ok m. write_sector io c l d = (c', ok) \<longrightarrow> m \<in> crash c' \<longrightarrow>
         m \<in> crash c \<or> (\<exists>m0\<in>crash c. \<exists>x. m = m0(l := x) \<and> (l = marker_lba \<longrightarrow> x = d \<or> \<not> marker_crc_ok x)))
    \<and> (\<forall>c l d c'. write_sector io c l d = (c', True) \<longrightarrow> live c' = (live c)(l := d))
    \<and> (\<forall>c c' ok. dev_sync io c = (c', ok) \<longrightarrow> crash c' \<subseteq> crash c)
    \<and> (\<forall>c c'. dev_sync io c = (c', True) \<longrightarrow> live c' = live c \<and> crash c' \<subseteq> {live c}))"

lemma sector_device_laws:
  assumes "sector_device io live crash mk"
  shows "read_sector io c l = (c', Some d) \<Longrightarrow> d = live c l \<and> live c' = live c"
    and "read_sector io c l = (c', x) \<Longrightarrow> crash c' \<subseteq> crash c"
    and "write_sector io c l d = (c', ok) \<Longrightarrow> m \<in> crash c' \<Longrightarrow>
      m \<in> crash c \<or> (\<exists>m0\<in>crash c. \<exists>x. m = m0(l := x) \<and> (l = mk \<longrightarrow> x = d \<or> \<not> marker_crc_ok x))"
    and "write_sector io c l d = (c', True) \<Longrightarrow> live c' = (live c)(l := d)"
    and "dev_sync io c = (c', ok) \<Longrightarrow> crash c' \<subseteq> crash c"
    and "dev_sync io c = (c', True) \<Longrightarrow> live c' = live c \<and> crash c' \<subseteq> {live c}"
proof -
  note conjs = assms [unfolded sector_device_def]
  show "read_sector io c l = (c', Some d) \<Longrightarrow> d = live c l \<and> live c' = live c"
    using conjs [THEN conjunct1] by simp
  show "read_sector io c l = (c', x) \<Longrightarrow> crash c' \<subseteq> crash c"
    using conjs [THEN conjunct2, THEN conjunct1] by blast
  show "write_sector io c l d = (c', ok) \<Longrightarrow> m \<in> crash c' \<Longrightarrow>
      m \<in> crash c \<or> (\<exists>m0\<in>crash c. \<exists>x. m = m0(l := x) \<and> (l = mk \<longrightarrow> x = d \<or> \<not> marker_crc_ok x))"
    using conjs [THEN conjunct2, THEN conjunct2, THEN conjunct1] by metis
  show "write_sector io c l d = (c', True) \<Longrightarrow> live c' = (live c)(l := d)"
    using conjs [THEN conjunct2, THEN conjunct2, THEN conjunct2, THEN conjunct1] by blast
  show "dev_sync io c = (c', ok) \<Longrightarrow> crash c' \<subseteq> crash c"
    using conjs [THEN conjunct2, THEN conjunct2, THEN conjunct2, THEN conjunct2, THEN conjunct1] by blast
  show "dev_sync io c = (c', True) \<Longrightarrow> live c' = live c \<and> crash c' \<subseteq> {live c}"
    using conjs [THEN conjunct2, THEN conjunct2, THEN conjunct2, THEN conjunct2, THEN conjunct2] by simp
qed

text \<open>The device only depends on the callbacks, not on the context that is current.\<close>

lemma sector_device_context [simp]:
  "sector_device (io\<lparr>dev_context := c\<rparr>) live crash mk = sector_device io live crash mk"
  by (simp add: sector_device_def)

lemma set_context_simps [simp]:
  "store_context (set_context s c) = c" "st_image (set_context s c) = st_image s"
  "st_journal (set_context s c) = st_journal s" "st_card_sectors (set_context s c) = st_card_sectors s"
  "st_image_id (set_context s c) = st_image_id s" "mapping_crc (set_context s c) = mapping_crc s"
  "st_data (set_context s c) = st_data s" "st_ready (set_context s c) = st_ready s"
  "st_sequence (set_context s c) = st_sequence s"
  "read_sector (st_io (set_context s c)) = read_sector (st_io s)"
  "write_sector (st_io (set_context s c)) = write_sector (st_io s)"
  "dev_sync (st_io (set_context s c)) = dev_sync (st_io s)"
  "sector_device (st_io (set_context s c)) live crash mk = sector_device (st_io s) live crash mk"
  by (simp_all add: set_context_def)

text \<open>What stays fixed while a store is open.\<close>

definition same_store :: "'c vmu_store \<Rightarrow> 'c vmu_store \<Rightarrow> bool" where
  "same_store s t =
     (st_image t = st_image s \<and> st_journal t = st_journal s \<and> st_card_sectors t = st_card_sectors s
      \<and> st_image_id t = st_image_id s \<and> mapping_crc t = mapping_crc s
      \<and> read_sector (st_io t) = read_sector (st_io s) \<and> write_sector (st_io t) = write_sector (st_io s)
      \<and> dev_sync (st_io t) = dev_sync (st_io s))"

lemma same_store_refl [simp]: "same_store s s"
  by (simp add: same_store_def)

lemma same_store_trans: "same_store s t \<Longrightarrow> same_store t u \<Longrightarrow> same_store s u"
  by (simp add: same_store_def)

abbreviation marker_lba :: "'c vmu_store \<Rightarrow> u64" where "marker_lba s \<equiv> sector_lba (st_journal s) 1"
abbreviation data_lba :: "'c vmu_store \<Rightarrow> u64" where "data_lba s \<equiv> sector_lba (st_journal s) 0"
abbreviation block_lba :: "'c vmu_store \<Rightarrow> nat \<Rightarrow> u64" where "block_lba s b \<equiv> sector_lba (st_image s) b"

text \<open>
  The card that a medium stands for: the image sectors, with the block of a committed record
  replaced by its payload.  A medium is recoverable when a marker that passes its CRC is a proper
  record of this store with an intact payload.
\<close>

definition recoverable :: "'c vmu_store \<Rightarrow> (u64 \<Rightarrow> bytes) \<Rightarrow> bool" where
  "recoverable s m =
     (let k = m (marker_lba s) in
      marker_crc_ok k \<longrightarrow> marker_fields_ok k \<and> marker_identity_ok s k \<and> get32 k 48 = kui_retail_crc32 0 (m (data_lba s)))"

definition card_view :: "'c vmu_store \<Rightarrow> (u64 \<Rightarrow> bytes) \<Rightarrow> nat \<Rightarrow> bytes" where
  "card_view s m b =
     (let k = m (marker_lba s) in
      if b \<ge> 256 then [] else if marker_crc_ok k \<and> b = unat (get32 k 44) then m (data_lba s) else m (block_lba s b))"

definition store_geometry :: "'c vmu_store \<Rightarrow> bool" where
  "store_geometry s =
     (length (st_image_id s) = 16 \<and> distinct (map (block_lba s) [0..<256] @ map (sector_lba (st_journal s)) [0..<2]))"

text \<open>An open store at rest on a card that holds the image \<open>img\<close>.\<close>

definition store_at :: "('c \<Rightarrow> u64 \<Rightarrow> bytes) \<Rightarrow> ('c \<Rightarrow> (u64 \<Rightarrow> bytes) set) \<Rightarrow> 'c vmu_store \<Rightarrow> (nat \<Rightarrow> bytes) \<Rightarrow> bool" where
  "store_at live crash s img =
     (sector_device (st_io s) live crash (marker_lba s) \<and> store_geometry s \<and> st_ready s
      \<and> crash (store_context s) \<subseteq> {live (store_context s)}
      \<and> recoverable s (live (store_context s)) \<and> card_view s (live (store_context s)) = img
      \<and> (\<forall>b<256. live (store_context s) (block_lba s b) = img b))"

lemma store_geometry_lbas:
  assumes "store_geometry s" and "b < 256"
  shows "block_lba s b \<noteq> marker_lba s" "block_lba s b \<noteq> data_lba s" "marker_lba s \<noteq> data_lba s"
    "b' < 256 \<Longrightarrow> block_lba s b = block_lba s b' \<Longrightarrow> b = b'"
proof -
  have d: "distinct (map (block_lba s) [0..<256])" "distinct (map (sector_lba (st_journal s)) [0..<2])"
    "set (map (block_lba s) [0..<256]) \<inter> set (map (sector_lba (st_journal s)) [0..<2]) = {}"
    using assms(1) unfolding store_geometry_def distinct_append by blast+
  have "block_lba s b \<in> set (map (block_lba s) [0..<256])" using assms(2) by auto
  moreover have "marker_lba s \<in> set (map (sector_lba (st_journal s)) [0..<2])"
    "data_lba s \<in> set (map (sector_lba (st_journal s)) [0..<2])" by auto
  ultimately show "block_lba s b \<noteq> marker_lba s" "block_lba s b \<noteq> data_lba s" using d(3) by (metis disjoint_iff)+
  show "marker_lba s \<noteq> data_lba s" using d(2) by (simp add: upt_rec)
  show "b' < 256 \<Longrightarrow> block_lba s b = block_lba s b' \<Longrightarrow> b = b'"
    using d(1) assms(2) unfolding distinct_map inj_on_def by auto
qed

lemma same_store_lbas:
  "same_store s t \<Longrightarrow> marker_lba t = marker_lba s \<and> data_lba t = data_lba s \<and> block_lba t = block_lba s
     \<and> recoverable t = recoverable s \<and> card_view t = card_view s \<and> store_geometry t = store_geometry s
     \<and> sector_device (st_io t) live crash mk = sector_device (st_io s) live crash mk"
  unfolding same_store_def recoverable_def card_view_def store_geometry_def marker_identity_ok_def
    sector_device_def Let_def
  by (simp add: fun_eq_iff)

text \<open>One write and its barrier.\<close>

lemma write_sync_step:
  assumes "sector_device (st_io s) live crash (marker_lba s)" and "write_sync s l d = (t, r)"
  shows "same_store s t" and "r = Store_OK \<or> r = Store_IO" and "st_data t = st_data s" "st_sequence t = st_sequence s"
    and "m \<in> crash (store_context t) \<Longrightarrow> m \<in> crash (store_context s) \<or>
      (\<exists>m0\<in>crash (store_context s). \<exists>x. m = m0(l := x) \<and> (l = marker_lba s \<longrightarrow> x = d \<or> \<not> marker_crc_ok x))"
    and "r = Store_OK \<Longrightarrow> st_ready t = st_ready s \<and> live (store_context t) = (live (store_context s))(l := d) \<and>
      crash (store_context t) \<subseteq> {live (store_context t)}"
proof -
  obtain c1 ok1 where w: "write_sector (st_io s) (store_context s) l d = (c1, ok1)" by fastforce
  obtain c2 ok2 where y: "dev_sync (st_io s) c1 = (c2, ok2)" by fastforce
  have t: "t = (if \<not> ok1 then (set_context s c1)\<lparr>st_ready := False\<rparr>
      else if \<not> ok2 then (set_context s c2)\<lparr>st_ready := False\<rparr> else set_context s c2)"
    and r: "r = (if ok1 \<and> ok2 then Store_OK else Store_IO)"
    using assms(2) w y by (auto simp: write_sync_def io_error_def split: if_splits)
  show "same_store s t" "st_data t = st_data s" "st_sequence t = st_sequence s"
    by (auto simp: t same_store_def set_context_def)
  show "r = Store_OK \<or> r = Store_IO" by (simp add: r)
  have ctx: "store_context t = (if ok1 then c2 else c1)"
    by (simp add: t)
  note laws = sector_device_laws [OF assms(1)]
  have "crash c2 \<subseteq> crash c1" by (rule laws(5) [OF y])
  moreover have "m \<in> crash c1 \<Longrightarrow> m \<in> crash (store_context s) \<or>
      (\<exists>m0\<in>crash (store_context s). \<exists>x. m = m0(l := x) \<and> (l = marker_lba s \<longrightarrow> x = d \<or> \<not> marker_crc_ok x))"
    by (rule laws(3) [OF w])
  ultimately show "m \<in> crash (store_context t) \<Longrightarrow> m \<in> crash (store_context s) \<or>
      (\<exists>m0\<in>crash (store_context s). \<exists>x. m = m0(l := x) \<and> (l = marker_lba s \<longrightarrow> x = d \<or> \<not> marker_crc_ok x))"
    unfolding ctx by (auto split: if_splits)
  assume "r = Store_OK"
  then have ok: "ok1" "ok2" using r by (auto split: if_splits)
  have "live c1 = (live (store_context s))(l := d)"
    using laws(4) w ok by simp
  moreover have "live c2 = live c1" "crash c2 \<subseteq> {live c1}"
    using laws(6) y ok by auto
  ultimately show "st_ready t = st_ready s \<and> live (store_context t) = (live (store_context s))(l := d) \<and>
      crash (store_context t) \<subseteq> {live (store_context t)}"
    using ok by (simp add: t)
qed

text \<open>The two kinds of medium a write passes through: no valid marker, and a committed record.\<close>

lemma uncommitted_medium:
  assumes "\<not> marker_crc_ok (m (marker_lba s))" and "\<forall>b<256. m (block_lba s b) = img b" and "\<forall>b\<ge>256. img b = []"
  shows "recoverable s m \<and> card_view s m = img"
  using assms by (auto simp: recoverable_def card_view_def Let_def fun_eq_iff)

lemma committed_medium:
  assumes "store_geometry s" and "same_store s t" and "block < 256"
    and "m (marker_lba s) = store_marker t block data q" and "m (data_lba s) = data"
    and "\<forall>b<256. b \<noteq> block \<longrightarrow> m (block_lba s b) = img b" and "\<forall>b\<ge>256. img b = []"
  shows "recoverable s m \<and> card_view s m = img(block := data)"
proof -
  have "length (st_image_id t) = 16" using assms(1,2) by (simp add: store_geometry_def same_store_def)
  note f = store_marker_fields [OF this assms(3), of data q, folded assms(4)]
  have "marker_identity_ok s (m (marker_lba s))"
    using f(3) assms(2) by (simp add: marker_identity_ok_def same_store_def)
  then have "recoverable s m" using f assms(5) by (simp add: recoverable_def Let_def)
  moreover have "unat (get32 (m (marker_lba s)) 44) = block"
    using f(4) assms(3) by (simp add: unat_of_nat)
  then have "card_view s m = img(block := data)"
    using f(1) assms(3,5-7) by (auto simp: card_view_def Let_def fun_eq_iff)
  ultimately show ?thesis ..
qed

text \<open>A write that starts on a quiet device touches one sector of the live medium.\<close>

definition quiet :: "('c \<Rightarrow> u64 \<Rightarrow> bytes) \<Rightarrow> ('c \<Rightarrow> (u64 \<Rightarrow> bytes) set) \<Rightarrow> 'c vmu_store \<Rightarrow> bool" where
  "quiet live crash s = (crash (store_context s) \<subseteq> {live (store_context s)})"

lemma quiet_write:
  assumes "sector_device (st_io s) live crash (marker_lba s)" and "quiet live crash s"
    and "write_sync s l d = (t, r)" and "m \<in> crash (store_context t)"
  obtains x where "m = (live (store_context s))(l := x)" and "l = marker_lba s \<longrightarrow> x = d \<or> x = live (store_context s) l \<or> \<not> marker_crc_ok x"
proof -
  let ?L = "live (store_context s)"
  have only: "m0 = ?L" if "m0 \<in> crash (store_context s)" for m0
    using that assms(2) by (auto simp: quiet_def)
  from write_sync_step(5) [OF assms(1,3,4)] consider "m = ?L"
    | x where "m = ?L(l := x)" "l = marker_lba s \<longrightarrow> x = d \<or> \<not> marker_crc_ok x"
    using only by blast
  then show thesis
  proof cases
    case 1
    then have "m = ?L(l := ?L l)" by simp
    then show thesis by (rule that) simp
  next
    case 2
    show thesis by (rule that [OF 2(1)]) (use 2(2) in blast)
  qed
qed

definition outcome :: "('c \<Rightarrow> (u64 \<Rightarrow> bytes) set) \<Rightarrow> 'c vmu_store \<Rightarrow> (nat \<Rightarrow> bytes) set \<Rightarrow> bool" where
  "outcome crash s imgs = (\<forall>m\<in>crash (store_context s). recoverable s m \<and> card_view s m \<in> imgs)"

text \<open>
  The invariant between two barriers of a write: the device is quiet, the image sectors hold \<open>img\<close>
  and \<open>store_geometry\<close> keeps the sectors apart.
\<close>

definition staging :: "('c \<Rightarrow> u64 \<Rightarrow> bytes) \<Rightarrow> ('c \<Rightarrow> (u64 \<Rightarrow> bytes) set) \<Rightarrow> 'c vmu_store \<Rightarrow> (nat \<Rightarrow> bytes) \<Rightarrow> bool" where
  "staging live crash s img =
     (sector_device (st_io s) live crash (marker_lba s) \<and> store_geometry s \<and> quiet live crash s \<and> st_ready s
      \<and> (\<forall>b<256. live (store_context s) (block_lba s b) = img b) \<and> (\<forall>b\<ge>256. img b = []))"

lemma staging_facts:
  assumes "staging live crash s img"
  shows "sector_device (st_io s) live crash (marker_lba s)" "store_geometry s" "quiet live crash s" "st_ready s"
    "\<forall>b<256. live (store_context s) (block_lba s b) = img b" "\<forall>b\<ge>256. img b = []"
  using assms by (simp_all add: staging_def)

text \<open>Journal writes keep the image sectors.\<close>

lemma journal_write:
  assumes "staging live crash s img" and "l = marker_lba s \<or> l = data_lba s" and "write_sync s l d = (t, Store_OK)"
  shows "staging live crash t img" and "live (store_context t) = (live (store_context s))(l := d)"
    and "same_store s t" and "st_data t = st_data s" and "st_sequence t = st_sequence s"
proof -
  note f = staging_facts [OF assms(1)]
  note st = write_sync_step [OF f(1) assms(3)]
  note same = same_store_lbas [OF st(1)]
  show "live (store_context t) = (live (store_context s))(l := d)" "same_store s t" "st_data t = st_data s"
    "st_sequence t = st_sequence s" using st by simp_all
  show "staging live crash t img"
    using f st same assms(2) store_geometry_lbas [OF f(2)] by (auto simp: staging_def quiet_def)
qed

lemma outcome_same: "same_store s t \<Longrightarrow> outcome crash t imgs \<longleftrightarrow> (\<forall>m\<in>crash (store_context t). recoverable s m \<and> card_view s m \<in> imgs)"
  using same_store_lbas by (metis outcome_def)

text \<open>Step 1 clears the marker, step 2 stores the payload: a power loss leaves the old card.\<close>

lemma clear_outcome:
  assumes "staging live crash s img" and "recoverable s (live (store_context s))"
    and "card_view s (live (store_context s)) = img" and "write_sync s (marker_lba s) (replicate 512 0) = (t, r)"
  shows "outcome crash t {img}"
proof -
  note f = staging_facts [OF assms(1)]
  note st = write_sync_step [OF f(1) assms(4)]
  have "recoverable s m \<and> card_view s m = img" if m: "m \<in> crash (store_context t)" for m
  proof -
    obtain x where x: "m = (live (store_context s))(marker_lba s := x)" "x = live (store_context s) (marker_lba s) \<or> \<not> marker_crc_ok x"
      using quiet_write [OF f(1,3) assms(4) m] cleared_marker by metis
    show ?thesis
    proof (cases "marker_crc_ok x")
      case True
      then have "m = live (store_context s)" using x by auto
      then show ?thesis using assms(2,3) by simp
    next
      case False
      then show ?thesis using x(1) f(5,6) store_geometry_lbas [OF f(2)] by (intro uncommitted_medium) auto
    qed
  qed
  then show ?thesis by (simp add: outcome_same [OF st(1)])
qed

lemma payload_outcome:
  assumes "staging live crash s img" and "\<not> marker_crc_ok (live (store_context s) (marker_lba s))"
    and "write_sync s (data_lba s) d = (t, r)"
  shows "outcome crash t {img}"
proof -
  note f = staging_facts [OF assms(1)]
  note st = write_sync_step [OF f(1) assms(3)]
  have "recoverable s m \<and> card_view s m = img" if m: "m \<in> crash (store_context t)" for m
  proof -
    obtain x where "m = (live (store_context s))(data_lba s := x)" using quiet_write [OF f(1,3) assms(3) m] by metis
    then show ?thesis
      using assms(2) f(5,6) store_geometry_lbas [OF f(2), of 0] store_geometry_lbas [OF f(2)]
      by (intro uncommitted_medium) auto
  qed
  then show ?thesis by (simp add: outcome_same [OF st(1)])
qed

text \<open>Step 3 stores the marker: the old card or the new one.\<close>

lemma marker_outcome:
  assumes "staging live crash s img" and "\<not> marker_crc_ok (live (store_context s) (marker_lba s))"
    and "live (store_context s) (data_lba s) = data" and "block < 256"
    and "write_sync s (marker_lba s) (store_marker u block data q) = (t, r)" and "same_store s u"
  shows "outcome crash t {img, img(block := data)}"
proof -
  note f = staging_facts [OF assms(1)]
  note st = write_sync_step [OF f(1) assms(5)]
  note lbas = store_geometry_lbas [OF f(2)]
  have "recoverable s m \<and> card_view s m \<in> {img, img(block := data)}" if m: "m \<in> crash (store_context t)" for m
  proof -
    obtain x where x: "m = (live (store_context s))(marker_lba s := x)" "x = store_marker u block data q \<or> \<not> marker_crc_ok x"
      using quiet_write [OF f(1,3) assms(5) m] assms(2) by metis
    show ?thesis
    proof (cases "marker_crc_ok x")
      case True
      then have "recoverable s m \<and> card_view s m = img(block := data)"
        using x assms(3) f(5,6) lbas lbas(3) [of 0] by (intro committed_medium [OF f(2) assms(6,4)]) auto
      then show ?thesis by simp
    next
      case False
      then have "recoverable s m \<and> card_view s m = img"
        using x(1) f(5,6) lbas by (intro uncommitted_medium) auto
      then show ?thesis by simp
    qed
  qed
  then show ?thesis by (simp add: outcome_same [OF st(1)])
qed

text \<open>Step 4 overwrites the image sector under the committed record: the new card.\<close>

lemma base_outcome:
  assumes "staging live crash s img" and "live (store_context s) (marker_lba s) = store_marker u block data q"
    and "live (store_context s) (data_lba s) = data" and "block < 256" and "same_store s u"
    and "write_sync s (block_lba s block) data = (t, r)"
  shows "outcome crash t {img(block := data)}" and "r = Store_OK \<Longrightarrow> store_at live crash t (img(block := data))"
proof -
  note f = staging_facts [OF assms(1)]
  note st = write_sync_step [OF f(1) assms(6)]
  note lbas = store_geometry_lbas [OF f(2)]
  let ?L = "live (store_context s)"
  have new: "recoverable s (?L(block_lba s block := x)) \<and> card_view s (?L(block_lba s block := x)) = img(block := data)" for x
    using assms(2,3,4) f(5,6) lbas(1,2) [OF assms(4)] lbas(4)
    by (intro committed_medium [OF f(2) assms(5,4)]) auto
  have "recoverable s m \<and> card_view s m = img(block := data)" if m: "m \<in> crash (store_context t)" for m
    using quiet_write [OF f(1,3) assms(6) m] new by metis
  then show "outcome crash t {img(block := data)}" by (simp add: outcome_same [OF st(1)])
  assume "r = Store_OK"
  then have t: "st_ready t" "live (store_context t) = ?L(block_lba s block := data)"
    "crash (store_context t) \<subseteq> {live (store_context t)}" using st f(4) by auto
  have "\<forall>b<256. live (store_context t) (block_lba s b) = (img(block := data)) b"
    using t(2) f(5) lbas(4) assms(4) by auto
  then show "store_at live crash t (img(block := data))"
    using new [of data] t f(1,2) same_store_lbas [OF st(1)] by (simp add: store_at_def)
qed

lemma store_at_staging: "store_at live crash s img \<Longrightarrow> staging live crash s img"
  by (auto simp: store_at_def staging_def quiet_def card_view_def)

lemma staging_cong:
  "staging live crash (s\<lparr>st_data := d, st_marker := k\<rparr>) img = staging live crash s img"
  "staging live crash (s\<lparr>st_sequence := q, st_marker := k\<rparr>) img = staging live crash s img"
  by (simp_all add: staging_def quiet_def store_geometry_def)

text \<open>What a write that starts in state \<open>s\<close> with image \<open>img\<close> may leave.\<close>

definition write_result ::
    "('c \<Rightarrow> u64 \<Rightarrow> bytes) \<Rightarrow> ('c \<Rightarrow> (u64 \<Rightarrow> bytes) set) \<Rightarrow> 'c vmu_store \<Rightarrow> (nat \<Rightarrow> bytes) \<Rightarrow> nat \<Rightarrow> bytes
     \<Rightarrow> 'c vmu_store \<Rightarrow> vmu_store_result \<Rightarrow> bool" where
  "write_result live crash s img block data s' r =
     ((r = Store_OK \<or> r = Store_IO) \<and> same_store s s' \<and> outcome crash s' {img, img(block := data)} \<and>
      (r = Store_OK \<longrightarrow> store_at live crash s' (img(block := data)) \<and> outcome crash s' {img(block := data)}))"

lemma write_resultI:
  assumes "same_store s s'" and "r = Store_OK \<or> r = Store_IO"
    and "r = Store_OK \<Longrightarrow> outcome crash s' {img(block := data)} \<and> store_at live crash s' (img(block := data))"
    and "r \<noteq> Store_OK \<Longrightarrow> outcome crash s' {img, img(block := data)} \<or> outcome crash s' {img} \<or> outcome crash s' {img(block := data)}"
  shows "write_result live crash s img block data s' r"
  using assms by (auto simp: write_result_def outcome_def)

lemma write_result_trans:
  "same_store s t \<Longrightarrow> write_result live crash t img block data s' r \<Longrightarrow> write_result live crash s img block data s' r"
  using same_store_trans by (auto simp: write_result_def)

lemma commit_result:
  assumes "staging live crash s img" and "\<not> marker_crc_ok (live (store_context s) (marker_lba s))"
    and "live (store_context s) (data_lba s) = st_data s" and "block < 256" and "same_store s u"
    and "(case write_sync s (marker_lba s) (store_marker u block (st_data s) q) of (t, r) \<Rightarrow>
       if r \<noteq> Store_OK then (t, r) else write_sync t (block_lba t block) (st_data t)) = (s', r)"
  shows "write_result live crash s img block (st_data s) s' r"
proof -
  obtain t rt where w: "write_sync s (marker_lba s) (store_marker u block (st_data s) q) = (t, rt)" by fastforce
  note st = write_sync_step [OF staging_facts(1) [OF assms(1)] w]
  show ?thesis
  proof (cases "rt = Store_OK")
    case False
    then have "s' = t" "r = rt" using assms(6) w by auto
    then show ?thesis
      using st False marker_outcome [OF assms(1,2,3,4) w assms(5)] by (intro write_resultI) auto
  next
    case True
    note j = journal_write [OF assms(1) disjI1 [OF refl] w [unfolded True]]
    note lb = same_store_lbas [OF j(3)]
    have run: "write_sync t (block_lba t block) (st_data s) = (s', r)" using assms(6) w True j(4) by simp
    have "same_store t u" using j(3) assms(5) by (simp add: same_store_def)
    moreover have "live (store_context t) (marker_lba t) = store_marker u block (st_data s) q"
      "live (store_context t) (data_lba t) = st_data s"
      using j(2) lb assms(3) store_geometry_lbas(3) [OF staging_facts(2) [OF assms(1)], of 0] by simp_all
    ultimately have "outcome crash s' {img(block := st_data s)}"
      "r = Store_OK \<Longrightarrow> store_at live crash s' (img(block := st_data s))"
      using base_outcome [OF j(1) _ _ assms(4) _ run] by blast+
    moreover have "same_store s s'" "r = Store_OK \<or> r = Store_IO"
      using write_sync_step(1,2) [OF staging_facts(1) [OF j(1)] run] same_store_trans [OF j(3)] by blast+
    ultimately show ?thesis by (intro write_resultI) auto
  qed
qed

lemma store_write_sound:
  assumes "store_at live crash s img" and "block < 256" and "kui_vmu_store_write s block data = (s', r)"
  shows "write_result live crash s img block data s' r"
proof -
  define sA where "sA = s\<lparr>st_data := data, st_marker := replicate 512 0\<rparr>"
  have sA: "staging live crash sA img" and same: "same_store s sA" and ready: "st_ready s"
    using store_at_staging [OF assms(1)] assms(1)
    by (simp_all add: sA_def staging_cong same_store_def store_at_def)
  have live: "recoverable sA (live (store_context sA))" "card_view sA (live (store_context sA)) = img"
    using assms(1) same_store_lbas [OF same] by (simp_all add: store_at_def sA_def)
  have sA_fields: "st_marker sA = replicate 512 0" "st_data sA = data" by (simp_all add: sA_def)
  obtain s1 r1 where w1: "write_sync sA (marker_lba sA) (replicate 512 0) = (s1, r1)" by fastforce
  obtain s2 r2 where w2: "write_sync s1 (data_lba s1) (st_data s1) = (s2, r2)" by fastforce
  define s3 where "s3 = s2\<lparr>st_sequence := (if st_sequence s2 = 0xffffffffffffffff then 1 else st_sequence s2 + 1)\<rparr>"
  let ?M = "store_marker s3 block (st_data s3) (st_sequence s3)"
  have run: "(s', r) = (if r1 \<noteq> Store_OK then (s1, r1) else if r2 \<noteq> Store_OK then (s2, r2)
    else case write_sync (s3\<lparr>st_marker := ?M\<rparr>) (marker_lba sA) ?M of (t, r) \<Rightarrow>
       if r \<noteq> Store_OK then (t, r) else write_sync t (block_lba t block) (st_data t))"
    using assms(3) [symmetric] assms(2) ready w1 w2
    by (simp add: kui_vmu_store_write_def Let_def sA_def [symmetric] sA_fields s3_def [symmetric])
  note st1 = write_sync_step [OF staging_facts(1) [OF sA] w1]
  have "write_result live crash sA img block data s' r"
  proof (cases "r1 = Store_OK")
    case False
    then show ?thesis
      using run st1(1,2) clear_outcome [OF sA live w1] by (intro write_resultI) auto
  next
    case ok1: True
    note j1 = journal_write [OF sA disjI1 [OF refl] w1 [unfolded ok1]]
    note lb1 = same_store_lbas [OF j1(3)]
    have cleared: "\<not> marker_crc_ok (live (store_context s1) (marker_lba s1))"
      using j1(2) lb1 cleared_marker by simp
    note st2 = write_sync_step [OF staging_facts(1) [OF j1(1)] w2]
    show ?thesis
    proof (cases "r2 = Store_OK")
      case False
      then show ?thesis
        using run ok1 st2(1,2) same_store_trans [OF j1(3) st2(1)] payload_outcome [OF j1(1) cleared w2]
        by (intro write_resultI) auto
    next
      case ok2: True
      note j2 = journal_write [OF j1(1) disjI2 [OF refl] w2 [unfolded ok2]]
      note lb2 = same_store_lbas [OF j2(3)]
      let ?s4 = "s3\<lparr>st_marker := ?M\<rparr>"
      have s4: "staging live crash ?s4 img" using j2(1) by (simp add: s3_def staging_cong)
      have eqs: "st_data ?s4 = data" "store_context ?s4 = store_context s2" "st_journal ?s4 = st_journal s2"
        "same_store s2 ?s4" "same_store ?s4 s3"
        using j1(4) j2(4) sA_fields by (simp_all add: s3_def same_store_def)
      have lba3: "marker_lba sA = marker_lba ?s4" using lb1 lb2 eqs(3) by simp
      have "\<not> marker_crc_ok (live (store_context ?s4) (marker_lba ?s4))"
        "live (store_context ?s4) (data_lba ?s4) = st_data ?s4"
        using j2(2,4) lb2 cleared eqs store_geometry_lbas(3) [OF staging_facts(2) [OF j1(1)], of 0]
        by (simp_all add: s3_def)
      moreover have "(case write_sync ?s4 (marker_lba ?s4) (store_marker s3 block (st_data ?s4) (st_sequence s3)) of (t, r) \<Rightarrow>
          if r \<noteq> Store_OK then (t, r) else write_sync t (block_lba t block) (st_data t)) = (s', r)"
        using run ok1 ok2 lba3 by simp
      ultimately have "write_result live crash ?s4 img block (st_data ?s4) s' r"
        using commit_result [OF s4 _ _ assms(2) eqs(5)] by blast
      then show ?thesis
        using same_store_trans [OF j1(3) same_store_trans [OF j2(3) eqs(4)]] write_result_trans eqs(1) by metis
    qed
  qed
  then show ?thesis by (rule write_result_trans [OF same])
qed

text \<open>Reading and recovering.\<close>

lemma store_read_sector_step:
  assumes "sector_device (st_io s) live crash mk" and "store_read_sector s l = (t, x)"
  shows "same_store s t" and "crash (store_context t) \<subseteq> crash (store_context s)" and "st_ready t = st_ready s"
    and "x = Some d \<Longrightarrow> d = live (store_context s) l \<and> live (store_context t) = live (store_context s)"
    and "st_data t = st_data s" "st_sequence t = st_sequence s"
proof -
  obtain c y where rd: "read_sector (st_io s) (store_context s) l = (c, y)" by fastforce
  then have t: "t = set_context s c" "x = y" using assms(2) by (simp_all add: store_read_sector_def)
  show "same_store s t" "st_ready t = st_ready s" "st_data t = st_data s" "st_sequence t = st_sequence s"
    by (simp_all add: t same_store_def)
  show "crash (store_context t) \<subseteq> crash (store_context s)"
    using sector_device_laws(2) [OF assms(1) rd] by (simp add: t)
  show "x = Some d \<Longrightarrow> d = live (store_context s) l \<and> live (store_context t) = live (store_context s)"
    using sector_device_laws(1) [OF assms(1)] rd by (simp add: t)
qed

text \<open>A store as \<open>kui_vmu_store_open\<close> configures it, before recovery.\<close>

definition configured :: "'c vmu_store_io \<Rightarrow> vmu_store_config \<Rightarrow> 'c vmu_store" where
  "configured io c =
     (let s = \<lparr>st_io = io, st_image = image_extents c, st_journal = journal_extents c, st_card_sectors = cfg_card_sectors c,
               st_sequence = 0, mapping_crc = 0, st_image_id = cfg_image_id c, st_data = replicate 512 0,
               st_marker = replicate 512 0, st_ready = False\<rparr>
      in s\<lparr>mapping_crc := map_crc s\<rparr>)"

lemma open_configured:
  "maps_valid c \<Longrightarrow> kui_vmu_store_open io c =
     (case recover (configured io c) of (s, r) \<Rightarrow> (if r = Store_OK then s\<lparr>st_ready := True\<rparr> else s, r))"
  by (simp add: kui_vmu_store_open_def configured_def Let_def map_crc_def)

lemma configured_geometry:
  assumes "maps_valid c" and "length (cfg_image_id c) = 16"
  shows "store_geometry (configured io c)"
  using maps_separate [OF assms(1)] assms(2)
  by (simp add: store_geometry_def configured_def Let_def all_sectors_def)

lemma outcome_subset:
  "same_store s t \<Longrightarrow> crash (store_context t) \<subseteq> {m} \<Longrightarrow> recoverable s m \<Longrightarrow> outcome crash t {card_view s m}"
  by (auto simp: outcome_same)

lemma outcome_ready [simp]: "outcome crash (t\<lparr>st_ready := b\<rparr>) imgs = outcome crash t imgs"
proof -
  have "same_store t (t\<lparr>st_ready := b\<rparr>)" by (simp add: same_store_def)
  then show ?thesis unfolding outcome_same [OF \<open>same_store t _\<close>] by (simp add: outcome_def)
qed

text \<open>Replaying the committed block leaves the same card, whatever lands in the image sector.\<close>

lemma replay_medium:
  assumes "store_geometry s" and "recoverable s m" and "marker_crc_ok (m (marker_lba s))"
    and "blk = unat (get32 (m (marker_lba s)) 44)"
  shows "recoverable s (m(block_lba s blk := x)) \<and> card_view s (m(block_lba s blk := x)) = card_view s m \<and> blk < 256"
proof -
  have blk: "blk < 256"
    using assms(2-4) by (simp add: recoverable_def marker_fields_ok_def word_less_nat_alt Let_def)
  note lbas = store_geometry_lbas [OF assms(1) blk]
  have mk: "(m(block_lba s blk := x)) (marker_lba s) = m (marker_lba s)"
    "(m(block_lba s blk := x)) (data_lba s) = m (data_lba s)" using lbas by auto
  have "recoverable s (m(block_lba s blk := x))"
    using assms(2) unfolding recoverable_def mk by simp
  moreover have "card_view s (m(block_lba s blk := x)) b = card_view s m b" for b
  proof (cases "b < 256 \<and> b \<noteq> blk")
    case True
    then have "block_lba s b \<noteq> block_lba s blk" using store_geometry_lbas(4) [OF assms(1) _ blk] by blast
    then show ?thesis unfolding card_view_def mk by (simp add: Let_def)
  next
    case False
    then show ?thesis unfolding card_view_def mk using assms(3,4) by (auto simp: Let_def)
  qed
  ultimately show ?thesis using blk by blast
qed

lemma replay_sound:
  fixes s t :: "'c vmu_store"
  assumes dev: "sector_device (st_io s) live crash (marker_lba s)" and geo: "store_geometry s" and q: "quiet live crash s"
    and rec: "recoverable s (live (store_context s))" and crc: "marker_crc_ok (live (store_context s) (marker_lba s))"
    and blk: "blk = unat (get32 (live (store_context s) (marker_lba s)) 44)"
    and run: "write_sync s (block_lba s blk) (live (store_context s) (data_lba s)) = (t, r)"
  defines "img \<equiv> card_view s (live (store_context s))"
  shows "(r = Store_OK \<or> r = Store_IO) \<and> same_store s t \<and> outcome crash t {img} \<and>
    (r = Store_OK \<longrightarrow> store_at live crash (t\<lparr>st_ready := True\<rparr>) img)"
proof -
  let ?L = "live (store_context s)"
  note st = write_sync_step [OF dev run]
  note replay = replay_medium [OF geo rec crc blk]
  have "recoverable s m \<and> card_view s m = img" if m: "m \<in> crash (store_context t)" for m
    using quiet_write [OF dev q run m] replay unfolding img_def by metis
  then have out: "outcome crash t {img}" by (simp add: outcome_same [OF st(1)])
  have "store_at live crash (t\<lparr>st_ready := True\<rparr>) img" if "r = Store_OK"
  proof -
    let ?u = "t\<lparr>st_ready := True\<rparr>"
    have same: "same_store s ?u" using st(1) by (simp add: same_store_def)
    have t: "live (store_context t) = ?L(block_lba s blk := ?L (data_lba s))"
      "crash (store_context t) \<subseteq> {live (store_context t)}" using st(6) [OF that] by blast+
    have "\<forall>b<256. live (store_context t) (block_lba s b) = img b"
    proof (intro allI impI)
      fix b :: nat assume b: "b < 256"
      show "live (store_context t) (block_lba s b) = img b"
      proof (cases "b = blk")
        case True
        then show ?thesis using b crc blk t(1) by (simp add: img_def card_view_def Let_def)
      next
        case False
        then have "block_lba s b \<noteq> block_lba s blk"
          using store_geometry_lbas(4) [OF geo b] replay [of undefined] by blast
        then show ?thesis using b t(1) False blk by (simp add: img_def card_view_def Let_def)
      qed
    qed
    then show ?thesis
      using t replay [of "?L (data_lba s)"] dev geo same_store_lbas [OF same] by (simp add: store_at_def img_def)
  qed
  then show ?thesis using st(1,2) out by blast
qed

lemma recover_sound:
  fixes s :: "'c vmu_store"
  assumes dev: "sector_device (st_io s) live crash (marker_lba s)" and geo: "store_geometry s" and q: "quiet live crash s"
    and rec: "recoverable s (live (store_context s))" and run: "recover s = (s', r)"
  defines "img \<equiv> card_view s (live (store_context s))"
  shows "(r = Store_OK \<or> r = Store_IO) \<and> same_store s s' \<and> outcome crash s' {img} \<and>
    (r = Store_OK \<longrightarrow> store_at live crash (s'\<lparr>st_ready := True\<rparr>) img)"
proof -
  let ?L = "live (store_context s)"
  obtain s1 x where r1: "store_read_sector s (marker_lba s) = (s1, x)" by fastforce
  note st1 = store_read_sector_step [OF dev r1]
  have out: "outcome crash t {img}" if "same_store s t" "crash (store_context t) \<subseteq> crash (store_context s)" for t :: "'c vmu_store"
    using outcome_subset [OF that(1) _ rec] that(2) q unfolding img_def quiet_def by blast
  show ?thesis
  proof (cases x)
    case None
    then have "s' = s1\<lparr>st_ready := False\<rparr>" "r = Store_IO" using run r1 by (auto simp: recover_def io_error_def)
    then show ?thesis using out [OF st1(1,2)] st1(1) by (simp add: same_store_def)
  next
    case (Some k)
    define s2 where "s2 = s1\<lparr>st_marker := k\<rparr>"
    have k: "k = ?L (marker_lba s)" and live1: "live (store_context s1) = ?L" using st1(4) Some by auto
    have same2: "same_store s s2" and ctx2: "store_context s2 = store_context s1"
      using st1(1) by (simp_all add: s2_def same_store_def)
    note run2 = run [unfolded recover_def r1 Some prod.case option.case Let_def, folded s2_def]
    show ?thesis
    proof (cases "marker_crc_ok k")
      case False
      then have res: "s' = s2" "r = Store_OK" using run2 by simp_all
      have "store_at live crash (s2\<lparr>st_ready := True\<rparr>) img"
      proof -
        have same: "same_store s (s2\<lparr>st_ready := True\<rparr>)" using same2 by (simp add: same_store_def)
        show ?thesis
          using dev geo q rec False k live1 ctx2 st1(2) same_store_lbas [OF same]
          by (auto simp: store_at_def img_def quiet_def card_view_def Let_def)
      qed
      then show ?thesis using res same2 out [OF same2] st1(2) ctx2 by simp
    next
      case crc: True
      have checks: "marker_fields_ok k" "marker_identity_ok s2 k" "get32 k 48 = kui_retail_crc32 0 (?L (data_lba s))"
        using rec crc k same2 by (simp_all add: recoverable_def marker_identity_ok_def same_store_def Let_def)
      obtain s3 y where r3: "store_read_sector s2 (data_lba s2) = (s3, y)" by fastforce
      have dev2: "sector_device (st_io s2) live crash (marker_lba s)" using dev same_store_lbas [OF same2] by blast
      note st3 = store_read_sector_step [OF dev2 r3]
      note same3 = same_store_trans [OF same2 st3(1)]
      have sub3: "crash (store_context s3) \<subseteq> crash (store_context s)" using st1(2) st3(2) ctx2 by auto
      show ?thesis
      proof (cases y)
        case None
        then have "s' = s3\<lparr>st_ready := False\<rparr>" "r = Store_IO" using run2 crc checks r3 by (auto simp: io_error_def)
        then show ?thesis using out [OF same3 sub3] same3 by (simp add: same_store_def)
      next
        case (Some d)
        have d: "d = ?L (data_lba s)" and live3: "live (store_context s3) = ?L"
          using st3(4) Some live1 ctx2 same_store_lbas [OF same2] by auto
        define s4 where "s4 = s3\<lparr>st_data := d, st_sequence := get64 k 56\<rparr>"
        have same4: "same_store s s4" and ctx4: "store_context s4 = store_context s3"
          using same3 by (simp_all add: s4_def same_store_def)
        obtain c ok where sy: "dev_sync (st_io s4) (store_context s4) = (c, ok)" by fastforce
        have dev4: "sector_device (st_io s4) live crash (marker_lba s)" using dev same_store_lbas [OF same4] by blast
        note run4 = run2 [unfolded r3 Some prod.case option.case, folded s4_def]
        let ?s5 = "set_context s4 c"
        have same5: "same_store s ?s5" using same4 by (simp add: same_store_def)
        have sub5: "crash c \<subseteq> crash (store_context s)" using sector_device_laws(5) [OF dev4 sy] sub3 ctx4 by auto
        show ?thesis
        proof (cases ok)
          case False
          then have "s' = ?s5\<lparr>st_ready := False\<rparr>" "r = Store_IO"
            using run4 crc checks d sy by (auto simp: io_error_def s4_def)
          then show ?thesis using out [OF same5] sub5 same5 by (simp add: same_store_def)
        next
          case True
          have live5: "live c = ?L" "crash c \<subseteq> {?L}"
            using sector_device_laws(6) [OF dev4] sy True live3 ctx4 by auto
          have "write_sync ?s5 (block_lba ?s5 (unat (get32 k 44))) d = (s', r)"
            using run4 crc checks d sy True by (auto simp: s4_def)
          then show ?thesis
            using replay_sound [of ?s5 live crash "unat (get32 k 44)" s' r] same_store_lbas [OF same5] dev geo rec
              live5 crc k d img_def same_store_trans [OF same5] by (auto simp: quiet_def)
        qed
      qed
    qed
  qed
qed

text \<open>
  A card that has been powered up: reads return the medium \<open>m\<close> and nothing else is pending.
\<close>

definition powered_up ::
    "'c vmu_store_io \<Rightarrow> vmu_store_config \<Rightarrow> ('c \<Rightarrow> u64 \<Rightarrow> bytes) \<Rightarrow> ('c \<Rightarrow> (u64 \<Rightarrow> bytes) set) \<Rightarrow> (u64 \<Rightarrow> bytes) \<Rightarrow> bool" where
  "powered_up io cfg live crash m =
     (sector_device io live crash (sector_lba (journal_extents cfg) 1) \<and> live (dev_context io) = m \<and> crash (dev_context io) \<subseteq> {m})"

lemma open_sound:
  assumes "maps_valid cfg" and "length (cfg_image_id cfg) = 16" and "powered_up io cfg live crash m"
    and "recoverable (configured io cfg) m" and "kui_vmu_store_open io cfg = (s, r)"
  shows "(r = Store_OK \<or> r = Store_IO) \<and> same_store (configured io cfg) s \<and> outcome crash s {card_view (configured io cfg) m} \<and>
    (r = Store_OK \<longrightarrow> store_at live crash s (card_view (configured io cfg) m))"
proof -
  let ?s = "configured io cfg"
  have fields: "st_io ?s = io" "st_journal ?s = journal_extents cfg"
    by (simp_all add: configured_def Let_def)
  obtain t rt where rec: "recover ?s = (t, rt)" by fastforce
  have st: "s = (if rt = Store_OK then t\<lparr>st_ready := True\<rparr> else t)" "r = rt"
    using assms(5) rec by (auto simp: open_configured [OF assms(1)])
  have "(rt = Store_OK \<or> rt = Store_IO) \<and> same_store ?s t \<and> outcome crash t {card_view ?s m} \<and>
    (rt = Store_OK \<longrightarrow> store_at live crash (t\<lparr>st_ready := True\<rparr>) (card_view ?s m))"
    using recover_sound [of ?s live crash t rt] assms(3,4) configured_geometry [OF assms(1,2), of io] rec
    by (simp add: powered_up_def fields quiet_def)
  then show ?thesis by (auto simp: st same_store_def)
qed

lemma read_sound:
  assumes "store_at live crash s img" and "kui_vmu_store_read s b = (t, Store_OK, Some x)"
  shows "x = img b"
proof -
  have "b < 256" using assms(2) by (auto simp: kui_vmu_store_read_def split: if_splits)
  obtain u y where rd: "store_read_sector s (block_lba s b) = (u, y)" by fastforce
  have dev: "sector_device (st_io s) live crash (marker_lba s)" using assms(1) by (simp add: store_at_def)
  have "y = Some x"
    using assms rd \<open>b < 256\<close> by (auto simp: kui_vmu_store_read_def store_at_def io_error_def split: option.splits)
  then have "x = live (store_context s) (block_lba s b)" using store_read_sector_step(4) [OF dev rd] by blast
  then show ?thesis using assms(1) \<open>b < 256\<close> by (simp add: store_at_def)
qed

text \<open>The same configuration gives the same view of a medium, whichever driver serves it.\<close>

definition same_config :: "'c vmu_store \<Rightarrow> 'd vmu_store \<Rightarrow> bool" where
  "same_config s t =
     (st_image t = st_image s \<and> st_journal t = st_journal s \<and> st_card_sectors t = st_card_sectors s
      \<and> st_image_id t = st_image_id s \<and> mapping_crc t = mapping_crc s)"

lemma same_config_media:
  assumes "same_config s t" shows "recoverable s = recoverable t" and "card_view s = card_view t"
  using assms by (simp_all add: same_config_def recoverable_def card_view_def marker_identity_ok_def Let_def fun_eq_iff)

lemma configured_same_config: "same_config (configured io cfg) (configured io' cfg)"
  by (simp add: same_config_def configured_def Let_def map_crc_def)

text \<open>
  C1. Crash consistency of the redo store.  A store is opened on a powered-up card, one block is
  written, and power fails at any moment of that write or later: after every subset of the device calls,
  with the sector being written left in any state (a marker that is neither the old nor the new one fails
  its CRC).  When the store is opened again on whatever the medium then holds, every block reads as
  before the write, except that the written block may read as the new data; and it does read as the
  new data when the write had returned \<open>Store_OK\<close>.  Opening never reports corruption.
\<close>

theorem store_crash_consistent:
  assumes "maps_valid cfg" and "length (cfg_image_id cfg) = 16"
    and "powered_up io cfg live crash m0" and "recoverable (configured io cfg) m0"
    and "kui_vmu_store_open io cfg = (s, Store_OK)"
    and "block < 256" and "kui_vmu_store_write s block data = (s1, r1)"
    and "m \<in> crash (store_context s1)" and "powered_up io2 cfg live2 crash2 m"
    and "kui_vmu_store_open io2 cfg = (s2, r2)"
  shows "(r2 = Store_OK \<or> r2 = Store_IO) \<and>
    (r2 = Store_OK \<longrightarrow> kui_vmu_store_read s2 b = (s3, Store_OK, Some x) \<longrightarrow>
       x = card_view (configured io cfg) m0 b \<or> b = block \<and> x = data) \<and>
    (r1 = Store_OK \<longrightarrow> r2 = Store_OK \<longrightarrow> kui_vmu_store_read s2 block = (s3, Store_OK, Some x) \<longrightarrow> x = data)"
proof -
  let ?s = "configured io cfg" and ?t = "configured io2 cfg"
  let ?img = "card_view ?s m0"
  have at: "store_at live crash s ?img" and same: "same_store ?s s"
    using open_sound [OF assms(1-5)] by simp_all
  note w = store_write_sound [OF at assms(6,7), unfolded write_result_def]
  have same1: "same_store ?s s1" using same_store_trans [OF same] w by blast
  have m: "recoverable ?s m" "card_view ?s m \<in> {?img, ?img(block := data)}"
    and ok: "r1 = Store_OK \<Longrightarrow> card_view ?s m = ?img(block := data)"
    using w assms(8) unfolding outcome_same [OF same1] by blast+
  note media = same_config_media [OF configured_same_config [of io cfg io2]]
  have o: "(r2 = Store_OK \<or> r2 = Store_IO) \<and> (r2 = Store_OK \<longrightarrow> store_at live2 crash2 s2 (card_view ?s m))"
    using open_sound [OF assms(1,2,9) _ assms(10)] m(1) unfolding media by blast
  show ?thesis
  proof (intro conjI impI)
    assume "r2 = Store_OK" and "kui_vmu_store_read s2 b = (s3, Store_OK, Some x)"
    then have "x = card_view ?s m b" using o read_sound by blast
    then show "x = ?img b \<or> b = block \<and> x = data" using m(2) by (auto split: if_splits)
  next
    assume "r1 = Store_OK" and "r2 = Store_OK" and "kui_vmu_store_read s2 block = (s3, Store_OK, Some x)"
    then have "x = card_view ?s m block" using o read_sound by blast
    then show "x = data" using ok [OF \<open>r1 = Store_OK\<close>] by simp
  qed (use o in blast)
qed

text \<open>
  A card with write-through sectors whose power lasts for a given number of writes, and a store
  on it: the instance on which the theorem is applied.
\<close>

definition power_card :: "(u64 \<Rightarrow> bytes) \<Rightarrow> nat \<Rightarrow> ((u64 \<Rightarrow> bytes) \<times> nat) vmu_store_io" where
  "power_card m n = \<lparr>dev_context = (m, n), read_sector = (\<lambda>c l. (c, Some (fst c l))),
     write_sector = (\<lambda>c l d. if snd c = 0 then (c, False) else (((fst c)(l := d), snd c - 1), True)),
     dev_sync = (\<lambda>c. (c, True))\<rparr>"

definition card_config :: vmu_store_config where
  "card_config = \<lparr>cfg_card_sectors = 2048, cfg_image_id = replicate 16 1,
     image_extents = [\<lparr>first_lba = 8, sectors = 256\<rparr>], journal_extents = [\<lparr>first_lba = 1000, sectors = 2\<rparr>]\<rparr>"

lemma card_config_valid: "maps_valid card_config" "length (cfg_image_id card_config) = 16"
  by (simp_all add: maps_valid_def card_config_def extents_valid_def extents_meet_def zeroes_def Let_def list_all_iff)

lemma power_card_up: "powered_up (power_card m n) cfg fst (\<lambda>c. {fst c}) m"
  unfolding powered_up_def sector_device_def
  by (auto simp: power_card_def split: if_splits)

lemma power_card_steps:
  assumes "st_io s = power_card m n"
  shows "store_read_sector s l = (s, Some (m l))" and "dev_sync (st_io s) c = (c, True)" and "set_context s (m, n) = s"
    and "0 < n \<Longrightarrow> write_sync s l d = (s\<lparr>st_io := power_card (m(l := d)) (n - 1)\<rparr>, Store_OK)"
proof -
  show ctx: "set_context s (m, n) = s" using assms by (cases s) (simp add: set_context_def power_card_def)
  then show "store_read_sector s l = (s, Some (m l))"
    using assms by (simp add: store_read_sector_def power_card_def)
  show "dev_sync (st_io s) c = (c, True)" using assms by (simp add: power_card_def)
  show "0 < n \<Longrightarrow> write_sync s l d = (s\<lparr>st_io := power_card (m(l := d)) (n - 1)\<rparr>, Store_OK)"
    using assms by (simp add: write_sync_def power_card_def set_context_def)
qed

lemma power_recover:
  assumes "st_io s = power_card m n" and "0 < n" and "recoverable s m"
  shows "snd (recover s) = Store_OK"
proof -
  have "recover s = (let k = m (marker_lba s); s1 = s\<lparr>st_marker := k\<rparr> in if \<not> marker_crc_ok k then (s1, Store_OK)
    else write_sync (s1\<lparr>st_data := m (data_lba s), st_sequence := get64 k 56\<rparr>) (block_lba s (unat (get32 k 44))) (m (data_lba s)))"
    using assms power_card_steps(1,2) [of _ m n] power_card_steps(3) [of _ m n]
    by (simp add: recover_def recoverable_def Let_def marker_identity_ok_def power_card_def)
  then show ?thesis using assms power_card_steps(4) by (simp add: Let_def)
qed

lemma power_open:
  assumes "0 < n" and "recoverable (configured (power_card m n) card_config) m"
  shows "\<exists>s. kui_vmu_store_open (power_card m n) card_config = (s, Store_OK)"
proof -
  have io: "st_io (configured (power_card m n) card_config) = power_card m n" by (simp add: configured_def Let_def)
  show ?thesis
    using power_recover [OF io assms] open_configured [OF card_config_valid(1), of "power_card m n"]
    by (auto split: prod.splits)
qed

theorem store_crash_consistent_witness:
  "\<exists>s s1 s2 s3. kui_vmu_store_open (power_card (\<lambda>_. replicate 512 0) 4) card_config = (s, Store_OK) \<and>
     kui_vmu_store_write s 5 (replicate 512 7) = (s1, Store_OK) \<and>
     kui_vmu_store_open (power_card (fst (store_context s1)) 9) card_config = (s2, Store_OK) \<and>
     kui_vmu_store_read s2 5 = (s3, Store_OK, Some (replicate 512 7))"
proof -
  let ?z = "\<lambda>_ :: u64. replicate 512 0 :: bytes" and ?d = "replicate 512 7 :: bytes"
  let ?io = "power_card ?z 4"
  have rec: "recoverable (configured ?io card_config) ?z" using cleared_marker by (simp add: recoverable_def)
  obtain s where s: "kui_vmu_store_open ?io card_config = (s, Store_OK)" using power_open [OF _ rec] by auto
  have "recover (configured ?io card_config) = ((configured ?io card_config)\<lparr>st_marker := replicate 512 0\<rparr>, Store_OK)"
    using power_card_steps(1) [of "configured ?io card_config" ?z 4] cleared_marker
    by (simp add: recover_def configured_def Let_def)
  then have sio: "st_io s = ?io" "st_ready s"
    using s open_configured [OF card_config_valid(1), of ?io] by (auto simp: configured_def Let_def)
  obtain s1 where s1: "kui_vmu_store_write s 5 ?d = (s1, Store_OK)"
    using sio by (simp add: kui_vmu_store_write_def Let_def power_card_steps(4))
  have at: "store_at fst (\<lambda>c. {fst c}) s (card_view (configured ?io card_config) ?z)"
    and same: "same_store (configured ?io card_config) s"
    using open_sound [OF card_config_valid power_card_up rec s] by blast+
  have "recoverable (configured ?io card_config) (fst (store_context s1))"
    using store_write_sound [OF at _ s1] same_store_lbas [OF same] by (auto simp: write_result_def outcome_same)
  then have rec1: "recoverable (configured (power_card (fst (store_context s1)) 9) card_config) (fst (store_context s1))"
    using same_config_media(1) [OF configured_same_config] by metis
  then obtain s2 where s2: "kui_vmu_store_open (power_card (fst (store_context s1)) 9) card_config = (s2, Store_OK)"
    using power_open [of 9 "fst (store_context s1)"] by auto
  have "st_ready s2"
    using s2 open_configured [OF card_config_valid(1), of "power_card (fst (store_context s1)) 9"]
    by (auto split: prod.splits if_splits)
  moreover have "same_store (configured (power_card (fst (store_context s1)) 9) card_config) s2"
    using open_sound [OF card_config_valid power_card_up _ s2] rec1 by blast
  then have "read_sector (st_io s2) = (\<lambda>c l. (c, Some (fst c l)))"
    by (simp add: same_store_def configured_def Let_def power_card_def)
  ultimately obtain s3 x where s3: "kui_vmu_store_read s2 5 = (s3, Store_OK, Some x)"
    by (simp add: kui_vmu_store_read_def store_read_sector_def)
  show ?thesis
    using store_crash_consistent [OF card_config_valid power_card_up rec s _ s1, of "fst (store_context s1)" "power_card (fst (store_context s1)) 9"
        fst "\<lambda>c. {fst c}" s2 Store_OK 5 s3 x] power_card_up s s1 s2 s3 by auto
qed

theorem maps_valid_separates_witness:
  "distinct (all_sectors card_config) \<and> list_all (\<lambda>lba. lba < 2048) (all_sectors card_config)"
  using maps_valid_separates [OF card_config_valid(1)] by (simp add: card_config_def list_all_iff)

lemma store_sync_sound:
  assumes "store_at live crash s img" and "kui_vmu_store_sync s = (t, r)"
  shows "same_store s t \<and> outcome crash t {img} \<and> (r = Store_OK \<or> r = Store_IO) \<and> (r = Store_OK \<longrightarrow> store_at live crash t img)"
proof -
  have dev: "sector_device (st_io s) live crash (marker_lba s)" and ready: "st_ready s"
    and q: "crash (store_context s) \<subseteq> {live (store_context s)}"
    and rec: "recoverable s (live (store_context s))" and img: "card_view s (live (store_context s)) = img"
    using assms(1) by (simp_all add: store_at_def)
  obtain c ok where sy: "dev_sync (st_io s) (store_context s) = (c, ok)" by fastforce
  have t: "t = (if ok then set_context s c else (set_context s c)\<lparr>st_ready := False\<rparr>)"
    "r = (if ok then Store_OK else Store_IO)"
    using assms(2) sy ready by (auto simp: kui_vmu_store_sync_def io_error_def split: if_splits)
  have same: "same_store s t" by (simp add: t same_store_def)
  have "crash (store_context t) \<subseteq> {live (store_context s)}"
    using sector_device_laws(5) [OF dev sy] q by (auto simp: t)
  then have out: "outcome crash t {img}" using outcome_subset [OF same _ rec] img by simp
  have "store_at live crash t img" if "r = Store_OK"
  proof -
    have ok using that t(2) by (simp split: if_splits)
    then show ?thesis
      using sector_device_laws(6) [OF dev] sy assms(1) same_store_lbas [OF same] by (simp add: t store_at_def)
  qed
  then show ?thesis using same out by (simp add: t)
qed

text \<open>
  C12. A checkpoint hands over a self-contained image: when it returns \<open>Store_OK\<close>, on every medium
  that a power loss can leave the marker is invalid and the 256 image sectors alone are the card, so
  the image file may be moved or exported; when it fails, the card is unchanged and still recoverable.
\<close>

theorem store_checkpoint_clean:
  assumes "store_at live crash s img" and "kui_vmu_store_checkpoint s = (t, r)" and "m \<in> crash (store_context t)"
  shows "recoverable s m \<and> card_view s m = img \<and>
    (r = Store_OK \<longrightarrow> \<not> marker_crc_ok (m (marker_lba s)) \<and> (\<forall>b<256. m (block_lba s b) = img b))"
proof -
  obtain u ru where sy: "kui_vmu_store_sync s = (u, ru)" by fastforce
  note sync = store_sync_sound [OF assms(1) sy]
  show ?thesis
  proof (cases "ru = Store_OK")
    case False
    then have "t = u" "r \<noteq> Store_OK" using assms(2) sy by (auto simp: kui_vmu_store_checkpoint_def)
    then show ?thesis using sync assms(3) by (auto simp: outcome_same)
  next
    case True
    let ?u = "u\<lparr>st_marker := replicate 512 0\<rparr>"
    have at: "store_at live crash u img" and same: "same_store s ?u" using sync True by (auto simp: same_store_def)
    have st: "staging live crash ?u img"
      using store_at_staging [OF at] by (simp add: staging_def quiet_def store_geometry_def)
    have w: "write_sync ?u (marker_lba ?u) (replicate 512 0) = (t, r)"
      using assms(2) sy True by (simp add: kui_vmu_store_checkpoint_def Let_def)
    have same_u: "same_store u ?u" by (simp add: same_store_def)
    have "outcome crash t {img}"
      using clear_outcome [OF st _ _ w] at same_store_lbas [OF same_u] by (simp add: store_at_def)
    moreover have "same_store s t"
      using same_store_trans [OF same] write_sync_step(1) [OF staging_facts(1) [OF st] w] by blast
    moreover have "\<not> marker_crc_ok (m (marker_lba s)) \<and> (\<forall>b<256. m (block_lba s b) = img b)" if "r = Store_OK"
    proof -
      note j = journal_write [OF st disjI1 [OF refl] w [unfolded that]]
      note f = staging_facts [OF j(1)]
      have "m = live (store_context t)" using f(3) assms(3) by (auto simp: quiet_def)
      then show ?thesis
        using j(2) f(5) cleared_marker same_store_lbas [OF \<open>same_store s t\<close>] same_store_lbas [OF same] by simp
    qed
    ultimately show ?thesis using assms(3) by (auto simp: outcome_same)
  qed
qed

theorem store_checkpoint_clean_witness:
  "\<exists>s t. kui_vmu_store_open (power_card (\<lambda>_. replicate 512 0) 4) card_config = (s, Store_OK) \<and>
     kui_vmu_store_checkpoint s = (t, Store_OK) \<and> \<not> marker_crc_ok (fst (store_context t) 1001)"
proof -
  let ?z = "\<lambda>_ :: u64. replicate 512 0 :: bytes"
  let ?io = "power_card ?z 4"
  let ?s0 = "configured ?io card_config"
  have rec: "recoverable ?s0 ?z" using cleared_marker by (simp add: recoverable_def)
  obtain s where s: "kui_vmu_store_open ?io card_config = (s, Store_OK)" using power_open [OF _ rec] by auto
  have "recover ?s0 = (?s0\<lparr>st_marker := replicate 512 0\<rparr>, Store_OK)"
    using power_card_steps(1) [of ?s0 ?z 4] cleared_marker by (simp add: recover_def configured_def Let_def)
  then have sio: "st_io s = ?io" "st_ready s" "st_journal s = journal_extents card_config"
    using s open_configured [OF card_config_valid(1), of ?io] by (auto simp: configured_def Let_def)
  have "dev_sync (st_io s) (store_context s) = (store_context s, True)" "store_context s = (?z, 4)"
    using sio by (simp_all add: power_card_def)
  then have sy: "kui_vmu_store_sync s = (s, Store_OK)"
    using sio power_card_steps(3) [OF sio(1)] by (simp add: kui_vmu_store_sync_def)
  obtain t where t: "kui_vmu_store_checkpoint s = (t, Store_OK)"
    using sio by (simp add: kui_vmu_store_checkpoint_def sy Let_def power_card_steps(4))
  have at: "store_at fst (\<lambda>c. {fst c}) s (card_view ?s0 ?z)"
    using open_sound [OF card_config_valid power_card_up rec s] by blast
  have "marker_lba s = 1001" by (simp add: sio(3) card_config_def)
  then show ?thesis using store_checkpoint_clean [OF at t, of "fst (store_context t)"] s t by auto
qed

end
