(* ===== verification/Vmu_Emulation.thy ===== *)
theory Vmu_Emulation
  imports Kui_Bytes
begin

text \<open>
  The memory-card end of the Maple bus (src/core/vmu_emulation.c): one request buffer in, one
  response buffer out.  A block is written in four phases of 128 bytes that are only staged; the
  SYNC request commits the staged block to the backing store and its acknowledgement is the only one
  that promises durability.

  The state record is the C structure without its callback table: the two callbacks and their
  context are arguments of the handler.  A response is the list of bytes the C code reports in
  \<open>*response_bytes\<close>; bytes of the output buffer beyond it are not modelled, nor are NULL arguments.
  The locale \<open>block_backing\<close> states what a backing store promises; the interpretations are in the
  theories of the three cards that use this protocol.
\<close>

unbundle bit_operations_syntax

subsection \<open>State and replies\<close>

datatype emu_io_result = Emu_OK | Emu_Busy | Emu_Error

datatype emu_result = Handled bytes | Ignored | Invalid | Short

record vmu_emulation =
  staged :: bytes
  staged_block :: nat
  committed_block :: nat
  read_block :: nat
  address :: u8
  phases :: u8
  active :: bool
  committed_valid :: bool
  read_valid :: bool
  commit_attempted :: bool
  killed :: bool
  initialized :: bool

definition ascii :: "string \<Rightarrow> bytes" where
  "ascii s = map of_char s"

definition reply :: "u8 \<Rightarrow> u8 \<Rightarrow> u8 \<Rightarrow> bytes \<Rightarrow> emu_result" where
  "reply command destination source payload =
     Handled ([command, destination, source, of_nat (length payload div 4)] @ payload)"

definition file_error :: "u8 \<Rightarrow> u8 \<Rightarrow> u8 \<Rightarrow> emu_result" where
  "file_error host addr err = reply 0xfb host addr [0, 0, 0, err]"

definition kui_vmu_emulation_init :: "u8 \<Rightarrow> vmu_emulation option" where
  "kui_vmu_emulation_init addr =
     (let unit = addr AND 0x3f in
      if unit = 0 \<or> unit > 0x10 \<or> unit AND (unit - 1) \<noteq> 0 then None
      else Some \<lparr>staged = replicate 512 0, staged_block = 0, committed_block = 0, read_block = 0,
                 address = addr, phases = 0, active = False, committed_valid = False,
                 read_valid = False, commit_attempted = False, killed = False, initialized = True\<rparr>)"

definition kui_vmu_emulation_reset :: "vmu_emulation \<Rightarrow> vmu_emulation" where
  "kui_vmu_emulation_reset s =
     s\<lparr>active := False, phases := 0, committed_valid := False, read_valid := False,
       commit_attempted := False, killed := False\<rparr>"

definition device_info :: "bool \<Rightarrow> bytes" where
  "device_info extended =
     (let p = replicate (if extended then 192 else 112) 0;
          p = patch p 0 (put32 0x02000000);
          p = patch p 4 (put32 0x00410f00);
          p = patch p 16 [0xff];
          p = patch p 18 (replicate 90 0x20);
          p = patch p 18 (ascii ''Visual Memory'');
          p = patch p 48 (ascii ''Independent K-UI memory card emulation'')
      in if extended
         then patch (patch p 112 (replicate 80 0x20)) 112
                (ascii ''K-UI experimental storage only; 128 KiB; durable commit'')
         else p)"

definition media_info :: bytes where
  "media_info = put32 0x02000000 @ put16 255 @ put16 0 @ put16 255 @ put16 254 @ put16 1 @ put16 253
     @ put16 13 @ put16 0 @ put16 200 @ put16 31 @ put32 0"

subsection \<open>The request handler\<close>

text \<open>READ: one block from the backing store.\<close>

definition handle_read ::
    "('c \<Rightarrow> nat \<Rightarrow> 'c \<times> emu_io_result \<times> bytes) \<Rightarrow> 'c \<Rightarrow> vmu_emulation \<Rightarrow> bytes \<Rightarrow> u8 \<Rightarrow> nat \<Rightarrow> nat
     \<Rightarrow> 'c \<times> vmu_emulation \<times> emu_result" where
  "handle_read rd c s request host phase block =
     (let s = s\<lparr>read_valid := False\<rparr> in
      if phase \<noteq> 0 then (c, s, file_error host (address s) 2)
      else case rd c block of (c, res, d) \<Rightarrow>
        if res = Emu_Busy then (c, s, reply 0xfc host (address s) [])
        else if res \<noteq> Emu_OK then (c, s, file_error host (address s) 8)
        else (c, s\<lparr>read_block := block, read_valid := True\<rparr>,
              reply 8 host (address s) (window request 4 8 @ d)))"

definition phase_bit :: "nat \<Rightarrow> u8" where
  "phase_bit phase = push_bit phase 1"

text \<open>WRITE: one phase of 128 bytes into the staging buffer.\<close>

definition handle_write :: "vmu_emulation \<Rightarrow> bytes \<Rightarrow> u8 \<Rightarrow> nat \<Rightarrow> nat \<Rightarrow> vmu_emulation \<times> emu_result" where
  "handle_write s request host phase block =
     (let ack = reply 7 host (address s) []; bad_phase = file_error host (address s) 2;
          chunk = window request 12 128; here = window (staged s) (128 * phase) 128
      in if phase \<ge> 4 then (s, bad_phase)
         else if commit_attempted s then
           (if staged_block s = block \<and> here = chunk then (s, ack)
            else (s, reply 0xfc host (address s) []))
         else if phase = 0 then
           (if \<not> active s \<or> staged_block s \<noteq> block \<or> window (staged s) 0 128 \<noteq> chunk
            then (s\<lparr>staged_block := block, active := True, phases := 1, committed_valid := False,
                    read_valid := False, commit_attempted := False, staged := patch (staged s) 0 chunk\<rparr>, ack)
            else (s, ack))
         else if \<not> active s \<or> staged_block s \<noteq> block then (s, bad_phase)
         else if phases s AND phase_bit phase \<noteq> 0 then
           (if here \<noteq> chunk then (s, bad_phase) else (s, ack))
         else if phases s \<noteq> phase_bit phase - 1 then (s, bad_phase)
         else (s\<lparr>staged := patch (staged s) (128 * phase) chunk, phases := phases s OR phase_bit phase\<rparr>, ack))"

text \<open>SYNC: the status query after a read, or the durable commit of a complete block.\<close>

definition handle_sync ::
    "('c \<Rightarrow> nat \<Rightarrow> bytes \<Rightarrow> 'c \<times> emu_io_result) \<Rightarrow> 'c \<Rightarrow> vmu_emulation \<Rightarrow> u8 \<Rightarrow> nat \<Rightarrow> nat
     \<Rightarrow> 'c \<times> vmu_emulation \<times> emu_result" where
  "handle_sync commit c s host phase block =
     (let ack = reply 7 host (address s) []; bad_phase = file_error host (address s) 2
      in if phase = 1 \<and> \<not> active s \<and> read_valid s \<and> read_block s = block then (c, s, ack)
         else if phase \<noteq> 4 then (c, s, bad_phase)
         else if \<not> active s then
           (if committed_valid s \<and> committed_block s = block then (c, s, ack) else (c, s, bad_phase))
         else if staged_block s \<noteq> block \<or> phases s \<noteq> 15 then (c, s, bad_phase)
         else let s = s\<lparr>commit_attempted := True\<rparr> in
           case commit c block (staged s) of (c, res) \<Rightarrow>
             if res = Emu_Busy then (c, s, reply 0xfc host (address s) [])
             else if res \<noteq> Emu_OK then (c, s, file_error host (address s) 8)
             else (c, s\<lparr>active := False, phases := 0, committed_block := block,
                        committed_valid := True, commit_attempted := False\<rparr>, ack))"

definition memcard_function :: bytes where
  "memcard_function = [0, 0, 0, 2]"

definition needed_capacity :: "u8 \<Rightarrow> nat" where
  "needed_capacity command =
     (if command = 1 then 116 else if command = 2 then 196 else if command = 10 then 32
      else if command = 11 then 524 else 8)"

text \<open>The commands that address a block: MEDIA, READ, WRITE and SYNC.\<close>

definition handle_storage ::
    "('c \<Rightarrow> nat \<Rightarrow> 'c \<times> emu_io_result \<times> bytes) \<Rightarrow> ('c \<Rightarrow> nat \<Rightarrow> bytes \<Rightarrow> 'c \<times> emu_io_result)
     \<Rightarrow> 'c \<Rightarrow> vmu_emulation \<Rightarrow> bytes \<Rightarrow> u8 \<Rightarrow> 'c \<times> vmu_emulation \<times> emu_result" where
  "handle_storage rd commit c s request host =
     (let command = request ! 0; phase = unat (request ! 9);
          block = unat (request ! 10) * 256 + unat (request ! 11) in
      if length request \<noteq> (if command = 12 then 140 else 12) then (c, s, file_error host (address s) 16)
      else if window request 4 4 \<noteq> memcard_function then (c, s, reply 0xfe host (address s) [])
      else if request ! 8 \<noteq> 0 then (c, s, file_error host (address s) 1)
      else if block \<ge> 256 then (c, s, file_error host (address s) 4)
      else if command = 10 then
        (if phase \<noteq> 0 \<or> block \<noteq> 0 then (c, s, file_error host (address s) (if phase \<noteq> 0 then 2 else 4))
         else (c, s, reply 8 host (address s) media_info))
      else if command = 11 then handle_read rd c s request host phase block
      else if command = 12 then (case handle_write s request host phase block of (s, r) \<Rightarrow> (c, s, r))
      else handle_sync commit c s host phase block)"

definition kui_vmu_emulation_handle ::
    "('c \<Rightarrow> nat \<Rightarrow> 'c \<times> emu_io_result \<times> bytes) \<Rightarrow> ('c \<Rightarrow> nat \<Rightarrow> bytes \<Rightarrow> 'c \<times> emu_io_result)
     \<Rightarrow> 'c \<Rightarrow> vmu_emulation \<Rightarrow> bytes \<Rightarrow> nat \<Rightarrow> 'c \<times> vmu_emulation \<times> emu_result" where
  "kui_vmu_emulation_handle rd commit c s request capacity =
     (if \<not> initialized s \<or> length request < 4 then (c, s, Invalid)
      else let host = address s AND 0xc0; command = request ! 0 in
        if request ! 1 \<noteq> address s \<or> request ! 2 \<noteq> host then (c, s, Ignored)
        else if killed s then (if capacity < 4 then (c, s, Short) else (c, s, Handled [0xff, 0xff, 0xff, 0xff]))
        else if capacity < needed_capacity command then (c, s, Short)
        else if length request \<noteq> 4 + 4 * unat (request ! 3) then (c, s, file_error host (address s) 16)
        else if 1 \<le> command \<and> command \<le> 4 then
          (if length request \<noteq> 4 then (c, s, file_error host (address s) 16)
           else if command = 3 \<or> command = 4
           then (c, (kui_vmu_emulation_reset s)\<lparr>killed := (command = 4)\<rparr>, reply 7 host (address s) [])
           else (c, s, reply (if command = 1 then 5 else 6) host (address s) (device_info (command = 2))))
        else if command \<noteq> 10 \<and> command \<noteq> 11 \<and> command \<noteq> 12 \<and> command \<noteq> 13 then
          (if (command = 9 \<or> command = 14) \<and> length request \<ge> 8 \<and> window request 4 4 \<noteq> memcard_function
           then (c, s, reply 0xfe host (address s) []) else (c, s, reply 0xfd host (address s) []))
        else handle_storage rd commit c s request host)"

subsection \<open>Well-formed protocol states\<close>

definition phase_sets :: "u8 set" where
  "phase_sets = {1, 3, 7, 15}"

definition emu_inv :: "vmu_emulation \<Rightarrow> bool" where
  "emu_inv s =
     (initialized s \<and> length (staged s) = 512
      \<and> (active s \<longrightarrow> phases s \<in> phase_sets \<and> staged_block s < 256 \<and> \<not> committed_valid s) \<and> (\<not> active s \<longrightarrow> phases s = 0)
      \<and> (commit_attempted s \<longrightarrow> active s \<and> phases s = 15)
      \<and> (committed_valid s \<longrightarrow> committed_block s = staged_block s \<and> staged_block s < 256))"

lemma phase_bits:
  assumes "p \<in> phase_sets" and "k < 4" and "0 < k"
    and "p AND phase_bit k = 0" and "p = phase_bit k - 1"
  shows "p OR phase_bit k \<in> phase_sets"
proof -
  have "k = 1 \<or> k = 2 \<or> k = 3" using assms(2,3) by linarith
  then show ?thesis using assms(1,4,5) by (elim disjE) (auto simp: phase_bit_def phase_sets_def)
qed

text \<open>A WRITE leaves the state alone, starts a transaction, or adds the next phase to it.\<close>

lemma handle_write_cases:
  assumes "handle_write s request host phase block = (s', r)"
  obtains (same) "s' = s"
  | (start) "phase = 0" "\<not> commit_attempted s"
      "s' = s\<lparr>staged_block := block, active := True, phases := 1, committed_valid := False, read_valid := False,
               commit_attempted := False, staged := patch (staged s) 0 (window request 12 128)\<rparr>"
  | (next_phase) "0 < phase" "phase < 4" "\<not> commit_attempted s" "active s" "staged_block s = block"
      "phases s AND phase_bit phase = 0" "phases s = phase_bit phase - 1"
      "s' = s\<lparr>staged := patch (staged s) (128 * phase) (window request 12 128), phases := phases s OR phase_bit phase\<rparr>"
proof -
  let ?new = "s\<lparr>staged_block := block, active := True, phases := 1, committed_valid := False, read_valid := False,
               commit_attempted := False, staged := patch (staged s) 0 (window request 12 128)\<rparr>"
  let ?more = "s\<lparr>staged := patch (staged s) (128 * phase) (window request 12 128), phases := phases s OR phase_bit phase\<rparr>"
  consider "phase \<ge> 4 \<or> commit_attempted s" | "phase = 0" "\<not> commit_attempted s"
    | "0 < phase" "phase < 4" "\<not> commit_attempted s" by linarith
  then show thesis
  proof cases
    case 1
    then have "s' = s" using assms by (simp add: handle_write_def Let_def split: if_splits)
    then show thesis by (rule same)
  next
    case 2
    then have "s' = s \<or> s' = ?new" using assms unfolding handle_write_def Let_def by (simp split: if_splits)
    then show thesis using same start [OF 2] by blast
  next
    case 3
    let ?ok = "active s \<and> staged_block s = block \<and> phases s AND phase_bit phase = 0 \<and> phases s = phase_bit phase - 1"
    show thesis
    proof (cases ?ok)
      case True
      then have "phase_bit phase - 1 = phases s" "phases s AND phase_bit phase = 0" "active s" "staged_block s = block" by metis+
      then have "s' = ?more" using assms 3 unfolding handle_write_def Let_def by simp
      then show thesis using next_phase [OF 3] True by blast
    next
      case False
      then have "s' = s" using assms 3 unfolding handle_write_def Let_def by (simp split: if_splits)
      then show thesis by (rule same)
    qed
  qed
qed

lemma handle_write_inv:
  assumes "emu_inv s" and "block < 256" and "length request = 140" and "handle_write s request host phase block = (s', r)"
  shows "emu_inv s'"
proof -
  have chunk: "length (window request 12 128) = 128" using assms(3) by (simp add: byte_simps)
  from assms(4) show ?thesis
  proof (cases rule: handle_write_cases)
    case same
    then show ?thesis using assms(1) by simp
  next
    case start
    then show ?thesis using assms(1,2) chunk by (simp add: emu_inv_def length_patch phase_sets_def)
  next
    case next_phase
    have inv: "phases s \<in> phase_sets" "length (staged s) = 512" "\<not> committed_valid s"
      using assms(1) next_phase(4) by (simp_all add: emu_inv_def)
    have "length (patch (staged s) (128 * phase) (window request 12 128)) = 512"
      using next_phase(2) inv(2) chunk by (simp add: length_patch)
    moreover note phase_bits [OF inv(1) next_phase(2,1,6,7)]
    ultimately show ?thesis
      using assms(1,2) next_phase(3,4,5) inv(3) unfolding next_phase(8) emu_inv_def by simp
  qed
qed

lemma handle_read_cases:
  assumes "handle_read rd c s request host phase block = (c', s', r)"
  obtains (none) "c' = c" "s' = s\<lparr>read_valid := False\<rparr>" "phase \<noteq> 0" "r = file_error host (address s) 2"
  | (failed) res d where "rd c block = (c', res, d)" "res \<noteq> Emu_OK" "s' = s\<lparr>read_valid := False\<rparr>"
      "r = (if res = Emu_Busy then reply 0xfc host (address s) [] else file_error host (address s) 8)"
  | (data) d where "rd c block = (c', Emu_OK, d)" "s' = s\<lparr>read_block := block, read_valid := True\<rparr>"
      "r = reply 8 host (address s) (window request 4 8 @ d)"
  using assms by (cases "phase = 0"; cases "rd c block"; cases "fst (snd (rd c block))") (auto simp: handle_read_def Let_def)

lemma handle_read_inv:
  assumes "emu_inv s" and "handle_read rd c s request host phase block = (c', s', r)"
  shows "emu_inv s'"
  using assms(2) by (cases rule: handle_read_cases) (use assms(1) in \<open>simp_all add: emu_inv_def\<close>)

text \<open>A SYNC leaves the state alone, or tries the commit of a complete block and records its result.\<close>

definition committed :: "vmu_emulation \<Rightarrow> nat \<Rightarrow> vmu_emulation" where
  "committed s block = s\<lparr>commit_attempted := False, active := False, phases := 0, committed_block := block, committed_valid := True\<rparr>"

lemma handle_sync_cases:
  assumes "handle_sync commit c s host phase block = (c', s', r)"
  obtains (same) "c' = c" "s' = s" "\<not> (phase = 4 \<and> active s \<and> staged_block s = block \<and> phases s = 15)"
  | (tried) res where "phase = 4" "active s" "staged_block s = block" "phases s = 15" "commit c block (staged s) = (c', res)" "res \<noteq> Emu_OK"
      "s' = s\<lparr>commit_attempted := True\<rparr>" "r = (if res = Emu_Busy then reply 0xfc host (address s) [] else file_error host (address s) 8)"
  | (acked) "phase = 4" "active s" "staged_block s = block" "phases s = 15" "commit c block (staged s) = (c', Emu_OK)"
      "s' = committed s block" "r = reply 7 host (address s) []"
proof (cases "phase = 4 \<and> active s \<and> staged_block s = block \<and> phases s = 15")
  case False
  then have "handle_sync commit c s host phase block = (c, s, snd (snd (handle_sync commit c s host phase block)))"
    by (simp add: handle_sync_def Let_def)
  then have "c' = c" "s' = s" using assms by simp_all
  then show thesis using False by (rule same)
next
  case True
  obtain c1 res where "commit c block (staged s) = (c1, res)" by fastforce
  note c1 = this
  have "handle_sync commit c s host phase block =
    (c1, if res = Emu_OK then committed s block else s\<lparr>commit_attempted := True\<rparr>,
     if res = Emu_OK then reply 7 host (address s) [] else if res = Emu_Busy then reply 0xfc host (address s) []
          else file_error host (address s) 8)"
    using True c1 by (simp add: handle_sync_def Let_def committed_def)
  then have run: "c' = c1" "s' = (if res = Emu_OK then committed s block else s\<lparr>commit_attempted := True\<rparr>)"
    "r = (if res = Emu_OK then reply 7 host (address s) [] else if res = Emu_Busy then reply 0xfc host (address s) []
          else file_error host (address s) 8)"
    using assms by simp_all
  have commit: "commit c block (staged s) = (c', res)" using c1 run(1) by simp
  show thesis
  proof (cases "res = Emu_OK")
    case ok: True
    then have "commit c block (staged s) = (c', Emu_OK)" "s' = committed s block" "r = reply 7 host (address s) []"
      using commit run by simp_all
    then show thesis using True by (intro acked) simp_all
  next
    case False
    then have "s' = s\<lparr>commit_attempted := True\<rparr>"
      "r = (if res = Emu_Busy then reply 0xfc host (address s) [] else file_error host (address s) 8)"
      using run by simp_all
    then show thesis using commit False True by (intro tried [of res]) simp_all
  qed
qed

lemma handle_sync_inv:
  assumes "emu_inv s" and "block < 256" and "handle_sync commit c s host phase block = (c', s', r)"
  shows "emu_inv s'"
  using assms(3)
  by (cases rule: handle_sync_cases) (use assms(1,2) in \<open>simp_all add: emu_inv_def committed_def\<close>)

lemma emulation_init_inv: "kui_vmu_emulation_init addr = Some s \<Longrightarrow> emu_inv s"
  by (auto simp: kui_vmu_emulation_init_def emu_inv_def Let_def split: if_splits)

lemma handle_storage_inv:
  assumes "emu_inv s" and "handle_storage rd commit c s request host = (c', s', r)"
  shows "emu_inv s'"
  using assms by (auto simp: handle_storage_def Let_def not_le split: prod.splits if_splits
      intro: handle_write_inv handle_read_inv handle_sync_inv)

lemma handle_inv:
  assumes "emu_inv s" and "kui_vmu_emulation_handle rd commit c s request capacity = (c', s', r)"
  shows "emu_inv s'"
proof -
  have "emu_inv ((kui_vmu_emulation_reset s)\<lparr>killed := k\<rparr>)" for k
    using assms(1) by (simp add: emu_inv_def kui_vmu_emulation_reset_def)
  then show ?thesis
    using assms handle_storage_inv [OF assms(1)]
    by (auto simp: kui_vmu_emulation_handle_def Let_def split: if_splits)
qed

definition reply_code :: "emu_result \<Rightarrow> u8 option" where
  "reply_code r = (case r of Handled bs \<Rightarrow> Some (hd bs) | _ \<Rightarrow> None)"

lemma reply_code_simps [simp]:
  "reply_code (reply cmd dest src payload) = Some cmd" "reply_code (file_error host addr err) = Some 0xfb"
  "reply_code Ignored = None" "reply_code Invalid = None" "reply_code Short = None"
  "reply_code (Handled (b # bs)) = Some b"
  by (simp_all add: reply_code_def reply_def file_error_def)

text \<open>A storage request is refused without effect, or reaches one of the three handlers.\<close>

abbreviation request_block :: "bytes \<Rightarrow> nat" where
  "request_block request \<equiv> unat (request ! 10) * 256 + unat (request ! 11)"

lemma handle_storage_cases:
  assumes "handle_storage rd commit c s request host = (c', s', r)"
  obtains (plain) "c' = c" "s' = s" "request ! 0 = 12 \<or> request ! 0 = 13 \<or> request ! 0 = 11 \<longrightarrow> reply_code r \<in> {Some 0xfb, Some 0xfe}"
  | (reading) "request ! 0 = 11" "length request = 12" "request_block request < 256"
      "handle_read rd c s request host (unat (request ! 9)) (request_block request) = (c', s', r)"
  | (writing) "request ! 0 = 12" "length request = 140" "request_block request < 256" "c' = c"
      "handle_write s request host (unat (request ! 9)) (request_block request) = (s', r)"
  | (syncing) "length request = 12" "request_block request < 256" "request ! 0 \<notin> {10, 11, 12}"
      "handle_sync commit c s host (unat (request ! 9)) (request_block request) = (c', s', r)"
proof -
  let ?cmd = "request ! 0"
  let ?good = "length request = (if ?cmd = 12 then 140 else 12) \<and> window request 4 4 = memcard_function \<and> request ! 8 = 0
    \<and> request_block request < 256"
  show thesis
  proof (cases "?good \<and> ?cmd \<noteq> 10")
    case False
    then have "c' = c \<and> s' = s \<and> (?cmd = 12 \<or> ?cmd = 13 \<or> ?cmd = 11 \<longrightarrow> reply_code r \<in> {Some 0xfb, Some 0xfe})"
      using assms unfolding handle_storage_def Let_def
      by (auto split: if_splits)
    then show thesis by (intro plain) auto
  next
    case True
    then have "handle_storage rd commit c s request host =
      (if ?cmd = 11 then handle_read rd c s request host (unat (request ! 9)) (request_block request)
       else if ?cmd = 12 then (case handle_write s request host (unat (request ! 9)) (request_block request) of (s, r) \<Rightarrow> (c, s, r))
       else handle_sync commit c s host (unat (request ! 9)) (request_block request))"
      by (simp add: handle_storage_def Let_def)
    then show thesis
      using assms True reading writing syncing
      by (cases "?cmd = 11"; cases "?cmd = 12"; cases "handle_write s request host (unat (request ! 9)) (request_block request)") simp_all
  qed
qed

subsection \<open>What a backing store promises\<close>

text \<open>
  \<open>view c\<close> is the card that the context stands for.  A read that succeeds returns the block of the view; a
  commit that succeeds has stored the block, and one that fails has stored it or has not.
\<close>

locale block_backing =
  fixes rd :: "'c \<Rightarrow> nat \<Rightarrow> 'c \<times> emu_io_result \<times> bytes"
    and commit :: "'c \<Rightarrow> nat \<Rightarrow> bytes \<Rightarrow> 'c \<times> emu_io_result"
    and view :: "'c \<Rightarrow> nat \<Rightarrow> bytes"
    and sound :: "'c \<Rightarrow> bool"
  assumes read_law: "\<lbrakk>sound c; b < 256; rd c b = (c', res, d)\<rbrakk> \<Longrightarrow>
      sound c' \<and> view c' = view c \<and> (res = Emu_OK \<longrightarrow> d = view c b)"
    and commit_law: "\<lbrakk>sound c; b < 256; length d = 512; commit c b d = (c', res)\<rbrakk> \<Longrightarrow>
      sound c' \<and> (view c' = view c \<or> view c' = (view c)(b := d)) \<and> (res = Emu_OK \<longrightarrow> view c' = (view c)(b := d))"
begin

definition backed :: "'c \<Rightarrow> vmu_emulation \<Rightarrow> bool" where
  "backed c s = (emu_inv s \<and> sound c \<and> (committed_valid s \<longrightarrow> view c (committed_block s) = staged s))"

text \<open>Only the commit of a complete staged block can change the card.\<close>

definition card_step :: "'c \<Rightarrow> vmu_emulation \<Rightarrow> 'c \<Rightarrow> bool" where
  "card_step c s c' = (view c' = view c \<or> active s \<and> phases s = 15 \<and> view c' = (view c)(staged_block s := staged s))"

lemma handle_write_backed:
  assumes "backed c s" and "block < 256" and "length request = 140" and "handle_write s request host phase block = (s', r)"
  shows "backed c s'"
proof -
  have inv: "emu_inv s" using assms(1) by (simp add: backed_def)
  from assms(4) have "committed_valid s' \<Longrightarrow> committed_valid s \<and> committed_block s' = committed_block s \<and> staged s' = staged s"
    by (cases rule: handle_write_cases) (use inv in \<open>auto simp: emu_inv_def\<close>)
  then show ?thesis
    using assms(1) handle_write_inv [OF inv assms(2-4)] by (auto simp: backed_def)
qed

lemma handle_read_backed:
  assumes "backed c s" and "block < 256" and "handle_read rd c s request host phase block = (c', s', r)"
  shows "backed c' s' \<and> view c' = view c"
proof -
  have inv: "emu_inv s" and snd: "sound c" using assms(1) by (simp_all add: backed_def)
  from assms(3) have "sound c' \<and> view c' = view c \<and> committed_valid s' = committed_valid s \<and>
      committed_block s' = committed_block s \<and> staged s' = staged s"
    by (cases rule: handle_read_cases) (use snd read_law [OF snd assms(2)] in auto)
  then show ?thesis using assms(1) handle_read_inv [OF inv assms(3)] by (auto simp: backed_def)
qed

lemma handle_sync_backed:
  assumes "backed c s" and "block < 256" and "handle_sync commit c s host phase block = (c', s', r)"
  shows "backed c' s' \<and> card_step c s c'"
proof -
  have inv: "emu_inv s" and snd: "sound c" and len: "length (staged s) = 512"
    using assms(1) by (simp_all add: backed_def emu_inv_def)
  note inv' = handle_sync_inv [OF inv assms(2,3)]
  from assms(3) show ?thesis
  proof (cases rule: handle_sync_cases)
    case same
    then show ?thesis using assms(1) by (simp add: card_step_def)
  next
    case (tried res)
    then have "\<not> committed_valid s'" using inv by (simp add: emu_inv_def)
    then show ?thesis
      using tried commit_law [OF snd assms(2) len tried(5)] inv' by (auto simp: backed_def card_step_def)
  next
    case acked
    then show ?thesis
      using commit_law [OF snd assms(2) len acked(5)] inv' by (auto simp: backed_def card_step_def committed_def)
  qed
qed

lemma handle_storage_backed:
  assumes "backed c s" and "handle_storage rd commit c s request host = (c', s', r)"
  shows "backed c' s' \<and> card_step c s c'"
proof -
  have same: "card_step c s c" by (simp add: card_step_def)
  from assms(2) show ?thesis
  proof (cases rule: handle_storage_cases)
    case plain
    then show ?thesis using same assms(1) by simp
  next
    case reading
    then show ?thesis using handle_read_backed [OF assms(1) reading(3,4)] by (simp add: card_step_def)
  next
    case writing
    then show ?thesis using handle_write_backed [OF assms(1) writing(3,2,5)] same by simp
  next
    case syncing
    then show ?thesis using handle_sync_backed [OF assms(1)] by blast
  qed
qed

lemma handle_backed:
  assumes "backed c s" and "kui_vmu_emulation_handle rd commit c s request capacity = (c', s', r)"
  shows "backed c' s' \<and> card_step c s c'"
proof -
  have "backed c ((kui_vmu_emulation_reset s)\<lparr>killed := k\<rparr>)" for k
    using assms(1) by (simp add: backed_def emu_inv_def kui_vmu_emulation_reset_def)
  moreover have "card_step c s c" by (simp add: card_step_def)
  ultimately show ?thesis
    using assms handle_storage_backed [OF assms(1)]
    unfolding kui_vmu_emulation_handle_def Let_def by (auto split: if_splits)
qed

text \<open>A block that a READ returns is the block of the card.\<close>

lemma read_reply:
  assumes "backed c s" and "kui_vmu_emulation_handle rd commit c s request capacity = (c', s', r)"
    and "request ! 0 = 11" and "reply_code r = Some 8"
  shows "r = reply 8 (address s AND 0xc0) (address s) (window request 4 8 @ view c (request_block request)) \<and>
    request_block request < 256 \<and> length request = 12"
proof -
  have "handle_storage rd commit c s request (address s AND 0xc0) = (c', s', r)"
    using assms(2-4) unfolding kui_vmu_emulation_handle_def Let_def by (auto split: if_splits)
  then show ?thesis
  proof (cases rule: handle_storage_cases)
    case plain
    then show ?thesis using assms(3,4) by auto
  next
    case reading
    have snd: "sound c" using assms(1) by (simp add: backed_def)
    from reading(4) show ?thesis
      by (cases rule: handle_read_cases)
        (use assms(4) reading(2,3) read_law [OF snd reading(3)] in \<open>auto split: if_splits\<close>)
  qed (use assms(3) in auto)
qed

text \<open>An acknowledged SYNC means that the card holds the staged block.\<close>

lemma sync_reply:
  assumes "backed c s" and "kui_vmu_emulation_handle rd commit c s request capacity = (c', s', r)"
    and "request ! 0 = 13" and "request ! 9 = 4" and "reply_code r = Some 7"
  shows "view c' (request_block request) = staged s \<and> request_block request < 256"
proof -
  have "handle_storage rd commit c s request (address s AND 0xc0) = (c', s', r)"
    using assms(2-5) unfolding kui_vmu_emulation_handle_def Let_def by (auto split: if_splits)
  then show ?thesis
  proof (cases rule: handle_storage_cases)
    case plain
    then show ?thesis using assms(3,5) by auto
  next
    case syncing
    have snd: "sound c" and len: "length (staged s) = 512" using assms(1) by (simp_all add: backed_def emu_inv_def)
    have phase: "unat (request ! 9) = 4" using assms(4) by simp
    from syncing(4) show ?thesis
    proof (cases rule: handle_sync_cases)
      case same
      then have "committed_valid s \<and> committed_block s = request_block request"
        using syncing(4) phase assms(5) same(3) by (auto simp: handle_sync_def Let_def split: if_splits prod.splits)
      then show ?thesis using assms(1) same syncing(2) by (auto simp: backed_def)
    next
      case (tried res)
      then show ?thesis using assms(5) by (auto split: if_splits)
    next
      case acked
      then show ?thesis using commit_law [OF snd syncing(2) len acked(5)] syncing(2) by simp
    qed
  qed (use assms(3) in auto)
qed

end

subsection \<open>A complete block write\<close>

definition write_request :: "u8 \<Rightarrow> nat \<Rightarrow> nat \<Rightarrow> bytes \<Rightarrow> bytes" where
  "write_request addr phase block chunk =
     [12, addr, addr AND 0xc0, 34] @ memcard_function @ [0, of_nat phase, 0, of_nat block] @ chunk"

definition sync_request :: "u8 \<Rightarrow> nat \<Rightarrow> bytes" where
  "sync_request addr block = [13, addr, addr AND 0xc0, 2] @ memcard_function @ [0, 4, 0, of_nat block]"

fun serve ::
    "('c \<Rightarrow> nat \<Rightarrow> 'c \<times> emu_io_result \<times> bytes) \<Rightarrow> ('c \<Rightarrow> nat \<Rightarrow> bytes \<Rightarrow> 'c \<times> emu_io_result)
     \<Rightarrow> nat \<Rightarrow> 'c \<Rightarrow> vmu_emulation \<Rightarrow> bytes list \<Rightarrow> 'c \<times> vmu_emulation \<times> emu_result list" where
  "serve rd commit capacity c s [] = (c, s, [])"
| "serve rd commit capacity c s (q # qs) =
     (case kui_vmu_emulation_handle rd commit c s q capacity of (c, s, r) \<Rightarrow>
      case serve rd commit capacity c s qs of (c, s, rs) \<Rightarrow> (c, s, r # rs))"

lemma write_request_bytes:
  fixes addr :: u8
  assumes "length chunk = 128" and "block < 256" and "phase < 4"
  defines "q \<equiv> write_request addr phase block chunk"
  shows "length q = 140" "q ! 0 = 12" "q ! 1 = addr" "q ! 2 = addr AND 0xc0" "q ! 3 = 34" "window q 4 4 = memcard_function"
    "q ! 8 = 0" "unat (q ! 9) = phase" "request_block q = block" "window q 12 128 = chunk"
  using assms by (simp_all add: write_request_def memcard_function_def window_def unat_of_nat)

lemma sync_request_bytes:
  fixes addr :: u8
  assumes "block < 256"
  defines "q \<equiv> sync_request addr block"
  shows "length q = 12" "q ! 0 = 13" "q ! 1 = addr" "q ! 2 = addr AND 0xc0" "q ! 3 = 2" "window q 4 4 = memcard_function"
    "q ! 8 = 0" "unat (q ! 9) = 4" "request_block q = block"
  using assms by (simp_all add: sync_request_def memcard_function_def window_def unat_of_nat)

lemma handle_write_request:
  assumes "initialized s" and "\<not> killed s" and "8 \<le> capacity" and "length chunk = 128" and "block < 256" and "phase < 4"
  shows "kui_vmu_emulation_handle rd commit c s (write_request (address s) phase block chunk) capacity =
    (case handle_write s (write_request (address s) phase block chunk) (address s AND 0xc0) phase block of (s, r) \<Rightarrow> (c, s, r))"
  using assms write_request_bytes [OF assms(4-6), of "address s"]
  by (simp add: kui_vmu_emulation_handle_def handle_storage_def needed_capacity_def Let_def)

lemma handle_sync_request:
  assumes "initialized s" and "\<not> killed s" and "8 \<le> capacity" and "block < 256"
  shows "kui_vmu_emulation_handle rd commit c s (sync_request (address s) block) capacity =
    handle_sync commit c s (address s AND 0xc0) 4 block"
  using assms sync_request_bytes [OF assms(4), of "address s"]
  by (simp add: kui_vmu_emulation_handle_def handle_storage_def needed_capacity_def Let_def)

lemma patch_chunks:
  assumes "length st = 512" and "length a = 128" and "length b = 128" and "length d = 128" and "length e = 128"
  shows "patch (patch (patch (patch st 0 a) 128 b) 256 d) 384 e = a @ b @ d @ e"
  using assms by (simp add: patch_def)

lemma next_phase_request:
  assumes "initialized s" and "\<not> killed s" and "8 \<le> capacity" and "length chunk = 128" and "block < 256"
    and "phase \<in> {1, 2, 3}" and "active s" and "\<not> commit_attempted s" and "staged_block s = block" and "phases s = phase_bit phase - 1"
  shows "kui_vmu_emulation_handle rd commit c s (write_request (address s) phase block chunk) capacity =
    (c, s\<lparr>staged := patch (staged s) (128 * phase) chunk, phases := phase_bit phase - 1 OR phase_bit phase\<rparr>,
     reply 7 (address s AND 0xc0) (address s) [])"
proof -
  have phase: "phase < 4" "phase \<noteq> 0" using assms(6) by auto
  have "(phase_bit phase - 1) AND phase_bit phase = 0" using assms(6) by (auto simp: phase_bit_def)
  then show ?thesis
    using handle_write_request [OF assms(1-5) phase(1)] write_request_bytes(10) [OF assms(4,5) phase(1)] assms(7-10) phase
    by (simp add: handle_write_def Let_def)
qed

text \<open>
  C6. A complete block write commits exactly the bytes that were sent.  From an idle card, the four
  phases of a block and the SYNC are each acknowledged, and the only effect on the backing store
  is one commit of the block with the four chunks in order (a card that is idle has no incomplete
  transaction; \<open>Emu_OK\<close> is what the backing answers).
\<close>

theorem block_write_transaction:
  assumes "emu_inv s" and "\<not> active s" and "\<not> killed s" and "block < 256" and "8 \<le> capacity"
    and "length a = 128" and "length b = 128" and "length d = 128" and "length e = 128"
    and "commit c block (a @ b @ d @ e) = (c', Emu_OK)"
  shows "\<exists>s'. serve rd commit capacity c s
      [write_request (address s) 0 block a, write_request (address s) 1 block b,
       write_request (address s) 2 block d, write_request (address s) 3 block e, sync_request (address s) block] =
    (c', s', replicate 5 (reply 7 (address s AND 0xc0) (address s) [])) \<and>
    \<not> active s' \<and> committed_valid s' \<and> committed_block s' = block"
proof -
  let ?host = "address s AND 0xc0" and ?ack = "reply 7 (address s AND 0xc0) (address s) []"
  have init: "initialized s" and len: "length (staged s) = 512" and idle: "\<not> commit_attempted s"
    using assms(1,2) by (auto simp: emu_inv_def)
  have bits: "phase_bit (Suc 0) = 2" "phase_bit 2 = 4" "phase_bit 3 = 8" by (simp_all add: phase_bit_def)
  note wr = write_request_bytes [OF _ assms(4)]
  define s1 where "s1 = s\<lparr>staged_block := block, active := True, phases := 1, committed_valid := False, read_valid := False,
    commit_attempted := False, staged := patch (staged s) 0 a\<rparr>"
  define s2 where "s2 = s1\<lparr>staged := patch (staged s1) 128 b, phases := 3\<rparr>"
  define s3 where "s3 = s2\<lparr>staged := patch (staged s2) 256 d, phases := 7\<rparr>"
  define s4 where "s4 = s3\<lparr>staged := patch (staged s3) 384 e, phases := 15\<rparr>"
  have h1: "kui_vmu_emulation_handle rd commit c s (write_request (address s) 0 block a) capacity = (c, s1, ?ack)"
    using handle_write_request [OF init assms(3,5,6,4), of 0] assms(2) idle wr(10) [OF assms(6), of 0]
    by (simp add: handle_write_def s1_def)
  have h2: "kui_vmu_emulation_handle rd commit c s1 (write_request (address s) 1 block b) capacity = (c, s2, ?ack)"
    using next_phase_request [of s1 capacity b block 1 rd commit c] assms(3,4,5,7) init by (simp add: s1_def s2_def bits)
  have h3: "kui_vmu_emulation_handle rd commit c s2 (write_request (address s) 2 block d) capacity = (c, s3, ?ack)"
    using next_phase_request [of s2 capacity d block 2 rd commit c] assms(3,4,5,8) init by (simp add: s1_def s2_def s3_def bits)
  have h4: "kui_vmu_emulation_handle rd commit c s3 (write_request (address s) 3 block e) capacity = (c, s4, ?ack)"
    using next_phase_request [of s3 capacity e block 3 rd commit c] assms(3,4,5,9) init by (simp add: s1_def s2_def s3_def s4_def bits)
  have "staged s4 = a @ b @ d @ e" using patch_chunks [OF len assms(6-9)] by (simp add: s1_def s2_def s3_def s4_def)
  then have h5: "kui_vmu_emulation_handle rd commit c s4 (sync_request (address s) block) capacity = (c', committed s4 block, ?ack)"
    using handle_sync_request [of s4 capacity block rd commit c] assms(3,4,5,10) init
    by (simp add: handle_sync_def s1_def s2_def s3_def s4_def committed_def)
  have "\<not> active (committed s4 block) \<and> committed_valid (committed s4 block) \<and> committed_block (committed s4 block) = block"
    by (simp add: committed_def)
  then show ?thesis using h1 h2 h3 h4 h5 by (simp add: eval_nat_numeral)
qed

theorem block_write_transaction_witness:
  "\<exists>s s'. kui_vmu_emulation_init 1 = Some s \<and>
     serve (\<lambda>c b. (c, Emu_OK, c b)) (\<lambda>c b d. (c(b := d), Emu_OK)) 8 (\<lambda>_. replicate 512 0) s
      [write_request 1 0 9 (replicate 128 1), write_request 1 1 9 (replicate 128 2), write_request 1 2 9 (replicate 128 3),
       write_request 1 3 9 (replicate 128 4), sync_request 1 9] =
     ((\<lambda>_. replicate 512 0)(9 := replicate 128 1 @ replicate 128 2 @ replicate 128 3 @ replicate 128 4), s',
      replicate 5 (Handled [7, 0, 1, 0]))"
proof -
  obtain s where s: "kui_vmu_emulation_init 1 = Some s" by (simp add: kui_vmu_emulation_init_def)
  have fields: "\<not> active s" "\<not> killed s" "address s = 1"
    using s by (auto simp: kui_vmu_emulation_init_def)
  let ?d = "replicate 128 1 @ replicate 128 2 @ replicate 128 3 @ replicate 128 4 :: bytes"
  have ack: "reply 7 (address s AND 0xc0) (address s) [] = Handled [7, 0, 1, 0]" by (simp add: fields(3) reply_def)
  note run = block_write_transaction [OF emulation_init_inv [OF s] fields(1,2), where block = 9 and capacity = 8
      and a = "replicate 128 1" and b = "replicate 128 2" and d = "replicate 128 3" and e = "replicate 128 4"
      and commit = "\<lambda>c b d. (c(b := d), Emu_OK)" and c = "\<lambda>_. replicate 512 0" and c' = "(\<lambda>_. replicate 512 0)(9 := ?d)"
      and rd = "\<lambda>c b. (c, Emu_OK, c b)"]
  show ?thesis using run s unfolding ack unfolding fields(3) by (simp del: serve.simps) blast
qed

end
