(* ===== verification/Vmu_Cards.thy ===== *)
theory Vmu_Cards
  imports Vmu_Emulation Vmu_Image
begin

text \<open>
  The two cards that never write the SD card: the volatile card (src/core/vmu_volatile.c), whose
  commits go to a cache of 16 blocks in RAM over a read-only base image, and the read-only card
  (src/core/vmu_readonly.c), which serves the canonical blank card or a fixed image and treats any commit
  as a fault.  Both are backing stores of the Maple protocol of \<open>Vmu_Emulation\<close>: their callbacks
  satisfy the laws of \<open>block_backing\<close> over any reader that keeps the laws of \<open>steady_reader\<close>.
\<close>

unbundle bit_operations_syntax

datatype card_result = Card_Handled bytes | Card_Refused | Card_Argument | Card_Capacity | Card_Internal | Card_Full

subsection \<open>The volatile card\<close>

record 'r vmu_volatile =
  v_protocol :: vmu_emulation
  v_cache :: "bytes list"
  v_blocks :: "nat list"
  v_requests :: u32
  v_reads :: u32
  v_base_reads :: u32
  v_cache_reads :: u32
  v_refused :: u32
  v_write_phases :: u32
  v_ram_commits :: u32
  v_cached_blocks :: nat
  v_full_faults :: u32
  v_reader :: "'r \<Rightarrow> nat \<Rightarrow> 'r \<times> bytes option"
  v_reader_context :: 'r
  v_ready :: bool
  v_faulted :: bool

definition volatile_card_shape :: "u8 \<Rightarrow> u32 \<Rightarrow> u32 \<Rightarrow> u32 \<Rightarrow> nat" where
  "volatile_card_shape addr h p0 p1 =
     (let cmd = h AND 255; words = drop_bit 24 h; phase = drop_bit 8 p1 AND 255 in
      if h AND 0x00ffff00 \<noteq> push_bit 8 (ucast addr) then 0
      else if cmd = 1 \<or> cmd = 2 then (if words \<noteq> 0 then 0 else if cmd = 1 then 116 else 196)
      else if p0 \<noteq> 0x02000000 \<or> p1 AND 0x00ff00ff \<noteq> 0 then 0
      else if cmd = 10 then (if words = 2 \<and> p1 = 0 then 32 else 0)
      else if cmd = 11 then (if words = 2 \<and> phase = 0 then 524 else 0)
      else if cmd = 12 then (if words = 34 \<and> phase < 4 then 4 else 0)
      else if cmd = 13 then (if words = 2 \<and> (phase = 1 \<or> phase = 4) then 4 else 0)
      else 0)"

definition volatile_card_slot :: "'r vmu_volatile \<Rightarrow> nat \<Rightarrow> nat" where
  "volatile_card_slot s block =
     (case find (\<lambda>i. v_blocks s ! i = block) [0..<min (v_cached_blocks s) 16] of None \<Rightarrow> 16 | Some i \<Rightarrow> i)"

definition volatile_card_full :: "'r vmu_volatile \<Rightarrow> 'r vmu_volatile" where
  "volatile_card_full s = s\<lparr>v_faulted := True, v_full_faults := increment (v_full_faults s)\<rparr>"

definition kui_vmu_volatile_admit :: "'r vmu_volatile \<Rightarrow> u32 \<Rightarrow> u32 \<Rightarrow> u32 \<Rightarrow> 'r vmu_volatile \<times> card_result option" where
  "kui_vmu_volatile_admit s h p0 p1 =
     (if \<not> v_ready s then (s, Some Card_Argument)
      else if v_faulted s \<or> v_cached_blocks s > 16 then (s, Some Card_Internal)
      else if volatile_card_shape (address (v_protocol s)) h p0 p1 = 0
      then (s\<lparr>v_refused := increment (v_refused s)\<rparr>, Some Card_Refused)
      else if h AND 255 = 12 \<and> v_cached_blocks s = 16 \<and> volatile_card_slot s (unat (drop_bit 24 p1)) = 16
      then (volatile_card_full s, Some Card_Full)
      else (s, None))"

definition volatile_card_read_block :: "'r vmu_volatile \<Rightarrow> nat \<Rightarrow> 'r vmu_volatile \<times> emu_io_result \<times> bytes" where
  "volatile_card_read_block s block =
     (if \<not> v_ready s \<or> v_faulted s \<or> block \<ge> 256 \<or> v_cached_blocks s > 16 then (s, Emu_Error, [])
      else let i = volatile_card_slot s block in
        if i < 16 then
          (s\<lparr>v_cache_reads := increment (v_cache_reads s), v_reads := increment (v_reads s)\<rparr>, Emu_OK, v_cache s ! i)
        else case v_reader s (v_reader_context s) block of (c, x) \<Rightarrow>
          (let s = s\<lparr>v_reader_context := c\<rparr> in
           case x of None \<Rightarrow> (s\<lparr>v_faulted := True\<rparr>, Emu_Error, [])
           | Some d \<Rightarrow> (s\<lparr>v_base_reads := increment (v_base_reads s), v_reads := increment (v_reads s)\<rparr>, Emu_OK, d)))"

definition volatile_card_commit_ram :: "'r vmu_volatile \<Rightarrow> nat \<Rightarrow> bytes \<Rightarrow> 'r vmu_volatile \<times> emu_io_result" where
  "volatile_card_commit_ram s block d =
     (if \<not> v_ready s \<or> v_faulted s \<or> block \<ge> 256 \<or> v_cached_blocks s > 16 then (s, Emu_Error)
      else let i = volatile_card_slot s block in
        if i = 16 \<and> v_cached_blocks s = 16 then (volatile_card_full s, Emu_Error)
        else let s' = (if i = 16 then s\<lparr>v_blocks := (v_blocks s)[v_cached_blocks s := block],
                                        v_cached_blocks := v_cached_blocks s + 1\<rparr> else s);
                 k = (if i = 16 then v_cached_blocks s else i)
             in (s'\<lparr>v_cache := (v_cache s')[k := d], v_ram_commits := increment (v_ram_commits s')\<rparr>, Emu_OK))"

definition kui_vmu_volatile_init_address ::
    "u8 \<Rightarrow> ('r \<Rightarrow> nat \<Rightarrow> 'r \<times> bytes option) option \<Rightarrow> 'r \<Rightarrow> card_result + 'r vmu_volatile" where
  "kui_vmu_volatile_init_address addr reader context =
     (if addr \<noteq> 1 \<and> addr \<noteq> 2 then Inl Card_Argument
      else case reader of None \<Rightarrow> Inl Card_Argument
      | Some rd \<Rightarrow>
        (case kui_vmu_emulation_init addr of None \<Rightarrow> Inl Card_Internal
         | Some p \<Rightarrow> Inr \<lparr>v_protocol = p, v_cache = replicate 16 (replicate 512 0), v_blocks = replicate 16 0,
             v_requests = 0, v_reads = 0, v_base_reads = 0, v_cache_reads = 0, v_refused = 0,
             v_write_phases = 0, v_ram_commits = 0, v_cached_blocks = 0, v_full_faults = 0,
             v_reader = rd, v_reader_context = context, v_ready = True, v_faulted = False\<rparr>))"

definition kui_vmu_volatile_init ::
    "('r \<Rightarrow> nat \<Rightarrow> 'r \<times> bytes option) option \<Rightarrow> 'r \<Rightarrow> card_result + 'r vmu_volatile" where
  "kui_vmu_volatile_init = kui_vmu_volatile_init_address 1"

text \<open>The identification text that the card writes over the generic one.\<close>

definition volatile_identity :: "u32 \<Rightarrow> bytes \<Rightarrow> bytes" where
  "volatile_identity cmd response =
     (let response = (if cmd = 1 \<or> cmd = 2
        then patch (patch response 22 (replicate 30 0x20)) 22 (ascii ''K-UI Volatile RAM Card'') else response)
      in if cmd = 2
         then patch (patch response 116 (replicate 80 0x20)) 116
                (ascii ''K-UI volatile RAM writes; all changes lost on reset; SD image read-only'')
         else response)"

definition volatile_refused :: "'r vmu_volatile \<Rightarrow> 'r vmu_volatile \<times> card_result" where
  "volatile_refused s = (s\<lparr>v_refused := increment (v_refused s)\<rparr>, Card_Refused)"

definition reply_shape_ok :: "u8 \<Rightarrow> u8 \<Rightarrow> nat \<Rightarrow> emu_result \<Rightarrow> bool" where
  "reply_shape_ok expected addr needed r =
     (case r of Handled out \<Rightarrow> length out = needed \<and> out ! 0 = expected \<and> out ! 1 = 0 \<and> out ! 2 = addr
        \<and> 4 + 4 * unat (out ! 3) = length out
      | _ \<Rightarrow> False)"

definition kui_vmu_volatile_handle :: "'r vmu_volatile \<Rightarrow> bytes \<Rightarrow> nat \<Rightarrow> 'r vmu_volatile \<times> card_result" where
  "kui_vmu_volatile_handle s request capacity =
     (if \<not> v_ready s then (s, Card_Argument)
      else if v_faulted s then (s, Card_Internal)
      else if length request < 4 then volatile_refused s
      else let h = get32 request 0; cmd = h AND 255;
               p0 = (if length request \<ge> 12 then get32 request 4 else 0);
               p1 = (if length request \<ge> 12 then get32 request 8 else 0);
               addr = address (v_protocol s);
               needed = volatile_card_shape addr h p0 p1
      in if length request \<noteq> 4 + 4 * unat (drop_bit 24 h) then volatile_refused s
         else if needed = 0 then volatile_refused s
         else if capacity < needed then (s, Card_Capacity)
         else case kui_vmu_volatile_admit s h p0 p1 of
             (s, Some r) \<Rightarrow> (s, r)
           | (s, None) \<Rightarrow>
             (case kui_vmu_emulation_handle volatile_card_read_block volatile_card_commit_ram s (v_protocol s)
                 request (if cmd = 12 \<or> cmd = 13 then 8 else capacity) of
               (s, p, r) \<Rightarrow>
                (let s = s\<lparr>v_protocol := p\<rparr>;
                     expected = (if cmd = 1 then 5 else if cmd = 2 then 6 else if cmd = 12 \<or> cmd = 13 then 7 else 8)
                 in if v_faulted s \<or> \<not> reply_shape_ok expected (address p) needed r
                    then (s\<lparr>v_faulted := True\<rparr>, Card_Internal)
                    else let s = (if cmd = 12 then s\<lparr>v_write_phases := increment (v_write_phases s)\<rparr> else s)
                         in (s\<lparr>v_requests := increment (v_requests s)\<rparr>,
                             Card_Handled (volatile_identity cmd (case r of Handled out \<Rightarrow> out))))))"

subsection \<open>The read-only card\<close>

record 'r vmu_readonly =
  r_protocol :: vmu_emulation
  r_requests :: u32
  r_reads :: u32
  r_refused :: u32
  r_commit_attempts :: u32
  r_ready :: bool
  r_faulted :: bool
  r_reader :: "('r \<Rightarrow> nat \<Rightarrow> 'r \<times> bytes option) option"
  r_reader_context :: 'r

definition read_blank :: "'r vmu_readonly \<Rightarrow> nat \<Rightarrow> 'r vmu_readonly \<times> emu_io_result \<times> bytes" where
  "read_blank s block =
     (if \<not> r_ready s \<or> r_faulted s then (s, Emu_Error, [])
      else let (s, x) = (case r_reader s of
             None \<Rightarrow> (s, snd (kui_vmu_image_blank_block block))
           | Some rd \<Rightarrow> (case rd (r_reader_context s) block of (c, x) \<Rightarrow> (s\<lparr>r_reader_context := c\<rparr>, x)))
        in case x of None \<Rightarrow> (s\<lparr>r_faulted := True\<rparr>, Emu_Error, [])
           | Some d \<Rightarrow> (s\<lparr>r_reads := increment (r_reads s)\<rparr>, Emu_OK, d))"

definition commit_refused :: "'r vmu_readonly \<Rightarrow> nat \<Rightarrow> bytes \<Rightarrow> 'r vmu_readonly \<times> emu_io_result" where
  "commit_refused s block d =
     (s\<lparr>r_commit_attempts := increment (r_commit_attempts s), r_faulted := True\<rparr>, Emu_Error)"

definition kui_vmu_readonly_init_address :: "u8 \<Rightarrow> 'r \<Rightarrow> card_result + 'r vmu_readonly" where
  "kui_vmu_readonly_init_address addr context =
     (if addr \<noteq> 1 \<and> addr \<noteq> 2 then Inl Card_Argument
      else case kui_vmu_emulation_init addr of None \<Rightarrow> Inl Card_Internal
      | Some p \<Rightarrow> Inr \<lparr>r_protocol = p, r_requests = 0, r_reads = 0, r_refused = 0, r_commit_attempts = 0,
          r_ready = True, r_faulted = False, r_reader = None, r_reader_context = context\<rparr>)"

definition kui_vmu_readonly_init :: "'r \<Rightarrow> card_result + 'r vmu_readonly" where
  "kui_vmu_readonly_init = kui_vmu_readonly_init_address 1"

definition kui_vmu_readonly_init_reader ::
    "('r \<Rightarrow> nat \<Rightarrow> 'r \<times> bytes option) option \<Rightarrow> 'r \<Rightarrow> card_result + 'r vmu_readonly" where
  "kui_vmu_readonly_init_reader reader context =
     (case reader of None \<Rightarrow> Inl Card_Argument
      | Some rd \<Rightarrow> (case kui_vmu_readonly_init context of Inl r \<Rightarrow> Inl r
         | Inr s \<Rightarrow> Inr (s\<lparr>r_reader := Some rd, r_reader_context := context\<rparr>)))"

definition readonly_identity :: "bool \<Rightarrow> u8 \<Rightarrow> bytes \<Rightarrow> bytes" where
  "readonly_identity sd command response =
     (let response = (if command = 1 \<or> command = 2
        then patch (patch response 22 (replicate 30 0x20)) 22
               (ascii (if sd then ''K-UI Read-Only SD'' else ''K-UI Read-Only Blank'')) else response)
      in if command = 2
         then patch (patch response 116 (replicate 80 0x20)) 116
                (ascii (if sd then ''K-UI read-only fixed SD image; no writes or persistence''
                        else ''K-UI read-only synthetic blank card; no persistence''))
         else response)"

text \<open>The response length that a request of the whitelist needs; 0 for every other request.\<close>

definition readonly_shape :: "u8 \<Rightarrow> bytes \<Rightarrow> nat" where
  "readonly_shape addr request =
     (if length request < 4 then 0
      else let command = request ! 0 in
        if request ! 1 \<noteq> addr \<or> request ! 2 \<noteq> 0 then 0
        else if command = 1 \<or> command = 2 then
          (if length request \<noteq> 4 \<or> request ! 3 \<noteq> 0 then 0 else if command = 1 then 116 else 196)
        else if command = 10 \<or> command = 11 then
          (if length request \<noteq> 12 \<or> request ! 3 \<noteq> 2 \<or> window request 4 4 \<noteq> memcard_function
              \<or> request ! 8 \<noteq> 0 \<or> request ! 9 \<noteq> 0 \<or> request ! 10 \<noteq> 0 \<or> (command = 10 \<and> request ! 11 \<noteq> 0)
           then 0 else if command = 10 then 32 else 524)
        else 0)"

definition kui_vmu_readonly_handle :: "'r vmu_readonly \<Rightarrow> bytes \<Rightarrow> nat \<Rightarrow> 'r vmu_readonly \<times> card_result" where
  "kui_vmu_readonly_handle s request capacity =
     (if \<not> r_ready s then (s, Card_Argument)
      else let needed = readonly_shape (address (r_protocol s)) request in
        if needed = 0 then (s\<lparr>r_refused := increment (r_refused s)\<rparr>, Card_Refused)
        else if r_faulted s \<or> r_commit_attempts s \<noteq> 0 then (s, Card_Internal)
        else if capacity < needed then (s, Card_Capacity)
        else case kui_vmu_emulation_handle read_blank commit_refused s (r_protocol s) request capacity of
          (s, p, r) \<Rightarrow>
           (let s = s\<lparr>r_protocol := p\<rparr> in
            case r of
              Handled out \<Rightarrow>
                if r_faulted s \<or> r_commit_attempts s \<noteq> 0 \<or> length out \<noteq> needed
                then (s\<lparr>r_faulted := True\<rparr>, Card_Internal)
                else (s\<lparr>r_requests := increment (r_requests s)\<rparr>,
                      Card_Handled (readonly_identity (r_reader s \<noteq> None) (request ! 0) out))
            | _ \<Rightarrow> (s\<lparr>r_faulted := True\<rparr>, Card_Internal)))"

subsection \<open>The cards are backing stores\<close>

locale steady_reader = honest_reader +
  assumes read_fails: "\<lbrakk>sound c; b < 256; rd c b = (c', None)\<rbrakk> \<Longrightarrow> sound c' \<and> view c' = view c"

interpretation memory_steady: steady_reader read_image "\<lambda>img. img" "\<lambda>_. True"
  by unfold_locales (auto simp: read_image_def split: if_splits)

lemma find_append: "find P (xs @ ys) = (case find P xs of None \<Rightarrow> find P ys | Some x \<Rightarrow> Some x)"
  by (induction xs) auto

definition volatile_wf :: "'r vmu_volatile \<Rightarrow> bool" where
  "volatile_wf s = (length (v_cache s) = 16 \<and> length (v_blocks s) = 16 \<and> v_cached_blocks s \<le> 16)"

definition volatile_view :: "('r \<Rightarrow> nat \<Rightarrow> bytes) \<Rightarrow> 'r vmu_volatile \<Rightarrow> nat \<Rightarrow> bytes" where
  "volatile_view view s b =
     (let i = volatile_card_slot s b in if i < 16 then v_cache s ! i else view (v_reader_context s) b)"

lemma slot_some:
  assumes "volatile_card_slot s b < 16"
  shows "volatile_card_slot s b < v_cached_blocks s" and "v_blocks s ! volatile_card_slot s b = b"
proof -
  let ?P = "\<lambda>i. v_blocks s ! i = b"
  obtain i where i: "find ?P [0..<min (v_cached_blocks s) 16] = Some i" "volatile_card_slot s b = i"
    using assms by (auto simp: volatile_card_slot_def split: option.splits)
  have "i < v_cached_blocks s \<and> v_blocks s ! i = b" using i(1) unfolding find_Some_iff by auto
  then show "volatile_card_slot s b < v_cached_blocks s" "v_blocks s ! volatile_card_slot s b = b" using i(2) by simp_all
qed

lemma slot_bound: "volatile_card_slot s b \<le> 16"
  by (auto simp: volatile_card_slot_def find_Some_iff split: option.splits)

lemma slot_none: "volatile_card_slot s b = 16 \<Longrightarrow> i < v_cached_blocks s \<Longrightarrow> i < 16 \<Longrightarrow> v_blocks s ! i \<noteq> b"
  by (auto simp: volatile_card_slot_def find_None_iff find_Some_iff split: option.splits)

lemma slot_add:
  assumes "volatile_wf s" and "v_cached_blocks s < 16" and "volatile_card_slot s b = 16"
    and "v_blocks t = (v_blocks s)[v_cached_blocks s := b]" and "v_cached_blocks t = v_cached_blocks s + 1"
  shows "volatile_card_slot t b' = (if b' = b then v_cached_blocks s else volatile_card_slot s b')"
proof -
  let ?n = "v_cached_blocks s"
  have range: "[0..<min (v_cached_blocks t) 16] = [0..<?n] @ [?n]" "min ?n 16 = ?n" using assms(2,5) by simp_all
  have same: "find (\<lambda>i. v_blocks t ! i = b') [0..<?n] = find (\<lambda>i. v_blocks s ! i = b') [0..<?n]"
    unfolding assms(4) by (rule find_cong) auto
  have at: "v_blocks t ! ?n = b" using assms(1,2,4) by (simp add: volatile_wf_def)
  have "find (\<lambda>i. v_blocks s ! i = b) [0..<?n] = None"
    using slot_none [OF assms(3)] assms(2) by (auto simp: find_None_iff)
  then show ?thesis
    unfolding volatile_card_slot_def range same find_append by (auto simp: at range split: option.splits)
qed

lemma volatile_commit_view:
  assumes "volatile_wf s" and "b < 256" and "volatile_card_commit_ram s b d = (t, res)"
  shows "volatile_wf t \<and> v_reader t = v_reader s \<and> v_reader_context t = v_reader_context s \<and>
    (if res = Emu_OK then volatile_view view t = (volatile_view view s)(b := d) else volatile_view view t = volatile_view view s)"
proof -
  let ?i = "volatile_card_slot s b"
  consider (stop) "\<not> v_ready s \<or> v_faulted s \<or> v_cached_blocks s > 16" | (full) "v_ready s" "\<not> v_faulted s" "?i = 16" "v_cached_blocks s = 16"
    | (old) "v_ready s" "\<not> v_faulted s" "?i < 16" | (new) "v_ready s" "\<not> v_faulted s" "?i = 16" "v_cached_blocks s < 16"
    using slot_bound [of s b] assms(1) unfolding volatile_wf_def by linarith
  then show ?thesis
  proof cases
    case stop
    then show ?thesis using assms by (simp add: volatile_card_commit_ram_def)
  next
    case full
    then show ?thesis
      using assms by (auto simp: volatile_card_commit_ram_def Let_def volatile_card_full_def volatile_view_def volatile_card_slot_def volatile_wf_def fun_eq_iff)
  next
    case old
    then have t: "t = s\<lparr>v_cache := (v_cache s)[?i := d], v_ram_commits := increment (v_ram_commits s)\<rparr>" "res = Emu_OK"
      using assms by (auto simp: volatile_card_commit_ram_def volatile_wf_def Let_def)
    have slots: "volatile_card_slot t x = volatile_card_slot s x" for x by (simp add: t volatile_card_slot_def)
    have fields: "v_cache t = (v_cache s)[?i := d]" "v_reader_context t = v_reader_context s" by (simp_all add: t)
    have "(v_cache s)[?i := d] ! volatile_card_slot s x = v_cache s ! volatile_card_slot s x"
      if "x \<noteq> b" "volatile_card_slot s x < 16" for x
      using slot_some(2) [OF that(2)] slot_some(2) [OF old(3)] that(1) by (metis nth_list_update_neq)
    then have "volatile_view view t = (volatile_view view s)(b := d)"
      using old(3) assms(1) by (auto simp: fun_eq_iff volatile_view_def Let_def slots fields volatile_wf_def)
    then show ?thesis using assms(1) t by (simp add: volatile_wf_def)
  next
    case new
    let ?n = "v_cached_blocks s"
    have t: "t = s\<lparr>v_blocks := (v_blocks s)[?n := b], v_cached_blocks := ?n + 1, v_cache := (v_cache s)[?n := d],
        v_ram_commits := increment (v_ram_commits s)\<rparr>" "res = Emu_OK"
      using assms new by (auto simp: volatile_card_commit_ram_def Let_def)
    have slots: "volatile_card_slot t x = (if x = b then ?n else volatile_card_slot s x)" for x
      by (rule slot_add [OF assms(1) new(4,3)]) (simp_all add: t)
    have fields: "v_cache t = (v_cache s)[?n := d]" "v_reader_context t = v_reader_context s" by (simp_all add: t)
    have "(v_cache s)[?n := d] ! volatile_card_slot s x = v_cache s ! volatile_card_slot s x"
      if "volatile_card_slot s x < 16" for x
      using slot_some(1) [OF that] by simp
    then have "volatile_view view t = (volatile_view view s)(b := d)"
      using new(4) assms(1) by (auto simp: fun_eq_iff volatile_view_def Let_def slots fields volatile_wf_def)
    then show ?thesis using assms(1) new(4) t by (simp add: volatile_wf_def)
  qed
qed

lemma volatile_read_view:
  assumes "volatile_card_read_block s b = (t, res, d)" and "b < 256"
    and "\<And>c x. v_reader s (v_reader_context s) b = (c, x) \<Longrightarrow> view c = view (v_reader_context s) \<and> (\<forall>y. x = Some y \<longrightarrow> y = view (v_reader_context s) b)"
  shows "volatile_view view t = volatile_view view s \<and> (res = Emu_OK \<longrightarrow> d = volatile_view view s b)
    \<and> volatile_wf t = volatile_wf s \<and> v_reader t = v_reader s
    \<and> (v_reader_context t = v_reader_context s \<or> (\<exists>x. v_reader s (v_reader_context s) b = (v_reader_context t, x)))"
proof -
  obtain c x where rd: "v_reader s (v_reader_context s) b = (c, x)" by fastforce
  note keep = assms(3) [OF rd]
  show ?thesis
    using assms(1,2) rd keep slot_bound [of s b]
    by (auto simp: volatile_card_read_block_def volatile_view_def volatile_card_slot_def volatile_wf_def Let_def fun_eq_iff
        split: if_splits option.splits)
qed

definition volatile_sound :: "('r \<Rightarrow> nat \<Rightarrow> 'r \<times> bytes option) \<Rightarrow> ('r \<Rightarrow> bool) \<Rightarrow> 'r vmu_volatile \<Rightarrow> bool" where
  "volatile_sound rd sound s = (volatile_wf s \<and> v_reader s = rd \<and> sound (v_reader_context s))"

sublocale steady_reader \<subseteq> volatile_backing: block_backing volatile_card_read_block volatile_card_commit_ram
  "volatile_view view" "volatile_sound rd sound"
proof
  fix s b t res d
  assume s: "volatile_sound rd sound s" and b: "b < 256" and run: "volatile_card_read_block s b = (t, res, d)"
  have step: "sound c \<and> view c = view (v_reader_context s) \<and> (\<forall>y. x = Some y \<longrightarrow> y = view (v_reader_context s) b)"
    if "v_reader s (v_reader_context s) b = (c, x)" for c x
    using that s b read_honest [of "v_reader_context s" b c] read_fails [of "v_reader_context s" b c]
    by (cases x) (auto simp: volatile_sound_def)
  show "volatile_sound rd sound t \<and> volatile_view view t = volatile_view view s \<and> (res = Emu_OK \<longrightarrow> d = volatile_view view s b)"
    using volatile_read_view [OF run b, of view] step s by (fastforce simp: volatile_sound_def)
next
  fix s b d t res
  assume "volatile_sound rd sound s" and "b < 256" and "volatile_card_commit_ram s b d = (t, res)"
  then show "volatile_sound rd sound t \<and> (volatile_view view t = volatile_view view s \<or> volatile_view view t = (volatile_view view s)(b := d)) \<and>
      (res = Emu_OK \<longrightarrow> volatile_view view t = (volatile_view view s)(b := d))"
    using volatile_commit_view [of s b d t res view] by (auto simp: volatile_sound_def split: if_splits)
qed

text \<open>The header byte of a request.\<close>

lemma get32_low_byte: "get32 q 0 AND 255 = ucast (q ! 0)"
proof -
  have mask: "get32 q 0 AND 255 = take_bit 8 (get32 q 0)" by (simp add: take_bit_eq_mask mask_eq_exp_minus_1)
  show ?thesis
    unfolding mask unfolding get32_def
    by (rule bit_word_eqI) (auto simp: bit_take_bit_iff bit_or_iff bit_push_bit_iff bit_unsigned_iff dest: bit_imp_le_length)
qed

lemma ucast_u8_inj: "(ucast b :: u32) = ucast c \<longleftrightarrow> b = c" for b c :: u8
proof
  assume eq: "(ucast b :: u32) = ucast c"
  show "b = c"
  proof (rule bit_word_eqI)
    fix n assume "n < LENGTH(8)"
    then show "bit b n = bit c n" using arg_cong [OF eq, of "\<lambda>w. bit w n"] by (simp add: bit_unsigned_iff)
  qed
qed simp

lemma header_command:
  "get32 q 0 AND 255 = 1 \<longleftrightarrow> q ! 0 = 1" "get32 q 0 AND 255 = 2 \<longleftrightarrow> q ! 0 = 2"
  "get32 q 0 AND 255 = 11 \<longleftrightarrow> q ! 0 = 11" "get32 q 0 AND 255 = 12 \<longleftrightarrow> q ! 0 = 12" "get32 q 0 AND 255 = 13 \<longleftrightarrow> q ! 0 = 13"
  using ucast_u8_inj [of "q ! 0" 1] ucast_u8_inj [of "q ! 0" 2] ucast_u8_inj [of "q ! 0" 11]
    ucast_u8_inj [of "q ! 0" 12] ucast_u8_inj [of "q ! 0" 13]
  by (simp_all add: get32_low_byte)

definition same_cache :: "'r vmu_volatile \<Rightarrow> 'r vmu_volatile \<Rightarrow> bool" where
  "same_cache s t =
     (v_cache t = v_cache s \<and> v_blocks t = v_blocks s \<and> v_cached_blocks t = v_cached_blocks s
      \<and> v_reader t = v_reader s \<and> v_reader_context t = v_reader_context s)"

lemma same_cache_view:
  "same_cache s t \<Longrightarrow> volatile_view view t = volatile_view view s \<and> volatile_sound rd sound t = volatile_sound rd sound s"
  by (simp add: same_cache_def volatile_view_def volatile_sound_def volatile_wf_def volatile_card_slot_def fun_eq_iff Let_def)

definition expected_reply :: "u8 \<Rightarrow> u8" where
  "expected_reply cmd = (if cmd = 1 then 5 else if cmd = 2 then 6 else if cmd = 12 \<or> cmd = 13 then 7 else 8)"

lemma volatile_handle_cases:
  assumes "kui_vmu_volatile_handle s request capacity = (s', res)"
  obtains (quiet) "same_cache s s'" "v_protocol s' = v_protocol s" "\<nexists>bs. res = Card_Handled bs"
  | (served) cap needed t p r where "kui_vmu_emulation_handle volatile_card_read_block volatile_card_commit_ram s (v_protocol s) request cap = (t, p, r)"
      "same_cache t s'" "v_protocol s' = p"
      "\<And>bs. res = Card_Handled bs \<Longrightarrow> reply_shape_ok (expected_reply (request ! 0)) (address p) needed r \<and>
        bs = volatile_identity (get32 request 0 AND 255) (case r of Handled out \<Rightarrow> out)"
proof -
  define h where "h = get32 request 0"
  define p0 where "p0 = (if length request \<ge> 12 then get32 request 4 else 0)"
  define p1 where "p1 = (if length request \<ge> 12 then get32 request 8 else 0)"
  define needed where "needed = volatile_card_shape (address (v_protocol s)) h p0 p1"
  define cap where "cap = (if h AND 255 = 12 \<or> h AND 255 = 13 then 8 else capacity)"
  let ?reach = "v_ready s \<and> \<not> v_faulted s \<and> length request \<ge> 4 \<and> length request = 4 + 4 * unat (drop_bit 24 h)
    \<and> needed \<noteq> 0 \<and> needed \<le> capacity"
  note run = assms [unfolded kui_vmu_volatile_handle_def Let_def, folded h_def, folded p0_def p1_def, folded needed_def cap_def]
  obtain s1 adm where adm: "kui_vmu_volatile_admit s h p0 p1 = (s1, adm)" by fastforce
  show thesis
  proof (cases "?reach \<and> adm = None")
    case True
    then have s1: "s1 = s" using adm by (auto simp: kui_vmu_volatile_admit_def split: if_splits)
    obtain t p r where emu: "kui_vmu_emulation_handle volatile_card_read_block volatile_card_commit_ram s (v_protocol s) request cap = (t, p, r)"
      by (metis prod_cases3)
    have exp: "expected_reply (request ! 0) = (if h AND 255 = 1 then 5 else if h AND 255 = 2 then 6
        else if h AND 255 = 12 \<or> h AND 255 = 13 then 7 else 8)"
      by (simp add: expected_reply_def h_def header_command)
    show thesis
    proof (rule served [OF emu])
      show "same_cache t s'" "v_protocol s' = p"
        using run True adm s1 emu by (auto simp: same_cache_def split: if_splits)
      show "reply_shape_ok (expected_reply (request ! 0)) (address p) needed r \<and>
          bs = volatile_identity (get32 request 0 AND 255) (case r of Handled out \<Rightarrow> out)" if "res = Card_Handled bs" for bs
        using run True adm s1 emu that unfolding exp h_def [symmetric] by (auto split: if_splits)
    qed
  next
    case False
    have "same_cache s s1 \<and> v_protocol s1 = v_protocol s \<and> (\<nexists>bs. adm = Some (Card_Handled bs))"
      using adm by (auto simp: kui_vmu_volatile_admit_def same_cache_def volatile_card_full_def split: if_splits)
    then have "same_cache s s' \<and> v_protocol s' = v_protocol s \<and> (\<nexists>bs. res = Card_Handled bs)"
      using run adm False
      by (cases adm) (auto simp: volatile_refused_def same_cache_def split: if_splits)
    then show thesis using quiet by blast
  qed
qed

text \<open>
  A volatile card at work: the cache is in order, the reader stands for the base image, and a block
  that was acknowledged as committed is the block of the card.
\<close>

definition volatile_at ::
    "('r \<Rightarrow> nat \<Rightarrow> 'r \<times> bytes option) \<Rightarrow> ('r \<Rightarrow> nat \<Rightarrow> bytes) \<Rightarrow> ('r \<Rightarrow> bool) \<Rightarrow> 'r vmu_volatile \<Rightarrow> bool" where
  "volatile_at rd view sound s =
     (volatile_sound rd sound s \<and> emu_inv (v_protocol s)
      \<and> (committed_valid (v_protocol s) \<longrightarrow> volatile_view view s (committed_block (v_protocol s)) = staged (v_protocol s)))"

lemma reply_shape_code: "reply_shape_ok e a n r \<Longrightarrow> reply_code r = Some e"
proof (cases r)
  case (Handled out)
  assume "reply_shape_ok e a n r"
  then have "length out \<ge> 4" "out ! 0 = e" using Handled by (auto simp: reply_shape_ok_def)
  then show ?thesis using Handled by (cases out) (auto simp: reply_code_def)
qed (simp_all add: reply_shape_ok_def)

lemma identity_other: "q ! 0 \<noteq> 1 \<Longrightarrow> q ! 0 \<noteq> 2 \<Longrightarrow> volatile_identity (get32 q 0 AND 255) out = out"
  unfolding volatile_identity_def header_command by simp

context steady_reader
begin

lemma volatile_handle_sound:
  assumes "volatile_at rd view sound s" and "kui_vmu_volatile_handle s request capacity = (s', res)"
  shows "volatile_at rd view sound s' \<and>
    (volatile_view view s' = volatile_view view s \<or>
     active (v_protocol s) \<and> phases (v_protocol s) = 15 \<and>
     volatile_view view s' = (volatile_view view s)(staged_block (v_protocol s) := staged (v_protocol s))) \<and>
    (\<forall>bs. res = Card_Handled bs \<longrightarrow> request ! 0 = 11 \<longrightarrow> drop 12 bs = volatile_view view s (request_block request)) \<and>
    (\<forall>bs. res = Card_Handled bs \<longrightarrow> request ! 0 = 13 \<and> request ! 9 = 4 \<longrightarrow>
       volatile_view view s' (request_block request) = staged (v_protocol s))"
  using assms(2)
proof (cases rule: volatile_handle_cases)
  case quiet
  then show ?thesis using assms(1) same_cache_view [OF quiet(1)] by (simp add: volatile_at_def)
next
  case (served cap needed t p r)
  have bk: "volatile_backing.backed s (v_protocol s)"
    using assms(1) by (simp add: volatile_at_def volatile_backing.backed_def)
  note eff = volatile_backing.handle_backed [OF bk served(1)]
  note same = same_cache_view [OF served(2)]
  have at: "volatile_at rd view sound s'"
    using eff same served(3) by (simp add: volatile_at_def volatile_backing.backed_def)
  have read: "drop 12 bs = volatile_view view s (request_block request)" if "res = Card_Handled bs" "request ! 0 = 11" for bs
  proof -
    have shape: "reply_shape_ok 8 (address p) needed r" and bs: "bs = (case r of Handled out \<Rightarrow> out)"
      using served(4) [OF that(1)] that(2) identity_other [of request] by (auto simp: expected_reply_def)
    have "r = reply 8 (address (v_protocol s) AND 0xc0) (address (v_protocol s))
        (window request 4 8 @ volatile_view view s (request_block request))"
      and "length request = 12"
      using volatile_backing.read_reply [OF bk served(1) that(2) reply_shape_code [OF shape]] by blast+
    then show ?thesis using bs by (simp add: reply_def length_window)
  qed
  have sync: "volatile_view view s' (request_block request) = staged (v_protocol s)"
    if "res = Card_Handled bs" "request ! 0 = 13" "request ! 9 = 4" for bs
  proof -
    have "reply_shape_ok 7 (address p) needed r" using served(4) [OF that(1)] that(2) by (auto simp: expected_reply_def)
    then show ?thesis
      using volatile_backing.sync_reply [OF bk served(1) that(2,3)] reply_shape_code same by metis
  qed
  show ?thesis using at eff same read sync by (auto simp: volatile_backing.card_step_def)
qed

end

text \<open>
  C7. The volatile card serves a faithful card.  Over a base image behind any steady reader, for
  every request: a READ that is answered returns the block of the card (the RAM copy if the block was
  ever committed, the base block otherwise); the card changes only by the commit of a complete
  staged block; and an acknowledged SYNC of phase 4 means that the card now holds exactly the four staged
  phases.  The cache never holds more than 16 blocks.
\<close>

theorem volatile_card_faithful:
  assumes "steady_reader rd view sound" and "volatile_at rd view sound s"
    and "kui_vmu_volatile_handle s request capacity = (s', res)"
  shows "volatile_at rd view sound s' \<and> v_cached_blocks s' \<le> 16 \<and>
    (volatile_view view s' = volatile_view view s \<or>
     active (v_protocol s) \<and> phases (v_protocol s) = 15 \<and>
     volatile_view view s' = (volatile_view view s)(staged_block (v_protocol s) := staged (v_protocol s))) \<and>
    (\<forall>bs. res = Card_Handled bs \<longrightarrow> request ! 0 = 11 \<longrightarrow> drop 12 bs = volatile_view view s (request_block request)) \<and>
    (\<forall>bs. res = Card_Handled bs \<longrightarrow> request ! 0 = 13 \<and> request ! 9 = 4 \<longrightarrow>
       volatile_view view s' (request_block request) = staged (v_protocol s))"
  using steady_reader.volatile_handle_sound [OF assms]
  by (auto simp: volatile_at_def volatile_sound_def volatile_wf_def)

definition sample_card :: card where
  "sample_card = (\<lambda>_. replicate 512 7)"

definition sample_read :: bytes where
  "sample_read = [11, 1, 0, 2, 0, 0, 0, 2, 0, 0, 0, 5]"

definition sample_volatile :: "card vmu_volatile" where
  "sample_volatile = projr (kui_vmu_volatile_init (Some read_image) sample_card)"

lemma sample_volatile_at: "volatile_at read_image (\<lambda>img. img) (\<lambda>_. True) sample_volatile"
  by (simp add: sample_volatile_def kui_vmu_volatile_init_def kui_vmu_volatile_init_address_def kui_vmu_emulation_init_def
      volatile_at_def volatile_sound_def volatile_wf_def emu_inv_def)

lemma sample_volatile_reply: "\<exists>s' bs. kui_vmu_volatile_handle sample_volatile sample_read 524 = (s', Card_Handled bs)"
  by (simp add: sample_volatile_def sample_read_def sample_card_def kui_vmu_volatile_init_def kui_vmu_volatile_init_address_def
      kui_vmu_emulation_init_def kui_vmu_volatile_handle_def kui_vmu_volatile_admit_def get32_def volatile_card_shape_def
      kui_vmu_emulation_handle_def needed_capacity_def handle_storage_def window_def memcard_function_def
      handle_read_def volatile_card_read_block_def volatile_card_slot_def reply_def reply_shape_ok_def drop_bit_eq_div read_image_def Let_def)

theorem volatile_card_faithful_witness:
  "\<exists>s' bs. kui_vmu_volatile_handle sample_volatile sample_read 524 = (s', Card_Handled bs) \<and> drop 12 bs = replicate 512 7"
proof -
  obtain s' bs where run: "kui_vmu_volatile_handle sample_volatile sample_read 524 = (s', Card_Handled bs)"
    using sample_volatile_reply by blast
  have "volatile_view (\<lambda>img. img) sample_volatile 5 = replicate 512 7"
    by (simp add: sample_volatile_def kui_vmu_volatile_init_def kui_vmu_volatile_init_address_def kui_vmu_emulation_init_def
        volatile_view_def volatile_card_slot_def sample_card_def)
  moreover have "sample_read ! 0 = 11" "request_block sample_read = 5" by (simp_all add: sample_read_def)
  ultimately show ?thesis
    using volatile_card_faithful [OF memory_steady.steady_reader_axioms sample_volatile_at run] run by auto
qed

subsection \<open>The read-only card never changes\<close>

definition readonly_view :: "('r \<Rightarrow> nat \<Rightarrow> bytes) \<Rightarrow> 'r vmu_readonly \<Rightarrow> nat \<Rightarrow> bytes" where
  "readonly_view view s b =
     (case r_reader s of None \<Rightarrow> the (snd (kui_vmu_image_blank_block b)) | Some _ \<Rightarrow> view (r_reader_context s) b)"

definition readonly_sound :: "('r \<Rightarrow> nat \<Rightarrow> 'r \<times> bytes option) \<Rightarrow> ('r \<Rightarrow> bool) \<Rightarrow> 'r vmu_readonly \<Rightarrow> bool" where
  "readonly_sound rd sound s = (r_reader s = None \<or> r_reader s = Some rd \<and> sound (r_reader_context s))"

sublocale steady_reader \<subseteq> readonly_backing: block_backing read_blank commit_refused "readonly_view view" "readonly_sound rd sound"
proof
  fix s b t res d
  assume s: "readonly_sound rd sound s" and b: "b < 256" and run: "read_blank s b = (t, res, d)"
  show "readonly_sound rd sound t \<and> readonly_view view t = readonly_view view s \<and> (res = Emu_OK \<longrightarrow> d = readonly_view view s b)"
  proof (cases "r_reader s")
    case None
    then show ?thesis
      using run b by (auto simp: read_blank_def readonly_sound_def readonly_view_def kui_vmu_image_blank_block_def
          fun_eq_iff split: if_splits)
  next
    case (Some f)
    obtain c x where rd: "rd (r_reader_context s) b = (c, x)" by fastforce
    have f: "f = rd" and snd: "sound (r_reader_context s)" using s Some by (simp_all add: readonly_sound_def)
    have keep: "sound c" "view c = view (r_reader_context s)" "x = Some y \<Longrightarrow> y = view (r_reader_context s) b" for y
      using read_honest [OF snd b] read_fails [OF snd b] rd by (cases x; blast)+
    show ?thesis
      using run rd keep Some f snd
      by (cases x) (auto simp: read_blank_def readonly_sound_def readonly_view_def fun_eq_iff split: if_splits)
  qed
next
  fix s b d t res
  assume "readonly_sound rd sound s" and "commit_refused s b d = (t, res)"
  then show "readonly_sound rd sound t \<and> (readonly_view view t = readonly_view view s \<or> readonly_view view t = (readonly_view view s)(b := d)) \<and>
      (res = Emu_OK \<longrightarrow> readonly_view view t = (readonly_view view s)(b := d))"
    by (auto simp: commit_refused_def readonly_sound_def readonly_view_def fun_eq_iff)
qed

definition readonly_at ::
    "('r \<Rightarrow> nat \<Rightarrow> 'r \<times> bytes option) \<Rightarrow> ('r \<Rightarrow> bool) \<Rightarrow> 'r vmu_readonly \<Rightarrow> bool" where
  "readonly_at rd sound s =
     (readonly_sound rd sound s \<and> emu_inv (r_protocol s) \<and> \<not> active (r_protocol s) \<and> \<not> committed_valid (r_protocol s)
      \<and> r_commit_attempts s = 0)"

lemma read_blank_attempts: "read_blank s b = (t, res, d) \<Longrightarrow> r_commit_attempts t = r_commit_attempts s"
  by (auto simp: read_blank_def split: if_splits option.splits prod.splits)

text \<open>A request of the whitelist reaches the reader at most: it stages and commits nothing.\<close>

lemma readonly_request:
  assumes "readonly_shape addr request \<noteq> 0"
    and "kui_vmu_emulation_handle read_blank commit_refused s p request capacity = (t, p', r)"
  shows "r_commit_attempts t = r_commit_attempts s \<and> active p' = active p \<and> committed_valid p' = committed_valid p"
proof -
  have cmd: "request ! 0 \<in> {1, 2, 10, 11}"
    using assms(1) by (auto simp: readonly_shape_def Let_def split: if_splits)
  show ?thesis
  proof (cases "request ! 0 \<in> {10, 11} \<and> handle_storage read_blank commit_refused s p request (address p AND 0xc0) = (t, p', r)")
    case True
    then have "handle_storage read_blank commit_refused s p request (address p AND 0xc0) = (t, p', r)" ..
    then show ?thesis
    proof (cases rule: handle_storage_cases)
      case reading
      from reading(4) show ?thesis by (cases rule: handle_read_cases) (auto dest: read_blank_attempts)
    next
      case syncing
      then show ?thesis using True by auto
    qed (use cmd in auto)
  next
    case False
    then show ?thesis using assms(2) cmd by (auto simp: kui_vmu_emulation_handle_def Let_def split: if_splits)
  qed
qed

context steady_reader
begin

lemma readonly_handle_sound:
  assumes "readonly_at rd sound s" and "kui_vmu_readonly_handle s request capacity = (s', res)"
  shows "readonly_at rd sound s' \<and> readonly_view view s' = readonly_view view s \<and>
    (\<forall>bs. res = Card_Handled bs \<longrightarrow> request ! 0 = 11 \<longrightarrow> drop 12 bs = readonly_view view s (request_block request))"
proof -
  have drop: "readonly_view view (t\<lparr>r_refused := n\<rparr>) = readonly_view view t"
    "readonly_view view (t\<lparr>r_protocol := p, r_faulted := f\<rparr>) = readonly_view view t"
    "readonly_view view (t\<lparr>r_protocol := p, r_requests := n\<rparr>) = readonly_view view t" for t :: "'a vmu_readonly" and n p f
    by (auto simp: readonly_view_def fun_eq_iff split: option.splits)
  show ?thesis
  proof (cases "r_ready s \<and> readonly_shape (address (r_protocol s)) request \<noteq> 0 \<and> \<not> r_faulted s \<and>
      readonly_shape (address (r_protocol s)) request \<le> capacity")
    case False
    then show ?thesis
      using assms by (auto simp: kui_vmu_readonly_handle_def Let_def readonly_at_def readonly_sound_def drop split: if_splits)
  next
    case reach: True
    obtain t p r where emu: "kui_vmu_emulation_handle read_blank commit_refused s (r_protocol s) request capacity = (t, p, r)"
      by (metis prod_cases3)
    have bk: "readonly_backing.backed s (r_protocol s)"
      using assms(1) by (simp add: readonly_at_def readonly_backing.backed_def)
    have keep: "r_commit_attempts t = 0" "\<not> active p" "\<not> committed_valid p"
      using readonly_request [OF _ emu] reach assms(1) by (auto simp: readonly_at_def)
    have eff: "readonly_backing.backed t p" "readonly_view view t = readonly_view view s"
      using readonly_backing.handle_backed [OF bk emu] assms(1)
      by (auto simp: readonly_backing.card_step_def readonly_at_def)
    have s': "s' = t\<lparr>r_protocol := p, r_faulted := True\<rparr> \<and> (\<nexists>bs. res = Card_Handled bs) \<or>
        s' = t\<lparr>r_protocol := p, r_requests := increment (r_requests t)\<rparr> \<and>
        (\<exists>out. r = Handled out \<and> length out = readonly_shape (address (r_protocol s)) request \<and>
               res = Card_Handled (readonly_identity (r_reader t \<noteq> None) (request ! 0) out))"
      using assms reach emu unfolding kui_vmu_readonly_handle_def Let_def readonly_at_def
      by (auto split: emu_result.splits if_splits)
    have at: "readonly_at rd sound s'"
      using s' keep eff(1) by (auto simp: readonly_at_def readonly_backing.backed_def readonly_sound_def)
    have "drop 12 bs = readonly_view view s (request_block request)" if bs: "res = Card_Handled bs" "request ! 0 = 11" for bs
    proof -
      have len: "readonly_shape (address (r_protocol s)) request = 524"
        using reach bs(2) by (auto simp: readonly_shape_def Let_def split: if_splits)
      obtain out where out: "r = Handled out" "length out = 524" "bs = out"
        using s' bs len by (auto simp: readonly_identity_def)
      have "handle_storage read_blank commit_refused s (r_protocol s) request (address (r_protocol s) AND 0xc0) = (t, p, r) \<or> length out = 4 \<or> length out = 8"
        using emu out bs(2) by (auto simp: kui_vmu_emulation_handle_def file_error_def reply_def Let_def split: if_splits)
      then have st: "handle_storage read_blank commit_refused s (r_protocol s) request (address (r_protocol s) AND 0xc0) = (t, p, r)"
        using out(2) by auto
      have "reply_code r = Some 8"
        using st
      proof (cases rule: handle_storage_cases)
        case plain
        then show ?thesis using st out bs(2)
          by (auto simp: handle_storage_def handle_read_def file_error_def reply_def Let_def split: if_splits prod.splits)
      next
        case reading
        from reading(4) show ?thesis
          by (cases rule: handle_read_cases) (use out in \<open>auto simp: file_error_def reply_def split: if_splits\<close>)
      qed (use bs(2) in auto)
      then show ?thesis
        using readonly_backing.read_reply [OF bk emu bs(2)] out by (auto simp: reply_def length_window)
    qed
    then show ?thesis using at s' eff(2) drop by auto
  qed
qed

end

text \<open>
  C8. The read-only card never changes and never tries to commit: whatever request arrives, the card it
  stands for (the canonical blank card, or the fixed image behind the reader) is the same afterwards, no
  commit has been attempted, and an answered READ returns the block of that card.
\<close>

theorem readonly_card_constant:
  assumes "steady_reader rd view sound" and "readonly_at rd sound s"
    and "kui_vmu_readonly_handle s request capacity = (s', res)"
  shows "readonly_at rd sound s' \<and> readonly_view view s' = readonly_view view s \<and> r_commit_attempts s' = 0 \<and>
    (\<forall>bs. res = Card_Handled bs \<longrightarrow> request ! 0 = 11 \<longrightarrow> drop 12 bs = readonly_view view s (request_block request))"
  using steady_reader.readonly_handle_sound [OF assms] by (auto simp: readonly_at_def)

definition sample_readonly :: "card vmu_readonly" where
  "sample_readonly = projr (kui_vmu_readonly_init_reader (Some read_image) sample_card)"

theorem readonly_card_constant_witness:
  "\<exists>s' bs. kui_vmu_readonly_handle sample_readonly sample_read 524 = (s', Card_Handled bs) \<and> drop 12 bs = replicate 512 7"
proof -
  note init = sample_readonly_def kui_vmu_readonly_init_reader_def kui_vmu_readonly_init_def kui_vmu_readonly_init_address_def
    kui_vmu_emulation_init_def
  have "\<exists>s' bs. kui_vmu_readonly_handle sample_readonly sample_read 524 = (s', Card_Handled bs)"
    by (simp add: init sample_read_def sample_card_def kui_vmu_readonly_handle_def readonly_shape_def
        kui_vmu_emulation_handle_def needed_capacity_def handle_storage_def window_def memcard_function_def
        handle_read_def read_blank_def reply_def read_image_def Let_def)
  then obtain s' bs where run: "kui_vmu_readonly_handle sample_readonly sample_read 524 = (s', Card_Handled bs)" by blast
  have at: "readonly_at read_image (\<lambda>_. True) sample_readonly"
    by (simp add: init readonly_at_def readonly_sound_def emu_inv_def)
  have "readonly_view (\<lambda>img. img) sample_readonly 5 = replicate 512 7"
    by (simp add: init readonly_view_def sample_card_def)
  moreover have "sample_read ! 0 = 11" "request_block sample_read = 5" by (simp_all add: sample_read_def)
  ultimately show ?thesis
    using readonly_card_constant [OF memory_steady.steady_reader_axioms at run] run by auto
qed

end
