(* ===== verification/Vmu_Durable.thy ===== *)
theory Vmu_Durable
  imports Vmu_Emulation Vmu_Store
begin

text \<open>
  The durable card (src/core/vmu_durable.c): the Maple protocol of \<open>Vmu_Emulation\<close> over the redo store of \<open>Vmu_Store\<close>, on sectors of
  the SD card that the card borrows from the game's reader for one transaction at a time.

  The SD driver (the card, its bus and the medium are its state \<open>'w\<close>) and the lease, which runs one transaction on a loan of the
  initialized card, are parameters; what vmu_sd_lease.h and the driver's header promise of them are the predicates \<open>sd_medium\<close>
  and \<open>lease_law\<close>.  The structure of the C code is split in three: the work fields, the store, whose callbacks run on a scope that
  holds the work fields, the loan and the binding flag, and the protocol.  The context of the store is \<open>None\<close> outside a
  transaction, like the NULL pointer there.  A fault inside a callback of the store clears the flag \<open>ready\<close> of the store
  through the failure that the callback returns.  Tests of the \<open>self\<close> pointer, of NULL arguments and of buffers that overlap have no
  counterpart.
\<close>

unbundle bit_operations_syntax

section \<open>The handoff\<close>

record durable_extent =
  de_lba :: u32
  de_blocks :: u32

record durable_handoff =
  ho_magic :: u32
  ho_version :: u32
  ho_bytes :: u32
  ho_clean :: u32
  ho_card_sectors :: u64
  ho_high_capacity :: u32
  ho_base_count :: u32
  ho_journal_count :: u32
  ho_cid :: bytes
  ho_image_id :: bytes
  ho_base :: "durable_extent list"
  ho_journal :: "durable_extent list"
  ho_block_crc :: "u32 list"
  ho_base_sha256 :: bytes
  ho_seal :: u32

definition durable_extent_bytes :: "durable_extent \<Rightarrow> bytes" where
  "durable_extent_bytes e = put32 (de_lba e) @ put32 (de_blocks e)"

text \<open>The bytes of the structure before the seal.\<close>

definition handoff_bytes :: "durable_handoff \<Rightarrow> bytes" where
  "handoff_bytes h =
     put32 (ho_magic h) @ put32 (ho_version h) @ put32 (ho_bytes h) @ put32 (ho_clean h) @ put64 (ho_card_sectors h)
     @ put32 (ho_high_capacity h) @ put32 (ho_base_count h) @ put32 (ho_journal_count h) @ ho_cid h @ ho_image_id h
     @ concat (map durable_extent_bytes (ho_base h)) @ concat (map durable_extent_bytes (ho_journal h))
     @ concat (map put32 (ho_block_crc h)) @ ho_base_sha256 h"

definition de_end :: "durable_extent \<Rightarrow> nat" where
  "de_end e = unat (de_lba e) + unat (de_blocks e)"

definition de_meet :: "durable_extent \<Rightarrow> durable_extent \<Rightarrow> bool" where
  "de_meet a b = (unat (de_lba a) < de_end b \<and> unat (de_lba b) < de_end a)"

text \<open>One map: \<open>other\<close> are the extents of the map before it, \<open>seen\<close> the entries that are done.\<close>

fun geometry_scan ::
    "durable_extent list \<Rightarrow> u64 \<Rightarrow> nat \<Rightarrow> nat \<Rightarrow> durable_extent list \<Rightarrow> durable_extent list \<Rightarrow> nat \<Rightarrow> bool" where
  "geometry_scan other cap count expected seen [] tot = (tot = expected)"
| "geometry_scan other cap count expected seen (e # es) tot =
     (if length seen \<ge> count
      then (if de_lba e \<noteq> 0 \<or> de_blocks e \<noteq> 0 then False else geometry_scan other cap count expected (seen @ [e]) es tot)
      else if de_blocks e = 0 \<or> unat (de_blocks e) > expected - tot \<or> de_end e > unat cap
              \<or> (seen \<noteq> [] \<and> de_end (last seen) = unat (de_lba e)) then False
      else if \<not> list_all (\<lambda>d. \<not> de_meet e d) other \<or> \<not> list_all (\<lambda>d. \<not> de_meet e d) seen then False
      else geometry_scan other cap count expected (seen @ [e]) es (tot + unat (de_blocks e)))"

definition durable_card_geometry :: "durable_handoff \<Rightarrow> bool" where
  "durable_card_geometry h =
     (if ho_card_sectors h = 0 \<or> unat (ho_card_sectors h) > 2 ^ 32 \<or> ho_high_capacity h > 1
         \<or> (ho_high_capacity h = 0 \<and> unat (ho_card_sectors h) > 2 ^ 23)
         \<or> ho_base_count h = 0 \<or> ho_base_count h > 16 \<or> ho_journal_count h = 0 \<or> ho_journal_count h > 2
         \<or> zeroes (ho_cid h) \<or> zeroes (ho_image_id h) \<or> zeroes (ho_base_sha256 h) then False
      else if list_all (\<lambda>b. b = 0xff) (ho_cid h) then False
      else let cap = ho_card_sectors h; n = unat (ho_base_count h) in
        geometry_scan [] cap n 256 [] (ho_base h) 0
        \<and> geometry_scan (take n (ho_base h)) cap (unat (ho_journal_count h)) 2 [] (ho_journal h) 0)"

definition durable_magic :: u32 where "durable_magic = 0x34444d56"
definition durable_clean :: u32 where "durable_clean = 0x434c4e34"
definition durable_handoff_bytes :: u32 where "durable_handoff_bytes = 1272"

definition kui_vmu_durable_handoff_seal :: "durable_handoff \<Rightarrow> durable_handoff option" where
  "kui_vmu_durable_handoff_seal h =
     (let h = h\<lparr>ho_seal := 0, ho_magic := durable_magic, ho_version := 1, ho_bytes := durable_handoff_bytes,
                ho_clean := durable_clean\<rparr>
      in if \<not> durable_card_geometry h then None else Some (h\<lparr>ho_seal := kui_retail_crc32 0 (handoff_bytes h)\<rparr>))"

definition kui_vmu_durable_handoff_validate :: "durable_handoff \<Rightarrow> bool" where
  "kui_vmu_durable_handoff_validate h =
     (\<not> (ho_magic h \<noteq> durable_magic \<or> ho_version h \<noteq> 1 \<or> ho_bytes h \<noteq> durable_handoff_bytes \<or> ho_clean h \<noteq> durable_clean
        \<or> \<not> durable_card_geometry h \<or> ho_seal h \<noteq> kui_retail_crc32 0 (handoff_bytes h)))"

section \<open>State\<close>

datatype durable_reason =
  SD_Ok | SD_Context | SD_Identity | SD_Read | SD_Crc | SD_Store | SD_Busy | SD_Lease | SD_Marker | SD_Mapping

datatype durable_operation = No_Operation | Durable_Read | Durable_Write

datatype lease_result = Lease_OK | Lease_Busy | Lease_Fault

record sd_loan =
  loan_ready :: bool
  loan_slow :: bool
  loan_select :: bool
  loan_transfer :: bool
  loan_ticks :: bool
  loan_transfer_block :: bool
  loan_blocks :: u64
  loan_high_capacity :: bool

text \<open>The driver: result codes are those of \<open>enum kui_loader_sd_result\<close>, 0 for success.\<close>

record 'w sd_driver =
  sd_read :: "'w \<Rightarrow> sd_loan \<Rightarrow> u32 \<Rightarrow> 'w \<times> sd_loan \<times> int \<times> bytes"
  sd_write :: "'w \<Rightarrow> sd_loan \<Rightarrow> u32 \<Rightarrow> bytes \<Rightarrow> 'w \<times> sd_loan \<times> int"
  sd_sync :: "'w \<Rightarrow> sd_loan \<Rightarrow> 'w \<times> sd_loan \<times> int"
  sd_identity :: "'w \<Rightarrow> sd_loan \<Rightarrow> 'w \<times> sd_loan \<times> (bytes \<times> u64 \<times> bool) option"

record 'w durable_work =
  du_world :: 'w
  du_handoff :: durable_handoff
  du_maps :: "store_extent list"
  du_bounce :: bytes
  du_started :: bool
  du_ready :: bool
  du_faulted :: bool
  du_bound :: bool
  du_handling :: bool
  du_inflight :: bool
  du_invoked :: bool
  du_verified :: bool
  du_bound_candidate :: bool
  du_operation :: durable_operation
  du_block :: nat
  du_pending_crc :: u32
  du_requests :: u32
  du_write_phases :: u32
  du_commits :: u32
  du_reads :: u32
  du_refused :: u32
  du_commit_attempts :: u32
  du_last_block :: nat
  du_sd_reads :: u32
  du_sd_busy :: u32
  du_sd_faults :: u32
  du_cid_checks :: u32
  du_last_lba :: u32
  du_crc_expected :: u32
  du_crc_actual :: u32
  sd_last_result :: durable_reason
  last_sd_result :: int
  last_store_result :: vmu_store_result
  last_lease_result :: lease_result

record 'w durable_scope =
  sc_owner :: "'w durable_work"
  sc_card :: sd_loan
  sc_binding :: bool

record 'w vmu_durable =
  du_work :: "'w durable_work"
  du_store :: "'w durable_scope option vmu_store"
  du_protocol :: vmu_emulation

definition durable_fault :: "durable_reason \<Rightarrow> 'w durable_work \<Rightarrow> 'w durable_work" where
  "durable_fault reason s =
     (let s = (if \<not> du_faulted s then s\<lparr>sd_last_result := reason, du_sd_faults := increment (du_sd_faults s)\<rparr> else s)
      in s\<lparr>du_faulted := True\<rparr>)"

definition durable_card_fault :: "durable_reason \<Rightarrow> 'w vmu_durable \<Rightarrow> 'w vmu_durable" where
  "durable_card_fault reason s =
     s\<lparr>du_work := durable_fault reason (du_work s), du_store := (du_store s)\<lparr>st_ready := False\<rparr>\<rparr>"

section \<open>The sectors of the store\<close>

fun extent_lba :: "durable_extent list \<Rightarrow> nat \<Rightarrow> u32" where
  "extent_lba [] logical = 0xffffffff"
| "extent_lba (e # es) logical =
     (if logical < unat (de_blocks e) then de_lba e + of_nat logical else extent_lba es (logical - unat (de_blocks e)))"

definition durable_card_lba :: "'w durable_work \<Rightarrow> bool \<Rightarrow> nat \<Rightarrow> u32" where
  "durable_card_lba s journal logical =
     (let h = du_handoff s in
      extent_lba (if journal then take (unat (ho_journal_count h)) (ho_journal h) else take (unat (ho_base_count h)) (ho_base h))
        logical)"

definition durable_card_allowed :: "'w durable_work \<Rightarrow> u64 \<Rightarrow> bool" where
  "durable_card_allowed s lba =
     (if \<not> du_inflight s \<or> \<not> du_invoked s \<or> du_faulted s \<or> lba \<ge> ho_card_sectors (du_handoff s) \<or> lba > 0xffffffff then False
      else list_ex (\<lambda>e. lba \<ge> first_lba e \<and> lba - first_lba e < ucast (sectors e))
             (take (unat (ho_base_count (du_handoff s) + ho_journal_count (du_handoff s))) (du_maps s)))"

type_synonym 'w scope_context = "'w durable_scope option"

definition scope_fault :: "durable_reason \<Rightarrow> 'w durable_scope \<Rightarrow> 'w scope_context" where
  "scope_fault reason scope = Some (scope\<lparr>sc_owner := durable_fault reason (sc_owner scope)\<rparr>)"

definition durable_card_sector_read :: "'w sd_driver \<Rightarrow> 'w scope_context \<Rightarrow> u64 \<Rightarrow> 'w scope_context \<times> bytes option" where
  "durable_card_sector_read drv context lba =
     (case context of None \<Rightarrow> (None, None)
      | Some scope \<Rightarrow>
        let s = sc_owner scope in
        if \<not> durable_card_allowed s lba \<or> (sc_binding scope \<and> lba \<noteq> ucast (durable_card_lba s True 1))
        then (scope_fault SD_Mapping scope, None)
        else case sd_read drv (du_world s) (sc_card scope) (ucast lba) of (w, sd, res, d) \<Rightarrow>
          (let s = s\<lparr>du_last_lba := ucast lba, du_world := w, last_sd_result := res, du_bounce := d\<rparr>;
               scope = scope\<lparr>sc_owner := s, sc_card := sd\<rparr>
           in if res \<noteq> 0 \<or> \<not> loan_ready sd then (scope_fault SD_Read scope, None)
              else let scope = scope\<lparr>sc_owner := s\<lparr>du_sd_reads := increment (du_sd_reads s)\<rparr>\<rparr> in
                if sc_binding scope \<and> \<not> zeroes d then (scope_fault SD_Marker scope, None)
                else (Some scope, Some d)))"

text \<open>Writes use programmed I/O only.\<close>

definition durable_card_pio_write :: "'w sd_driver \<Rightarrow> 'w \<Rightarrow> sd_loan \<Rightarrow> u32 \<Rightarrow> bytes \<Rightarrow> 'w \<times> sd_loan \<times> int" where
  "durable_card_pio_write drv w sd lba d = sd_write drv w (sd\<lparr>loan_transfer_block := False\<rparr>) lba d"

definition durable_card_sector_write :: "'w sd_driver \<Rightarrow> 'w scope_context \<Rightarrow> u64 \<Rightarrow> bytes \<Rightarrow> 'w scope_context \<times> bool" where
  "durable_card_sector_write drv context lba d =
     (case context of None \<Rightarrow> (None, False)
      | Some scope \<Rightarrow>
        let s = sc_owner scope in
        if sc_binding scope \<or> du_operation s \<noteq> Durable_Write \<or> \<not> durable_card_allowed s lba
        then (scope_fault SD_Mapping scope, False)
        else case durable_card_pio_write drv (du_world s) (sc_card scope) (ucast lba) d of (w, sd, res) \<Rightarrow>
          (let scope = scope\<lparr>sc_owner := s\<lparr>du_last_lba := ucast lba, du_world := w, last_sd_result := res\<rparr>, sc_card := sd\<rparr>
           in if res \<noteq> 0 \<or> \<not> loan_ready sd then (scope_fault SD_Store scope, False) else (Some scope, True)))"

definition durable_card_sector_sync :: "'w sd_driver \<Rightarrow> 'w scope_context \<Rightarrow> 'w scope_context \<times> bool" where
  "durable_card_sector_sync drv context =
     (case context of None \<Rightarrow> (None, False)
      | Some scope \<Rightarrow>
        let s = sc_owner scope in
        if sc_binding scope \<or> du_operation s \<noteq> Durable_Write \<or> du_faulted s \<or> \<not> du_inflight s \<or> \<not> du_invoked s
        then (scope_fault SD_Mapping scope, False)
        else case sd_sync drv (du_world s) (sc_card scope) of (w, sd, res) \<Rightarrow>
          (let scope = scope\<lparr>sc_owner := s\<lparr>du_world := w, last_sd_result := res\<rparr>, sc_card := sd\<rparr>
           in if res \<noteq> 0 \<or> \<not> loan_ready sd then (scope_fault SD_Store scope, False) else (Some scope, True)))"

definition durable_io :: "'w sd_driver \<Rightarrow> 'w scope_context \<Rightarrow> 'w scope_context vmu_store_io" where
  "durable_io drv context =
     \<lparr>dev_context = context, read_sector = durable_card_sector_read drv, write_sector = durable_card_sector_write drv,
      dev_sync = durable_card_sector_sync drv\<rparr>"

section \<open>One transaction on the loan\<close>

definition durable_config :: "'w durable_work \<Rightarrow> vmu_store_config" where
  "durable_config s =
     (let h = du_handoff s; n = unat (ho_base_count h) in
      \<lparr>cfg_card_sectors = ho_card_sectors h, cfg_image_id = ho_image_id h, image_extents = take n (du_maps s),
       journal_extents = take (unat (ho_journal_count h)) (drop n (du_maps s))\<rparr>)"

type_synonym 'w scoped_store = "'w scope_context vmu_store"

definition on_scope :: "('w durable_scope \<Rightarrow> 'w durable_scope) \<Rightarrow> 'w scoped_store \<Rightarrow> 'w scoped_store" where
  "on_scope f st = set_context st (map_option f (store_context st))"

definition on_owner :: "('w durable_work \<Rightarrow> 'w durable_work) \<Rightarrow> 'w scoped_store \<Rightarrow> 'w scoped_store" where
  "on_owner f = on_scope (\<lambda>scope. scope\<lparr>sc_owner := f (sc_owner scope)\<rparr>)"

definition store_owner :: "'w scoped_store \<Rightarrow> 'w durable_work" where
  "store_owner st = sc_owner (the (store_context st))"

text \<open>The context is \<open>NULL\<close> again when the transaction returns.\<close>

definition leave_store :: "'w vmu_durable \<Rightarrow> 'w scoped_store \<Rightarrow> 'w vmu_durable" where
  "leave_store s st = s\<lparr>du_work := store_owner st, du_store := set_context st None\<rparr>"

definition loan_spent :: "sd_loan \<Rightarrow> sd_loan" where
  "loan_spent loan = loan\<lparr>loan_ready := False\<rparr>"

text \<open>The label \<open>failed\<close>.\<close>

definition transaction_failed :: "'w vmu_durable \<Rightarrow> sd_loan \<Rightarrow> 'w vmu_durable \<times> sd_loan \<times> bool" where
  "transaction_failed s loan = (if \<not> du_faulted (du_work s) then durable_card_fault SD_Store s else s, loan_spent loan, False)"

definition bind_store :: "'w sd_driver \<Rightarrow> 'w durable_scope \<Rightarrow> 'w scoped_store \<times> vmu_store_result" where
  "bind_store drv scope =
     (case kui_vmu_store_open (durable_io drv (Some scope)) (durable_config (sc_owner scope)) of (st, r) \<Rightarrow>
       (let st = on_owner (\<lambda>s. s\<lparr>last_store_result := r\<rparr>) st in
        if r \<noteq> Store_OK then (st, r)
        else (on_scope (\<lambda>sc. sc\<lparr>sc_binding := False, sc_owner := (sc_owner sc)\<lparr>du_bound_candidate := True\<rparr>\<rparr>) st, r)))"

definition write_store :: "bytes \<Rightarrow> 'w scoped_store \<Rightarrow> 'w scoped_store \<times> vmu_store_result" where
  "write_store data st =
     (if du_operation (store_owner st) = Durable_Write
      then case kui_vmu_store_write st (du_block (store_owner st)) data of (st, r) \<Rightarrow> (on_owner (\<lambda>s. s\<lparr>last_store_result := r\<rparr>) st, r)
      else (st, Store_OK))"

definition read_store :: "'w scoped_store \<Rightarrow> 'w scoped_store \<times> vmu_store_result" where
  "read_store st =
     (case kui_vmu_store_read st (du_block (store_owner st)) of (st, r, d) \<Rightarrow> (on_owner (\<lambda>s. s\<lparr>last_store_result := r\<rparr>) st, r))"

definition verify_store :: "'w vmu_durable \<Rightarrow> 'w scoped_store \<Rightarrow> sd_loan \<Rightarrow> 'w vmu_durable \<times> sd_loan \<times> bool" where
  "verify_store s st loan =
     (let st = on_owner (\<lambda>s. s\<lparr>du_crc_actual := kui_retail_crc32 0 (du_bounce s)\<rparr>) st; w = store_owner st in
      if (if du_operation w = Durable_Write then du_bounce w \<noteq> st_data st else du_crc_actual w \<noteq> du_crc_expected w)
      then transaction_failed (durable_card_fault SD_Crc (leave_store s st)) loan
      else (leave_store s (on_owner (\<lambda>s. s\<lparr>du_pending_crc := du_crc_actual s, du_verified := True\<rparr>) st), loan, True))"

definition store_transaction :: "'w sd_driver \<Rightarrow> 'w vmu_durable \<Rightarrow> sd_loan \<Rightarrow> 'w vmu_durable \<times> sd_loan \<times> bool" where
  "store_transaction drv s loan =
     (let w = du_work s;
          scope = \<lparr>sc_owner = w, sc_card = (if du_operation w = Durable_Write then loan\<lparr>loan_transfer_block := False\<rparr> else loan),
                   sc_binding = \<not> du_bound w\<rparr>
      in case (if sc_binding scope then bind_store drv scope else (set_context (du_store s) (Some scope), Store_OK)) of (st, r) \<Rightarrow>
        if r \<noteq> Store_OK then transaction_failed (leave_store s st) loan
        else case write_store (staged (du_protocol s)) st of (st, r) \<Rightarrow>
          if r \<noteq> Store_OK then transaction_failed (leave_store s st) loan
          else case read_store st of (st, r) \<Rightarrow>
            if r \<noteq> Store_OK then transaction_failed (leave_store s st) loan
            else verify_store s st loan)"

definition kui_vmu_durable_transaction :: "'w sd_driver \<Rightarrow> 'w vmu_durable \<Rightarrow> sd_loan \<Rightarrow> 'w vmu_durable \<times> sd_loan \<times> bool" where
  "kui_vmu_durable_transaction drv s loan =
     (let w = du_work s; h = du_handoff w in
      if \<not> du_ready w \<or> \<not> du_handling w \<or> \<not> du_inflight w \<or> du_invoked w \<or> du_faulted w \<or> du_operation w = No_Operation
      then (durable_card_fault SD_Context s, loan_spent loan, False)
      else let w = w\<lparr>du_invoked := True\<rparr>; s = s\<lparr>du_work := w\<rparr> in
        if \<not> loan_ready loan \<or> loan_slow loan \<or> \<not> loan_select loan \<or> \<not> loan_transfer loan \<or> \<not> loan_ticks loan
           \<or> loan_blocks loan \<noteq> ho_card_sectors h \<or> loan_high_capacity loan \<noteq> (ho_high_capacity h \<noteq> 0)
        then (durable_card_fault SD_Identity s, loan_spent loan, False)
        else let w = w\<lparr>du_cid_checks := increment (du_cid_checks w)\<rparr> in
          case sd_identity drv (du_world w) loan of (x, loan, identity) \<Rightarrow>
            let s = s\<lparr>du_work := w\<lparr>du_world := x\<rparr>\<rparr> in
            if identity \<noteq> Some (ho_cid h, ho_card_sectors h, ho_high_capacity h \<noteq> 0)
            then (durable_card_fault SD_Identity s, loan_spent loan, False)
            else store_transaction drv s loan)"

section \<open>The two callbacks of the protocol\<close>

type_synonym 'w sd_lease =
  "('w vmu_durable \<Rightarrow> sd_loan \<Rightarrow> 'w vmu_durable \<times> sd_loan \<times> bool) \<Rightarrow> 'w vmu_durable \<Rightarrow> 'w vmu_durable \<times> lease_result"

definition durable_card_execute ::
    "'w sd_driver \<Rightarrow> 'w sd_lease \<Rightarrow> durable_operation \<Rightarrow> 'w vmu_durable \<Rightarrow> nat \<Rightarrow> 'w vmu_durable \<times> emu_io_result" where
  "durable_card_execute drv lease op s block =
     (let w = du_work s in
      if du_faulted w then (s, Emu_Error)
      else if \<not> du_handling w \<or> du_inflight w \<or> block \<ge> 256 then (durable_card_fault SD_Context s, Emu_Error)
      else let w = w\<lparr>du_operation := op, du_block := block, du_last_block := block,
                     du_crc_expected := ho_block_crc (du_handoff w) ! block, du_crc_actual := 0, du_inflight := True,
                     du_invoked := False, du_verified := False, du_bound_candidate := False\<rparr>;
               w = (if op = Durable_Write then w\<lparr>du_commit_attempts := increment (du_commit_attempts w)\<rparr> else w)
        in case lease (kui_vmu_durable_transaction drv) (s\<lparr>du_work := w\<rparr>) of (s, result) \<Rightarrow>
          let w = (du_work s)\<lparr>last_lease_result := result, du_inflight := False\<rparr>;
              s = s\<lparr>du_work := w, du_store := set_context (du_store s) None\<rparr>
          in if result = Lease_Busy \<and> \<not> du_invoked w \<and> \<not> du_faulted w
             then (s\<lparr>du_work := w\<lparr>du_sd_busy := increment (du_sd_busy w), sd_last_result := SD_Busy\<rparr>\<rparr>, Emu_Busy)
             else if result \<noteq> Lease_OK \<or> \<not> du_invoked w \<or> \<not> du_verified w \<or> du_faulted w
             then (if \<not> du_faulted w then durable_card_fault SD_Lease s else s, Emu_Error)
             else let w = (if du_bound_candidate w then w\<lparr>du_bound := True\<rparr> else w)\<lparr>sd_last_result := SD_Ok\<rparr>;
                      w = (if op = Durable_Write
                           then w\<lparr>du_handoff := (du_handoff w)\<lparr>ho_block_crc := (ho_block_crc (du_handoff w))[block := du_pending_crc w],
                                                               ho_seal := 0\<rparr>,
                                  du_commits := increment (du_commits w)\<rparr>
                           else w\<lparr>du_reads := increment (du_reads w)\<rparr>)
               in (s\<lparr>du_work := w\<rparr>, Emu_OK))"

definition durable_card_read ::
    "'w sd_driver \<Rightarrow> 'w sd_lease \<Rightarrow> 'w vmu_durable \<Rightarrow> nat \<Rightarrow> 'w vmu_durable \<times> emu_io_result \<times> bytes" where
  "durable_card_read drv lease s block =
     (case durable_card_execute drv lease Durable_Read s block of (s, r) \<Rightarrow> (s, r, if r = Emu_OK then du_bounce (du_work s) else []))"

text \<open>The data must be the staging buffer of the protocol: the code compares the addresses.\<close>

definition durable_card_commit ::
    "'w sd_driver \<Rightarrow> 'w sd_lease \<Rightarrow> 'w vmu_durable \<Rightarrow> nat \<Rightarrow> bytes \<Rightarrow> 'w vmu_durable \<times> emu_io_result" where
  "durable_card_commit drv lease s block data =
     (if data \<noteq> staged (du_protocol s) then (durable_card_fault SD_Context s, Emu_Error)
      else durable_card_execute drv lease Durable_Write s block)"

section \<open>Entry points\<close>

datatype durable_result = Durable_Handled bytes | Durable_Refused | Durable_Argument | Durable_Capacity | Durable_Internal

definition durable_maps :: "durable_handoff \<Rightarrow> store_extent list" where
  "durable_maps h = map (\<lambda>e. \<lparr>first_lba = ucast (de_lba e), sectors = de_blocks e\<rparr>)
     (take (unat (ho_base_count h)) (ho_base h) @ take (unat (ho_journal_count h)) (ho_journal h))"

definition kui_vmu_durable_init_address :: "u8 \<Rightarrow> durable_handoff \<Rightarrow> 'w \<Rightarrow> bool \<Rightarrow> durable_result + 'w vmu_durable" where
  "kui_vmu_durable_init_address addr h world started =
     (if (addr \<noteq> 1 \<and> addr \<noteq> 2) \<or> \<not> kui_vmu_durable_handoff_validate h then Inl Durable_Argument
      else if started then Inl Durable_Internal
      else case kui_vmu_emulation_init addr of None \<Rightarrow> Inl Durable_Internal
        | Some p \<Rightarrow> Inr
           \<lparr>du_work = \<lparr>du_world = world, du_handoff = h, du_maps = durable_maps h, du_bounce = replicate 512 0,
              du_started = True, du_ready = True, du_faulted = False, du_bound = False, du_handling = False, du_inflight = False,
              du_invoked = False, du_verified = False, du_bound_candidate = False, du_operation = No_Operation, du_block = 0,
              du_pending_crc = 0, du_requests = 0, du_write_phases = 0, du_commits = 0, du_reads = 0, du_refused = 0,
              du_commit_attempts = 0, du_last_block = 0, du_sd_reads = 0, du_sd_busy = 0, du_sd_faults = 0, du_cid_checks = 0,
              du_last_lba = 0, du_crc_expected = 0, du_crc_actual = 0, sd_last_result = SD_Ok, last_sd_result = 0,
              last_store_result = Store_OK, last_lease_result = Lease_OK\<rparr>,
            du_store = \<lparr>st_io = \<lparr>dev_context = None, read_sector = (\<lambda>c l. (c, None)), write_sector = (\<lambda>c l d. (c, False)),
                                   dev_sync = (\<lambda>c. (c, False))\<rparr>,
              st_image = [], st_journal = [], st_card_sectors = 0, st_sequence = 0, mapping_crc = 0, st_image_id = replicate 16 0,
              st_data = replicate 512 0, st_marker = replicate 512 0, st_ready = False\<rparr>,
            du_protocol = p\<rparr>)"

definition kui_vmu_durable_init :: "durable_handoff \<Rightarrow> 'w \<Rightarrow> bool \<Rightarrow> durable_result + 'w vmu_durable" where
  "kui_vmu_durable_init = kui_vmu_durable_init_address 1"

definition durable_card_shape :: "u8 \<Rightarrow> u32 \<Rightarrow> u32 \<Rightarrow> u32 \<Rightarrow> nat" where
  "durable_card_shape addr h p0 p1 =
     (let cmd = h AND 255; words = drop_bit 24 h; phase = drop_bit 8 p1 AND 255 in
      if h AND 0x00ffff00 \<noteq> push_bit 8 (ucast addr) then 0
      else if cmd = 1 \<or> cmd = 2 then (if words \<noteq> 0 then 0 else if cmd = 1 then 116 else 196)
      else if cmd = 3 then (if words \<noteq> 0 then 0 else 4)
      else if p0 \<noteq> 0x02000000 \<or> p1 AND 0x00ff00ff \<noteq> 0 then 0
      else if cmd = 10 then (if words = 2 \<and> p1 = 0 then 32 else 0)
      else if cmd = 11 then (if words = 2 \<and> phase = 0 then 524 else 0)
      else if cmd = 12 then (if words = 34 \<and> phase < 4 then 8 else 0)
      else if cmd = 13 then (if words = 2 \<and> (phase = 1 \<or> phase = 4) then 8 else 0)
      else 0)"

text \<open>Admission: \<open>True\<close> for a request that may be scheduled, \<open>False\<close> for one that is refused.\<close>

definition kui_vmu_durable_admit :: "'w vmu_durable \<Rightarrow> u32 \<Rightarrow> u32 \<Rightarrow> u32 \<Rightarrow> durable_result + bool" where
  "kui_vmu_durable_admit s h p0 p1 =
     (let w = du_work s in
      if \<not> du_ready w then Inl Durable_Argument
      else if du_faulted w \<or> du_handling w \<or> du_inflight w then Inl Durable_Internal
      else Inr (durable_card_shape (address (du_protocol s)) h p0 p1 \<noteq> 0))"

definition durable_reply :: "u32 \<Rightarrow> 'w vmu_durable \<Rightarrow> emu_result \<Rightarrow> 'w vmu_durable \<times> durable_result" where
  "durable_reply cmd s r =
     (case r of
        Handled out \<Rightarrow>
          let w = du_work s; w = (if cmd = 12 \<and> out ! 0 = 7 then w\<lparr>du_write_phases := increment (du_write_phases w)\<rparr> else w)
          in (s\<lparr>du_work := w\<lparr>du_requests := increment (du_requests w)\<rparr>\<rparr>, Durable_Handled out)
      | _ \<Rightarrow> (durable_card_fault SD_Context s, Durable_Internal))"

definition kui_vmu_durable_handle ::
    "'w sd_driver \<Rightarrow> 'w sd_lease \<Rightarrow> 'w vmu_durable \<Rightarrow> bytes \<Rightarrow> nat \<Rightarrow> 'w vmu_durable \<times> durable_result" where
  "kui_vmu_durable_handle drv lease s request capacity =
     (let w = du_work s in
      if \<not> du_ready w \<or> length request < 4 then (s, Durable_Argument)
      else if du_handling w \<or> du_inflight w then (s, Durable_Internal)
      else let h = get32 request 0;
               p0 = (if length request \<ge> 12 then get32 request 4 else 0);
               p1 = (if length request \<ge> 12 then get32 request 8 else 0);
               addr = address (du_protocol s);
               needed = durable_card_shape addr h p0 p1
        in if needed = 0 \<or> length request \<noteq> 4 + 4 * unat (drop_bit 24 h)
           then (s\<lparr>du_work := w\<lparr>du_refused := increment (du_refused w)\<rparr>\<rparr>, Durable_Refused)
           else if capacity < (if du_faulted w then 8 else needed) then (s, Durable_Capacity)
           else if du_faulted w then (s, Durable_Handled [0xfb, 0, addr, 1, 0, 0, 0, 8])
           else case kui_vmu_emulation_handle (durable_card_read drv lease) (durable_card_commit drv lease)
                    (s\<lparr>du_work := w\<lparr>du_handling := True\<rparr>\<rparr>) (du_protocol s) request capacity of
               (s, p, r) \<Rightarrow> durable_reply (h AND 255) (s\<lparr>du_work := (du_work s)\<lparr>du_handling := False\<rparr>, du_protocol := p\<rparr>) r)"

section \<open>What the store leaves alone in its context\<close>

text \<open>
  A relation on contexts that every callback keeps is kept by every operation of the store.
\<close>

locale callback_relation =
  fixes io :: "'c vmu_store_io" and R :: "'c \<Rightarrow> 'c \<Rightarrow> bool"
  assumes stays: "R c c" and chains: "R a b \<Longrightarrow> R b c \<Longrightarrow> R a c"
    and read_keeps: "read_sector io c l = (c', x) \<Longrightarrow> R c c'"
    and write_keeps: "write_sector io c l d = (c', ok) \<Longrightarrow> R c c'"
    and sync_keeps: "dev_sync io c = (c', ok) \<Longrightarrow> R c c'"
begin

definition over :: "'c vmu_store \<Rightarrow> bool" where
  "over s = (read_sector (st_io s) = read_sector io \<and> write_sector (st_io s) = write_sector io \<and> dev_sync (st_io s) = dev_sync io)"

definition moves :: "'c vmu_store \<Rightarrow> 'c vmu_store \<Rightarrow> bool" where
  "moves s t = (over t \<and> R (store_context s) (store_context t))"

lemma moves_trans: "moves s t \<Longrightarrow> moves t u \<Longrightarrow> moves s u"
  using chains by (auto simp: moves_def)

lemma over_simps [simp]:
  "over (s\<lparr>st_data := d\<rparr>) = over s" "over (s\<lparr>st_marker := d\<rparr>) = over s" "over (s\<lparr>st_sequence := q\<rparr>) = over s"
  "over (s\<lparr>st_ready := b\<rparr>) = over s" "over (set_context s c) = over s"
  by (simp_all add: over_def)

lemma moves_left [simp]:
  "moves (s\<lparr>st_data := d\<rparr>) = moves s" "moves (s\<lparr>st_marker := d\<rparr>) = moves s" "moves (s\<lparr>st_sequence := q\<rparr>) = moves s"
  by (simp_all add: moves_def fun_eq_iff)

lemma moves_right [simp]:
  "moves s (t\<lparr>st_data := d\<rparr>) = moves s t" "moves s (t\<lparr>st_marker := d\<rparr>) = moves s t" "moves s (t\<lparr>st_sequence := q\<rparr>) = moves s t"
  "moves s (t\<lparr>st_ready := b\<rparr>) = moves s t"
  by (simp_all add: moves_def)

lemma moves_refl: "over s \<Longrightarrow> moves s s"
  by (simp add: moves_def stays)

lemma read_moves: "over s \<Longrightarrow> store_read_sector s l = (t, x) \<Longrightarrow> moves s t"
  using read_keeps by (auto simp: store_read_sector_def moves_def over_def split: prod.splits)

lemma sync_moves: "over s \<Longrightarrow> dev_sync (st_io s) (store_context s) = (c, ok) \<Longrightarrow> moves s (set_context s c)"
  using sync_keeps by (auto simp: moves_def over_def)

lemma write_moves:
  assumes "over s" and "write_sync s l d = (t, r)"
  shows "moves s t"
proof -
  obtain c ok where w: "write_sector (st_io s) (store_context s) l d = (c, ok)" by fastforce
  obtain c2 ok2 where y: "dev_sync (st_io s) c = (c2, ok2)" by fastforce
  have "R (store_context s) c" "R c c2"
    using w y assms(1) write_keeps sync_keeps by (auto simp: over_def)
  then have "R (store_context s) c" "R (store_context s) c2" using chains by blast+
  then show ?thesis
    using assms w y by (auto simp: write_sync_def io_error_def moves_def split: if_splits)
qed

lemma recover_moves:
  assumes "over s" and "recover s = (t, r)"
  shows "moves s t"
proof -
  obtain s1 x where rd: "store_read_sector s (marker_lba s) = (s1, x)" by fastforce
  note m1 = read_moves [OF assms(1) rd]
  have over1: "over s1" using m1 by (simp add: moves_def)
  show ?thesis
  proof (cases "\<exists>m. x = Some m \<and> marker_crc_ok m \<and> marker_fields_ok m \<and> marker_identity_ok (s1\<lparr>st_marker := m\<rparr>) m")
    case False
    then have "t = s1 \<or> t = s1\<lparr>st_ready := False\<rparr> \<or> (\<exists>m. t = s1\<lparr>st_marker := m\<rparr>)"
      using assms(2) rd by (auto simp: recover_def io_error_def Let_def split: option.splits if_splits)
    then show ?thesis using m1 by auto
  next
    case True
    then obtain m where m: "x = Some m" "marker_crc_ok m" "marker_fields_ok m" "marker_identity_ok (s1\<lparr>st_marker := m\<rparr>) m" by blast
    let ?s1 = "s1\<lparr>st_marker := m\<rparr>"
    obtain s2 y where rd2: "store_read_sector ?s1 (data_lba ?s1) = (s2, y)" by fastforce
    have "moves ?s1 s2" using read_moves [OF _ rd2] over1 by simp
    then have m2: "moves s s2" and over2: "over s2" using moves_trans [OF m1, of s2] by (simp_all add: moves_def)
    show ?thesis
    proof (cases "\<exists>d. y = Some d \<and> get32 m 48 = kui_retail_crc32 0 d")
      case False
      then have "t = s2\<lparr>st_ready := False\<rparr> \<or> (\<exists>d. t = s2\<lparr>st_data := d\<rparr>)"
        using assms(2) rd rd2 m by (auto simp: recover_def io_error_def Let_def split: option.splits if_splits)
      then show ?thesis using m2 by auto
    next
      case True
      then obtain d where d: "y = Some d" "get32 m 48 = kui_retail_crc32 0 d" by blast
      let ?s2 = "s2\<lparr>st_data := d, st_sequence := get64 m 56\<rparr>"
      obtain c ok where sy: "dev_sync (st_io ?s2) (store_context ?s2) = (c, ok)" by fastforce
      have m3: "moves s (set_context ?s2 c)"
        using moves_trans [OF m2, of "set_context ?s2 c"] sync_moves [OF _ sy] over2 by simp
      obtain s3 r3 where w: "write_sync (set_context ?s2 c) (block_lba ?s2 (unat (get32 m 44))) d = (s3, r3)" by fastforce
      have m4: "moves (set_context ?s2 c) s3" using write_moves [OF _ w] over2 by simp
      have "t = (set_context ?s2 c)\<lparr>st_ready := False\<rparr> \<or> t = s3"
        using assms(2) rd rd2 m d sy w by (auto simp: recover_def io_error_def Let_def split: if_splits)
      then show ?thesis using m3 moves_trans [OF m3 m4] by auto
    qed
  qed
qed

lemma store_read_moves: "over s \<Longrightarrow> kui_vmu_store_read s b = (t, r, x) \<Longrightarrow> moves s t"
  using read_moves [of s "block_lba s b"]
  by (auto simp: kui_vmu_store_read_def io_error_def moves_refl split: if_splits option.splits prod.splits)

lemma store_write_moves:
  assumes "over s" and "kui_vmu_store_write s b d = (t, r)"
  shows "moves s t"
proof (cases "b < 256 \<and> st_ready s")
  case False
  then have "t = s" using assms(2) by (auto simp: kui_vmu_store_write_def split: if_splits)
  then show ?thesis using moves_refl [OF assms(1)] by simp
next
  case True
  let ?s0 = "s\<lparr>st_data := d, st_marker := replicate 512 0\<rparr>"
  obtain s1 r1 where w1: "write_sync ?s0 (marker_lba s) (replicate 512 0) = (s1, r1)" by fastforce
  obtain s2 r2 where w2: "write_sync s1 (data_lba s1) (st_data s1) = (s2, r2)" by fastforce
  define q where "q = (if st_sequence s2 = 0xffffffffffffffff then 1 else st_sequence s2 + 1)"
  let ?s2 = "s2\<lparr>st_sequence := q, st_marker := store_marker (s2\<lparr>st_sequence := q\<rparr>) b (st_data s2) q\<rparr>"
  obtain s3 r3 where w3: "write_sync ?s2 (marker_lba s) (st_marker ?s2) = (s3, r3)" by fastforce
  obtain s4 r4 where w4: "write_sync s3 (block_lba s3 b) (st_data s3) = (s4, r4)" by fastforce
  have m1: "moves s s1" using write_moves [OF _ w1] assms(1) by simp
  have m2: "moves s s2" using moves_trans [OF m1 write_moves [OF _ w2]] m1 by (simp add: moves_def)
  have "moves ?s2 s3" using write_moves [OF _ w3] m2 by (simp add: moves_def)
  then have m3: "moves s s3" using moves_trans [OF m2, of s3] by simp
  have m4: "moves s s4" using moves_trans [OF m3 write_moves [OF _ w4]] m3 by (simp add: moves_def)
  have "t = s1 \<or> t = s2 \<or> t = s3 \<or> t = s4"
    using assms(2) True w1 w2 w3 w4 by (auto simp: kui_vmu_store_write_def Let_def q_def split: if_splits)
  then show ?thesis using m1 m2 m3 m4 by blast
qed

lemma store_open_moves:
  assumes "kui_vmu_store_open io cfg = (t, r)"
  shows "over t \<and> R (dev_context io) (store_context t)"
proof -
  have "over (configured io cfg)" "store_context (configured io cfg) = dev_context io"
    by (simp_all add: configured_def Let_def over_def)
  moreover obtain u q where rec: "recover (configured io cfg) = (u, q)" by fastforce
  ultimately have "over u \<and> R (dev_context io) (store_context u)"
    using recover_moves [of "configured io cfg" u q] by (simp add: moves_def)
  then show ?thesis
    using assms open_configured [of cfg io] rec stays
    by (cases "maps_valid cfg") (auto simp: kui_vmu_store_open_def over_def)
qed

end

section \<open>What the driver and the lease promise\<close>

definition sd_medium ::
    "'w sd_driver \<Rightarrow> ('w \<Rightarrow> u64 \<Rightarrow> bytes) \<Rightarrow> ('w \<Rightarrow> (u64 \<Rightarrow> bytes) set) \<Rightarrow> u64 \<Rightarrow> bool" where
  "sd_medium drv live crash mk =
     ((\<forall>w c l w' c' d. sd_read drv w c l = (w', c', 0, d) \<longrightarrow> d = live w (ucast l) \<and> live w' = live w)
    \<and> (\<forall>w c l w' c' r d. sd_read drv w c l = (w', c', r, d) \<longrightarrow> crash w' \<subseteq> crash w)
    \<and> (\<forall>w c l d w' c' r m. sd_write drv w c l d = (w', c', r) \<longrightarrow> m \<in> crash w' \<longrightarrow>
         m \<in> crash w \<or> (\<exists>m0\<in>crash w. \<exists>x. m = m0(ucast l := x) \<and> (ucast l = mk \<longrightarrow> x = d \<or> \<not> marker_crc_ok x)))
    \<and> (\<forall>w c l d w' c'. sd_write drv w c l d = (w', c', 0) \<longrightarrow> live w' = (live w)(ucast l := d))
    \<and> (\<forall>w c w' c' r. sd_sync drv w c = (w', c', r) \<longrightarrow> crash w' \<subseteq> crash w)
    \<and> (\<forall>w c w' c'. sd_sync drv w c = (w', c', 0) \<longrightarrow> live w' = live w \<and> crash w' \<subseteq> {live w})
    \<and> (\<forall>w c w' c' x. sd_identity drv w c = (w', c', x) \<longrightarrow> live w' = live w \<and> crash w' \<subseteq> crash w))"

definition steady :: "('w \<Rightarrow> u64 \<Rightarrow> bytes) \<Rightarrow> ('w \<Rightarrow> (u64 \<Rightarrow> bytes) set) \<Rightarrow> 'w \<Rightarrow> 'w \<Rightarrow> bool" where
  "steady live crash w w' = (live w' = live w \<and> crash w' \<subseteq> crash w)"

definition put_world :: "'w vmu_durable \<Rightarrow> 'w \<Rightarrow> 'w vmu_durable" where
  "put_world s w = s\<lparr>du_work := (du_work s)\<lparr>du_world := w\<rparr>\<rparr>"

abbreviation durable_world :: "'w vmu_durable \<Rightarrow> 'w" where "durable_world s \<equiv> du_world (du_work s)"

text \<open>
  The lease runs the transaction at most once, on a loan of its choice, and touches neither the medium nor
  the card's own state before and after it; it reports success only when the transaction ran and succeeded.
\<close>

definition lease_law :: "('w \<Rightarrow> u64 \<Rightarrow> bytes) \<Rightarrow> ('w \<Rightarrow> (u64 \<Rightarrow> bytes) set) \<Rightarrow> 'w sd_lease \<Rightarrow> bool" where
  "lease_law live crash lease =
     (\<forall>run s s' res. lease run s = (s', res) \<longrightarrow>
        (\<exists>w1. steady live crash (durable_world s) w1 \<and>
           (s' = put_world s w1 \<and> res \<noteq> Lease_OK \<or>
            (\<exists>loan s1 loan1 ok w2. run (put_world s w1) loan = (s1, loan1, ok) \<and> steady live crash (durable_world s1) w2
               \<and> s' = put_world s1 w2 \<and> (res = Lease_OK \<longrightarrow> ok)))))"

definition scope_live :: "('w \<Rightarrow> u64 \<Rightarrow> bytes) \<Rightarrow> 'w scope_context \<Rightarrow> u64 \<Rightarrow> bytes" where
  "scope_live live c = (case c of None \<Rightarrow> (\<lambda>_. []) | Some scope \<Rightarrow> live (du_world (sc_owner scope)))"

definition scope_crash :: "('w \<Rightarrow> (u64 \<Rightarrow> bytes) set) \<Rightarrow> 'w scope_context \<Rightarrow> (u64 \<Rightarrow> bytes) set" where
  "scope_crash crash c = (case c of None \<Rightarrow> {} | Some scope \<Rightarrow> crash (du_world (sc_owner scope)))"

lemma scope_simps [simp]:
  "scope_live live None = (\<lambda>_. [])" "scope_crash crash None = {}"
  "scope_live live (Some scope) = live (du_world (sc_owner scope))"
  "scope_crash crash (Some scope) = crash (du_world (sc_owner scope))"
  by (simp_all add: scope_live_def scope_crash_def)

lemma durable_fault_world [simp]: "du_world (durable_fault r w) = du_world w" "du_faulted (durable_fault r w)"
  by (simp_all add: durable_fault_def Let_def)

text \<open>The work fields that a callback of the store leaves alone.\<close>

definition work_frame :: "'w durable_work \<Rightarrow> 'w durable_work \<Rightarrow> bool" where
  "work_frame w w' =
     (du_handoff w' = du_handoff w \<and> du_maps w' = du_maps w \<and> du_ready w' = du_ready w \<and> du_bound w' = du_bound w
      \<and> du_handling w' = du_handling w \<and> du_inflight w' = du_inflight w \<and> du_invoked w' = du_invoked w
      \<and> du_operation w' = du_operation w \<and> du_block w' = du_block w \<and> du_crc_expected w' = du_crc_expected w
      \<and> (du_bound_candidate w \<longrightarrow> du_bound_candidate w'))"

lemma work_frame_refl [simp]: "work_frame w w"
  by (simp add: work_frame_def)

lemma work_frame_trans: "work_frame a b \<Longrightarrow> work_frame b c \<Longrightarrow> work_frame a c"
  by (simp add: work_frame_def)

lemma work_frame_fault [simp]: "work_frame w (durable_fault r v) = work_frame w v"
  by (simp add: work_frame_def durable_fault_def Let_def)

definition scope_frame :: "'w scope_context \<Rightarrow> 'w scope_context \<Rightarrow> bool" where
  "scope_frame c c' =
     (case c of None \<Rightarrow> True
      | Some s \<Rightarrow> (case c' of None \<Rightarrow> False
          | Some t \<Rightarrow> work_frame (sc_owner s) (sc_owner t) \<and> sc_binding t = sc_binding s))"

lemma scope_frame_trans: "scope_frame a b \<Longrightarrow> scope_frame b c \<Longrightarrow> scope_frame a c"
  by (auto simp: scope_frame_def dest: work_frame_trans split: option.splits)

text \<open>The three callbacks: refused without touching the driver, or one call of the driver.\<close>

lemma sector_read_cases:
  assumes "durable_card_sector_read drv (Some scope) l = (c', x)"
  obtains (refused) "c' = scope_fault SD_Mapping scope" "x = None"
  | (called) w sd res d sc' where "l \<le> 0xffffffff" "sd_read drv (du_world (sc_owner scope)) (sc_card scope) (ucast l) = (w, sd, res, d)"
      "c' = Some sc'" "du_world (sc_owner sc') = w" "du_bounce (sc_owner sc') = d" "scope_frame (Some scope) (Some sc')"
      "x = Some d \<and> res = 0 \<or> x = None"
proof (cases "\<not> durable_card_allowed (sc_owner scope) l \<or> (sc_binding scope \<and> l \<noteq> ucast (durable_card_lba (sc_owner scope) True 1))")
  case True
  then show thesis using assms refused by (simp add: durable_card_sector_read_def Let_def)
next
  case False
  obtain w sd res d where rd: "sd_read drv (du_world (sc_owner scope)) (sc_card scope) (ucast l) = (w, sd, res, d)"
    using prod_cases4 by blast
  have l: "l \<le> 0xffffffff" using False by (auto simp: durable_card_allowed_def Let_def split: if_splits)
  have "\<exists>sc'. c' = Some sc' \<and> du_world (sc_owner sc') = w \<and> du_bounce (sc_owner sc') = d \<and> scope_frame (Some scope) (Some sc') \<and>
      (x = Some d \<and> res = 0 \<or> x = None)"
    using assms rd False
    by (auto simp: durable_card_sector_read_def Let_def scope_frame_def scope_fault_def work_frame_def durable_fault_def split: if_splits)
  then show thesis using called [OF l rd] by blast
qed

lemma sector_write_cases:
  assumes "durable_card_sector_write drv (Some scope) l d = (c', ok)"
  obtains (refused) "c' = scope_fault SD_Mapping scope" "\<not> ok"
  | (called) w sd sd' res sc' where "l \<le> 0xffffffff" "sd_write drv (du_world (sc_owner scope)) sd (ucast l) d = (w, sd', res)"
      "c' = Some sc'" "du_world (sc_owner sc') = w" "scope_frame (Some scope) (Some sc')" "ok \<longrightarrow> res = 0"
proof (cases "sc_binding scope \<or> du_operation (sc_owner scope) \<noteq> Durable_Write \<or> \<not> durable_card_allowed (sc_owner scope) l")
  case True
  then show thesis using assms refused by (simp add: durable_card_sector_write_def Let_def)
next
  case False
  obtain w sd' res where wr: "sd_write drv (du_world (sc_owner scope)) ((sc_card scope)\<lparr>loan_transfer_block := False\<rparr>) (ucast l) d = (w, sd', res)"
    using prod_cases3 by blast
  have l: "l \<le> 0xffffffff" using False by (auto simp: durable_card_allowed_def Let_def split: if_splits)
  have "\<exists>sc'. c' = Some sc' \<and> du_world (sc_owner sc') = w \<and> scope_frame (Some scope) (Some sc') \<and> (ok \<longrightarrow> res = 0)"
    using assms wr False
    by (auto simp: durable_card_sector_write_def durable_card_pio_write_def Let_def scope_frame_def scope_fault_def work_frame_def
        durable_fault_def split: if_splits)
  then show thesis using called [OF l wr] by blast
qed

lemma sector_sync_cases:
  assumes "durable_card_sector_sync drv (Some scope) = (c', ok)"
  obtains (refused) "c' = scope_fault SD_Mapping scope" "\<not> ok"
  | (called) w sd' res sc' where "sd_sync drv (du_world (sc_owner scope)) (sc_card scope) = (w, sd', res)"
      "c' = Some sc'" "du_world (sc_owner sc') = w" "scope_frame (Some scope) (Some sc')" "ok \<longrightarrow> res = 0"
proof (cases "sc_binding scope \<or> du_operation (sc_owner scope) \<noteq> Durable_Write \<or> du_faulted (sc_owner scope)
    \<or> \<not> du_inflight (sc_owner scope) \<or> \<not> du_invoked (sc_owner scope)")
  case True
  then show thesis using assms refused by (simp add: durable_card_sector_sync_def Let_def)
next
  case False
  obtain w sd' res where sy: "sd_sync drv (du_world (sc_owner scope)) (sc_card scope) = (w, sd', res)"
    using prod_cases3 by blast
  have "\<exists>sc'. c' = Some sc' \<and> du_world (sc_owner sc') = w \<and> scope_frame (Some scope) (Some sc') \<and> (ok \<longrightarrow> res = 0)"
    using assms sy False
    by (auto simp: durable_card_sector_sync_def Let_def scope_frame_def scope_fault_def work_frame_def
        durable_fault_def split: if_splits)
  then show thesis using called [OF sy] by blast
qed

lemma callbacks_none [simp]:
  "durable_card_sector_read drv None l = (None, None)" "durable_card_sector_write drv None l d = (None, False)"
  "durable_card_sector_sync drv None = (None, False)"
  by (simp_all add: durable_card_sector_read_def durable_card_sector_write_def durable_card_sector_sync_def)

lemma scope_fault_frame: "scope_frame (Some scope) (scope_fault r scope)"
  by (simp add: scope_frame_def scope_fault_def)

lemma durable_io_simps [simp]:
  "dev_context (durable_io drv c) = c" "read_sector (durable_io drv c) = durable_card_sector_read drv"
  "write_sector (durable_io drv c) = durable_card_sector_write drv" "dev_sync (durable_io drv c) = durable_card_sector_sync drv"
  by (simp_all add: durable_io_def)

interpretation durable_callbacks: callback_relation "durable_io drv c" scope_frame
proof
  fix a b d :: "'a scope_context" and l :: u64 and x :: "bytes option" and data :: bytes and ok :: bool
  show "scope_frame a a" by (simp add: scope_frame_def split: option.splits)
  show "scope_frame a b \<Longrightarrow> scope_frame b d \<Longrightarrow> scope_frame a d" by (rule scope_frame_trans)
  show "read_sector (durable_io drv c) a l = (b, x) \<Longrightarrow> scope_frame a b"
    by (cases a) (auto simp: scope_frame_def [of None] elim: sector_read_cases intro: scope_fault_frame)
  show "write_sector (durable_io drv c) a l data = (b, ok) \<Longrightarrow> scope_frame a b"
    by (cases a) (auto simp: scope_frame_def [of None] elim: sector_write_cases intro: scope_fault_frame)
  show "dev_sync (durable_io drv c) a = (b, ok) \<Longrightarrow> scope_frame a b"
    by (cases a) (auto simp: scope_frame_def [of None] elim: sector_sync_cases intro: scope_fault_frame)
qed

lemma ucast_32_64: "l \<le> 0xffffffff \<Longrightarrow> ucast (ucast l :: u32) = l" for l :: u64
  by (simp add: word_unat_eq_iff unsigned_ucast_eq take_bit_nat_eq_self word_le_nat_alt unsigned_take_bit_eq)

lemma sd_medium_laws:
  assumes "sd_medium drv live crash mk"
  shows "sd_read drv w c l = (w', c', 0, d) \<Longrightarrow> d = live w (ucast l) \<and> live w' = live w"
    and "sd_read drv w c l = (w', c', r, d) \<Longrightarrow> crash w' \<subseteq> crash w"
    and "sd_write drv w c l d = (w', c', r) \<Longrightarrow> m \<in> crash w' \<Longrightarrow>
      m \<in> crash w \<or> (\<exists>m0\<in>crash w. \<exists>x. m = m0(ucast l := x) \<and> (ucast l = mk \<longrightarrow> x = d \<or> \<not> marker_crc_ok x))"
    and "sd_write drv w c l d = (w', c', 0) \<Longrightarrow> live w' = (live w)(ucast l := d)"
    and "sd_sync drv w c = (w', c', r) \<Longrightarrow> crash w' \<subseteq> crash w"
    and "sd_sync drv w c = (w', c', 0) \<Longrightarrow> live w' = live w \<and> crash w' \<subseteq> {live w}"
    and "sd_identity drv w c = (w', c', i) \<Longrightarrow> live w' = live w \<and> crash w' \<subseteq> crash w"
proof -
  note conjs = assms [unfolded sd_medium_def]
  show "sd_read drv w c l = (w', c', 0, d) \<Longrightarrow> d = live w (ucast l) \<and> live w' = live w" using conjs [THEN conjunct1] by simp
  note conjs = conjs [THEN conjunct2]
  show "sd_read drv w c l = (w', c', r, d) \<Longrightarrow> crash w' \<subseteq> crash w" using conjs [THEN conjunct1] by blast
  note conjs = conjs [THEN conjunct2]
  show "sd_write drv w c l d = (w', c', r) \<Longrightarrow> m \<in> crash w' \<Longrightarrow>
      m \<in> crash w \<or> (\<exists>m0\<in>crash w. \<exists>x. m = m0(ucast l := x) \<and> (ucast l = mk \<longrightarrow> x = d \<or> \<not> marker_crc_ok x))"
    using conjs [THEN conjunct1] by metis
  note conjs = conjs [THEN conjunct2]
  show "sd_write drv w c l d = (w', c', 0) \<Longrightarrow> live w' = (live w)(ucast l := d)" using conjs [THEN conjunct1] by blast
  note conjs = conjs [THEN conjunct2]
  show "sd_sync drv w c = (w', c', r) \<Longrightarrow> crash w' \<subseteq> crash w" using conjs [THEN conjunct1] by blast
  note conjs = conjs [THEN conjunct2]
  show "sd_sync drv w c = (w', c', 0) \<Longrightarrow> live w' = live w \<and> crash w' \<subseteq> {live w}" using conjs [THEN conjunct1] by blast
  show "sd_identity drv w c = (w', c', i) \<Longrightarrow> live w' = live w \<and> crash w' \<subseteq> crash w" using conjs [THEN conjunct2] by blast
qed

lemma scope_fault_media [simp]:
  "scope_live live (scope_fault r scope) = live (du_world (sc_owner scope))"
  "scope_crash crash (scope_fault r scope) = crash (du_world (sc_owner scope))"
  by (simp_all add: scope_fault_def)

lemma scope_read_media:
  assumes "sd_medium drv live crash mk" and "durable_card_sector_read drv c l = (c', x)"
  shows "scope_crash crash c' \<subseteq> scope_crash crash c"
    and "x = Some d \<Longrightarrow> d = scope_live live c l \<and> scope_live live c' = scope_live live c"
    and "x = Some d \<Longrightarrow> \<exists>scope. c' = Some scope \<and> du_bounce (sc_owner scope) = d"
proof -
  note laws = sd_medium_laws [OF assms(1)]
  have "scope_crash crash c' \<subseteq> scope_crash crash c \<and> (\<forall>d. x = Some d \<longrightarrow> d = scope_live live c l \<and>
      scope_live live c' = scope_live live c \<and> (\<exists>scope. c' = Some scope \<and> du_bounce (sc_owner scope) = d))"
  proof (cases c)
    case (Some scope)
    from assms(2) [unfolded Some] show ?thesis
    proof (cases rule: sector_read_cases)
      case (called w sd res d sc')
      have "ucast (ucast l :: u32) = l" using called(1) by (rule ucast_32_64)
      then show ?thesis using called laws(1) [of _ _ "ucast l" w sd] laws(2) [OF called(2)] Some by auto
    qed (simp add: Some)
  qed (use assms(2) in simp)
  then show "scope_crash crash c' \<subseteq> scope_crash crash c"
    "x = Some d \<Longrightarrow> d = scope_live live c l \<and> scope_live live c' = scope_live live c"
    "x = Some d \<Longrightarrow> \<exists>scope. c' = Some scope \<and> du_bounce (sc_owner scope) = d" by blast+
qed

lemma scope_write_media:
  assumes "sd_medium drv live crash mk" and "durable_card_sector_write drv c l d = (c', ok)"
  shows "m \<in> scope_crash crash c' \<Longrightarrow> m \<in> scope_crash crash c \<or>
      (\<exists>m0\<in>scope_crash crash c. \<exists>x. m = m0(l := x) \<and> (l = mk \<longrightarrow> x = d \<or> \<not> marker_crc_ok x))"
    and "ok \<Longrightarrow> scope_live live c' = (scope_live live c)(l := d)"
proof -
  note laws = sd_medium_laws [OF assms(1)]
  have "(\<forall>m. m \<in> scope_crash crash c' \<longrightarrow> m \<in> scope_crash crash c \<or>
      (\<exists>m0\<in>scope_crash crash c. \<exists>x. m = m0(l := x) \<and> (l = mk \<longrightarrow> x = d \<or> \<not> marker_crc_ok x))) \<and>
      (ok \<longrightarrow> scope_live live c' = (scope_live live c)(l := d))"
  proof (cases c)
    case (Some scope)
    from assms(2) [unfolded Some] show ?thesis
    proof (cases rule: sector_write_cases)
      case (called w sd sd' res sc')
      have l: "ucast (ucast l :: u32) = l" using called(1) by (rule ucast_32_64)
      have "m \<in> crash (du_world (sc_owner sc')) \<Longrightarrow> m \<in> crash (du_world (sc_owner scope)) \<or>
          (\<exists>m0\<in>crash (du_world (sc_owner scope)). \<exists>x. m = m0(l := x) \<and> (l = mk \<longrightarrow> x = d \<or> \<not> marker_crc_ok x))" for m
        using laws(3) [OF called(2), of m] unfolding called(4) l .
      moreover have "ok \<Longrightarrow> live (du_world (sc_owner sc')) = (live (du_world (sc_owner scope)))(l := d)"
        using laws(4) [of _ sd "ucast l" d w sd'] called(2,4,6) unfolding l by blast
      ultimately show ?thesis unfolding Some called(3) scope_simps by blast
    qed (simp add: Some)
  qed (use assms(2) in simp)
  then show "m \<in> scope_crash crash c' \<Longrightarrow> m \<in> scope_crash crash c \<or>
      (\<exists>m0\<in>scope_crash crash c. \<exists>x. m = m0(l := x) \<and> (l = mk \<longrightarrow> x = d \<or> \<not> marker_crc_ok x))"
    "ok \<Longrightarrow> scope_live live c' = (scope_live live c)(l := d)" by blast+
qed

lemma scope_sync_media:
  assumes "sd_medium drv live crash mk" and "durable_card_sector_sync drv c = (c', ok)"
  shows "scope_crash crash c' \<subseteq> scope_crash crash c"
    and "ok \<Longrightarrow> scope_live live c' = scope_live live c \<and> scope_crash crash c' \<subseteq> {scope_live live c}"
proof -
  note laws = sd_medium_laws [OF assms(1)]
  have "scope_crash crash c' \<subseteq> scope_crash crash c \<and>
      (ok \<longrightarrow> scope_live live c' = scope_live live c \<and> scope_crash crash c' \<subseteq> {scope_live live c})"
  proof (cases c)
    case (Some scope)
    from assms(2) [unfolded Some] show ?thesis
    proof (cases rule: sector_sync_cases)
      case (called w sd' res sc')
      then show ?thesis using laws(5) [OF called(1)] laws(6) [of _ "sc_card scope" w sd'] Some by auto
    qed (simp add: Some)
  qed (use assms(2) in simp)
  then show "scope_crash crash c' \<subseteq> scope_crash crash c"
    "ok \<Longrightarrow> scope_live live c' = scope_live live c \<and> scope_crash crash c' \<subseteq> {scope_live live c}" by blast+
qed

text \<open>On the scope, the driver is a sector device in the sense of the store.\<close>

lemma scope_device:
  assumes "sd_medium drv live crash mk"
  shows "sector_device (durable_io drv ctx) (scope_live live) (scope_crash crash) mk"
  unfolding sector_device_def durable_io_simps
  by (intro conjI allI impI)
    (fact scope_read_media(2) [OF assms _ refl, THEN conjunct1] scope_read_media(2) [OF assms _ refl, THEN conjunct2]
      scope_read_media(1) [OF assms] scope_write_media(1) [OF assms] scope_write_media(2) [OF assms _ TrueI]
      scope_sync_media(1) [OF assms] scope_sync_media(2) [OF assms _ TrueI, THEN conjunct1]
      scope_sync_media(2) [OF assms _ TrueI, THEN conjunct2])+

section \<open>The transaction\<close>

definition durable_model :: "'w sd_driver \<Rightarrow> 'w durable_work \<Rightarrow> 'w scoped_store" where
  "durable_model drv w = configured (durable_io drv None) (durable_config w)"

text \<open>The medium holds the card \<open>img\<close> and nothing is pending.\<close>

definition medium_at ::
    "('w \<Rightarrow> u64 \<Rightarrow> bytes) \<Rightarrow> ('w \<Rightarrow> (u64 \<Rightarrow> bytes) set) \<Rightarrow> 'w scoped_store \<Rightarrow> 'w \<Rightarrow> (nat \<Rightarrow> bytes) \<Rightarrow> bool" where
  "medium_at live crash K world img =
     (crash world \<subseteq> {live world} \<and> recoverable K (live world) \<and> card_view K (live world) = img)"

definition store_open :: "('w \<Rightarrow> u64 \<Rightarrow> bytes) \<Rightarrow> 'w scoped_store \<Rightarrow> 'w scoped_store \<Rightarrow> 'w \<Rightarrow> (nat \<Rightarrow> bytes) \<Rightarrow> bool" where
  "store_open live K st world img =
     (same_store K st \<and> st_ready st \<and> (\<forall>b<256. live world (block_lba K b) = img b))"

text \<open>What a power loss may leave.\<close>

definition survives :: "('w \<Rightarrow> (u64 \<Rightarrow> bytes) set) \<Rightarrow> 'w scoped_store \<Rightarrow> 'w \<Rightarrow> (nat \<Rightarrow> bytes) set \<Rightarrow> bool" where
  "survives crash K world imgs = (\<forall>m\<in>crash world. recoverable K m \<and> card_view K m \<in> imgs)"

definition durable_setup :: "'w sd_driver \<Rightarrow> 'w durable_work \<Rightarrow> u64 \<Rightarrow> bool" where
  "durable_setup drv w mk =
     (maps_valid (durable_config w) \<and> length (ho_image_id (du_handoff w)) = 16 \<and> mk = marker_lba (durable_model drv w))"

lemma durable_model_fields:
  "st_journal (durable_model drv w) = journal_extents (durable_config w)" "st_io (durable_model drv w) = durable_io drv None"
  "cfg_image_id (durable_config w) = ho_image_id (du_handoff w)"
  by (simp_all add: durable_model_def configured_def durable_config_def Let_def)

lemma survives_mono: "survives crash K w A \<Longrightarrow> A \<subseteq> B \<Longrightarrow> survives crash K w B"
  by (auto simp: survives_def)

lemma survives_subset: "survives crash K w A \<Longrightarrow> crash w' \<subseteq> crash w \<Longrightarrow> survives crash K w' A"
  by (auto simp: survives_def)

lemma medium_survives: "medium_at live crash K w img \<Longrightarrow> survives crash K w {img}"
  by (auto simp: medium_at_def survives_def)

lemma medium_steady: "medium_at live crash K w img \<Longrightarrow> steady live crash w w' \<Longrightarrow> medium_at live crash K w' img"
  by (auto simp: medium_at_def steady_def)

lemma store_open_steady: "store_open live K st w img \<Longrightarrow> steady live crash w w' \<Longrightarrow> store_open live K st w' img"
  by (simp add: store_open_def steady_def)

text \<open>During a transaction the context is a scope whose owner is the work record up to the fields of the callbacks.\<close>

definition entered :: "'w durable_work \<Rightarrow> 'w scoped_store \<Rightarrow> bool" where
  "entered w st = (store_context st \<noteq> None \<and> work_frame w (store_owner st))"

definition in_store ::
    "'w sd_driver \<Rightarrow> ('w \<Rightarrow> u64 \<Rightarrow> bytes) \<Rightarrow> ('w \<Rightarrow> (u64 \<Rightarrow> bytes) set) \<Rightarrow> 'w durable_work \<Rightarrow> 'w scoped_store \<Rightarrow> (nat \<Rightarrow> bytes) \<Rightarrow> bool" where
  "in_store drv live crash w st img =
     (entered w st \<and> same_store (durable_model drv w) st \<and> store_at (scope_live live) (scope_crash crash) st img)"

lemma entered_context: "entered w st \<Longrightarrow> \<exists>scope. store_context st = Some scope \<and> store_owner st = sc_owner scope"
  by (auto simp: entered_def store_owner_def)

lemma on_owner_simps:
  assumes "entered w st"
  shows "store_owner (on_owner f st) = f (store_owner st)" and "store_context (on_owner f st) \<noteq> None"
  using entered_context [OF assms] by (auto simp: on_owner_def on_scope_def store_owner_def)

lemma store_at_context:
  assumes "live c = live (store_context st)" and "crash c = crash (store_context st)"
  shows "store_at live crash (set_context st c) img = store_at live crash st img"
proof -
  have "same_store st (set_context st c)" by (simp add: same_store_def)
  then show ?thesis using assms same_store_lbas [of st "set_context st c"] by (simp add: store_at_def)
qed

lemma same_store_context [simp]: "same_store K (set_context st c) = same_store K st"
  by (simp add: same_store_def)

lemma in_store_owner:
  assumes "in_store drv live crash w st img"
    and "\<And>v. du_world (f v) = du_world v" and "\<And>v. work_frame w v \<Longrightarrow> work_frame w (f v)"
  shows "in_store drv live crash w (on_owner f st) img"
proof -
  have en: "entered w st" and at: "store_at (scope_live live) (scope_crash crash) st img"
    and same: "same_store (durable_model drv w) st" using assms(1) by (simp_all add: in_store_def)
  obtain scope where sc: "store_context st = Some scope" "store_owner st = sc_owner scope" using entered_context [OF en] by blast
  have "entered w (on_owner f st)"
    using en on_owner_simps [OF en, of f] assms(3) by (simp add: entered_def)
  moreover have "store_at (scope_live live) (scope_crash crash) (on_owner f st) img"
    unfolding on_owner_def on_scope_def using at by (subst store_at_context) (simp_all add: sc assms(2))
  ultimately show ?thesis using same by (simp add: in_store_def on_owner_def on_scope_def)
qed

text \<open>A store at rest on the scope is a medium at rest with the store open, and conversely.\<close>

lemma in_store_rest:
  assumes "in_store drv live crash w st img"
  shows "medium_at live crash (durable_model drv w) (du_world (store_owner st)) img"
    and "store_open live (durable_model drv w) st (du_world (store_owner st)) img"
proof -
  have en: "entered w st" and at: "store_at (scope_live live) (scope_crash crash) st img"
    and same: "same_store (durable_model drv w) st" using assms by (simp_all add: in_store_def)
  obtain scope where sc: "store_context st = Some scope" "store_owner st = sc_owner scope" using entered_context [OF en] by blast
  note lbas = same_store_lbas [OF same]
  show "medium_at live crash (durable_model drv w) (du_world (store_owner st)) img"
    using at sc lbas by (simp add: store_at_def medium_at_def)
  show "store_open live (durable_model drv w) st (du_world (store_owner st)) img"
    using at sc lbas same by (simp add: store_at_def store_open_def)
qed

lemma rest_in_store:
  assumes "sd_medium drv live crash mk" and "durable_setup drv w mk" and "medium_at live crash (durable_model drv w) (du_world w) img"
    and "store_open live (durable_model drv w) st (du_world w) img"
  shows "in_store drv live crash w (set_context st (Some \<lparr>sc_owner = w, sc_card = sd, sc_binding = b\<rparr>)) img"
proof -
  have same: "same_store (durable_model drv w) st" and ready: "st_ready st"
    and live: "\<forall>b<256. live (du_world w) (block_lba (durable_model drv w) b) = img b"
    using assms(4) by (simp_all add: store_open_def)
  let ?st = "set_context st (Some \<lparr>sc_owner = w, sc_card = sd, sc_binding = b\<rparr>)"
  have same': "same_store (durable_model drv w) ?st" using same by simp
  note lbas = same_store_lbas [OF same']
  have "sector_device (st_io (durable_model drv w)) (scope_live live) (scope_crash crash) mk"
    unfolding durable_model_fields by (rule scope_device [OF assms(1)])
  then have dev: "sector_device (st_io ?st) (scope_live live) (scope_crash crash) (marker_lba ?st)"
    using lbas assms(2) by (simp add: durable_setup_def)
  have geo: "store_geometry ?st"
    using configured_geometry [of "durable_config w" "durable_io drv None"] assms(2) lbas durable_model_fields(3) [of w]
    by (simp add: durable_setup_def durable_model_def)
  have "store_at (scope_live live) (scope_crash crash) ?st img"
    using dev geo ready live assms(3) lbas by (simp add: store_at_def medium_at_def)
  then show ?thesis using same by (simp add: in_store_def entered_def store_owner_def)
qed

text \<open>The steps of the transaction.\<close>

definition step_result ::
    "'w sd_driver \<Rightarrow> ('w \<Rightarrow> u64 \<Rightarrow> bytes) \<Rightarrow> ('w \<Rightarrow> (u64 \<Rightarrow> bytes) set) \<Rightarrow> 'w durable_work \<Rightarrow> (nat \<Rightarrow> bytes) set \<Rightarrow> (nat \<Rightarrow> bytes)
     \<Rightarrow> 'w scoped_store \<Rightarrow> vmu_store_result \<Rightarrow> bool" where
  "step_result drv live crash w imgs img st r =
     (entered w st \<and> survives crash (durable_model drv w) (du_world (store_owner st)) imgs \<and>
      (r = Store_OK \<longrightarrow> in_store drv live crash w st img))"

lemma entered_owner:
  "entered w st \<Longrightarrow> work_frame w (f (store_owner st)) \<Longrightarrow> entered w (on_owner f st)"
  using on_owner_simps [of w st f] by (simp add: entered_def)

lemma step_result_noted:
  assumes "step_result drv live crash w imgs img st r"
  shows "step_result drv live crash w imgs img (on_owner (\<lambda>s. s\<lparr>last_store_result := q\<rparr>) st) r"
proof -
  have en: "entered w st" using assms by (simp add: step_result_def)
  have "work_frame w ((store_owner st)\<lparr>last_store_result := q\<rparr>)" using en by (simp add: entered_def work_frame_def)
  then show ?thesis
    using assms entered_owner [OF en, of "\<lambda>s. s\<lparr>last_store_result := q\<rparr>"] on_owner_simps(1) [OF en]
      in_store_owner [of drv live crash w st img "\<lambda>s. s\<lparr>last_store_result := q\<rparr>"]
    by (simp add: step_result_def work_frame_def)
qed

lemma scope_frame_entered:
  assumes "scope_frame c (store_context st)" and "c = Some scope" and "work_frame w (sc_owner scope)"
  shows "entered w st"
  using assms work_frame_trans by (fastforce simp: scope_frame_def entered_def store_owner_def split: option.splits)

lemma outcome_survives:
  assumes "outcome (scope_crash crash) st imgs" and "same_store K st" and "entered w st"
  shows "survives crash K (du_world (store_owner st)) imgs"
  using assms(1) entered_context [OF assms(3)] unfolding outcome_same [OF assms(2)] survives_def by auto

lemma in_store_moves:
  assumes "in_store drv live crash w st img" and "durable_callbacks.moves drv ctx st st'"
  shows "entered w st'"
proof -
  have en: "entered w st" using assms(1) by (simp add: in_store_def)
  then obtain scope where "store_context st = Some scope" "store_owner st = sc_owner scope" using entered_context by blast
  then show ?thesis
    using assms(2) en scope_frame_entered [of "store_context st" st' scope w] by (simp add: durable_callbacks.moves_def entered_def)
qed

lemma in_store_over: "in_store drv live crash w st img \<Longrightarrow> durable_callbacks.over drv ctx st"
  using durable_model_fields(2) [of drv w]
  by (simp add: in_store_def same_store_def durable_callbacks.over_def)

lemma bind_step:
  assumes "sd_medium drv live crash mk" and "durable_setup drv w mk" and "medium_at live crash (durable_model drv w) (du_world w) img"
    and "bind_store drv \<lparr>sc_owner = w, sc_card = sd, sc_binding = b\<rparr> = (st, r)"
  shows "step_result drv live crash w {img} img st r \<and> (r = Store_OK \<longrightarrow> du_bound_candidate (store_owner st))"
proof -
  let ?scope = "\<lparr>sc_owner = w, sc_card = sd, sc_binding = b\<rparr>" and ?K = "durable_model drv w"
  let ?io = "durable_io drv (Some ?scope)" and ?cfg = "durable_config w"
  obtain st0 where op: "kui_vmu_store_open ?io ?cfg = (st0, r)"
    and st: "st = (let st = on_owner (\<lambda>s. s\<lparr>last_store_result := r\<rparr>) st0 in
        if r \<noteq> Store_OK then st
        else on_scope (\<lambda>sc. sc\<lparr>sc_binding := False, sc_owner := (sc_owner sc)\<lparr>du_bound_candidate := True\<rparr>\<rparr>) st)"
    using assms(4) by (auto simp: bind_store_def Let_def split: prod.splits if_splits)
  have valid: "maps_valid ?cfg" "length (cfg_image_id ?cfg) = 16"
    and mk: "mk = sector_lba (journal_extents ?cfg) 1"
    using assms(2) by (simp_all add: durable_setup_def durable_model_fields)
  have up: "powered_up ?io ?cfg (scope_live live) (scope_crash crash) (live (du_world w))"
    using scope_device [OF assms(1)] assms(3) by (simp add: powered_up_def mk medium_at_def)
  note media = same_config_media [OF configured_same_config [of ?io ?cfg "durable_io drv None"]]
  have K: "recoverable (configured ?io ?cfg) = recoverable ?K" "card_view (configured ?io ?cfg) = card_view ?K"
    using media by (simp_all add: durable_model_def)
  have same_K: "same_store ?K (configured ?io ?cfg)"
    by (simp add: same_store_def durable_model_def configured_def Let_def map_crc_def)
  have "recoverable (configured ?io ?cfg) (live (du_world w))" using assms(3) by (simp add: K medium_at_def)
  note op = open_sound [OF valid up this op] durable_callbacks.store_open_moves [OF op]
  have img: "card_view ?K (live (du_world w)) = img" using assms(3) by (simp add: medium_at_def)
  have same: "same_store ?K st0" using same_store_trans [OF same_K] op(1) by blast
  have "scope_frame (Some ?scope) (store_context st0)" using op(2) by simp
  then have en: "entered w st0" using scope_frame_entered [of "Some ?scope" st0 ?scope w] by simp
  have "step_result drv live crash w {img} img st0 r"
    using op(1) outcome_survives [OF _ same en] same en by (auto simp: step_result_def in_store_def K img)
  note noted = step_result_noted [OF this, of r]
  show ?thesis
  proof (cases "r = Store_OK")
    case False
    then show ?thesis using noted by (simp add: st)
  next
    case True
    let ?st1 = "on_owner (\<lambda>s. s\<lparr>last_store_result := r\<rparr>) st0"
    have en1: "entered w ?st1" and in1: "in_store drv live crash w ?st1 img"
      using noted True by (simp_all add: step_result_def)
    have st2: "st = on_scope (\<lambda>sc. sc\<lparr>sc_binding := False, sc_owner := (sc_owner sc)\<lparr>du_bound_candidate := True\<rparr>\<rparr>) ?st1"
      using True by (simp add: st)
    obtain sc where sc: "store_context ?st1 = Some sc" "store_owner ?st1 = sc_owner sc" using entered_context [OF en1] by blast
    have owner: "store_owner st = (sc_owner sc)\<lparr>du_bound_candidate := True\<rparr>" "store_context st \<noteq> None"
      using sc by (simp_all add: st2 on_scope_def store_owner_def)
    have "entered w st" using en1 sc owner by (simp add: entered_def work_frame_def)
    moreover have "store_at (scope_live live) (scope_crash crash) st img"
      unfolding st2 on_scope_def using in1 sc by (subst store_at_context) (simp_all add: in_store_def)
    moreover have "same_store ?K st" using in1 by (simp add: in_store_def st2 on_scope_def)
    ultimately have "in_store drv live crash w st img" by (simp add: in_store_def)
    moreover have "survives crash ?K (du_world (store_owner st)) {img}"
      using noted sc owner by (simp add: step_result_def)
    ultimately show ?thesis using owner by (simp add: step_result_def in_store_def)
  qed
qed

lemma in_store_survives: "in_store drv live crash w st img \<Longrightarrow> survives crash (durable_model drv w) (du_world (store_owner st)) {img}"
  by (rule medium_survives [OF in_store_rest(1)])

lemma write_sync_data: "write_sync s l d = (t, r) \<Longrightarrow> st_data t = st_data s"
  by (auto simp: write_sync_def io_error_def split: prod.splits if_splits)

lemma store_write_data: "kui_vmu_store_write s b d = (t, Store_OK) \<Longrightarrow> st_data t = d"
  by (auto simp: kui_vmu_store_write_def Let_def dest!: write_sync_data split: prod.splits if_splits)

lemma write_step:
  assumes "in_store drv live crash w st img" and "du_block w < 256" and "write_store data st = (st', r)"
  defines "img' \<equiv> (if du_operation w = Durable_Write then img(du_block w := data) else img)"
  shows "step_result drv live crash w {img, img'} img' st' r \<and>
    (du_bound_candidate (store_owner st) \<longrightarrow> du_bound_candidate (store_owner st')) \<and>
    (r = Store_OK \<and> du_operation w = Durable_Write \<longrightarrow> st_data st' = data)"
proof -
  have en: "entered w st" and same: "same_store (durable_model drv w) st"
    and at: "store_at (scope_live live) (scope_crash crash) st img" using assms(1) by (simp_all add: in_store_def)
  have owner: "du_operation (store_owner st) = du_operation w" "du_block (store_owner st) = du_block w"
    using en by (simp_all add: entered_def work_frame_def)
  show ?thesis
  proof (cases "du_operation w = Durable_Write")
    case False
    then have "st' = st" "img' = img" using assms(3) by (simp_all add: write_store_def owner img'_def)
    then show ?thesis
      using False assms(1) in_store_survives [OF assms(1)] by (auto simp: step_result_def en)
  next
    case True
    obtain t where wr: "kui_vmu_store_write st (du_block w) data = (t, r)"
      and st': "st' = on_owner (\<lambda>s. s\<lparr>last_store_result := r\<rparr>) t"
      using assms(3) True by (auto simp: write_store_def owner split: prod.splits)
    have img': "img' = img(du_block w := data)" by (simp add: img'_def True)
    note res = store_write_sound [OF at assms(2) wr, unfolded write_result_def]
    have mv: "durable_callbacks.moves drv None st t"
      using durable_callbacks.store_write_moves [OF in_store_over [OF assms(1)] wr] .
    have en_t: "entered w t" by (rule in_store_moves [OF assms(1) mv])
    have same_t: "same_store (durable_model drv w) t" using same_store_trans [OF same] res by blast
    have "step_result drv live crash w {img, img'} img' t r"
      using res outcome_survives [OF _ same_t en_t] same_t en_t by (auto simp: step_result_def in_store_def img')
    moreover obtain sc where sc: "store_context st = Some sc" "store_owner st = sc_owner sc" using entered_context [OF en] by blast
    moreover have "du_bound_candidate (store_owner st) \<longrightarrow> du_bound_candidate (store_owner t)"
      using mv sc by (auto simp: durable_callbacks.moves_def scope_frame_def work_frame_def store_owner_def split: option.splits)
    moreover have "r = Store_OK \<longrightarrow> st_data t = data" using store_write_data wr by blast
    ultimately show ?thesis
      using step_result_noted [of drv live crash w "{img, img'}" img' t r r] on_owner_simps(1) [OF en_t]
      by (simp add: st' on_owner_def on_scope_def)
  qed
qed

lemma read_step:
  assumes "sd_medium drv live crash mk" and "in_store drv live crash w st img" and "du_block w < 256" and "read_store st = (st', r)"
  shows "step_result drv live crash w {img} img st' r \<and>
    (du_bound_candidate (store_owner st) \<longrightarrow> du_bound_candidate (store_owner st')) \<and> st_data st' = st_data st \<and>
    (r = Store_OK \<longrightarrow> du_bounce (store_owner st') = img (du_block w))"
proof -
  have en: "entered w st" and same: "same_store (durable_model drv w) st"
    and at: "store_at (scope_live live) (scope_crash crash) st img" using assms(2) by (simp_all add: in_store_def)
  have owner: "du_block (store_owner st) = du_block w" using en by (simp add: entered_def work_frame_def)
  obtain t d where rd: "kui_vmu_store_read st (du_block w) = (t, r, d)"
    and st': "st' = on_owner (\<lambda>s. s\<lparr>last_store_result := r\<rparr>) t"
    using assms(4) by (auto simp: read_store_def owner split: prod.splits)
  have mv: "durable_callbacks.moves drv None st t"
    using durable_callbacks.store_read_moves [OF in_store_over [OF assms(2)] rd] .
  have en_t: "entered w t" by (rule in_store_moves [OF assms(2) mv])
  obtain u x where sect: "store_read_sector st (block_lba st (du_block w)) = (u, x)" by fastforce
  have ready: "st_ready st" and dev: "sector_device (st_io st) (scope_live live) (scope_crash crash) (marker_lba st)"
    using at by (simp_all add: store_at_def)
  have t: "t = (if x = None then u\<lparr>st_ready := False\<rparr> else u)" "r = (if x = None then Store_IO else Store_OK)" "d = x"
    using rd sect assms(3) ready by (auto simp: kui_vmu_store_read_def io_error_def split: option.splits)
  note step = store_read_sector_step [OF dev sect]
  have same_t: "same_store st t" using step(1) by (auto simp: t same_store_def)
  have sK: "same_store (durable_model drv w) t" by (rule same_store_trans [OF same same_t])
  have "outcome (scope_crash crash) t {img}"
  proof -
    have q: "scope_crash crash (store_context t) \<subseteq> {scope_live live (store_context st)}"
      using step(2) at by (auto simp: t store_at_def)
    show ?thesis
      using outcome_subset [where crash = "scope_crash crash", OF same_t, OF q] at by (simp add: store_at_def)
  qed
  then have surv: "survives crash (durable_model drv w) (du_world (store_owner t)) {img}" by (rule outcome_survives [OF _ sK en_t])
  have ok: "in_store drv live crash w t img \<and> du_bounce (store_owner t) = img (du_block w)" if fine: "r = Store_OK"
  proof -
    obtain y where y: "x = Some y" using fine t(2) by (cases x) auto
    have l: "y = scope_live live (store_context st) (block_lba st (du_block w))"
      "scope_live live (store_context u) = scope_live live (store_context st)" using step(4) [OF y] by simp_all
    have "store_at (scope_live live) (scope_crash crash) t img"
      using at step(2,3) l(2) same_store_lbas [OF same_t] y by (auto simp: t store_at_def)
    moreover obtain c where cb: "durable_card_sector_read drv (store_context st) (block_lba st (du_block w)) = (c, Some y)"
      and u: "u = set_context st c"
      using sect y in_store_over [OF assms(2)] by (auto simp: store_read_sector_def durable_callbacks.over_def split: prod.splits)
    have "du_bounce (store_owner t) = y"
      using scope_read_media(3) [OF assms(1) cb refl] y by (auto simp: t u store_owner_def)
    moreover have "y = img (du_block w)" using l(1) at assms(3) by (simp add: store_at_def)
    ultimately show ?thesis using sK en_t by (simp add: in_store_def)
  qed
  obtain sc where sc: "store_context st = Some sc" "store_owner st = sc_owner sc" using entered_context [OF en] by blast
  have cand: "du_bound_candidate (store_owner st) \<longrightarrow> du_bound_candidate (store_owner t)"
    using mv sc by (auto simp: durable_callbacks.moves_def scope_frame_def work_frame_def store_owner_def split: option.splits)
  have data: "st_data t = st_data st" using step(5) by (simp add: t)
  have "step_result drv live crash w {img} img t r" using surv en_t ok by (simp add: step_result_def)
  then show ?thesis
    using step_result_noted [of drv live crash w "{img}" img t r r] on_owner_simps(1) [OF en_t] ok cand data
    by (simp add: st' on_owner_def on_scope_def)
qed

text \<open>What a transaction on the work record \<open>w\<close> may leave: \<open>imgs\<close> are the cards a power loss can show, \<open>img\<close> is the card of success.\<close>

definition transacted ::
    "'w sd_driver \<Rightarrow> ('w \<Rightarrow> u64 \<Rightarrow> bytes) \<Rightarrow> ('w \<Rightarrow> (u64 \<Rightarrow> bytes) set) \<Rightarrow> 'w durable_work \<Rightarrow> (nat \<Rightarrow> bytes) set \<Rightarrow> (nat \<Rightarrow> bytes)
     \<Rightarrow> 'w vmu_durable \<Rightarrow> bool \<Rightarrow> bool" where
  "transacted drv live crash w imgs img s ok =
     (work_frame w (du_work s) \<and> survives crash (durable_model drv w) (durable_world s) imgs \<and>
      (\<not> ok \<longrightarrow> du_faulted (du_work s)) \<and>
      (ok \<longrightarrow> (du_bound w \<or> du_bound_candidate (du_work s)) \<and> medium_at live crash (durable_model drv w) (durable_world s) img \<and>
         store_open live (durable_model drv w) (du_store s) (durable_world s) img \<and>
         du_bounce (du_work s) = img (du_block w) \<and> du_pending_crc (du_work s) = kui_retail_crc32 0 (img (du_block w))))"

lemma durable_card_fault_simps [simp]:
  "du_work (durable_card_fault r s) = durable_fault r (du_work s)" "du_protocol (durable_card_fault r s) = du_protocol s"
  by (simp_all add: durable_card_fault_def)

lemma leave_store_simps [simp]:
  "du_work (leave_store s st) = store_owner st" "du_store (leave_store s st) = set_context st None"
  "du_protocol (leave_store s st) = du_protocol s"
  by (simp_all add: leave_store_def)

lemma transaction_failed_result:
  assumes "entered w (st :: 'w scoped_store)" and "survives crash (durable_model drv w) (du_world (store_owner st)) imgs"
    and "transaction_failed s loan = (s', loan', ok)" and "du_work s = f (store_owner st)"
    and "f = (\<lambda>v. v) \<or> f = durable_fault SD_Crc"
  shows "transacted drv live crash w imgs img s' ok \<and> du_protocol s' = du_protocol s"
  using assms by (auto simp: transaction_failed_def transacted_def entered_def split: if_splits)

lemma verify_result:
  assumes "in_store drv live crash w st img" and "verify_store s st loan = (s', loan', ok)"
    and "du_bounce (store_owner st) = img (du_block w)" and "du_bound w \<or> du_bound_candidate (store_owner st)"
  shows "transacted drv live crash w {img} img s' ok \<and> du_protocol s' = du_protocol s"
proof -
  define v where "v = (store_owner st)\<lparr>du_crc_actual := kui_retail_crc32 0 (du_bounce (store_owner st))\<rparr>"
  let ?st = "on_owner (\<lambda>s. s\<lparr>du_crc_actual := kui_retail_crc32 0 (du_bounce s)\<rparr>) st"
  have in1: "in_store drv live crash w ?st img"
    using assms(1) by (rule in_store_owner) (simp_all add: work_frame_def)
  have en: "entered w st" and en1: "entered w ?st" using assms(1) in1 by (simp_all add: in_store_def)
  have owner: "store_owner ?st = v" using on_owner_simps(1) [OF en] by (simp add: v_def)
  note surv = in_store_survives [OF in1]
  note run = assms(2) [unfolded verify_store_def Let_def owner]
  show ?thesis
  proof (cases "if du_operation v = Durable_Write then du_bounce v \<noteq> st_data ?st else du_crc_actual v \<noteq> du_crc_expected v")
    case True
    have fail: "transaction_failed (durable_card_fault SD_Crc (leave_store s ?st)) loan = (s', loan', ok)"
      by (rule run [unfolded if_P [OF True]])
    show ?thesis using transaction_failed_result [OF en1 surv fail, of "durable_fault SD_Crc"] by simp
  next
    case False
    let ?st2 = "on_owner (\<lambda>s. s\<lparr>du_pending_crc := du_crc_actual s, du_verified := True\<rparr>) ?st"
    have in2: "in_store drv live crash w ?st2 img"
      using in1 by (rule in_store_owner) (simp_all add: work_frame_def)
    have owner2: "store_owner ?st2 = v\<lparr>du_pending_crc := du_crc_actual v, du_verified := True\<rparr>"
      using on_owner_simps(1) [OF en1] by (simp add: owner)
    have s': "s' = leave_store s ?st2" "ok" using run [unfolded if_not_P [OF False]] by auto
    have "work_frame w (store_owner ?st2)" using in2 by (simp add: in_store_def entered_def)
    moreover have "store_open live (durable_model drv w) (set_context ?st2 None) (du_world (store_owner ?st2)) img"
      using in_store_rest(2) [OF in2] by (simp add: store_open_def)
    ultimately show ?thesis
      using in_store_rest(1) [OF in2] in_store_survives [OF in2] assms(3,4) s'
      by (simp add: transacted_def owner2) (simp add: v_def)
  qed
qed

lemma transacted_mono: "transacted drv live crash w A img s ok \<Longrightarrow> A \<subseteq> B \<Longrightarrow> transacted drv live crash w B img s ok"
  using survives_mono [of crash _ _ A B] unfolding transacted_def by blast

lemma store_transaction_result:
  fixes s :: "'w vmu_durable"
  assumes "sd_medium drv live crash mk" and "durable_setup drv w mk" and "medium_at live crash (durable_model drv w) (du_world w) img"
    and "du_bound w \<longrightarrow> store_open live (durable_model drv w) (du_store s) (du_world w) img" and "du_block w < 256" and "w = du_work s"
    and "store_transaction drv s loan = (s', loan', ok)"
  defines "img' \<equiv> (if du_operation w = Durable_Write then img(du_block w := staged (du_protocol s)) else img)"
  shows "transacted drv live crash w {img, img'} img' s' ok \<and> du_protocol s' = du_protocol s"
proof -
  let ?sd = "if du_operation w = Durable_Write then loan\<lparr>loan_transfer_block := False\<rparr> else loan"
  let ?scope = "\<lparr>sc_owner = w, sc_card = ?sd, sc_binding = \<not> du_bound w\<rparr>"
  obtain st1 r1 where b: "(if \<not> du_bound w then bind_store drv ?scope else (set_context (du_store s) (Some ?scope), Store_OK)) = (st1, r1)"
    by fastforce
  obtain st2 r2 where wr: "write_store (staged (du_protocol s)) st1 = (st2, r2)" by fastforce
  obtain st3 r3 where rd: "read_store st2 = (st3, r3)" by fastforce
  have run: "(s', loan', ok) = (if r1 \<noteq> Store_OK then transaction_failed (leave_store s st1) loan
    else if r2 \<noteq> Store_OK then transaction_failed (leave_store s st2) loan
    else if r3 \<noteq> Store_OK then transaction_failed (leave_store s st3) loan else verify_store s st3 loan)"
    using assms(7) unfolding store_transaction_def Let_def assms(6) [symmetric] durable_scope.simps b wr rd prod.case by simp
  have one: "step_result drv live crash w {img} img st1 r1 \<and> (r1 = Store_OK \<longrightarrow> du_bound w \<or> du_bound_candidate (store_owner st1))"
  proof (cases "du_bound w")
    case False
    then show ?thesis using bind_step [OF assms(1-3)] b by simp
  next
    case True
    then have st1: "st1 = set_context (du_store s) (Some ?scope)" using b by simp
    have in1: "in_store drv live crash w st1 img"
      unfolding st1 using rest_in_store [OF assms(1-3)] assms(4) True by blast
    then have "entered w st1" by (simp add: in_store_def)
    then show ?thesis using True in1 in_store_survives [OF in1] by (simp add: step_result_def)
  qed
  show ?thesis
  proof (cases "r1 = Store_OK")
    case False
    then have fail: "transaction_failed (leave_store s st1) loan = (s', loan', ok)" using run by simp
    have "entered w st1" "survives crash (durable_model drv w) (du_world (store_owner st1)) {img, img'}"
      using one survives_mono by (fastforce simp: step_result_def)+
    from transaction_failed_result [OF this fail, of "\<lambda>v. v"] show ?thesis by simp
  next
    case ok1: True
    have in1: "in_store drv live crash w st1 img" using one ok1 by (simp add: step_result_def)
    note two = write_step [OF in1 assms(5) wr, folded img'_def]
    show ?thesis
    proof (cases "r2 = Store_OK")
      case False
      then have fail: "transaction_failed (leave_store s st2) loan = (s', loan', ok)" using run ok1 by simp
      have "entered w st2" "survives crash (durable_model drv w) (du_world (store_owner st2)) {img, img'}"
        using two by (simp_all add: step_result_def)
      from transaction_failed_result [OF this fail, of "\<lambda>v. v"] show ?thesis by simp
    next
      case ok2: True
      have in2: "in_store drv live crash w st2 img'" using two ok2 by (simp add: step_result_def)
      note three = read_step [OF assms(1) in2 assms(5) rd]
      show ?thesis
      proof (cases "r3 = Store_OK")
        case False
        then have fail: "transaction_failed (leave_store s st3) loan = (s', loan', ok)" using run ok1 ok2 by simp
        have "entered w st3" "survives crash (durable_model drv w) (du_world (store_owner st3)) {img, img'}"
          using three survives_mono by (fastforce simp: step_result_def)+
        from transaction_failed_result [OF this fail, of "\<lambda>v. v"] show ?thesis by simp
      next
        case True
        have in3: "in_store drv live crash w st3 img'" using three True by (simp add: step_result_def)
        have "verify_store s st3 loan = (s', loan', ok)" using run ok1 ok2 True by simp
        from verify_result [OF in3 this] show ?thesis
          using three two one ok1 True transacted_mono by blast
      qed
    qed
  qed
qed

lemma durable_config_cong:
  "du_handoff v = du_handoff w \<Longrightarrow> du_maps v = du_maps w \<Longrightarrow> durable_config v = durable_config w"
  by (simp add: durable_config_def)

lemma durable_model_cong:
  "du_handoff v = du_handoff w \<Longrightarrow> du_maps v = du_maps w \<Longrightarrow> durable_model drv v = durable_model drv w"
  using durable_config_cong [of v w] by (simp add: durable_model_def)

lemma durable_setup_cong:
  "du_handoff v = du_handoff w \<Longrightarrow> du_maps v = du_maps w \<Longrightarrow> durable_setup drv v mk = durable_setup drv w mk"
  using durable_config_cong [of v w] durable_model_cong [of v w drv] by (simp add: durable_setup_def)

lemma refused_result:
  assumes "work_frame w v" and "survives crash (durable_model drv w) (du_world v) imgs" and "s = durable_card_fault r t" and "du_work t = v"
  shows "transacted drv live crash w imgs img s False"
  using assms by (simp add: transacted_def)

lemma transacted_invoked:
  assumes "transacted drv live crash w imgs img s ok" and "w = (u\<lparr>du_invoked := i, du_cid_checks := n, du_world := x\<rparr>)"
  shows "transacted drv live crash (u\<lparr>du_invoked := i\<rparr>) imgs img s ok"
proof -
  have "durable_model drv w = durable_model drv (u\<lparr>du_invoked := i\<rparr>)"
    using assms(2) by (intro durable_model_cong) simp_all
  moreover have "work_frame w v = work_frame (u\<lparr>du_invoked := i\<rparr>) v" for v
    by (simp add: assms(2) work_frame_def)
  ultimately show ?thesis using assms by (simp add: transacted_def)
qed

lemma transaction_result:
  fixes s :: "'w vmu_durable"
  assumes "sd_medium drv live crash mk" and "durable_setup drv w mk" and "medium_at live crash (durable_model drv w) (du_world w) img"
    and "du_bound w \<longrightarrow> store_open live (durable_model drv w) (du_store s) (du_world w) img" and "du_block w < 256" and "w = du_work s"
    and "kui_vmu_durable_transaction drv s loan = (s', loan', ok)"
  defines "img' \<equiv> (if du_operation w = Durable_Write then img(du_block w := staged (du_protocol s)) else img)"
  shows "\<exists>i. transacted drv live crash (w\<lparr>du_invoked := i\<rparr>) {img, img'} img' s' ok \<and> du_protocol s' = du_protocol s \<and> (ok \<longrightarrow> i)"
proof -
  let ?h = "du_handoff w" and ?K = "durable_model drv w" and ?w1 = "w\<lparr>du_invoked := True\<rparr>"
  have surv: "survives crash ?K (du_world w) {img, img'}"
    using survives_mono [OF medium_survives [OF assms(3)]] by blast
  have K: "durable_model drv (w\<lparr>du_invoked := i\<rparr>) = ?K" for i by (rule durable_model_cong) simp_all
  consider (unready) "\<not> du_ready w \<or> \<not> du_handling w \<or> \<not> du_inflight w \<or> du_invoked w \<or> du_faulted w \<or> du_operation w = No_Operation"
    | (loan) "du_ready w \<and> du_handling w \<and> du_inflight w \<and> \<not> du_invoked w \<and> \<not> du_faulted w \<and> du_operation w \<noteq> No_Operation"
        "\<not> loan_ready loan \<or> loan_slow loan \<or> \<not> loan_select loan \<or> \<not> loan_transfer loan \<or> \<not> loan_ticks loan
           \<or> loan_blocks loan \<noteq> ho_card_sectors ?h \<or> loan_high_capacity loan \<noteq> (ho_high_capacity ?h \<noteq> 0)"
    | (accepted) "du_ready w \<and> du_handling w \<and> du_inflight w \<and> \<not> du_invoked w \<and> \<not> du_faulted w \<and> du_operation w \<noteq> No_Operation"
        "\<not> (\<not> loan_ready loan \<or> loan_slow loan \<or> \<not> loan_select loan \<or> \<not> loan_transfer loan \<or> \<not> loan_ticks loan
           \<or> loan_blocks loan \<noteq> ho_card_sectors ?h \<or> loan_high_capacity loan \<noteq> (ho_high_capacity ?h \<noteq> 0))"
    by blast
  then show ?thesis
  proof cases
    case unready
    then have run: "s' = durable_card_fault SD_Context s" "\<not> ok"
      using assms(7) by (simp_all add: kui_vmu_durable_transaction_def Let_def assms(6) [symmetric])
    have "transacted drv live crash w {img, img'} img' s' False"
      by (rule refused_result [OF work_frame_refl surv run(1)]) (simp add: assms(6))
    moreover have "w\<lparr>du_invoked := du_invoked w\<rparr> = w" by simp
    ultimately show ?thesis using run by (intro exI [of _ "du_invoked w"]) simp
  next
    case loan
    then have run: "s' = durable_card_fault SD_Identity (s\<lparr>du_work := ?w1\<rparr>)" "\<not> ok"
      using assms(7) by (auto simp: kui_vmu_durable_transaction_def Let_def assms(6) [symmetric] split: if_splits)
    have "transacted drv live crash ?w1 {img, img'} img' s' False"
      by (rule refused_result [OF work_frame_refl _ run(1)]) (use surv K in simp_all)
    then show ?thesis using run by (intro exI [of _ True]) simp
  next
    case accepted
    let ?w2 = "?w1\<lparr>du_cid_checks := increment (du_cid_checks w)\<rparr>"
    obtain x l1 idn where id: "sd_identity drv (du_world w) loan = (x, l1, idn)" using prod_cases3 by blast
    have st: "steady live crash (du_world w) x" using sd_medium_laws(7) [OF assms(1) id] by (simp add: steady_def)
    let ?w3 = "?w2\<lparr>du_world := x\<rparr>"
    let ?s = "s\<lparr>du_work := ?w3\<rparr>"
    have run: "(s', loan', ok) = (if idn \<noteq> Some (ho_cid ?h, ho_card_sectors ?h, ho_high_capacity ?h \<noteq> 0)
        then (durable_card_fault SD_Identity ?s, loan_spent l1, False) else store_transaction drv ?s l1)"
      using assms(7) accepted id by (simp add: kui_vmu_durable_transaction_def Let_def assms(6) [symmetric])
    have K3: "durable_model drv ?w3 = ?K" by (rule durable_model_cong) simp_all
    show ?thesis
    proof (cases "idn = Some (ho_cid ?h, ho_card_sectors ?h, ho_high_capacity ?h \<noteq> 0)")
      case False
      then have run: "s' = durable_card_fault SD_Identity ?s" "\<not> ok" using run by simp_all
      have "survives crash ?K x {img, img'}" using survives_subset [OF surv] st by (simp add: steady_def)
      then have "transacted drv live crash ?w1 {img, img'} img' s' False"
        by (intro refused_result [OF _ _ run(1), of _ ?w3]) (simp_all add: K work_frame_def)
      then show ?thesis using run by (intro exI [of _ True]) (simp add: durable_card_fault_def)
    next
      case True
      then have run: "store_transaction drv ?s l1 = (s', loan', ok)" using run by simp
      have su: "durable_setup drv ?w3 mk" using assms(2) durable_setup_cong [of ?w3 w drv mk] by simp
      have med: "medium_at live crash (durable_model drv ?w3) (du_world ?w3) img"
        using medium_steady [OF assms(3) st] by (simp add: K3)
      have op: "du_bound ?w3 \<longrightarrow> store_open live (durable_model drv ?w3) (du_store ?s) (du_world ?w3) img"
        using assms(4) store_open_steady [OF _ st] by (simp add: K3)
      have img3: "(if du_operation ?w3 = Durable_Write then img(du_block ?w3 := staged (du_protocol ?s)) else img) = img'"
        by (simp add: img'_def)
      have "du_block ?w3 < 256" "?w3 = du_work ?s" "du_protocol ?s = du_protocol s" using assms(5) by simp_all
      then have "transacted drv live crash ?w3 {img, img'} img' s' ok \<and> du_protocol s' = du_protocol s"
        using store_transaction_result [OF assms(1) su med op _ _ run, unfolded img3] by metis
      then show ?thesis using transacted_invoked [where w = ?w3 and u = w and i = True] by blast
    qed
  qed
qed

section \<open>The card as a backing store\<close>

text \<open>The handoff passed its checks when the card was started.\<close>

definition durable_admitted :: "'w durable_work \<Rightarrow> bool" where
  "durable_admitted w =
     (durable_card_geometry (du_handoff w) \<and> du_maps w = durable_maps (du_handoff w)
      \<and> length (ho_base (du_handoff w)) = 16 \<and> length (ho_journal (du_handoff w)) = 2)"

lemma geometry_crc:
  "durable_card_geometry (h\<lparr>ho_block_crc := c, ho_seal := x\<rparr>) = durable_card_geometry h"
  "durable_maps (h\<lparr>ho_block_crc := c, ho_seal := x\<rparr>) = durable_maps h"
  by (simp_all add: durable_card_geometry_def durable_maps_def Let_def)

lemma durable_admitted_cong: "du_handoff v = du_handoff w \<Longrightarrow> du_maps v = du_maps w \<Longrightarrow> durable_admitted v = durable_admitted w"
  by (simp add: durable_admitted_def)

text \<open>A card that has not faulted, between transactions, on a medium that holds the card \<open>img\<close>.\<close>

definition durable_rest ::
    "'w sd_driver \<Rightarrow> ('w \<Rightarrow> u64 \<Rightarrow> bytes) \<Rightarrow> ('w \<Rightarrow> (u64 \<Rightarrow> bytes) set) \<Rightarrow> u64 \<Rightarrow> 'w vmu_durable \<Rightarrow> (nat \<Rightarrow> bytes) \<Rightarrow> bool" where
  "durable_rest drv live crash mk s img =
     (let w = du_work s; K = durable_model drv w in
      \<not> du_faulted w \<and> du_ready w \<and> \<not> du_inflight w \<and> durable_admitted w \<and> durable_setup drv w mk \<and> medium_at live crash K (du_world w) img
      \<and> (du_bound w \<longrightarrow> store_open live K (du_store s) (du_world w) img)
      \<and> length (ho_block_crc (du_handoff w)) = 256
      \<and> (\<forall>b<256. ho_block_crc (du_handoff w) ! b = kui_retail_crc32 0 (img b)))"

lemma durable_config_same:
  "durable_config v = durable_config w \<Longrightarrow> durable_model drv v = durable_model drv w \<and> durable_setup drv v mk = durable_setup drv w mk"
  unfolding durable_setup_def durable_model_def durable_model_fields(3) [symmetric] by simp

lemma durable_config_crc:
  "durable_config (w\<lparr>du_handoff := (du_handoff w)\<lparr>ho_block_crc := c, ho_seal := x\<rparr>\<rparr>) = durable_config w"
  by (simp add: durable_config_def Let_def)

lemma store_open_context [simp]: "store_open live K (set_context st c) w img = store_open live K st w img"
  by (simp add: store_open_def)

text \<open>What one callback of the protocol may leave.\<close>

definition executed ::
    "'w sd_driver \<Rightarrow> ('w \<Rightarrow> u64 \<Rightarrow> bytes) \<Rightarrow> ('w \<Rightarrow> (u64 \<Rightarrow> bytes) set) \<Rightarrow> u64 \<Rightarrow> 'w vmu_durable \<Rightarrow> (nat \<Rightarrow> bytes) \<Rightarrow> (nat \<Rightarrow> bytes)
     \<Rightarrow> 'w vmu_durable \<Rightarrow> emu_io_result \<Rightarrow> bool" where
  "executed drv live crash mk s img img' s' r =
     (du_protocol s' = du_protocol s \<and> durable_model drv (du_work s') = durable_model drv (du_work s)
      \<and> survives crash (durable_model drv (du_work s)) (durable_world s') {img, img'}
      \<and> (r = Emu_OK \<longrightarrow> durable_rest drv live crash mk s' img' \<and> du_bound (du_work s'))
      \<and> (r = Emu_Busy \<longrightarrow> durable_rest drv live crash mk s' img)
      \<and> (r = Emu_Error \<longrightarrow> du_faulted (du_work s')))"

lemma durable_rest_survives:
  "durable_rest drv live crash mk s img \<Longrightarrow> survives crash (durable_model drv (du_work s)) (durable_world s) {img, img'}"
  using survives_mono [OF medium_survives] by (fastforce simp: durable_rest_def Let_def)

lemma executed_fault:
  assumes "durable_model drv (du_work t) = durable_model drv (du_work s)" and "du_protocol t = du_protocol s"
    and "survives crash (durable_model drv (du_work s)) (durable_world t) {img, img'}"
  shows "executed drv live crash mk s img img' (durable_card_fault r t) Emu_Error"
proof -
  have "durable_model drv (durable_fault r w) = durable_model drv w" for w :: "'a durable_work"
    by (rule durable_model_cong) (simp_all add: durable_fault_def Let_def)
  then show ?thesis using assms by (simp add: executed_def)
qed

definition after_lease :: "lease_result \<Rightarrow> 'w vmu_durable \<Rightarrow> 'w vmu_durable" where
  "after_lease result s = s\<lparr>du_work := (du_work s)\<lparr>last_lease_result := result, du_inflight := False\<rparr>,
     du_store := set_context (du_store s) None\<rparr>"

text \<open>Success: the store is bound and the CRC of the block becomes the current one.\<close>

definition publish :: "durable_operation \<Rightarrow> nat \<Rightarrow> 'w durable_work \<Rightarrow> 'w durable_work" where
  "publish op block w =
     (let w = (if du_bound_candidate w then w\<lparr>du_bound := True\<rparr> else w)\<lparr>sd_last_result := SD_Ok\<rparr>
      in if op = Durable_Write
         then w\<lparr>du_handoff := (du_handoff w)\<lparr>ho_block_crc := (ho_block_crc (du_handoff w))[block := du_pending_crc w], ho_seal := 0\<rparr>,
                du_commits := increment (du_commits w)\<rparr>
         else w\<lparr>du_reads := increment (du_reads w)\<rparr>)"

definition start_execute :: "durable_operation \<Rightarrow> nat \<Rightarrow> 'w durable_work \<Rightarrow> 'w durable_work" where
  "start_execute op block w =
     (let w = w\<lparr>du_operation := op, du_block := block, du_last_block := block,
                du_crc_expected := ho_block_crc (du_handoff w) ! block, du_crc_actual := 0, du_inflight := True,
                du_invoked := False, du_verified := False, du_bound_candidate := False\<rparr>
      in if op = Durable_Write then w\<lparr>du_commit_attempts := increment (du_commit_attempts w)\<rparr> else w)"

definition settle :: "durable_operation \<Rightarrow> nat \<Rightarrow> lease_result \<Rightarrow> 'w vmu_durable \<Rightarrow> 'w vmu_durable \<times> emu_io_result" where
  "settle op block result t =
     (let w = du_work t in
      if result = Lease_Busy \<and> \<not> du_invoked w \<and> \<not> du_faulted w
      then (t\<lparr>du_work := w\<lparr>du_sd_busy := increment (du_sd_busy w), sd_last_result := SD_Busy\<rparr>\<rparr>, Emu_Busy)
      else if result \<noteq> Lease_OK \<or> \<not> du_invoked w \<or> \<not> du_verified w \<or> du_faulted w
      then (if \<not> du_faulted w then durable_card_fault SD_Lease t else t, Emu_Error)
      else (t\<lparr>du_work := publish op block w\<rparr>, Emu_OK))"

lemma execute_unfold:
  assumes "\<not> du_faulted (du_work s)" and "du_handling (du_work s)" and "\<not> du_inflight (du_work s)" and "block < 256"
    and "lease (kui_vmu_durable_transaction drv) (s\<lparr>du_work := start_execute op block (du_work s)\<rparr>) = (s1, result)"
  shows "durable_card_execute drv lease op s block = settle op block result (after_lease result s1)"
  using assms unfolding durable_card_execute_def start_execute_def Let_def
  by (simp add: after_lease_def publish_def settle_def Let_def)

lemma start_execute_simps [simp]:
  "du_world (start_execute op block w) = du_world w" "du_handoff (start_execute op block w) = du_handoff w"
  "du_maps (start_execute op block w) = du_maps w" "du_bound (start_execute op block w) = du_bound w"
  "du_operation (start_execute op block w) = op" "du_block (start_execute op block w) = block"
  "du_invoked (start_execute op block w) = False" "du_faulted (start_execute op block w) = du_faulted w"
  "du_ready (start_execute op block w) = du_ready w" "du_handling (start_execute op block w) = du_handling w"
  by (simp_all add: start_execute_def Let_def)

lemma publish_simps [simp]:
  "du_world (publish op block w) = du_world w" "du_faulted (publish op block w) = du_faulted w" "du_ready (publish op block w) = du_ready w"
  "du_inflight (publish op block w) = du_inflight w" "durable_config (publish op block w) = durable_config w"
  "durable_admitted (publish op block w) = durable_admitted w"
  "du_handling (publish op block w) = du_handling w" "du_bounce (publish op block w) = du_bounce w"
  "du_bound (publish op block w) = (du_bound w \<or> du_bound_candidate w)"
  "ho_block_crc (du_handoff (publish op block w)) =
     (if op = Durable_Write then (ho_block_crc (du_handoff w))[block := du_pending_crc w] else ho_block_crc (du_handoff w))"
  by (simp_all add: publish_def Let_def durable_config_def durable_admitted_def geometry_crc)

text \<open>After a lease that ran no transaction, the card is as before or has faulted.\<close>

lemma execute_idle:
  fixes s :: "'w vmu_durable"
  assumes "durable_rest drv live crash mk s img" and "steady live crash (durable_world s) w1" and "result \<noteq> Lease_OK"
    and "t = after_lease result (put_world (s\<lparr>du_work := start_execute op block (du_work s)\<rparr>) w1)"
    and "settle op block result t = (s', r)"
  shows "executed drv live crash mk s img img' s' r"
proof -
  let ?w = "du_work t"
  have w: "du_world ?w = w1" "du_handoff ?w = du_handoff (du_work s)" "du_maps ?w = du_maps (du_work s)" "\<not> du_invoked ?w"
    "\<not> du_faulted ?w" "du_ready ?w" "\<not> du_inflight ?w" "du_bound ?w = du_bound (du_work s)" "du_protocol t = du_protocol s"
    and st: "du_store t = set_context (du_store s) None"
    using assms(1) by (simp_all add: assms(4) after_lease_def put_world_def durable_rest_def Let_def)
  note K = durable_model_cong [OF w(2,3), of drv] and su = durable_setup_cong [OF w(2,3), of drv mk]
  have surv: "survives crash (durable_model drv (du_work s)) (durable_world t) {img, img'}"
    using survives_subset [OF durable_rest_survives [OF assms(1)]] assms(2) w(1) by (simp add: steady_def)
  show ?thesis
  proof (cases "result = Lease_Busy")
    case False
    then have "s' = durable_card_fault SD_Lease t" "r = Emu_Error" using assms(3,5) w(5) by (simp_all add: settle_def Let_def)
    then show ?thesis using executed_fault [OF K w(9) surv] by simp
  next
    case True
    define v where "v = ?w\<lparr>du_sd_busy := increment (du_sd_busy ?w), sd_last_result := SD_Busy\<rparr>"
    have s': "s' = t\<lparr>du_work := v\<rparr>" "r = Emu_Busy" using assms(5) True w(4,5) by (simp_all add: settle_def Let_def v_def)
    have v: "du_handoff v = du_handoff (du_work s)" "du_maps v = du_maps (du_work s)" "du_world v = w1" "\<not> du_faulted v" "du_ready v"
      "\<not> du_inflight v" "du_bound v = du_bound (du_work s)" by (simp_all add: v_def w)
    note Kv = durable_model_cong [OF v(1,2), of drv] and suv = durable_setup_cong [OF v(1,2), of drv mk] and adv = durable_admitted_cong [OF v(1,2)]
    have "durable_rest drv live crash mk s' img"
      using assms(1) medium_steady [OF _ assms(2)] store_open_steady [OF _ assms(2)]
      by (simp add: durable_rest_def Let_def s' v Kv suv adv st)
    then show ?thesis using surv w(9) by (simp add: executed_def s' Kv v(3) w(1))
  qed
qed

text \<open>After a transaction, success publishes the new card.\<close>

lemma execute_ran:
  fixes s :: "'w vmu_durable"
  assumes "durable_rest drv live crash mk s img" and "du_handling (du_work s)" and "block < 256"
    and "transacted drv live crash (u\<lparr>du_invoked := i\<rparr>) {img, img'} img' s1 ok" and "ok \<longrightarrow> i" and "du_protocol s1 = du_protocol s"
    and "u = (start_execute op block (du_work s))\<lparr>du_world := w1\<rparr>"
    and "img' = (if op = Durable_Write then img(block := data) else img)"
    and "steady live crash (durable_world s1) w2" and "result = Lease_OK \<longrightarrow> ok" and "t = after_lease result (put_world s1 w2)"
    and "settle op block result t = (s', r)"
  shows "executed drv live crash mk s img img' s' r \<and> (r = Emu_OK \<longrightarrow> du_bounce (du_work s') = img' block)"
proof -
  let ?w = "du_work t" and ?K = "durable_model drv (du_work s)"
  have frame: "work_frame (u\<lparr>du_invoked := i\<rparr>) (du_work s1)" using assms(4) by (simp add: transacted_def)
  have w: "du_world ?w = w2" "du_handoff ?w = du_handoff (du_work s)" "du_maps ?w = du_maps (du_work s)"
    "du_ready ?w = du_ready (du_work s)" "\<not> du_inflight ?w" "du_bound ?w = du_bound (du_work s)" "du_invoked ?w = i"
    "du_faulted ?w = du_faulted (du_work s1)" "du_protocol t = du_protocol s" "du_bounce ?w = du_bounce (du_work s1)"
    "du_pending_crc ?w = du_pending_crc (du_work s1)" "du_bound_candidate ?w = du_bound_candidate (du_work s1)"
    using frame assms(6) by (simp_all add: assms(7,11) after_lease_def put_world_def work_frame_def)
  have st: "du_store t = set_context (du_store s1) None" by (simp add: assms(11) after_lease_def put_world_def)
  note K = durable_model_cong [OF w(2,3), of drv]
  have KU: "durable_model drv (u\<lparr>du_invoked := i\<rparr>) = ?K" by (rule durable_model_cong) (simp_all add: assms(7))
  have u: "du_bound (u\<lparr>du_invoked := i\<rparr>) = du_bound (du_work s)" "du_block (u\<lparr>du_invoked := i\<rparr>) = block"
    by (simp_all add: assms(7))
  have surv: "survives crash ?K (durable_world t) {img, img'}"
    using assms(4) survives_subset [of crash ?K "durable_world s1"] assms(9) w(1) by (simp add: transacted_def KU steady_def)
  show ?thesis
  proof (cases "result \<noteq> Lease_OK \<or> \<not> i \<or> \<not> du_verified ?w \<or> du_faulted ?w")
    case True
    have "\<not> (result = Lease_Busy \<and> \<not> du_invoked ?w \<and> \<not> du_faulted ?w)"
      using assms(4,5) w(7,8) by (cases ok) (simp_all add: transacted_def)
    then have s': "s' = (if \<not> du_faulted ?w then durable_card_fault SD_Lease t else t)" "r = Emu_Error"
      using assms(12) True w(7) by (simp_all only: settle_def Let_def if_False if_True prod.inject)
    show ?thesis
    proof (cases "du_faulted ?w")
      case True
      then show ?thesis using s' surv K w(9) by (simp add: executed_def)
    next
      case False
      then show ?thesis using s' executed_fault [OF K w(9) surv] by simp
    qed
  next
    case False
    then have ok: "ok" and res: "result = Lease_OK" using assms(10) by simp_all
    have s': "s' = t\<lparr>du_work := publish op block ?w\<rparr>" "r = Emu_OK" using assms(12) False w(7) res by (simp_all add: settle_def Let_def)
    have tr: "du_bound (du_work s) \<or> du_bound_candidate (du_work s1)" "medium_at live crash ?K (durable_world s1) img'"
      "store_open live ?K (du_store s1) (durable_world s1) img'" "du_bounce (du_work s1) = img' block"
      "du_pending_crc (du_work s1) = kui_retail_crc32 0 (img' block)"
      using assms(4) [unfolded transacted_def KU u] ok by simp_all
    have cfg: "durable_config (publish op block ?w) = durable_config (du_work s)"
      using durable_config_cong [OF w(2,3)] by simp
    note Kp = durable_config_same [OF cfg, of drv mk]
    have crc: "length (ho_block_crc (du_handoff (du_work s))) = 256"
      "\<forall>b<256. ho_block_crc (du_handoff (du_work s)) ! b = kui_retail_crc32 0 (img b)"
      using assms(1) by (simp_all add: durable_rest_def Let_def)
    have "durable_rest drv live crash mk s' img'"
      using assms(1) False tr medium_steady [OF tr(2) assms(9)] store_open_steady [OF tr(3) assms(9)] Kp crc
      by (simp add: durable_rest_def Let_def s' w st assms(3) nth_list_update durable_admitted_cong [OF w(2,3)]) (simp add: assms(8))
    then show ?thesis using surv w(6,9,12) Kp s' tr(1,4) w(10) by (simp add: executed_def)
  qed
qed

lemma execute_result:
  fixes s :: "'w vmu_durable"
  assumes "sd_medium drv live crash mk" and "lease_law live crash lease" and "durable_rest drv live crash mk s img"
    and "du_handling (du_work s)" and "block < 256" and "op \<noteq> No_Operation" and "durable_card_execute drv lease op s block = (s', r)"
  defines "img' \<equiv> (if op = Durable_Write then img(block := staged (du_protocol s)) else img)"
  shows "executed drv live crash mk s img img' s' r \<and> (r = Emu_OK \<longrightarrow> du_bounce (du_work s') = img' block)"
proof -
  let ?w0 = "start_execute op block (du_work s)"
  let ?s0 = "s\<lparr>du_work := ?w0\<rparr>"
  obtain s1 result where le: "lease (kui_vmu_durable_transaction drv) ?s0 = (s1, result)" by fastforce
  have base: "\<not> du_faulted (du_work s)" "\<not> du_inflight (du_work s)" using assms(3) by (simp_all add: durable_rest_def Let_def)
  have run: "settle op block result (after_lease result s1) = (s', r)"
    using execute_unfold [where lease = lease and drv = drv and op = op, OF base(1) assms(4) base(2) assms(5) le] assms(7) by simp
  have world: "durable_world ?s0 = durable_world s" by simp
  obtain w1 where w1: "steady live crash (durable_world s) w1" and
    alt: "s1 = put_world ?s0 w1 \<and> result \<noteq> Lease_OK \<or>
      (\<exists>loan s2 loan1 ok w2. kui_vmu_durable_transaction drv (put_world ?s0 w1) loan = (s2, loan1, ok) \<and>
         steady live crash (durable_world s2) w2 \<and> s1 = put_world s2 w2 \<and> (result = Lease_OK \<longrightarrow> ok))"
    using assms(2)[unfolded lease_law_def, rule_format, OF le, unfolded world] by blast
  show ?thesis
  proof (cases "s1 = put_world ?s0 w1 \<and> result \<noteq> Lease_OK")
    case True
    have "executed drv live crash mk s img img' s' r"
      by (rule execute_idle [OF assms(3) w1 conjunct2 [OF True] _ run]) (simp add: True)
    moreover have "r \<noteq> Emu_OK"
      using run True by (auto simp: settle_def after_lease_def put_world_def Let_def split: if_splits)
    ultimately show ?thesis by simp
  next
    case False
    then obtain loan s2 loan1 ok w2 where tx: "kui_vmu_durable_transaction drv (put_world ?s0 w1) loan = (s2, loan1, ok)"
      and w2: "steady live crash (durable_world s2) w2" "s1 = put_world s2 w2" "result = Lease_OK \<longrightarrow> ok" using alt by blast
    let ?u = "?w0\<lparr>du_world := w1\<rparr>"
    have u: "du_work (put_world ?s0 w1) = ?u" "du_protocol (put_world ?s0 w1) = du_protocol s" "du_store (put_world ?s0 w1) = du_store s"
      by (simp_all add: put_world_def)
    have K: "durable_model drv ?u = durable_model drv (du_work s)" by (rule durable_model_cong) simp_all
    have su: "durable_setup drv ?u mk"
      using assms(3) durable_setup_cong [of ?u "du_work s" drv mk] by (simp add: durable_rest_def Let_def)
    have med: "medium_at live crash (durable_model drv ?u) (du_world ?u) img"
      using assms(3) medium_steady [OF _ w1] by (simp add: durable_rest_def Let_def K)
    have op: "du_bound ?u \<longrightarrow> store_open live (durable_model drv ?u) (du_store (put_world ?s0 w1)) (du_world ?u) img"
      using assms(3) store_open_steady [OF _ w1] by (simp add: durable_rest_def Let_def K u)
    have blk: "du_block ?u < 256" using assms(5) by simp
    have img3: "(if du_operation ?u = Durable_Write then img(du_block ?u := staged (du_protocol s)) else img) = img'"
      by (simp add: img'_def)
    obtain i where i: "transacted drv live crash (?u\<lparr>du_invoked := i\<rparr>) {img, img'} img' s2 ok" "du_protocol s2 = du_protocol s" "ok \<longrightarrow> i"
      using transaction_result [OF assms(1) su med op blk u(1) [symmetric] tx, unfolded u(2) img3] by blast
    show ?thesis
      by (rule execute_ran [OF assms(3,4,5) i(1,3,2) refl _ w2(1,3) _ run]) (simp_all add: img'_def w2(2))
  qed
qed

lemma read_result:
  assumes "sd_medium drv live crash mk" and "lease_law live crash lease" and "durable_rest drv live crash mk s img"
    and "du_handling (du_work s)" and "block < 256" and "durable_card_read drv lease s block = (s', r, d)"
  shows "executed drv live crash mk s img img s' r \<and> (r = Emu_OK \<longrightarrow> d = img block)"
proof -
  have run: "durable_card_execute drv lease Durable_Read s block = (s', r)" "r = Emu_OK \<longrightarrow> d = du_bounce (du_work s')"
    using assms(6) by (auto simp: durable_card_read_def split: prod.splits if_splits)
  show ?thesis using execute_result [OF assms(1-5) _ run(1)] run(2) by simp
qed

lemma commit_answer:
  assumes "sd_medium drv live crash mk" and "lease_law live crash lease" and "durable_rest drv live crash mk s img"
    and "du_handling (du_work s)" and "block < 256" and "durable_card_commit drv lease s block (staged (du_protocol s)) = (s', r)"
  shows "executed drv live crash mk s img (img(block := staged (du_protocol s))) s' r"
proof -
  have "durable_card_execute drv lease Durable_Write s block = (s', r)" using assms(6) by (simp add: durable_card_commit_def)
  from execute_result [OF assms(1-5) _ this] show ?thesis by simp
qed

text \<open>Only the commit of a complete staged block can change the card.\<close>

definition card_change :: "vmu_emulation \<Rightarrow> (nat \<Rightarrow> bytes) \<Rightarrow> (nat \<Rightarrow> bytes) \<Rightarrow> bool" where
  "card_change p img img' = (img' = img \<or> active p \<and> phases p = 15 \<and> img' = img(staged_block p := staged p))"

definition protocol_holds :: "vmu_emulation \<Rightarrow> (nat \<Rightarrow> bytes) \<Rightarrow> bool" where
  "protocol_holds p img = (emu_inv p \<and> (committed_valid p \<longrightarrow> img (committed_block p) = staged p))"

definition storage_effect ::
    "'w sd_driver \<Rightarrow> ('w \<Rightarrow> u64 \<Rightarrow> bytes) \<Rightarrow> ('w \<Rightarrow> (u64 \<Rightarrow> bytes) set) \<Rightarrow> u64 \<Rightarrow> 'w vmu_durable \<Rightarrow> vmu_emulation \<Rightarrow> (nat \<Rightarrow> bytes)
     \<Rightarrow> bytes \<Rightarrow> (nat \<Rightarrow> bytes) \<Rightarrow> 'w vmu_durable \<Rightarrow> vmu_emulation \<Rightarrow> emu_result \<Rightarrow> bool" where
  "storage_effect drv live crash mk s p img request img' s' p' r =
     (card_change p img img' \<and> durable_model drv (du_work s') = durable_model drv (du_work s)
      \<and> survives crash (durable_model drv (du_work s)) (durable_world s') {img, img'}
      \<and> (\<not> du_faulted (du_work s') \<longrightarrow> durable_rest drv live crash mk s' img' \<and> protocol_holds p' img')
      \<and> (request ! 0 = 11 \<and> reply_code r = Some 8 \<longrightarrow>
           r = reply 8 (address p AND 0xc0) (address p) (window request 4 8 @ img (request_block request)) \<and> length request = 12)
      \<and> (request ! 0 = 13 \<and> request ! 9 = 4 \<and> reply_code r = Some 7 \<longrightarrow>
           \<not> du_faulted (du_work s') \<and> img' (request_block request) = staged p))"

lemma executed_effect:
  assumes "executed drv live crash mk s img img' s' res" and "card_change p img img'"
    and "res = Emu_OK \<Longrightarrow> protocol_holds p' img'" and "res = Emu_Busy \<Longrightarrow> protocol_holds p' img \<and> reply_code r = Some 0xfc"
    and "res \<noteq> Emu_OK \<Longrightarrow> reply_code r \<in> {Some 0xfb, Some 0xfc}"
    and "request ! 0 = 11 \<Longrightarrow> res = Emu_OK \<Longrightarrow>
      r = reply 8 (address p AND 0xc0) (address p) (window request 4 8 @ img (request_block request)) \<and> length request = 12"
    and "request ! 0 = 13 \<Longrightarrow> res = Emu_OK \<Longrightarrow> img' (request_block request) = staged p"
  shows "\<exists>img2. storage_effect drv live crash mk s p img request img2 s' p' r"
proof (cases "res = Emu_Busy")
  case True
  have "card_change p img img" by (simp add: card_change_def)
  moreover have "survives crash (durable_model drv (du_work s)) (durable_world s') {img, img}"
  proof -
    have "durable_rest drv live crash mk s' img" "durable_model drv (du_work s') = durable_model drv (du_work s)"
      using assms(1) True by (simp_all add: executed_def)
    then show ?thesis using durable_rest_survives by metis
  qed
  ultimately have "storage_effect drv live crash mk s p img request img s' p' r"
    using assms(1,4) True by (simp add: storage_effect_def executed_def)
  then show ?thesis by blast
next
  case False
  have nf: "\<not> du_faulted (du_work s') \<longleftrightarrow> res = Emu_OK"
    using assms(1) False by (cases res) (auto simp: executed_def durable_rest_def Let_def)
  have "storage_effect drv live crash mk s p img request img' s' p' r"
    using assms nf by (cases "res = Emu_OK") (auto simp: storage_effect_def executed_def)
  then show ?thesis by blast
qed

lemma quiet_effect:
  assumes "durable_rest drv live crash mk s img" and "protocol_holds p' img"
    and "request ! 0 = 11 \<Longrightarrow> reply_code r \<noteq> Some 8"
    and "request ! 0 = 13 \<and> request ! 9 = 4 \<Longrightarrow> reply_code r = Some 7 \<Longrightarrow> img (request_block request) = staged p"
  shows "\<exists>img2. storage_effect drv live crash mk s p img request img2 s p' r"
proof -
  have "\<not> du_faulted (du_work s)" using assms(1) by (simp add: durable_rest_def Let_def)
  then have "storage_effect drv live crash mk s p img request img s p' r"
    using assms durable_rest_survives [OF assms(1), of img] unfolding storage_effect_def card_change_def by auto
  then show ?thesis by blast
qed

lemma storage_result:
  assumes "sd_medium drv live crash mk" and "lease_law live crash lease" and "durable_rest drv live crash mk s img"
    and "du_handling (du_work s)" and "protocol_holds p img" and "p = du_protocol s"
    and "handle_storage (durable_card_read drv lease) (durable_card_commit drv lease) s p request (address p AND 0xc0) = (s', p', r)"
  shows "\<exists>img'. storage_effect drv live crash mk s p img request img' s' p' r"
proof -
  have inv: "emu_inv p" and held: "committed_valid p \<longrightarrow> img (committed_block p) = staged p"
    using assms(5) by (simp_all add: protocol_holds_def)
  have inv': "emu_inv p'" by (rule handle_storage_inv [OF inv assms(7)])
  from assms(7) show ?thesis
  proof (cases rule: handle_storage_cases)
    case plain
    show ?thesis unfolding plain(1,2) by (rule quiet_effect [OF assms(3,5)]) (use plain(3) in auto)
  next
    case reading
    have change: "card_change p img img" by (simp add: card_change_def)
    have keep: "protocol_holds (p\<lparr>read_valid := False\<rparr>) img" "protocol_holds (p\<lparr>read_block := b, read_valid := True\<rparr>) img" for b
      using assms(5) by (auto simp: protocol_holds_def emu_inv_def)
    from reading(4) show ?thesis
    proof (cases rule: handle_read_cases)
      case none
      show ?thesis unfolding none by (rule quiet_effect [OF assms(3) keep(1)]) (use reading(1) in auto)
    next
      case (failed res d)
      note ex = read_result [OF assms(1-4) reading(3) failed(1)]
      show ?thesis unfolding failed(3,4)
        by (rule executed_effect [OF conjunct1 [OF ex] change]) (use failed(2) keep reading(1,2) in auto)
    next
      case (data d)
      note ex = read_result [OF assms(1-4) reading(3) data(1)]
      show ?thesis unfolding data(2,3)
        by (rule executed_effect [OF conjunct1 [OF ex] change]) (use ex keep reading(1,2) in auto)
    qed
  next
    case writing
    have "protocol_holds p' img"
    proof -
      from writing(5) have "committed_valid p' \<Longrightarrow> committed_valid p \<and> committed_block p' = committed_block p \<and> staged p' = staged p"
        by (cases rule: handle_write_cases) (use inv in \<open>auto simp: emu_inv_def\<close>)
      then show ?thesis using held inv' by (auto simp: protocol_holds_def)
    qed
    then show ?thesis unfolding writing(4) by (rule quiet_effect [OF assms(3)]) (use writing(1) in auto)
  next
    case syncing
    from syncing(4) show ?thesis
    proof (cases rule: handle_sync_cases)
      case same
      have "img (request_block request) = staged p" if "request ! 0 = 13 \<and> request ! 9 = 4" "reply_code r = Some 7"
      proof -
        have "committed_valid p \<and> committed_block p = request_block request"
          using syncing(4) that same(3) by (auto simp: handle_sync_def Let_def split: if_splits prod.splits)
        then show ?thesis using held by auto
      qed
      then show ?thesis unfolding same(1,2) by (intro quiet_effect [OF assms(3,5)]) (use syncing(3) in auto)
    next
      case (tried res)
      have change: "card_change p img (img(request_block request := staged p))" using tried(2-4) by (simp add: card_change_def)
      have "\<not> committed_valid p'" using inv tried(2,7) by (simp add: emu_inv_def)
      then have keep: "protocol_holds p' img" using inv' by (simp add: protocol_holds_def)
      note ex = commit_answer [OF assms(1-4) syncing(2) tried(5) [unfolded assms(6)], folded assms(6)]
      show ?thesis
        by (rule executed_effect [OF ex change]) (use tried(6,8) keep syncing(3) in auto)
    next
      case acked
      have change: "card_change p img (img(request_block request := staged p))" using acked(2-4) by (simp add: card_change_def)
      have keep: "protocol_holds p' (img(request_block request := staged p))"
        using inv' acked(6) by (simp add: protocol_holds_def committed_def)
      note ex = commit_answer [OF assms(1-4) syncing(2) acked(5) [unfolded assms(6)], folded assms(6)]
      show ?thesis
        by (rule executed_effect [OF ex change]) (use keep syncing(3) in auto)
    qed
  qed
qed

lemma handle_result:
  assumes "sd_medium drv live crash mk" and "lease_law live crash lease" and "durable_rest drv live crash mk s img"
    and "du_handling (du_work s)" and "protocol_holds p img" and "p = du_protocol s"
    and "kui_vmu_emulation_handle (durable_card_read drv lease) (durable_card_commit drv lease) s p request capacity = (s', p', r)"
  shows "\<exists>img'. storage_effect drv live crash mk s p img request img' s' p' r"
proof (cases "handle_storage (durable_card_read drv lease) (durable_card_commit drv lease) s p request (address p AND 0xc0) = (s', p', r)")
  case True
  then show ?thesis by (rule storage_result [OF assms(1-6)])
next
  case False
  have "protocol_holds ((kui_vmu_emulation_reset p)\<lparr>killed := k\<rparr>) img" for k
    using assms(5) by (simp add: protocol_holds_def emu_inv_def kui_vmu_emulation_reset_def)
  then have "s' = s \<and> protocol_holds p' img \<and> (request ! 0 = 11 \<or> request ! 0 = 13 \<longrightarrow> reply_code r \<noteq> Some 8 \<and> reply_code r \<noteq> Some 7)"
    using assms(5,7) False unfolding kui_vmu_emulation_handle_def Let_def by (auto split: if_splits)
  then show ?thesis using quiet_effect [OF assms(3), of p' request r p] by blast
qed

section \<open>The durable card keeps its promises\<close>

definition durable_at ::
    "'w sd_driver \<Rightarrow> ('w \<Rightarrow> u64 \<Rightarrow> bytes) \<Rightarrow> ('w \<Rightarrow> (u64 \<Rightarrow> bytes) set) \<Rightarrow> u64 \<Rightarrow> 'w vmu_durable \<Rightarrow> (nat \<Rightarrow> bytes) \<Rightarrow> bool" where
  "durable_at drv live crash mk s img =
     (durable_rest drv live crash mk s img \<and> \<not> du_handling (du_work s) \<and> protocol_holds (du_protocol s) img)"

lemma durable_rest_cong:
  assumes "du_store s = du_store t" and "durable_world s = durable_world t" and "du_handoff (du_work s) = du_handoff (du_work t)"
    and "du_maps (du_work s) = du_maps (du_work t)" and "du_faulted (du_work s) = du_faulted (du_work t)"
    and "du_ready (du_work s) = du_ready (du_work t)" and "du_inflight (du_work s) = du_inflight (du_work t)"
    and "du_bound (du_work s) = du_bound (du_work t)"
  shows "durable_rest drv live crash mk s img = durable_rest drv live crash mk t img"
  using assms durable_model_cong [OF assms(3,4), of drv] durable_setup_cong [OF assms(3,4), of drv mk] durable_admitted_cong [OF assms(3,4)]
  by (simp add: durable_rest_def Let_def)

lemma durable_handle_cases:
  assumes "\<not> du_faulted (du_work s)" and "kui_vmu_durable_handle drv lease s request capacity = (s', res)"
  obtains (refused) n where "s' = s\<lparr>du_work := (du_work s)\<lparr>du_refused := n\<rparr>\<rparr>" "\<forall>bs. res \<noteq> Durable_Handled bs"
      "res = Durable_Internal \<longrightarrow> du_handling (du_work s) \<or> du_inflight (du_work s)"
  | (served) s1 p r cmd where "kui_vmu_emulation_handle (durable_card_read drv lease) (durable_card_commit drv lease)
        (s\<lparr>du_work := (du_work s)\<lparr>du_handling := True\<rparr>\<rparr>) (du_protocol s) request capacity = (s1, p, r)"
      "durable_reply cmd (s1\<lparr>du_work := (du_work s1)\<lparr>du_handling := False\<rparr>, du_protocol := p\<rparr>) r = (s', res)"
      "4 \<le> length request" "length request = 4 + 4 * unat (drop_bit 24 (get32 request 0))"
      "\<exists>p0 p1 n. durable_card_shape (address (du_protocol s)) (get32 request 0) p0 p1 = n \<and> n \<noteq> 0 \<and> n \<le> capacity"
proof -
  let ?p0 = "if length request \<ge> 12 then get32 request 4 else 0" and ?p1 = "if length request \<ge> 12 then get32 request 8 else 0"
  let ?needed = "durable_card_shape (address (du_protocol s)) (get32 request 0) ?p0 ?p1"
  let ?A = "\<not> du_ready (du_work s) \<or> length request < 4" and ?B = "du_handling (du_work s) \<or> du_inflight (du_work s)"
  let ?C = "?needed = 0 \<or> length request \<noteq> 4 + 4 * unat (drop_bit 24 (get32 request 0))"
  let ?D = "capacity < ?needed"
  note run = assms(2) [unfolded kui_vmu_durable_handle_def Let_def if_not_P [OF assms(1)]]
  have id: "s\<lparr>du_work := (du_work s)\<lparr>du_refused := du_refused (du_work s)\<rparr>\<rparr> = s" by simp
  show thesis
  proof (cases "?A \<or> ?B \<or> ?C \<or> ?D")
    case False
    then have off: "\<not> ?A" "\<not> ?B" "\<not> ?C" "\<not> ?D" by blast+
    obtain s1 p r where emu: "kui_vmu_emulation_handle (durable_card_read drv lease) (durable_card_commit drv lease)
        (s\<lparr>du_work := (du_work s)\<lparr>du_handling := True\<rparr>\<rparr>) (du_protocol s) request capacity = (s1, p, r)" by (metis prod_cases3)
    have "durable_reply (get32 request 0 AND 255) (s1\<lparr>du_work := (du_work s1)\<lparr>du_handling := False\<rparr>, du_protocol := p\<rparr>) r = (s', res)"
      using run unfolding if_not_P [OF off(1)] if_not_P [OF off(2)] if_not_P [OF off(3)] if_not_P [OF off(4)]
        emu prod.case .
    moreover have "4 \<le> length request" using off(1) by simp
    moreover have "length request = 4 + 4 * unat (drop_bit 24 (get32 request 0))" "?needed \<noteq> 0"
      using off(3) unfolding de_Morgan_disj not_not by (rule conjunct2, rule conjunct1)
    moreover have "?needed \<le> capacity" using off(4) by (simp only: not_less)
    ultimately show thesis by (intro served [OF emu]) blast+
  next
    case True
    have "(s' = s \<or> s' = s\<lparr>du_work := (du_work s)\<lparr>du_refused := increment (du_refused (du_work s))\<rparr>\<rparr>) \<and>
        (\<forall>bs. res \<noteq> Durable_Handled bs) \<and> (res = Durable_Internal \<longrightarrow> ?B)"
    proof (cases ?A)
      case True
      show ?thesis using run unfolding if_P [OF True] by auto
    next
      case A: False
      show ?thesis
      proof (cases ?B)
        case True
        then have "res = Durable_Internal" "s' = s" using run unfolding if_not_P [OF A] if_P [OF True] by simp_all
        then show ?thesis using True by simp
      next
        case B: False
        show ?thesis
        proof (cases ?C)
          case True
          show ?thesis using run unfolding if_not_P [OF A] if_not_P [OF B] if_P [OF True] by auto
        next
          case C: False
          then have D: ?D using \<open>?A \<or> ?B \<or> ?C \<or> ?D\<close> A B by blast
          show ?thesis using run unfolding if_not_P [OF A] if_not_P [OF B] if_not_P [OF C] if_P [OF D] by auto
        qed
      qed
    qed
    then show thesis using refused id by metis
  qed
qed

lemma durable_reply_result:
  assumes "durable_reply cmd t r = (s', res)"
  shows "durable_world s' = durable_world t" and "du_protocol s' = du_protocol t" and "du_handling (du_work s') = du_handling (du_work t)"
    and "durable_model drv (du_work s') = durable_model drv (du_work t)"
    and "\<not> du_faulted (du_work s') \<Longrightarrow> \<not> du_faulted (du_work t) \<and>
      durable_rest drv live crash mk s' img = durable_rest drv live crash mk t img"
    and "res = Durable_Handled bs \<Longrightarrow> r = Handled bs \<and> du_faulted (du_work s') = du_faulted (du_work t)"
proof -
  have alt: "(\<exists>n q. s' = t\<lparr>du_work := (du_work t)\<lparr>du_write_phases := n, du_requests := q\<rparr>\<rparr> \<and> res = Durable_Handled out \<and> r = Handled out) \<or>
      (s' = durable_card_fault SD_Context t \<and> res = Durable_Internal)" if "r = Handled out \<or> (\<forall>x. r \<noteq> Handled x)" for out
  proof (cases r)
    case (Handled x)
    have "\<exists>n. (if cmd = 12 \<and> x ! 0 = 7 then (du_work t)\<lparr>du_write_phases := increment (du_write_phases (du_work t))\<rparr> else du_work t)
        = (du_work t)\<lparr>du_write_phases := n\<rparr>"
      by (intro exI [of _ "if cmd = 12 \<and> x ! 0 = 7 then increment (du_write_phases (du_work t)) else du_write_phases (du_work t)"]) simp
    then obtain n where n: "(if cmd = 12 \<and> x ! 0 = 7 then (du_work t)\<lparr>du_write_phases := increment (du_write_phases (du_work t))\<rparr> else du_work t)
        = (du_work t)\<lparr>du_write_phases := n\<rparr>" by blast
    show ?thesis using assms that Handled by (auto simp: durable_reply_def Let_def n)
  qed (use assms in \<open>simp_all add: durable_reply_def\<close>)
  have config: "durable_config (durable_fault SD_Context w) = durable_config w" for w :: "'a durable_work"
    by (rule durable_config_cong) (simp_all add: durable_fault_def Let_def)
  have frame: "du_handling (durable_fault SD_Context w) = du_handling w" for w :: "'a durable_work"
    by (simp add: durable_fault_def Let_def)
  consider (ok) n q out where "s' = t\<lparr>du_work := (du_work t)\<lparr>du_write_phases := n, du_requests := q\<rparr>\<rparr>" "res = Durable_Handled out" "r = Handled out"
    | (bad) "s' = durable_card_fault SD_Context t" "res = Durable_Internal"
    using alt by (cases r) blast+
  then have "durable_world s' = durable_world t \<and> du_protocol s' = du_protocol t \<and> du_handling (du_work s') = du_handling (du_work t) \<and>
    durable_model drv (du_work s') = durable_model drv (du_work t) \<and>
    (\<not> du_faulted (du_work s') \<longrightarrow> \<not> du_faulted (du_work t) \<and>
      durable_rest drv live crash mk s' img = durable_rest drv live crash mk t img) \<and>
    (res = Durable_Handled bs \<longrightarrow> r = Handled bs \<and> du_faulted (du_work s') = du_faulted (du_work t))"
  proof cases
    case ok
    have "durable_model drv (du_work s') = durable_model drv (du_work t)" by (rule durable_model_cong) (simp_all add: ok(1))
    then show ?thesis using durable_rest_cong [of s' t drv live crash mk img] ok by simp
  next
    case bad
    then show ?thesis using frame durable_config_same [OF config, of drv "du_work t" mk] by simp
  qed
  then show "durable_world s' = durable_world t" "du_protocol s' = du_protocol t" "du_handling (du_work s') = du_handling (du_work t)"
    "durable_model drv (du_work s') = durable_model drv (du_work t)"
    "\<not> du_faulted (du_work s') \<Longrightarrow> \<not> du_faulted (du_work t) \<and>
      durable_rest drv live crash mk s' img = durable_rest drv live crash mk t img"
    "res = Durable_Handled bs \<Longrightarrow> r = Handled bs \<and> du_faulted (du_work s') = du_faulted (du_work t)" by blast+
qed

lemma durable_handle_sound:
  assumes "sd_medium drv live crash mk" and "lease_law live crash lease" and "durable_at drv live crash mk s img"
    and "kui_vmu_durable_handle drv lease s request capacity = (s', res)"
  shows "\<exists>img'. card_change (du_protocol s) img img' \<and> durable_model drv (du_work s') = durable_model drv (du_work s) \<and>
    survives crash (durable_model drv (du_work s)) (durable_world s') {img, img'} \<and>
    (\<not> du_faulted (du_work s') \<longrightarrow> durable_at drv live crash mk s' img') \<and>
    (\<forall>bs. res = Durable_Handled bs \<longrightarrow> request ! 0 = 11 \<longrightarrow> hd bs = 8 \<longrightarrow> drop 12 bs = img (request_block request)) \<and>
    (\<forall>bs. res = Durable_Handled bs \<longrightarrow> request ! 0 = 13 \<and> request ! 9 = 4 \<longrightarrow> hd bs = 7 \<longrightarrow>
       \<not> du_faulted (du_work s') \<and> img' (request_block request) = staged (du_protocol s))"
proof -
  have rest: "durable_rest drv live crash mk s img" and holds: "protocol_holds (du_protocol s) img" and idle: "\<not> du_handling (du_work s)"
    using assms(3) by (simp_all add: durable_at_def)
  have "\<not> du_faulted (du_work s)" using rest by (simp add: durable_rest_def Let_def)
  from this assms(4) show ?thesis
  proof (cases rule: durable_handle_cases)
    case (refused n)
    have "durable_rest drv live crash mk s' img"
      using rest durable_rest_cong [of s' s drv live crash mk img] by (simp add: refused(1))
    moreover have "durable_model drv (du_work s') = durable_model drv (du_work s)"
      by (rule durable_model_cong) (simp_all add: refused(1))
    ultimately show ?thesis
      using holds idle refused durable_rest_survives [OF rest, of img] by (intro exI [of _ img]) (auto simp: durable_at_def card_change_def)
  next
    case (served s1 p r)
    let ?s = "s\<lparr>du_work := (du_work s)\<lparr>du_handling := True\<rparr>\<rparr>"
    have rest0: "durable_rest drv live crash mk ?s img" using rest durable_rest_cong [of ?s s drv live crash mk img] by simp
    have K: "durable_model drv (du_work ?s) = durable_model drv (du_work s)" by (rule durable_model_cong) simp_all
    obtain img' where eff: "storage_effect drv live crash mk ?s (du_protocol s) img request img' s1 p r"
      using handle_result [OF assms(1,2) rest0 _ holds _ served(1)] by auto
    note eff = eff [unfolded storage_effect_def K]
    let ?t = "s1\<lparr>du_work := (du_work s1)\<lparr>du_handling := False\<rparr>, du_protocol := p\<rparr>"
    note end_facts = durable_reply_result [OF served(2)]
    have K1: "durable_model drv (du_work ?t) = durable_model drv (du_work s1)" by (rule durable_model_cong) simp_all
    have rest1: "durable_rest drv live crash mk ?t img' = durable_rest drv live crash mk s1 img'"
      using durable_rest_cong [of ?t s1 drv live crash mk img'] by simp
    have w: "durable_world s' = durable_world s1" "du_protocol s' = p" "\<not> du_handling (du_work s')"
      "durable_model drv (du_work s') = durable_model drv (du_work s1)"
      using end_facts(1-3) end_facts(4) [of drv] K1 by simp_all
    have live: "\<not> du_faulted (du_work s') \<Longrightarrow> \<not> du_faulted (du_work s1) \<and> durable_rest drv live crash mk s' img' = durable_rest drv live crash mk s1 img'"
      using end_facts(5) [of drv live crash mk img'] rest1 by simp
    have out: "res = Durable_Handled bs \<Longrightarrow> r = Handled bs \<and> du_faulted (du_work s') = du_faulted (du_work s1)" for bs
      using end_facts(6) by simp
    have code: "reply_code r = Some (hd bs)" if "res = Durable_Handled bs" for bs using out [OF that] by (simp add: reply_code_def)
    have read: "drop 12 bs = img (request_block request)" if h: "res = Durable_Handled bs" "request ! 0 = 11" "hd bs = 8" for bs
    proof -
      have "r = reply 8 (address (du_protocol s) AND 0xc0) (address (du_protocol s)) (window request 4 8 @ img (request_block request))"
        "length request = 12" using eff code [OF h(1)] h(2,3) by simp_all
      then show ?thesis using out [OF h(1)] by (simp add: reply_def length_window)
    qed
    have sync: "\<not> du_faulted (du_work s') \<and> img' (request_block request) = staged (du_protocol s)"
      if h: "res = Durable_Handled bs" "request ! 0 = 13" "request ! 9 = 4" "hd bs = 7" for bs
      using eff code [OF h(1)] out [OF h(1)] h(2-4) by simp
    have at: "\<not> du_faulted (du_work s') \<longrightarrow> durable_at drv live crash mk s' img'"
      using eff live w by (simp add: durable_at_def)
    show ?thesis using eff at w read sync by (intro exI [of _ img']) auto
  qed
qed

section \<open>The handoff and the start of a card\<close>

definition store_extent_of :: "durable_extent \<Rightarrow> store_extent" where
  "store_extent_of e = \<lparr>first_lba = ucast (de_lba e), sectors = de_blocks e\<rparr>"

lemma unat_u32: "unat (x :: u32) < 2 ^ 32"
  using unsigned_less [of x, where ?'a = nat] by simp

lemma store_extent_of_simps [simp]:
  "unat (first_lba (store_extent_of e)) = unat (de_lba e)" "sectors (store_extent_of e) = de_blocks e"
  by (simp_all add: store_extent_of_def)

lemma extents_meet_of: "extents_meet (store_extent_of a) (store_extent_of b) = de_meet a b"
proof -
  have "unat (first_lba (store_extent_of e) + ucast (sectors (store_extent_of e))) = de_end e" for e
    using unat_u32 [of "de_lba e"] unat_u32 [of "de_blocks e"] by (simp add: unat_word_ariths de_end_def)
  then show ?thesis by (simp add: extents_meet_def de_meet_def word_less_nat_alt)
qed

lemma geometry_scan_extents:
  "geometry_scan other cap count expected seen es tot \<Longrightarrow> length seen \<le> count \<Longrightarrow> tot \<le> expected \<Longrightarrow>
   extents_scan (map store_extent_of seen) (map store_extent_of (take (count - length seen) es)) cap expected tot \<and>
   (\<forall>a\<in>set (take (count - length seen) es). \<forall>b\<in>set other. \<not> de_meet a b)"
proof (induction es arbitrary: seen tot)
  case Nil
  then show ?case by simp
next
  case (Cons e es)
  show ?case
  proof (cases "length seen \<ge> count")
    case True
    have tail: "tot = expected" if "geometry_scan other cap count expected seen xs tot" "length seen \<ge> count" for seen xs tot
      using that by (induction xs arbitrary: seen) (auto split: if_splits)
    show ?thesis using True tail [OF Cons.prems(1) True] by simp
  next
    case False
    have step: "de_blocks e \<noteq> 0" "unat (de_blocks e) \<le> expected - tot" "de_end e \<le> unat cap" "\<forall>d\<in>set other. \<not> de_meet e d"
      "\<forall>d\<in>set seen. \<not> de_meet e d" "geometry_scan other cap count expected (seen @ [e]) es (tot + unat (de_blocks e))"
      using Cons.prems(1) False by (auto simp: list_all_iff split: if_splits)
    have rec: "extents_scan (map store_extent_of (seen @ [e])) (map store_extent_of (take (count - length (seen @ [e])) es)) cap expected
        (tot + unat (de_blocks e)) \<and> (\<forall>a\<in>set (take (count - length (seen @ [e])) es). \<forall>b\<in>set other. \<not> de_meet a b)"
      using step(2) False Cons.prems(3) by (intro Cons.IH [OF step(6)]) simp_all
    obtain k where k: "count - length seen = Suc k" "count - Suc (length seen) = k" using False by (cases "count - length seen") auto
    have "extent_in cap (store_extent_of e)" using step(1,3) by (simp add: extent_in_def de_end_def)
    then have "\<not> (sectors (store_extent_of e) = 0 \<or> unat (sectors (store_extent_of e)) > expected - tot \<or>
        ucast (sectors (store_extent_of e)) > cap \<or> first_lba (store_extent_of e) > cap - ucast (sectors (store_extent_of e)))"
      using step(2) by (subst extent_in_check [OF refl]) simp
    moreover have "list_all (\<lambda>d. \<not> extents_meet (store_extent_of e) d) (map store_extent_of seen)"
      using step(5) by (simp add: list_all_iff extents_meet_of)
    ultimately show ?thesis using rec step(4) by (simp add: k Let_def)
  qed
qed

lemma handoff_maps_valid:
  assumes "durable_card_geometry (du_handoff w)" and "du_maps w = durable_maps (du_handoff w)"
    and "length (ho_base (du_handoff w)) = 16" and "length (ho_journal (du_handoff w)) = 2"
  shows "maps_valid (durable_config w)"
proof -
  let ?h = "du_handoff w"
  let ?n = "unat (ho_base_count ?h)" and ?k = "unat (ho_journal_count ?h)" and ?cap = "ho_card_sectors ?h"
  have g: "?cap \<noteq> 0" "\<not> zeroes (ho_image_id ?h)" "ho_base_count ?h \<noteq> 0" "ho_base_count ?h \<le> 16" "ho_journal_count ?h \<noteq> 0"
    "ho_journal_count ?h \<le> 2" "geometry_scan [] ?cap ?n 256 [] (ho_base ?h) 0"
    "geometry_scan (take ?n (ho_base ?h)) ?cap ?k 2 [] (ho_journal ?h) 0"
    using assms(1) by (auto simp: durable_card_geometry_def Let_def not_less split: if_splits)
  have n: "0 < ?n" "?n \<le> 16" "0 < ?k" "?k \<le> 2" using g(3-6) by (simp_all add: unat_pos word_le_nat_alt)
  have base: "extents_scan [] (map store_extent_of (take ?n (ho_base ?h))) ?cap 256 0" using geometry_scan_extents [OF g(7)] by simp
  have jour: "extents_scan [] (map store_extent_of (take ?k (ho_journal ?h))) ?cap 2 0"
    and apart: "\<forall>a\<in>set (take ?k (ho_journal ?h)). \<forall>b\<in>set (take ?n (ho_base ?h)). \<not> de_meet a b"
    using geometry_scan_extents [OF g(8)] by simp_all
  have maps: "du_maps w = map store_extent_of (take ?n (ho_base ?h)) @ map store_extent_of (take ?k (ho_journal ?h))"
    by (simp add: assms(2) durable_maps_def store_extent_of_def)
  have cfg: "image_extents (durable_config w) = map store_extent_of (take ?n (ho_base ?h))"
    "journal_extents (durable_config w) = map store_extent_of (take ?k (ho_journal ?h))"
    "cfg_card_sectors (durable_config w) = ?cap" "cfg_image_id (durable_config w) = ho_image_id ?h"
    using n assms(3,4) by (simp_all add: durable_config_def Let_def maps)
  have "extents_valid (image_extents (durable_config w)) ?cap 256" "extents_valid (journal_extents (durable_config w)) ?cap 2"
    using base jour n assms(3,4) by (auto simp: extents_valid_def cfg)
  moreover have "\<not> extents_meet a b" if "a \<in> set (image_extents (durable_config w))" "b \<in> set (journal_extents (durable_config w))" for a b
  proof -
    obtain x y where xy: "a = store_extent_of x" "b = store_extent_of y" "x \<in> set (take ?n (ho_base ?h))" "y \<in> set (take ?k (ho_journal ?h))"
      using \<open>a \<in> _\<close> \<open>b \<in> _\<close> unfolding cfg set_map by blast
    then have "\<not> de_meet y x" using apart by blast
    then show ?thesis by (auto simp: xy(1,2) extents_meet_of de_meet_def)
  qed
  ultimately show ?thesis using g(1,2) by (simp add: maps_valid_def cfg list_all_iff)
qed

text \<open>The C types of a handoff.\<close>

definition handoff_typed :: "durable_handoff \<Rightarrow> bool" where
  "handoff_typed h =
     (length (ho_cid h) = 16 \<and> length (ho_image_id h) = 16 \<and> length (ho_base h) = 16 \<and> length (ho_journal h) = 2
      \<and> length (ho_block_crc h) = 256 \<and> length (ho_base_sha256 h) = 32)"

lemma seal_validates: "kui_vmu_durable_handoff_seal h = Some h' \<Longrightarrow> kui_vmu_durable_handoff_validate h'"
  by (auto simp: kui_vmu_durable_handoff_seal_def kui_vmu_durable_handoff_validate_def Let_def durable_card_geometry_def handoff_bytes_def
      split: if_splits)

lemma started_work:
  assumes "kui_vmu_durable_init_address addr h world started = Inr s"
  shows "du_handoff (du_work s) = h" "du_maps (du_work s) = durable_maps h" "durable_world s = world" "du_ready (du_work s)"
    "\<not> du_faulted (du_work s)" "\<not> du_inflight (du_work s)" "\<not> du_bound (du_work s)" "\<not> du_handling (du_work s)"
    "emu_inv (du_protocol s)" "\<not> committed_valid (du_protocol s)" "kui_vmu_durable_handoff_validate h"
proof -
  obtain p where p: "kui_vmu_emulation_init addr = Some p"
    using assms by (auto simp: kui_vmu_durable_init_address_def split: if_splits option.splits)
  have np: "\<not> committed_valid p" using p by (auto simp: kui_vmu_emulation_init_def Let_def split: if_splits)
  show "du_handoff (du_work s) = h" "du_maps (du_work s) = durable_maps h" "durable_world s = world" "du_ready (du_work s)"
    "\<not> du_faulted (du_work s)" "\<not> du_inflight (du_work s)" "\<not> du_bound (du_work s)" "\<not> du_handling (du_work s)"
    "emu_inv (du_protocol s)" "\<not> committed_valid (du_protocol s)" "kui_vmu_durable_handoff_validate h"
    using assms p np emulation_init_inv [OF p] by (auto simp: kui_vmu_durable_init_address_def split: if_splits)
qed

text \<open>A card started on an admitted handoff stands for the image on the medium.\<close>

lemma started_at:
  assumes "handoff_typed h" and "kui_vmu_durable_init_address addr h world started = Inr s"
    and "medium_at live crash (durable_model drv (du_work s)) world img"
    and "\<forall>b<256. ho_block_crc h ! b = kui_retail_crc32 0 (img b)"
  shows "durable_at drv live crash (marker_lba (durable_model drv (du_work s))) s img"
proof -
  note w = started_work [OF assms(2)]
  have "durable_card_geometry h" using w(11) by (simp add: kui_vmu_durable_handoff_validate_def)
  then have "maps_valid (durable_config (du_work s))"
    using handoff_maps_valid [of "du_work s"] w(1,2) assms(1) by (simp add: handoff_typed_def)
  then show ?thesis
    using w assms \<open>durable_card_geometry h\<close>
    by (simp add: durable_at_def durable_rest_def durable_setup_def durable_admitted_def protocol_holds_def Let_def handoff_typed_def)
qed

section \<open>On a healthy card every operation succeeds\<close>

text \<open>Callbacks that succeed in the contexts \<open>fit\<close> on the sectors \<open>area\<close>, and stay in such contexts.\<close>

locale working_reader =
  fixes io :: "'c vmu_store_io" and fit :: "'c \<Rightarrow> bool" and area :: "u64 set"
  assumes reads: "\<lbrakk>fit c; l \<in> area\<rbrakk> \<Longrightarrow> \<exists>c' d. read_sector io c l = (c', Some d) \<and> fit c'"
begin

lemma store_read_works:
  assumes "read_sector (st_io s) = read_sector io" and "fit (store_context s)" and "st_ready s" and "b < 256" and "block_lba s b \<in> area"
  shows "\<exists>t d. kui_vmu_store_read s b = (t, Store_OK, Some d) \<and> fit (store_context t)"
proof -
  obtain c d where "read_sector io (store_context s) (block_lba s b) = (c, Some d)" "fit c" using reads [OF assms(2,5)] by blast
  then show ?thesis using assms by (simp add: kui_vmu_store_read_def store_read_sector_def)
qed

end

locale working_writer = working_reader io fit area for io :: "'c vmu_store_io" and fit area +
  assumes writes: "\<lbrakk>fit c; l \<in> area\<rbrakk> \<Longrightarrow> \<exists>c'. write_sector io c l d = (c', True) \<and> fit c'"
    and syncs: "fit c \<Longrightarrow> \<exists>c'. dev_sync io c = (c', True) \<and> fit c'"
begin

definition works :: "'c vmu_store \<Rightarrow> 'c vmu_store \<Rightarrow> bool" where
  "works s t =
     (write_sector (st_io t) = write_sector (st_io s) \<and> dev_sync (st_io t) = dev_sync (st_io s) \<and> fit (store_context t)
      \<and> st_image t = st_image s \<and> st_journal t = st_journal s)"

lemma write_works:
  assumes "write_sector (st_io s) = write_sector io" and "dev_sync (st_io s) = dev_sync io" and "fit (store_context s)" and "l \<in> area"
  shows "\<exists>t. write_sync s l d = (t, Store_OK) \<and> works s t"
proof -
  obtain c where c: "write_sector io (store_context s) l d = (c, True)" "fit c" using writes [OF assms(3,4)] by blast
  obtain c2 where "dev_sync io c = (c2, True)" "fit c2" using syncs [OF c(2)] by blast
  then show ?thesis using c assms by (simp add: write_sync_def works_def set_context_def)
qed

lemma store_write_works:
  assumes "write_sector (st_io s) = write_sector io" and "dev_sync (st_io s) = dev_sync io" and "fit (store_context s)"
    and "st_ready s" and "b < 256" and "block_lba s b \<in> area" and "data_lba s \<in> area" and "marker_lba s \<in> area"
  shows "\<exists>t. kui_vmu_store_write s b d = (t, Store_OK) \<and> fit (store_context t)"
proof -
  let ?s0 = "s\<lparr>st_data := d, st_marker := replicate 512 0\<rparr>"
  obtain s1 where w1: "write_sync ?s0 (marker_lba s) (replicate 512 0) = (s1, Store_OK)" "works ?s0 s1"
    using write_works [of ?s0] assms by auto
  obtain s2 where w2: "write_sync s1 (data_lba s1) (st_data s1) = (s2, Store_OK)" "works s1 s2"
    using write_works [of s1 "data_lba s1"] assms w1(2) by (auto simp: works_def)
  define q where "q = (if st_sequence s2 = 0xffffffffffffffff then 1 else st_sequence s2 + 1)"
  let ?s2 = "s2\<lparr>st_sequence := q, st_marker := store_marker (s2\<lparr>st_sequence := q\<rparr>) b (st_data s2) q\<rparr>"
  obtain s3 where w3: "write_sync ?s2 (marker_lba s) (st_marker ?s2) = (s3, Store_OK)" "works ?s2 s3"
    using write_works [of ?s2 "marker_lba s"] assms w1(2) w2(2) by (auto simp: works_def)
  obtain s4 where w4: "write_sync s3 (block_lba s3 b) (st_data s3) = (s4, Store_OK)" "works s3 s4"
    using write_works [of s3 "block_lba s3 b"] assms w1(2) w2(2) w3(2) by (auto simp: works_def)
  have "kui_vmu_store_write s b d = (s4, Store_OK)"
    using assms(4,5) w1(1) w2(1) w3(1) w4(1) by (simp add: kui_vmu_store_write_def Let_def q_def)
  then show ?thesis using w4(2) by (simp add: works_def)
qed

end

text \<open>A driver and a lease without failures, on the card that the handoff names.\<close>

definition healthy_driver :: "'w sd_driver \<Rightarrow> durable_handoff \<Rightarrow> bool" where
  "healthy_driver drv h =
     (\<forall>w c l d. loan_ready c \<longrightarrow>
        (\<exists>w' c' x. sd_read drv w c l = (w', c', 0, x) \<and> loan_ready c')
      \<and> (\<exists>w' c'. sd_write drv w c l d = (w', c', 0) \<and> loan_ready c')
      \<and> (\<exists>w' c'. sd_sync drv w c = (w', c', 0) \<and> loan_ready c')
      \<and> (\<exists>w' c'. sd_identity drv w c = (w', c', Some (ho_cid h, ho_card_sectors h, ho_high_capacity h \<noteq> 0)) \<and> loan_ready c'))"

definition good_loan :: "durable_handoff \<Rightarrow> sd_loan \<Rightarrow> bool" where
  "good_loan h loan =
     (loan_ready loan \<and> \<not> loan_slow loan \<and> loan_select loan \<and> loan_transfer loan \<and> loan_ticks loan
      \<and> loan_blocks loan = ho_card_sectors h \<and> loan_high_capacity loan = (ho_high_capacity h \<noteq> 0))"

definition healthy_lease :: "('w \<Rightarrow> u64 \<Rightarrow> bytes) \<Rightarrow> ('w \<Rightarrow> (u64 \<Rightarrow> bytes) set) \<Rightarrow> 'w sd_lease \<Rightarrow> durable_handoff \<Rightarrow> bool" where
  "healthy_lease live crash lease h =
     (\<forall>run s. \<exists>w1 loan s1 loan1 ok w2. steady live crash (durable_world s) w1 \<and> good_loan h loan \<and>
        run (put_world s w1) loan = (s1, loan1, ok) \<and> steady live crash (durable_world s1) w2 \<and>
        lease run s = (put_world s1 w2, if ok then Lease_OK else Lease_Fault))"

definition fit_scope :: "'w sd_driver \<Rightarrow> 'w durable_work \<Rightarrow> 'w scope_context \<Rightarrow> bool" where
  "fit_scope drv w c =
     (healthy_driver drv (du_handoff w) \<and> durable_admitted w \<and> du_inflight w \<and> du_invoked w
      \<and> (case c of None \<Rightarrow> False
         | Some scope \<Rightarrow> work_frame w (sc_owner scope) \<and> \<not> du_faulted (sc_owner scope) \<and> \<not> sc_binding scope \<and> loan_ready (sc_card scope)))"

definition work_area :: "'w durable_work \<Rightarrow> u64 set" where
  "work_area w = set (all_sectors (durable_config w))"

lemma extent_sector:
  assumes "l < map_sectors es" and "\<forall>e\<in>set es. extent_in cap e" and "unat cap \<le> 2 ^ 32"
  shows "\<exists>e\<in>set es. first_lba e \<le> sector_lba es l \<and> sector_lba es l - first_lba e < ucast (sectors e) \<and> sector_lba es l < cap \<and> sector_lba es l \<le> 0xffffffff"
proof -
  obtain e where e: "e \<in> set es" "unat (sector_lba es l) \<in> extent_range e" using sector_lba_range [OF assms(2,1)] by blast
  let ?l = "sector_lba es l"
  have r: "unat (first_lba e) \<le> unat ?l" "unat ?l < unat (first_lba e) + unat (sectors e)" using e(2) by (simp_all add: extent_range_def)
  have le: "first_lba e \<le> ?l" using r(1) by (simp add: word_le_nat_alt)
  moreover have "?l - first_lba e < ucast (sectors e)"
    using r le by (simp add: word_less_nat_alt unat_sub)
  moreover have "unat ?l < unat cap" using r(2) assms(2) e(1) by (fastforce simp: extent_in_def)
  ultimately show ?thesis using e(1) assms(3) by (intro bexI [of _ e]) (simp_all add: word_less_nat_alt word_le_nat_alt)
qed

lemma area_allowed:
  assumes "durable_admitted w" and "l \<in> work_area w" and "work_frame w v" and "du_inflight w" and "du_invoked w" and "\<not> du_faulted v"
  shows "durable_card_allowed v l"
proof -
  let ?h = "du_handoff w"
  let ?n = "unat (ho_base_count ?h)" and ?k = "unat (ho_journal_count ?h)" and ?cap = "ho_card_sectors ?h"
  have mv: "maps_valid (durable_config w)"
    using handoff_maps_valid [of w] assms(1) by (simp add: durable_admitted_def)
  have geo: "unat ?cap \<le> 2 ^ 32" "?n \<le> 16" "?k \<le> 2"
    using assms(1) by (auto simp: durable_admitted_def durable_card_geometry_def Let_def not_less word_le_nat_alt split: if_splits)
  have cap: "cfg_card_sectors (durable_config w) = ?cap" by (simp add: durable_config_def Let_def)
  have ok: "map_ok ?cap 256 (image_extents (durable_config w))" "map_ok ?cap 2 (journal_extents (durable_config w))"
    using mv extents_valid_map_ok by (auto simp: maps_valid_def cap split: if_splits)
  have sub: "set (image_extents (durable_config w)) \<union> set (journal_extents (durable_config w)) \<subseteq> set (take (?n + ?k) (du_maps w))"
    by (auto simp: durable_config_def Let_def take_add dest: in_set_takeD)
  have count: "unat (ho_base_count ?h + ho_journal_count ?h) = ?n + ?k" using geo(2,3) by (simp add: unat_word_ariths)
  obtain es i m where es: "l = sector_lba es i" "i < m" "map_ok ?cap m es"
    "es = image_extents (durable_config w) \<or> es = journal_extents (durable_config w)"
    using assms(2) ok by (auto simp: work_area_def all_sectors_def)
  then obtain e where e: "e \<in> set es" "first_lba e \<le> l" "l - first_lba e < ucast (sectors e)" "l < ?cap" "l \<le> 0xffffffff"
    using extent_sector [of i es ?cap] geo(1) by (auto simp: map_ok_def)
  have "e \<in> set (take (?n + ?k) (du_maps w))" using e(1) es(4) sub by blast
  then show ?thesis
    using e(2-5) assms(3-6) by (auto simp: durable_card_allowed_def work_frame_def count list_ex_iff not_le not_less)
qed

lemma fit_scope_cases:
  assumes "fit_scope drv w c"
  obtains scope where "c = Some scope" "work_frame w (sc_owner scope)" "\<not> du_faulted (sc_owner scope)" "\<not> sc_binding scope"
    "loan_ready (sc_card scope)" "healthy_driver drv (du_handoff w)" "durable_admitted w" "du_inflight w" "du_invoked w"
  using assms by (cases c) (simp_all add: fit_scope_def)

interpretation durable_reader: working_reader "durable_io drv ctx" "fit_scope drv w" "work_area w"
proof
  fix c :: "'a scope_context" and l :: u64
  assume fit: "fit_scope drv w c" and l: "l \<in> work_area w"
  from fit obtain scope where sc: "c = Some scope" "work_frame w (sc_owner scope)" "\<not> du_faulted (sc_owner scope)" "\<not> sc_binding scope"
    "loan_ready (sc_card scope)" "healthy_driver drv (du_handoff w)" "durable_admitted w" "du_inflight w" "du_invoked w"
    by (rule fit_scope_cases)
  have al: "durable_card_allowed (sc_owner scope) l" by (rule area_allowed [OF sc(7) l sc(2,8,9,3)])
  obtain w' c' x where rd: "sd_read drv (du_world (sc_owner scope)) (sc_card scope) (ucast l) = (w', c', 0, x)" "loan_ready c'"
    using sc(5,6) unfolding healthy_driver_def by blast
  then show "\<exists>c' d. read_sector (durable_io drv ctx) c l = (c', Some d) \<and> fit_scope drv w c'"
    using sc al by (simp add: durable_card_sector_read_def Let_def fit_scope_def work_frame_def)
qed

definition fit_writer :: "'w sd_driver \<Rightarrow> 'w durable_work \<Rightarrow> 'w scope_context \<Rightarrow> bool" where
  "fit_writer drv w c = (fit_scope drv w c \<and> du_operation w = Durable_Write)"

interpretation durable_writer: working_writer "durable_io drv ctx" "fit_writer drv w" "work_area w"
proof
  fix c :: "'a scope_context" and l :: u64 and d :: bytes
  assume fit: "fit_writer drv w c"
  then have op: "du_operation w = Durable_Write" by (simp add: fit_writer_def)
  from fit have "fit_scope drv w c" by (simp add: fit_writer_def)
  then obtain scope where sc: "c = Some scope" "work_frame w (sc_owner scope)" "\<not> du_faulted (sc_owner scope)" "\<not> sc_binding scope"
    "loan_ready (sc_card scope)" "healthy_driver drv (du_handoff w)" "durable_admitted w" "du_inflight w" "du_invoked w"
    by (rule fit_scope_cases)
  have owner: "du_operation (sc_owner scope) = Durable_Write" "du_inflight (sc_owner scope)" "du_invoked (sc_owner scope)"
    using sc(2,8,9) op by (simp_all add: work_frame_def)
  {
    assume "l \<in> work_area w"
    then show "\<exists>c' d. read_sector (durable_io drv ctx) c l = (c', Some d) \<and> fit_writer drv w c'"
      using durable_reader.reads [of drv w c l] fit by (auto simp: fit_writer_def)
  }
  {
    assume l: "l \<in> work_area w"
    have al: "durable_card_allowed (sc_owner scope) l" by (rule area_allowed [OF sc(7) l sc(2,8,9,3)])
    have pio: "loan_ready ((sc_card scope)\<lparr>loan_transfer_block := False\<rparr>)" using sc(5) by simp
    obtain w' c' where "sd_write drv (du_world (sc_owner scope)) ((sc_card scope)\<lparr>loan_transfer_block := False\<rparr>) (ucast l) d = (w', c', 0)" "loan_ready c'"
      using pio sc(6) unfolding healthy_driver_def by blast
    then show "\<exists>c'. write_sector (durable_io drv ctx) c l d = (c', True) \<and> fit_writer drv w c'"
      using sc al op owner
      by (simp add: durable_card_sector_write_def durable_card_pio_write_def Let_def fit_writer_def fit_scope_def work_frame_def)
  }
  obtain w' c' where "sd_sync drv (du_world (sc_owner scope)) (sc_card scope) = (w', c', 0)" "loan_ready c'"
    using sc(5,6) unfolding healthy_driver_def by blast
  then show "\<exists>c'. dev_sync (durable_io drv ctx) c = (c', True) \<and> fit_writer drv w c'"
    using sc op owner by (simp add: durable_card_sector_sync_def Let_def fit_writer_def fit_scope_def work_frame_def)
qed

text \<open>The two computations of a sector's address agree.\<close>

lemma extent_lba_sector:
  "logical < map_sectors (map store_extent_of es) \<Longrightarrow> \<forall>e\<in>set es. de_end e \<le> 2 ^ 32 \<Longrightarrow>
   sector_lba (map store_extent_of es) logical = ucast (extent_lba es logical)"
proof (induction es arbitrary: logical)
  case Nil
  then show ?case by (simp add: map_sectors_def)
next
  case (Cons e es)
  show ?case
  proof (cases "logical < unat (de_blocks e)")
    case True
    have "unat (de_lba e) + logical < 2 ^ 32" using Cons.prems(2) True by (simp add: de_end_def)
    then have "unat (de_lba e + of_nat logical) = unat (de_lba e) + logical"
      "unat (ucast (de_lba e) + of_nat logical :: u64) = unat (de_lba e) + logical"
      by (simp_all add: unat_word_ariths unat_of_nat)
    then have "(ucast (de_lba e) + of_nat logical :: u64) = ucast (de_lba e + of_nat logical)"
      by (simp add: word_unat_eq_iff)
    then show ?thesis using True by (simp add: store_extent_of_def)
  next
    case False
    then show ?thesis using Cons.IH [of "logical - unat (de_blocks e)"] Cons.prems by (simp add: map_sectors_def)
  qed
qed

lemma marker_address:
  assumes "durable_admitted w"
  shows "sector_lba (journal_extents (durable_config w)) 1 = ucast (durable_card_lba w True 1)"
    and "sector_lba (journal_extents (durable_config w)) 1 \<in> work_area w"
proof -
  let ?h = "du_handoff w"
  let ?n = "unat (ho_base_count ?h)" and ?k = "unat (ho_journal_count ?h)" and ?cap = "ho_card_sectors ?h"
  have mv: "maps_valid (durable_config w)" using handoff_maps_valid [of w] assms by (simp add: durable_admitted_def)
  have geo: "unat ?cap \<le> 2 ^ 32" "?n \<le> 16" "?k \<le> 2"
    using assms by (auto simp: durable_admitted_def durable_card_geometry_def Let_def not_less word_le_nat_alt split: if_splits)
  have jour: "journal_extents (durable_config w) = map store_extent_of (take ?k (ho_journal ?h))"
    using geo assms by (simp add: durable_config_def Let_def durable_admitted_def durable_maps_def store_extent_of_def)
  have cap: "cfg_card_sectors (durable_config w) = ?cap" by (simp add: durable_config_def Let_def)
  have ok: "map_ok ?cap 2 (journal_extents (durable_config w))"
    using mv extents_valid_map_ok by (auto simp: maps_valid_def cap split: if_splits)
  have "de_end e \<le> 2 ^ 32" if "e \<in> set (take ?k (ho_journal ?h))" for e
    using ok that geo(1) by (fastforce simp: map_ok_def jour extent_in_def de_end_def)
  then show "sector_lba (journal_extents (durable_config w)) 1 = ucast (durable_card_lba w True 1)"
    using extent_lba_sector [of 1 "take ?k (ho_journal ?h)"] ok by (simp add: map_ok_def jour durable_card_lba_def Let_def)
  show "sector_lba (journal_extents (durable_config w)) 1 \<in> work_area w"
    by (simp add: work_area_def all_sectors_def upt_rec)
qed

lemma fit_on_owner:
  assumes "fit_scope drv w (store_context st)" and "\<And>v. du_faulted (f v) = du_faulted v" and "\<And>v. work_frame w v \<Longrightarrow> work_frame w (f v)"
  shows "fit_scope drv w (store_context (on_owner f st))"
  using assms(1) by (rule fit_scope_cases) (simp add: on_owner_def on_scope_def fit_scope_def assms(2,3))

lemma bind_works:
  assumes "sd_medium drv live crash mk" and "durable_setup drv w mk" and "durable_admitted w" and "healthy_driver drv (du_handoff w)"
    and "du_inflight w" and "du_invoked w" and "\<not> du_faulted w" and "live (du_world w) mk = replicate 512 0" and "loan_ready sd"
  shows "\<exists>st. bind_store drv \<lparr>sc_owner = w, sc_card = sd, sc_binding = True\<rparr> = (st, Store_OK) \<and> fit_scope drv w (store_context st)"
proof -
  let ?scope = "\<lparr>sc_owner = w, sc_card = sd, sc_binding = True\<rparr>"
  let ?io = "durable_io drv (Some ?scope)" and ?cfg = "durable_config w"
  let ?s = "configured ?io ?cfg"
  have mv: "maps_valid ?cfg" and mk: "mk = sector_lba (journal_extents ?cfg) 1"
    using assms(2) by (simp_all add: durable_setup_def durable_model_fields)
  note addr = marker_address [OF assms(3), folded mk]
  have al: "durable_card_allowed w mk" by (rule area_allowed [OF assms(3) addr(2) work_frame_refl assms(5,6,7)])
  then have "mk \<le> 0xffffffff" by (auto simp: durable_card_allowed_def split: if_splits)
  then have mk32: "ucast (ucast mk :: u32) = mk" by (rule ucast_32_64)
  obtain w' c' x where rd: "sd_read drv (du_world w) sd (ucast mk) = (w', c', 0, x)" "loan_ready c'"
    using assms(4,9) unfolding healthy_driver_def by blast
  have x: "x = replicate 512 0" using sd_medium_laws(1) [OF assms(1) rd(1)] assms(8) by (simp add: mk32)
  define v where "v = w\<lparr>du_last_lba := ucast mk, du_world := w', last_sd_result := 0, du_bounce := x, du_sd_reads := increment (du_sd_reads w)\<rparr>"
  have v: "work_frame w v" "\<not> du_faulted v" using assms(7) by (simp_all add: v_def work_frame_def)
  have "durable_card_sector_read drv (Some ?scope) mk = (Some (?scope\<lparr>sc_owner := v, sc_card := c'\<rparr>), Some x)"
    using al rd addr(1) by (simp add: durable_card_sector_read_def Let_def v_def x zeroes_def list_all_iff)
  then have "store_read_sector ?s (marker_lba ?s) = (set_context ?s (Some (?scope\<lparr>sc_owner := v, sc_card := c'\<rparr>)), Some x)"
    by (simp add: store_read_sector_def configured_def Let_def mk)
  then have rec: "recover ?s = ((set_context ?s (Some (?scope\<lparr>sc_owner := v, sc_card := c'\<rparr>)))\<lparr>st_marker := x\<rparr>, Store_OK)"
    using cleared_marker by (simp add: recover_def Let_def x)
  let ?t = "((set_context ?s (Some (?scope\<lparr>sc_owner := v, sc_card := c'\<rparr>)))\<lparr>st_marker := x\<rparr>)\<lparr>st_ready := True\<rparr>"
  have op: "kui_vmu_store_open ?io ?cfg = (?t, Store_OK)" by (simp add: open_configured [OF mv] rec)
  let ?u = "on_owner (\<lambda>s. s\<lparr>last_store_result := Store_OK\<rparr>) ?t"
  have ctx: "store_context ?u = Some \<lparr>sc_owner = v\<lparr>last_store_result := Store_OK\<rparr>, sc_card = c', sc_binding = True\<rparr>"
    by (simp add: on_owner_def on_scope_def)
  let ?r = "on_scope (\<lambda>sc. sc\<lparr>sc_binding := False, sc_owner := (sc_owner sc)\<lparr>du_bound_candidate := True\<rparr>\<rparr>) ?u"
  have "store_context ?r = Some \<lparr>sc_owner = v\<lparr>last_store_result := Store_OK, du_bound_candidate := True\<rparr>, sc_card = c', sc_binding = False\<rparr>"
    unfolding on_scope_def [of _ ?u] set_context_simps ctx by simp
  then have "fit_scope drv w (store_context ?r)"
    using assms(3-6) v rd(2) by (simp add: fit_scope_def work_frame_def)
  moreover have "bind_store drv ?scope = (?r, Store_OK)" by (simp add: bind_store_def op Let_def)
  ultimately show ?thesis by blast
qed

lemma in_store_ready:
  assumes "in_store drv live crash w st img" and "durable_setup drv w mk"
  shows "st_ready st" and "b < 256 \<Longrightarrow> block_lba st b \<in> work_area w" and "data_lba st \<in> work_area w" and "marker_lba st \<in> work_area w"
    and "read_sector (st_io st) = durable_card_sector_read drv" "write_sector (st_io st) = durable_card_sector_write drv"
    "dev_sync (st_io st) = durable_card_sector_sync drv"
proof -
  have same: "same_store (durable_model drv w) st" and at: "store_at (scope_live live) (scope_crash crash) st img"
    using assms(1) by (simp_all add: in_store_def)
  have maps: "st_image st = image_extents (durable_config w)" "st_journal st = journal_extents (durable_config w)"
    using same by (simp_all add: same_store_def durable_model_def configured_def Let_def)
  show "st_ready st" using at by (simp add: store_at_def)
  show "b < 256 \<Longrightarrow> block_lba st b \<in> work_area w" by (simp add: maps work_area_def all_sectors_def)
  show "data_lba st \<in> work_area w" "marker_lba st \<in> work_area w" by (simp_all add: maps work_area_def all_sectors_def upt_rec)
  show "read_sector (st_io st) = durable_card_sector_read drv" "write_sector (st_io st) = durable_card_sector_write drv"
    "dev_sync (st_io st) = durable_card_sector_sync drv"
    using same durable_model_fields(2) [of drv w] by (simp_all add: same_store_def)
qed

lemma write_store_works:
  assumes "in_store drv live crash w st img" and "durable_setup drv w mk" and "fit_scope drv w (store_context st)" and "du_block w < 256"
  shows "\<exists>t. write_store data st = (t, Store_OK) \<and> fit_scope drv w (store_context t)"
proof (cases "du_operation w = Durable_Write")
  case False
  have "du_operation (store_owner st) = du_operation w"
    using assms(1) by (simp add: in_store_def entered_def work_frame_def)
  then show ?thesis using False assms(3) by (simp add: write_store_def)
next
  case True
  note f = in_store_ready [OF assms(1,2)]
  have owner: "du_operation (store_owner st) = Durable_Write" "du_block (store_owner st) = du_block w"
    using assms(1) True by (simp_all add: in_store_def entered_def work_frame_def)
  have "fit_writer drv w (store_context st)" using assms(3) True by (simp add: fit_writer_def)
  then obtain t where t: "kui_vmu_store_write st (du_block w) data = (t, Store_OK)" "fit_writer drv w (store_context t)"
    using durable_writer.store_write_works [where drv = drv and w = w and ctx = None and s = st and b = "du_block w" and d = data] f assms(4) by auto
  have "fit_scope drv w (store_context (on_owner (\<lambda>s. s\<lparr>last_store_result := Store_OK\<rparr>) t))"
    using t(2) by (intro fit_on_owner) (simp_all add: fit_writer_def work_frame_def)
  then show ?thesis using t(1) owner by (simp add: write_store_def)
qed

lemma read_works:
  assumes "in_store drv live crash w st img" and "durable_setup drv w mk" and "fit_scope drv w (store_context st)" and "du_block w < 256"
  shows "\<exists>t. read_store st = (t, Store_OK) \<and> fit_scope drv w (store_context t)"
proof -
  note f = in_store_ready [OF assms(1,2)]
  have owner: "du_block (store_owner st) = du_block w" using assms(1) by (simp add: in_store_def entered_def work_frame_def)
  obtain t d where t: "kui_vmu_store_read st (du_block w) = (t, Store_OK, Some d)" "fit_scope drv w (store_context t)"
    using durable_reader.store_read_works [where drv = drv and w = w and ctx = None and s = st and b = "du_block w"] f assms(3,4) by auto
  have "fit_scope drv w (store_context (on_owner (\<lambda>s. s\<lparr>last_store_result := Store_OK\<rparr>) t))"
    using t(2) by (intro fit_on_owner) (simp_all add: work_frame_def)
  then show ?thesis using t(1) owner by (simp add: read_store_def)
qed

lemma verify_works:
  assumes "in_store drv live crash w st img" and "fit_scope drv w (store_context st)"
    and "du_bounce (store_owner st) = img (du_block w)"
    and "if du_operation w = Durable_Write then st_data st = img (du_block w) else du_crc_expected w = kui_retail_crc32 0 (img (du_block w))"
  shows "\<exists>s'. verify_store s st loan = (s', loan, True) \<and> \<not> du_faulted (du_work s') \<and> du_verified (du_work s') \<and> du_invoked (du_work s')"
proof -
  define v where "v = (store_owner st)\<lparr>du_crc_actual := kui_retail_crc32 0 (du_bounce (store_owner st))\<rparr>"
  let ?st = "on_owner (\<lambda>s. s\<lparr>du_crc_actual := kui_retail_crc32 0 (du_bounce s)\<rparr>) st"
  have en: "entered w st" using assms(1) by (simp add: in_store_def)
  have owner: "store_owner ?st = v" using on_owner_simps(1) [OF en] by (simp add: v_def)
  have frame: "work_frame w (store_owner st)" using en by (simp add: entered_def)
  have nf: "\<not> du_faulted (store_owner st)" "du_invoked (store_owner st)"
    using assms(2) frame by (auto elim!: fit_scope_cases simp: store_owner_def work_frame_def)
  have data: "st_data ?st = st_data st" by (simp add: on_owner_def on_scope_def)
  have no: "\<not> (if du_operation v = Durable_Write then du_bounce v \<noteq> st_data ?st else du_crc_actual v \<noteq> du_crc_expected v)"
    using assms(3,4) frame unfolding data by (simp add: v_def work_frame_def split: if_splits)
  have "entered w ?st"
    using en by (rule entered_owner) (use frame in \<open>simp add: work_frame_def\<close>)
  then have owner2: "store_owner (on_owner (\<lambda>s. s\<lparr>du_pending_crc := du_crc_actual s, du_verified := True\<rparr>) ?st)
      = v\<lparr>du_pending_crc := du_crc_actual v, du_verified := True\<rparr>"
    using on_owner_simps(1) [of w ?st] by (simp add: owner)
  have "verify_store s st loan = (leave_store s (on_owner (\<lambda>s. s\<lparr>du_pending_crc := du_crc_actual s, du_verified := True\<rparr>) ?st), loan, True)"
    unfolding verify_store_def Let_def owner if_not_P [OF no] ..
  then show ?thesis using nf by (intro exI conjI) (assumption, simp_all add: owner2 v_def)
qed

lemma store_transaction_works:
  fixes s :: "'w vmu_durable"
  assumes "sd_medium drv live crash mk" and "durable_setup drv w mk" and "medium_at live crash (durable_model drv w) (du_world w) img"
    and "du_bound w \<longrightarrow> store_open live (durable_model drv w) (du_store s) (du_world w) img" and "du_block w < 256" and "w = du_work s"
    and "durable_admitted w" and "healthy_driver drv (du_handoff w)" and "du_inflight w" and "du_invoked w" and "\<not> du_faulted w"
    and "\<not> du_bound w \<longrightarrow> live (du_world w) mk = replicate 512 0" and "loan_ready loan"
    and "du_operation w \<noteq> Durable_Write \<longrightarrow> du_crc_expected w = kui_retail_crc32 0 (img (du_block w))"
  shows "\<exists>s'. store_transaction drv s loan = (s', loan, True) \<and> \<not> du_faulted (du_work s') \<and> du_verified (du_work s') \<and> du_invoked (du_work s')"
proof -
  let ?sd = "if du_operation w = Durable_Write then loan\<lparr>loan_transfer_block := False\<rparr> else loan"
  let ?scope = "\<lparr>sc_owner = w, sc_card = ?sd, sc_binding = \<not> du_bound w\<rparr>" and ?data = "staged (du_protocol s)"
  define img' where "img' = (if du_operation w = Durable_Write then img(du_block w := ?data) else img)"
  have ready: "loan_ready ?sd" using assms(13) by simp
  have "\<exists>st. (if \<not> du_bound w then bind_store drv ?scope else (set_context (du_store s) (Some ?scope), Store_OK)) = (st, Store_OK) \<and>
      fit_scope drv w (store_context st) \<and> in_store drv live crash w st img"
  proof (cases "du_bound w")
    case False
    obtain st where st: "bind_store drv \<lparr>sc_owner = w, sc_card = ?sd, sc_binding = True\<rparr> = (st, Store_OK)" "fit_scope drv w (store_context st)"
      using bind_works [OF assms(1,2,7-11) _ ready] assms(12) False by blast
    then show ?thesis using bind_step [OF assms(1-3) st(1)] False by (auto simp: step_result_def)
  next
    case True
    have "fit_scope drv w (Some ?scope)" using assms(7-11) ready True by (simp add: fit_scope_def)
    then show ?thesis using rest_in_store [OF assms(1-3)] assms(4) True by simp
  qed
  then obtain st1 where one: "(if \<not> du_bound w then bind_store drv ?scope else (set_context (du_store s) (Some ?scope), Store_OK)) = (st1, Store_OK)"
    "fit_scope drv w (store_context st1)" "in_store drv live crash w st1 img" by blast
  obtain st2 where two: "write_store ?data st1 = (st2, Store_OK)" "fit_scope drv w (store_context st2)"
    using write_store_works [OF one(3) assms(2) one(2) assms(5)] by blast
  note wr = write_step [OF one(3) assms(5) two(1), folded img'_def]
  have in2: "in_store drv live crash w st2 img'" using wr by (simp add: step_result_def)
  obtain st3 where three: "read_store st2 = (st3, Store_OK)" "fit_scope drv w (store_context st3)"
    using read_works [OF in2 assms(2) two(2) assms(5)] by blast
  note rd = read_step [OF assms(1) in2 assms(5) three(1)]
  have in3: "in_store drv live crash w st3 img'" using rd by (simp add: step_result_def)
  have check: "if du_operation w = Durable_Write then st_data st3 = img' (du_block w) else du_crc_expected w = kui_retail_crc32 0 (img' (du_block w))"
    using wr rd assms(14) by (simp add: img'_def)
  obtain s' where v: "verify_store s st3 loan = (s', loan, True)" "\<not> du_faulted (du_work s')" "du_verified (du_work s')" "du_invoked (du_work s')"
    using verify_works [OF in3 three(2) _ check] rd by blast
  have "store_transaction drv s loan = verify_store s st3 loan"
    unfolding store_transaction_def Let_def assms(6) [symmetric] durable_scope.simps one(1) two(1) three(1) prod.case by simp
  then show ?thesis using v by simp
qed

lemma transaction_works:
  fixes s :: "'w vmu_durable"
  assumes "sd_medium drv live crash mk" and "durable_setup drv w mk" and "medium_at live crash (durable_model drv w) (du_world w) img"
    and "du_bound w \<longrightarrow> store_open live (durable_model drv w) (du_store s) (du_world w) img" and "du_block w < 256" and "w = du_work s"
    and "durable_admitted w" and "healthy_driver drv (du_handoff w)" and "du_inflight w" and "\<not> du_invoked w" and "\<not> du_faulted w"
    and "\<not> du_bound w \<longrightarrow> live (du_world w) mk = replicate 512 0" and "good_loan (du_handoff w) loan"
    and "du_operation w \<noteq> Durable_Write \<longrightarrow> du_crc_expected w = kui_retail_crc32 0 (img (du_block w))"
    and "du_ready w" and "du_handling w" and "du_operation w \<noteq> No_Operation"
  shows "\<exists>s' loan'. kui_vmu_durable_transaction drv s loan = (s', loan', True) \<and> \<not> du_faulted (du_work s') \<and> du_verified (du_work s') \<and>
    du_invoked (du_work s')"
proof -
  let ?h = "du_handoff w" and ?w1 = "w\<lparr>du_invoked := True\<rparr>"
  have "loan_ready loan" using assms(13) by (simp add: good_loan_def)
  then obtain x l1 where id: "sd_identity drv (du_world w) loan = (x, l1, Some (ho_cid ?h, ho_card_sectors ?h, ho_high_capacity ?h \<noteq> 0))" "loan_ready l1"
    using assms(8) unfolding healthy_driver_def by blast
  have st: "steady live crash (du_world w) x" using sd_medium_laws(7) [OF assms(1) id(1)] by (simp add: steady_def)
  let ?w3 = "?w1\<lparr>du_cid_checks := increment (du_cid_checks w), du_world := x\<rparr>"
  let ?s = "s\<lparr>du_work := ?w3\<rparr>"
  have run: "kui_vmu_durable_transaction drv s loan = store_transaction drv ?s l1"
    using assms(9-11,13,15-17) id by (simp add: kui_vmu_durable_transaction_def Let_def assms(6) [symmetric] good_loan_def)
  have K3: "durable_model drv ?w3 = durable_model drv w" by (rule durable_model_cong) simp_all
  have su: "durable_setup drv ?w3 mk" using assms(2) durable_setup_cong [of ?w3 w drv mk] by simp
  have ad: "durable_admitted ?w3" using assms(7) durable_admitted_cong [of ?w3 w] by simp
  have med: "medium_at live crash (durable_model drv ?w3) (du_world ?w3) img"
    using medium_steady [OF assms(3) st] by (simp add: K3)
  have op: "du_bound ?w3 \<longrightarrow> store_open live (durable_model drv ?w3) (du_store ?s) (du_world ?w3) img"
    using assms(4) store_open_steady [OF _ st] by (simp add: K3)
  have "live x = live (du_world w)" using st by (simp add: steady_def)
  then show ?thesis
    unfolding run using store_transaction_works [OF assms(1) su med op _ _ ad, of l1] assms(5,8,9,11,12,14) id(2) by auto
qed

lemma header_bytes:
  fixes h :: u32 and addr :: u8
  assumes "h AND 0x00ffff00 = push_bit 8 (ucast addr)"
  shows "ucast (drop_bit 8 h) = addr" "(ucast (drop_bit 16 h) :: u8) = 0"
proof -
  have m: "0x00ffff00 = (push_bit 8 (mask 16) :: u32)" by (simp add: mask_eq_exp_minus_1)
  have b: "bit h n = bit addr (n - 8)" if n: "8 \<le> n" "n < 24" for n
  proof -
    have "n - 8 < 32" "n - 8 < 16" using n by simp_all
    have "bit (h AND push_bit 8 (mask 16)) n = bit (push_bit 8 (ucast addr) :: u32) n"
      using assms unfolding m by simp
    then show ?thesis using n \<open>n - 8 < 32\<close> \<open>n - 8 < 16\<close> by (simp add: bit_and_iff bit_push_bit_iff bit_mask_iff bit_unsigned_iff)
  qed
  show "ucast (drop_bit 8 h) = addr"
    by (rule bit_word_eqI) (simp add: bit_unsigned_iff bit_drop_bit_eq b)
  have "\<not> bit addr (n + 8)" for n using bit_imp_le_length [of addr "n + 8"] by auto
  then show "(ucast (drop_bit 16 h) :: u8) = 0"
    by (intro bit_word_eqI) (simp add: bit_unsigned_iff bit_drop_bit_eq b add.commute)
qed

lemma header_top: "ucast (drop_bit 24 (h :: u32)) = (x :: u8) \<Longrightarrow> unat (drop_bit 24 h) = unat x"
proof -
  assume "ucast (drop_bit 24 h) = x"
  moreover have "unat (drop_bit 24 h) < 256"
  proof -
    have "unat h < 2 ^ 32" using unsigned_less [of h, where ?'a = nat] by simp
    then have "unat h div 2 ^ 24 < 256" by simp
    moreover have "unat (drop_bit 24 h) = unat h div 2 ^ 24" by (simp add: drop_bit_eq_div unat_div)
    ultimately show ?thesis by (simp only:)
  qed
  ultimately show ?thesis by (auto simp: unsigned_ucast_eq take_bit_nat_eq_self)
qed
lemma header_cmd: "(h :: u32) AND 255 = ucast (ucast h :: u8)"
proof -
  have m: "255 = (mask 8 :: u32)" by (simp add: mask_eq_exp_minus_1)
  show ?thesis unfolding m by (auto intro!: bit_word_eqI simp: bit_and_iff bit_mask_iff bit_unsigned_iff)
qed
lemma ucast_u8_inject: "((ucast (x :: u8) :: u32) = ucast y) = (x = y)"
proof -
  have "unat (ucast z :: u32) = unat z" for z :: u8
    using unsigned_less [of z, where ?'a = nat] by (simp add: unsigned_ucast_eq take_bit_nat_eq_self)
  then show ?thesis by (simp add: word_unat_eq_iff)
qed

lemma shape_command:
  assumes "durable_card_shape addr (get32 request 0) p0 p1 = n" and "n \<noteq> 0" and "4 \<le> length request"
  shows "request ! 1 = addr" "request ! 2 = 0" "unat (drop_bit 24 (get32 request 0)) = unat (request ! 3)"
    "needed_capacity (request ! 0) \<le> max 8 n"
proof -
  let ?h = "get32 request 0"
  have b: "ucast ?h = request ! 0" "ucast (drop_bit 8 ?h) = request ! 1" "ucast (drop_bit 16 ?h) = request ! 2" "ucast (drop_bit 24 ?h) = request ! 3"
    using get32_byte [of 0 request 0] get32_byte [of 1 request 0] get32_byte [of 2 request 0] get32_byte [of 3 request 0] by (simp_all add: numeral_2_eq_2)
  have mask: "?h AND 0x00ffff00 = push_bit 8 (ucast addr)" using assms(1,2) by (auto simp: durable_card_shape_def Let_def split: if_splits)
  show "request ! 1 = addr" "request ! 2 = 0" using header_bytes [OF mask] b by simp_all
  show "unat (drop_bit 24 ?h) = unat (request ! 3)" using header_top b(4) by blast
  have cmd: "?h AND 255 = ucast (request ! 0)" using header_cmd [of ?h] b(1) by simp
  have eq: "(ucast (request ! 0) :: u32) = 1 \<longleftrightarrow> request ! 0 = 1" "(ucast (request ! 0) :: u32) = 2 \<longleftrightarrow> request ! 0 = 2"
    "(ucast (request ! 0) :: u32) = 3 \<longleftrightarrow> request ! 0 = 3" "(ucast (request ! 0) :: u32) = 10 \<longleftrightarrow> request ! 0 = 10"
    "(ucast (request ! 0) :: u32) = 11 \<longleftrightarrow> request ! 0 = 11" "(ucast (request ! 0) :: u32) = 12 \<longleftrightarrow> request ! 0 = 12"
    "(ucast (request ! 0) :: u32) = 13 \<longleftrightarrow> request ! 0 = 13"
    using ucast_u8_inject [of "request ! 0" 1] ucast_u8_inject [of "request ! 0" 2] ucast_u8_inject [of "request ! 0" 3]
      ucast_u8_inject [of "request ! 0" 10] ucast_u8_inject [of "request ! 0" 11] ucast_u8_inject [of "request ! 0" 12]
      ucast_u8_inject [of "request ! 0" 13] by simp_all
  show "needed_capacity (request ! 0) \<le> max 8 n"
    using assms(1,2) unfolding durable_card_shape_def Let_def cmd eq needed_capacity_def by (simp split: if_splits)
qed

lemma execute_works:
  fixes s :: "'w vmu_durable"
  assumes "sd_medium drv live crash mk" and "durable_rest drv live crash mk s img" and "du_handling (du_work s)" and "block < 256"
    and "op \<noteq> No_Operation" and "healthy_driver drv (du_handoff (du_work s))" and "healthy_lease live crash lease (du_handoff (du_work s))"
    and "\<not> du_bound (du_work s) \<longrightarrow> live (durable_world s) mk = replicate 512 0"
  shows "\<exists>s'. durable_card_execute drv lease op s block = (s', Emu_OK)"
proof -
  let ?w0 = "start_execute op block (du_work s)"
  let ?s0 = "s\<lparr>du_work := ?w0\<rparr>"
  obtain w1 loan s1 loan1 ok w2 where w1: "steady live crash (durable_world ?s0) w1" and loan: "good_loan (du_handoff (du_work s)) loan"
    and run: "kui_vmu_durable_transaction drv (put_world ?s0 w1) loan = (s1, loan1, ok)"
    and le: "lease (kui_vmu_durable_transaction drv) ?s0 = (put_world s1 w2, if ok then Lease_OK else Lease_Fault)"
    using assms(7) unfolding healthy_lease_def by blast
  let ?u = "?w0\<lparr>du_world := w1\<rparr>"
  have w1': "steady live crash (durable_world s) w1" using w1 by simp
  have u: "?u = du_work (put_world ?s0 w1)" "du_protocol (put_world ?s0 w1) = du_protocol s" "du_store (put_world ?s0 w1) = du_store s"
    by (simp_all add: put_world_def)
  have rest: "\<not> du_faulted (du_work s)" "\<not> du_inflight (du_work s)" "du_ready (du_work s)" "durable_admitted (du_work s)"
    "durable_setup drv (du_work s) mk" "medium_at live crash (durable_model drv (du_work s)) (durable_world s) img"
    "du_bound (du_work s) \<longrightarrow> store_open live (durable_model drv (du_work s)) (du_store s) (durable_world s) img"
    "\<forall>b<256. ho_block_crc (du_handoff (du_work s)) ! b = kui_retail_crc32 0 (img b)"
    using assms(2) by (simp_all add: durable_rest_def Let_def)
  have K: "durable_model drv ?u = durable_model drv (du_work s)" by (rule durable_model_cong) simp_all
  have su: "durable_setup drv ?u mk" using rest(5) durable_setup_cong [of ?u "du_work s" drv mk] by simp
  have ad: "durable_admitted ?u" using rest(4) durable_admitted_cong [of ?u "du_work s"] by simp
  have med: "medium_at live crash (durable_model drv ?u) (du_world ?u) img" using medium_steady [OF rest(6) w1'] by (simp add: K)
  have op: "du_bound ?u \<longrightarrow> store_open live (durable_model drv ?u) (du_store (put_world ?s0 w1)) (du_world ?u) img"
    using rest(7) store_open_steady [OF _ w1'] by (simp add: K u(3))
  have more: "du_inflight ?u" "du_crc_expected ?u = ho_block_crc (du_handoff (du_work s)) ! block" by (simp_all add: start_execute_def Let_def)
  have clean: "\<not> du_bound ?u \<longrightarrow> live (du_world ?u) mk = replicate 512 0" using assms(8) w1' by (simp add: steady_def)
  have side: "du_block ?u < 256" "healthy_driver drv (du_handoff ?u)" "\<not> du_invoked ?u" "\<not> du_faulted ?u" "good_loan (du_handoff ?u) loan"
    "du_operation ?u \<noteq> Durable_Write \<longrightarrow> du_crc_expected ?u = kui_retail_crc32 0 (img (du_block ?u))" "du_ready ?u" "du_handling ?u"
    "du_operation ?u \<noteq> No_Operation"
    using assms(3-6) loan rest(1,3,8) more(2) by simp_all
  obtain s2 loan2 where tx: "kui_vmu_durable_transaction drv (put_world ?s0 w1) loan = (s2, loan2, True)" "\<not> du_faulted (du_work s2)"
    "du_verified (du_work s2)" "du_invoked (du_work s2)"
    using transaction_works [OF assms(1) su med op side(1) u(1) ad side(2) more(1) side(3,4) clean side(5,6,7,8,9)] by blast
  then have s1: "s1 = s2" "ok" using run by simp_all
  then have lr: "lease (kui_vmu_durable_transaction drv) ?s0 = (put_world s2 w2, Lease_OK)" using le by simp
  have "settle op block Lease_OK (after_lease Lease_OK (put_world s2 w2)) =
      ((after_lease Lease_OK (put_world s2 w2))\<lparr>du_work := publish op block (du_work (after_lease Lease_OK (put_world s2 w2)))\<rparr>, Emu_OK)"
    using tx(2-4) by (simp add: settle_def after_lease_def put_world_def Let_def)
  moreover have "durable_card_execute drv lease op s block = settle op block Lease_OK (after_lease Lease_OK (put_world s2 w2))"
    by (rule execute_unfold [where lease = lease and drv = drv and op = op, OF rest(1) assms(3) rest(2) assms(4) lr])
  ultimately show ?thesis by simp
qed

definition handled :: "emu_result \<Rightarrow> bool" where
  "handled r = (\<exists>out. r = Handled out)"

lemma handled_simps [simp]: "handled (reply a b c d)" "handled (file_error a b c)" "handled (Handled out)"
  by (simp_all add: handled_def reply_def file_error_def)

lemma write_handled: "handle_write s request host phase block = (s', r) \<Longrightarrow> handled r"
  unfolding handle_write_def Let_def by (auto split: if_splits)

lemma storage_handled:
  assumes "handle_storage rd commit c s request host = (c', s', r)"
  shows "handled r"
proof -
  have rd: "handled r" if "handle_read rd c s request host phase block = (c', s', r)" for phase block
    using that by (cases rule: handle_read_cases) (auto split: if_splits)
  have sy: "handled r" if "handle_sync commit c s host phase block = (c', s', r)" for phase block
    using that by (auto simp: handle_sync_def Let_def split: if_splits prod.splits)
  show ?thesis
    using assms rd sy write_handled [of s request host] unfolding handle_storage_def Let_def
    by (auto split: if_splits prod.splits)
qed

lemma emulation_handled:
  assumes "kui_vmu_emulation_handle rd commit c p request capacity = (c', p', r)" and "initialized p" and "4 \<le> length request"
    and "request ! 1 = address p" and "request ! 2 = address p AND 0xc0" and "needed_capacity (request ! 0) \<le> capacity" and "4 \<le> capacity"
  shows "handled r"
  using assms storage_handled [of rd commit c p request "address p AND 0xc0" c' p' r]
  unfolding kui_vmu_emulation_handle_def Let_def by (auto split: if_splits)

text \<open>The marker is clear as long as no transaction has bound the store.\<close>

definition marker_clear :: "('w \<Rightarrow> u64 \<Rightarrow> bytes) \<Rightarrow> u64 \<Rightarrow> 'w vmu_durable \<Rightarrow> bool" where
  "marker_clear live mk s = (\<not> du_bound (du_work s) \<longrightarrow> live (durable_world s) mk = replicate 512 0)"

definition healthy ::
    "('w \<Rightarrow> u64 \<Rightarrow> bytes) \<Rightarrow> ('w \<Rightarrow> (u64 \<Rightarrow> bytes) set) \<Rightarrow> 'w sd_driver \<Rightarrow> 'w sd_lease \<Rightarrow> durable_handoff \<Rightarrow> bool" where
  "healthy live crash drv lease h = (healthy_driver drv h \<and> healthy_lease live crash lease h)"

lemma read_succeeds:
  assumes "sd_medium drv live crash mk" and "lease_law live crash lease" and "durable_rest drv live crash mk s img"
    and "du_handling (du_work s)" and "block < 256" and "healthy live crash drv lease (du_handoff (du_work s))" and "marker_clear live mk s"
  shows "\<exists>t. durable_card_read drv lease s block = (t, Emu_OK, img block) \<and> durable_rest drv live crash mk t img \<and> du_bound (du_work t)"
proof -
  obtain t where t: "durable_card_execute drv lease Durable_Read s block = (t, Emu_OK)"
    using execute_works [OF assms(1,3,4,5)] assms(6,7) by (auto simp: healthy_def marker_clear_def)
  then have "durable_card_read drv lease s block = (t, Emu_OK, du_bounce (du_work t))" by (simp add: durable_card_read_def)
  then show ?thesis using execute_result [OF assms(1-5) _ t] by (simp add: executed_def)
qed

lemma commit_succeeds:
  assumes "sd_medium drv live crash mk" and "lease_law live crash lease" and "durable_rest drv live crash mk s img"
    and "du_handling (du_work s)" and "block < 256" and "healthy live crash drv lease (du_handoff (du_work s))" and "marker_clear live mk s"
  shows "\<exists>t. durable_card_commit drv lease s block (staged (du_protocol s)) = (t, Emu_OK) \<and> \<not> du_faulted (du_work t) \<and> du_bound (du_work t)"
proof -
  obtain t where t: "durable_card_execute drv lease Durable_Write s block = (t, Emu_OK)"
    using execute_works [OF assms(1,3,4,5)] assms(6,7) by (auto simp: healthy_def marker_clear_def)
  then show ?thesis
    using execute_result [OF assms(1-5) _ t] by (simp add: executed_def durable_card_commit_def durable_rest_def Let_def)
qed

lemma healthy_storage:
  assumes "sd_medium drv live crash mk" and "lease_law live crash lease" and "durable_rest drv live crash mk s img"
    and "du_handling (du_work s)" and "healthy live crash drv lease (du_handoff (du_work s))" and "marker_clear live mk s"
    and "p = du_protocol s"
    and "handle_storage (durable_card_read drv lease) (durable_card_commit drv lease) s p request (address p AND 0xc0) = (s', p', r)"
  shows "\<not> du_faulted (du_work s') \<and> marker_clear live mk s'"
proof -
  have nf: "\<not> du_faulted (du_work s)" using assms(3) by (simp add: durable_rest_def Let_def)
  from assms(8) show ?thesis
  proof (cases rule: handle_storage_cases)
    case plain
    then show ?thesis using nf assms(6) by simp
  next
    case writing
    then show ?thesis using nf assms(6) by simp
  next
    case reading
    note works = read_succeeds [OF assms(1-4) reading(3) assms(5,6)]
    from reading(4) show ?thesis
      by (cases rule: handle_read_cases) (use works nf assms(6) in \<open>auto simp: marker_clear_def durable_rest_def Let_def\<close>)
  next
    case syncing
    note works = commit_succeeds [OF assms(1-4) syncing(2) assms(5,6), folded assms(7)]
    from syncing(4) show ?thesis
      by (cases rule: handle_sync_cases) (use works nf assms(6) in \<open>auto simp: marker_clear_def\<close>)
  qed
qed

text \<open>
  The one request that a healthy card cannot take: a RESET whose response buffer has 4 to 7 bytes.  It passes the buffer check of the
  durable card, which asks for 4 bytes, and is refused by the protocol, which asks for 8.
\<close>

definition short_reset :: "'w vmu_durable \<Rightarrow> bytes \<Rightarrow> nat \<Rightarrow> bool" where
  "short_reset s request capacity =
     (request = [3, address (du_protocol s), 0, 0] \<and> 4 \<le> capacity \<and> capacity < 8 \<and> \<not> killed (du_protocol s))"

lemma shape_short:
  assumes "durable_card_shape addr (get32 request 0) p0 p1 = n" "n \<noteq> 0" "n < 8" "length request = 4 + 4 * unat (drop_bit 24 (get32 request 0))"
  shows "n = 4" "request = [3, addr, 0, 0]"
proof -
  have words: "n = 4" "get32 request 0 AND 255 = 3" "drop_bit 24 (get32 request 0) = 0"
    using assms(1-3) by (auto simp: durable_card_shape_def Let_def split: if_splits)
  then show "n = 4" by simp
  have four: "length request = 4" using assms(4) words(3) by simp
  note cmd = shape_command [OF assms(1,2)]
  have "ucast (get32 request 0) = request ! 0" using get32_byte [of 0 request 0] by simp
  then have "(ucast (request ! 0) :: u32) = 3" using header_cmd [of "get32 request 0"] words(2) by simp
  then have "request ! 0 = 3" using ucast_u8_inject [of "request ! 0" 3] by simp
  moreover have "request ! 1 = addr" "request ! 2 = 0" using cmd four by simp_all
  moreover have "request ! 3 = 0" using cmd(3) words(3) four by (simp add: unat_eq_0)
  ultimately show "request = [3, addr, 0, 0]"
    using four by (auto intro!: nth_equalityI simp: less_Suc_eq numeral_eq_Suc)
qed

lemma short_reset_header:
  "get32 [3, a, 0, 0] 0 AND 255 = 3" "get32 [3, a, 0, 0] 0 AND 0x00ffff00 = push_bit 8 (ucast a)" "drop_bit 24 (get32 [3, a, 0, 0] 0) = 0"
proof -
  have h: "get32 [3, a, 0, 0] 0 = 3 OR push_bit 8 (ucast a)" by (simp add: get32_def)
  have m: "(255 :: u32) = mask 8" "(0x00ffff00 :: u32) = push_bit 8 (mask 16)" "(3 :: u32) = mask 2" by (simp_all add: mask_eq_exp_minus_1)
  show "get32 [3, a, 0, 0] 0 AND 255 = 3" unfolding h m
    by (rule bit_word_eqI) (auto simp: bit_and_iff bit_or_iff bit_push_bit_iff bit_mask_iff bit_unsigned_iff)
  show "get32 [3, a, 0, 0] 0 AND 0x00ffff00 = push_bit 8 (ucast a)" unfolding h m
    by (rule bit_word_eqI) (auto simp: bit_and_iff bit_or_iff bit_push_bit_iff bit_mask_iff bit_unsigned_iff dest: bit_imp_le_length)
  show "drop_bit 24 (get32 [3, a, 0, 0] 0) = 0" unfolding h m
    by (rule bit_word_eqI) (auto simp: bit_drop_bit_eq bit_or_iff bit_push_bit_iff bit_mask_iff bit_unsigned_iff dest: bit_imp_le_length)
qed

lemma short_reset_faults:
  assumes "durable_at drv live crash mk s img" "address (du_protocol s) AND 0xc0 = 0" "short_reset s request capacity"
    "kui_vmu_durable_handle drv lease s request capacity = (s', res)"
  shows "du_faulted (du_work s') \<and> res = Durable_Internal"
proof -
  have base: "du_ready (du_work s)" "\<not> du_faulted (du_work s)" "\<not> du_handling (du_work s)" "\<not> du_inflight (du_work s)"
    "initialized (du_protocol s)"
    using assms(1) by (simp_all add: durable_at_def durable_rest_def protocol_holds_def emu_inv_def Let_def)
  let ?s = "s\<lparr>du_work := (du_work s)\<lparr>du_handling := True\<rparr>\<rparr>"
  have req: "request = [3, address (du_protocol s), 0, 0]" "4 \<le> capacity" "capacity < 8" "\<not> killed (du_protocol s)"
    using assms(3) by (simp_all add: short_reset_def)
  have shape: "durable_card_shape (address (du_protocol s)) (get32 request 0) p0 p1 = 4" for p0 p1
    unfolding req(1) by (simp add: durable_card_shape_def short_reset_header Let_def)
  have short: "kui_vmu_emulation_handle (durable_card_read drv lease) (durable_card_commit drv lease) ?s (du_protocol s) request capacity
      = (?s, du_protocol s, Short)"
    using base(5) req assms(2) by (simp add: kui_vmu_emulation_handle_def needed_capacity_def Let_def)
  have "length request = 4 + 4 * unat (drop_bit 24 (get32 request 0))" unfolding req(1) by (simp add: short_reset_header)
  then show ?thesis
    using assms(4) base req(2) by (auto simp: kui_vmu_durable_handle_def shape short durable_reply_def Let_def split: if_splits)
qed

lemma healthy_handle:
  assumes "sd_medium drv live crash mk" and "lease_law live crash lease" and "durable_at drv live crash mk s img"
    and "healthy live crash drv lease (du_handoff (du_work s))" and "marker_clear live mk s"
    and "address (du_protocol s) AND 0xc0 = 0" and "\<not> short_reset s request capacity"
    and "kui_vmu_durable_handle drv lease s request capacity = (s', res)"
  shows "\<not> du_faulted (du_work s') \<and> marker_clear live mk s' \<and> res \<noteq> Durable_Internal"
proof -
  have rest: "durable_rest drv live crash mk s img" and inv: "emu_inv (du_protocol s)"
    using assms(3) by (simp_all add: durable_at_def protocol_holds_def)
  have nf: "\<not> du_faulted (du_work s)" using rest by (simp add: durable_rest_def Let_def)
  let ?s = "s\<lparr>du_work := (du_work s)\<lparr>du_handling := True\<rparr>\<rparr>" and ?p = "du_protocol s"
  have rest0: "durable_rest drv live crash mk ?s img" using rest durable_rest_cong [of ?s s drv live crash mk img] by simp
  from nf assms(8) show ?thesis
  proof (cases rule: durable_handle_cases)
    case (refused n)
    have "res \<noteq> Durable_Internal"
      using assms(3) refused(3) by (auto simp: durable_at_def Let_def durable_rest_def)
    then show ?thesis using nf assms(5) by (simp add: refused marker_clear_def)
  next
    case (served s1 p r cmd)
    obtain p0 p1 n where n: "durable_card_shape (address ?p) (get32 request 0) p0 p1 = n" "n \<noteq> 0" "n \<le> capacity" using served(5) by blast
    note cmd = shape_command [OF n(1,2) served(3)]
    obtain out where out: "r = Handled out"
    proof (cases "8 \<le> capacity")
      case True
      then have "needed_capacity (request ! 0) \<le> capacity" using cmd(4) n(3) by simp
      then show ?thesis
        using that emulation_handled [OF served(1) _ served(3) cmd(1)] cmd(2) assms(6) True inv by (auto simp: emu_inv_def handled_def)
    next
      case False
      then have small: "n = 4" "request = [3, address ?p, 0, 0]" using shape_short [OF n(1,2) _ served(4)] n(3) by simp_all
      then have "killed ?p" using assms(7) False n(3) by (simp add: short_reset_def)
      then show ?thesis
        using that served(1) small(2) n(3) small(1) inv assms(6) by (auto simp: kui_vmu_emulation_handle_def emu_inv_def Let_def)
    qed
    have ok: "\<not> du_faulted (du_work s1) \<and> marker_clear live mk s1"
    proof (cases "handle_storage (durable_card_read drv lease) (durable_card_commit drv lease) ?s ?p request (address ?p AND 0xc0) = (s1, p, r)")
      case True
      show ?thesis
        by (rule healthy_storage [OF assms(1,2) rest0 _ _ _ _ True]) (use assms(4,5) in \<open>simp_all add: marker_clear_def\<close>)
    next
      case False
      then have "s1 = ?s" using served(1) unfolding kui_vmu_emulation_handle_def Let_def by (auto split: if_splits)
      then show ?thesis using nf assms(5) by (simp add: marker_clear_def)
    qed
    have "du_faulted (du_work s') = du_faulted (du_work s1) \<and> du_bound (du_work s') = du_bound (du_work s1) \<and>
        durable_world s' = durable_world s1 \<and> res = Durable_Handled out"
      using served(2) by (auto simp: durable_reply_def out Let_def split: if_splits)
    then show ?thesis using ok by (simp add: marker_clear_def)
  qed
qed

section \<open>The promises of the durable card\<close>

text \<open>
  C2. The durable card serves a faithful card through every request, whatever the SD driver and the lease do within their laws.  An
  answered READ returns the block of the card; the card changes only by the commit of a complete staged block; what a power loss at
  any moment leaves on the medium is recoverable and shows the old card or the new one; an acknowledged SYNC of phase 4 means
  that the card holds the staged block; and unless the card faults, it is at rest again on the resulting card, with the table of
  current CRCs that of its blocks.
\<close>

theorem durable_card_faithful:
  assumes "sd_medium drv live crash mk" and "lease_law live crash lease" and "durable_at drv live crash mk s img"
    and "kui_vmu_durable_handle drv lease s request capacity = (s', res)"
  shows "\<exists>img'. card_change (du_protocol s) img img' \<and> durable_model drv (du_work s') = durable_model drv (du_work s) \<and>
    (\<forall>m\<in>crash (durable_world s'). recoverable (durable_model drv (du_work s)) m \<and>
       (card_view (durable_model drv (du_work s)) m = img \<or> card_view (durable_model drv (du_work s)) m = img')) \<and>
    (\<not> du_faulted (du_work s') \<longrightarrow> durable_at drv live crash mk s' img') \<and>
    (\<forall>bs. res = Durable_Handled bs \<longrightarrow> request ! 0 = 11 \<longrightarrow> hd bs = 8 \<longrightarrow> drop 12 bs = img (request_block request)) \<and>
    (\<forall>bs. res = Durable_Handled bs \<longrightarrow> request ! 0 = 13 \<and> request ! 9 = 4 \<longrightarrow> hd bs = 7 \<longrightarrow>
       \<not> du_faulted (du_work s') \<and> img' (request_block request) = staged (du_protocol s))"
  by (rule durable_handle_sound [OF assms, unfolded survives_def insert_iff empty_iff simp_thms])

lemma acknowledged_reopen:
  assumes "sd_medium drv live crash mk" and "lease_law live crash lease" and "durable_at drv live crash mk s img"
    and "kui_vmu_durable_handle drv lease s request capacity = (s', Durable_Handled bs)"
    and "request ! 0 = 13" and "request ! 9 = 4" and "hd bs = 7" and "m \<in> crash (durable_world s')"
  shows "\<exists>img'. card_change (du_protocol s) img img' \<and> img' (request_block request) = staged (du_protocol s) \<and>
    recoverable (durable_model drv (du_work s)) m \<and> card_view (durable_model drv (du_work s)) m = img' \<and>
    maps_valid (durable_config (du_work s)) \<and> length (cfg_image_id (durable_config (du_work s))) = 16"
proof -
  obtain img' where i: "card_change (du_protocol s) img img'" "durable_model drv (du_work s') = durable_model drv (du_work s)"
    "durable_at drv live crash mk s' img'" "img' (request_block request) = staged (du_protocol s)"
    using durable_handle_sound [OF assms(1-4)] assms(5-7) by blast
  have "medium_at live crash (durable_model drv (du_work s)) (durable_world s') img'"
    using i(2,3) by (simp add: durable_at_def durable_rest_def Let_def)
  then have "recoverable (durable_model drv (du_work s)) m" "card_view (durable_model drv (du_work s)) m = img'"
    using assms(8) by (auto simp: medium_at_def)
  moreover have "maps_valid (durable_config (du_work s))" "length (cfg_image_id (durable_config (du_work s))) = 16"
    using assms(3) by (simp_all add: durable_at_def durable_rest_def durable_setup_def durable_model_fields Let_def)
  ultimately show ?thesis using i(1,4) by blast
qed

text \<open>
  C3. An acknowledged save survives a power loss.  Once a SYNC of phase 4 has been acknowledged, the store that is opened on
  whatever the medium then holds, by any driver, does not report corruption; the block of the request reads as the bytes that were staged,
  and every other block as before.
\<close>

theorem durable_save_survives:
  assumes "sd_medium drv live crash mk" and "lease_law live crash lease" and "durable_at drv live crash mk s img"
    and "kui_vmu_durable_handle drv lease s request capacity = (s', Durable_Handled bs)"
    and "request ! 0 = 13" and "request ! 9 = 4" and "hd bs = 7" and "m \<in> crash (durable_world s')"
    and "powered_up io2 (durable_config (du_work s)) live2 crash2 m" and "kui_vmu_store_open io2 (durable_config (du_work s)) = (t, r)"
  shows "(r = Store_OK \<or> r = Store_IO) \<and>
    (r = Store_OK \<longrightarrow> kui_vmu_store_read t b = (u, Store_OK, Some x) \<longrightarrow>
       (b = request_block request \<longrightarrow> x = staged (du_protocol s)) \<and> (b \<noteq> staged_block (du_protocol s) \<longrightarrow> x = img b))"
proof -
  obtain img' where i: "card_change (du_protocol s) img img'" "img' (request_block request) = staged (du_protocol s)"
    "recoverable (durable_model drv (du_work s)) m" "card_view (durable_model drv (du_work s)) m = img'"
    "maps_valid (durable_config (du_work s))" "length (cfg_image_id (durable_config (du_work s))) = 16"
    using acknowledged_reopen [OF assms(1-8)] by blast
  note media = same_config_media [OF configured_same_config [of io2 "durable_config (du_work s)" "durable_io drv None"], folded durable_model_def]
  have o: "(r = Store_OK \<or> r = Store_IO) \<and> (r = Store_OK \<longrightarrow> store_at live2 crash2 t img')"
    using open_sound [OF i(5,6) assms(9) _ assms(10)] i(3,4) by (simp add: media)
  then have "x = img' b" if "r = Store_OK" "kui_vmu_store_read t b = (u, Store_OK, Some x)" using read_sound that by blast
  then show ?thesis using o i(1,2) by (auto simp: card_change_def)
qed

text \<open>
  C4. On a healthy SD card the durable card faults on exactly one request.  Let the driver and the lease report no failure, the
  address have no port bits, as after initialisation, and the journal marker be clear unless the store is already bound.  Then, for every
  request and every response buffer, the card is brought into the fault state, which it never leaves, and answers with an internal error
  if and only if the request is a RESET with a buffer of 4 to 7 bytes to a card that was not killed; after every other request the
  marker is still clear unless the store is bound; and every read and every commit of the staged block succeeds.
\<close>

theorem durable_card_never_faults:
  assumes "sd_medium drv live crash mk" and "lease_law live crash lease" and "durable_at drv live crash mk s img"
    and "healthy live crash drv lease (du_handoff (du_work s))" and "marker_clear live mk s"
    and "address (du_protocol s) AND 0xc0 = 0"
    and "kui_vmu_durable_handle drv lease s request capacity = (s', res)" and "block < 256"
  shows "(du_faulted (du_work s') \<longleftrightarrow> request = [3, address (du_protocol s), 0, 0] \<and> 4 \<le> capacity \<and> capacity < 8 \<and> \<not> killed (du_protocol s)) \<and>
    (res = Durable_Internal \<longleftrightarrow> du_faulted (du_work s')) \<and> (du_faulted (du_work s') \<or> marker_clear live mk s') \<and>
    (\<exists>t. durable_card_read drv lease (s\<lparr>du_work := (du_work s)\<lparr>du_handling := True\<rparr>\<rparr>) block = (t, Emu_OK, img block)) \<and>
    (\<exists>t. durable_card_commit drv lease (s\<lparr>du_work := (du_work s)\<lparr>du_handling := True\<rparr>\<rparr>) block (staged (du_protocol s)) = (t, Emu_OK))"
proof -
  let ?s = "s\<lparr>du_work := (du_work s)\<lparr>du_handling := True\<rparr>\<rparr>"
  have rest: "durable_rest drv live crash mk ?s img"
    using assms(3) durable_rest_cong [of ?s s drv live crash mk img] by (simp add: durable_at_def)
  have side: "du_handling (du_work ?s)" "healthy live crash drv lease (du_handoff (du_work ?s))" "marker_clear live mk ?s"
    "du_protocol ?s = du_protocol s"
    using assms(4,5) by (simp_all add: marker_clear_def)
  have answer: "(du_faulted (du_work s') \<longleftrightarrow> short_reset s request capacity) \<and> (res = Durable_Internal \<longleftrightarrow> du_faulted (du_work s')) \<and>
      (du_faulted (du_work s') \<or> marker_clear live mk s')"
    using healthy_handle [OF assms(1-6) _ assms(7)] short_reset_faults [OF assms(3,6) _ assms(7)]
    by (cases "short_reset s request capacity") blast+
  show ?thesis
    using answer read_succeeds [OF assms(1,2) rest side(1) assms(8) side(2,3)]
      commit_succeeds [OF assms(1,2) rest side(1) assms(8) side(2,3)] unfolding side(4) short_reset_def by blast
qed

section \<open>A card in memory\<close>

definition memory_sd :: "bytes \<Rightarrow> u64 \<Rightarrow> (u64 \<Rightarrow> bytes) sd_driver" where
  "memory_sd cid n = \<lparr>sd_read = (\<lambda>w c l. (w, c, 0, w (ucast l))), sd_write = (\<lambda>w c l d. (w(ucast l := d), c, 0)),
     sd_sync = (\<lambda>w c. (w, c, 0)), sd_identity = (\<lambda>w c. (w, c, Some (cid, n, False)))\<rparr>"

definition memory_lease :: "u64 \<Rightarrow> (u64 \<Rightarrow> bytes) sd_lease" where
  "memory_lease n run s =
     (case run s \<lparr>loan_ready = True, loan_slow = False, loan_select = True, loan_transfer = True, loan_ticks = True,
                   loan_transfer_block = True, loan_blocks = n, loan_high_capacity = False\<rparr> of
        (s, loan, ok) \<Rightarrow> (s, if ok then Lease_OK else Lease_Fault))"

lemma memory_medium: "sd_medium (memory_sd cid n) (\<lambda>w. w) (\<lambda>w. {w}) mk"
  by (auto simp: sd_medium_def memory_sd_def)

lemma memory_lease_law: "lease_law (\<lambda>w. w) (\<lambda>w. {w}) (memory_lease n)"
  unfolding lease_law_def
proof (intro allI impI exI [where x = "durable_world s" for s :: "(u64 \<Rightarrow> bytes) vmu_durable"] conjI)
  fix run s s' res
  assume le: "memory_lease n run s = (s', res)"
  show "steady (\<lambda>w. w) (\<lambda>w. {w}) (durable_world s) (durable_world s)" by (simp add: steady_def)
  have same: "put_world u (durable_world u) = u" for u :: "(u64 \<Rightarrow> bytes) vmu_durable" by (simp add: put_world_def)
  let ?loan = "\<lparr>loan_ready = True, loan_slow = False, loan_select = True, loan_transfer = True, loan_ticks = True,
                   loan_transfer_block = True, loan_blocks = n, loan_high_capacity = False\<rparr>"
  obtain s1 loan1 ok where run: "run s ?loan = (s1, loan1, ok)" by (metis prod_cases3)
  then have "s' = s1" "res = Lease_OK \<longrightarrow> ok" using le by (auto simp: memory_lease_def split: if_splits)
  moreover have "steady (\<lambda>w. w) (\<lambda>w. {w}) (durable_world s1) (durable_world s1)" by (simp add: steady_def)
  ultimately show "s' = put_world s (durable_world s) \<and> res \<noteq> Lease_OK \<or>
      (\<exists>loan s1 loan1 ok w2. run (put_world s (durable_world s)) loan = (s1, loan1, ok) \<and>
         steady (\<lambda>w. w) (\<lambda>w. {w}) (durable_world s1) w2 \<and> s' = put_world s1 w2 \<and> (res = Lease_OK \<longrightarrow> ok))"
    using run same by metis
qed

definition sample_handoff :: durable_handoff where
  "sample_handoff =
     \<lparr>ho_magic = 0, ho_version = 0, ho_bytes = 0, ho_clean = 0, ho_card_sectors = 2048, ho_high_capacity = 0, ho_base_count = 1,
      ho_journal_count = 1, ho_cid = replicate 16 1, ho_image_id = replicate 16 1,
      ho_base = \<lparr>de_lba = 8, de_blocks = 256\<rparr> # replicate 15 \<lparr>de_lba = 0, de_blocks = 0\<rparr>,
      ho_journal = [\<lparr>de_lba = 1000, de_blocks = 2\<rparr>, \<lparr>de_lba = 0, de_blocks = 0\<rparr>],
      ho_block_crc = replicate 256 (kui_retail_crc32 0 (replicate 512 0)), ho_base_sha256 = replicate 32 1, ho_seal = 0\<rparr>"

lemma geometry_scan_unused:
  "count \<le> length seen \<Longrightarrow>
   geometry_scan other cap count expected seen (replicate k \<lparr>de_lba = 0, de_blocks = 0\<rparr>) tot = (tot = expected)"
  by (induction k arbitrary: seen) simp_all

lemma sample_geometry: "durable_card_geometry (sample_handoff\<lparr>ho_seal := a, ho_magic := b, ho_version := c, ho_bytes := d, ho_clean := e\<rparr>)"
  by (simp add: durable_card_geometry_def sample_handoff_def zeroes_def list_all_iff de_end_def de_meet_def geometry_scan_unused)

definition sample_sealed :: durable_handoff where
  "sample_sealed = the (kui_vmu_durable_handoff_seal sample_handoff)"

lemma sample_sealed: "kui_vmu_durable_handoff_seal sample_handoff = Some sample_sealed"
  using sample_geometry by (simp add: sample_sealed_def kui_vmu_durable_handoff_seal_def Let_def)

lemma sample_sealed_fields:
  "ho_card_sectors sample_sealed = 2048" "ho_high_capacity sample_sealed = 0" "ho_base_count sample_sealed = 1"
  "ho_journal_count sample_sealed = 1" "ho_cid sample_sealed = replicate 16 1" "ho_image_id sample_sealed = replicate 16 1"
  "ho_base sample_sealed = ho_base sample_handoff" "ho_journal sample_sealed = ho_journal sample_handoff"
  "ho_block_crc sample_sealed = replicate 256 (kui_retail_crc32 0 (replicate 512 0))" "length (ho_base_sha256 sample_sealed) = 32"
  unfolding sample_sealed_def using sample_geometry
  by (simp_all add: kui_vmu_durable_handoff_seal_def Let_def) (simp_all add: sample_handoff_def)

definition sample_durable :: "(u64 \<Rightarrow> bytes) vmu_durable" where
  "sample_durable = projr (kui_vmu_durable_init sample_sealed (\<lambda>_. replicate 512 0) False)"

abbreviation sample_driver :: "(u64 \<Rightarrow> bytes) sd_driver" where "sample_driver \<equiv> memory_sd (replicate 16 1) 2048"

lemma sample_durable: "kui_vmu_durable_init sample_sealed (\<lambda>_. replicate 512 0) False = Inr sample_durable"
  using seal_validates [OF sample_sealed]
  by (simp add: sample_durable_def kui_vmu_durable_init_def kui_vmu_durable_init_address_def kui_vmu_emulation_init_def)

lemma sample_durable_maps:
  "durable_maps sample_sealed = [\<lparr>first_lba = 8, sectors = 256\<rparr>, \<lparr>first_lba = 1000, sectors = 2\<rparr>]"
  by (simp add: durable_maps_def sample_sealed_fields) (simp add: sample_handoff_def)

lemma sample_durable_at:
  "durable_at sample_driver (\<lambda>w. w) (\<lambda>w. {w}) 1001 sample_durable (\<lambda>b. if b < 256 then replicate 512 0 else [])"
proof -
  note init = sample_durable [unfolded kui_vmu_durable_init_def]
  note w = started_work [OF init]
  let ?K = "durable_model sample_driver (du_work sample_durable)"
  have mk: "marker_lba ?K = 1001"
    by (simp add: durable_model_fields durable_config_def Let_def w(1,2) sample_sealed_fields sample_durable_maps)
  have "medium_at (\<lambda>w. w) (\<lambda>w. {w}) ?K (\<lambda>_. replicate 512 0) (\<lambda>b. if b < 256 then replicate 512 0 else [])"
    using cleared_marker by (simp add: medium_at_def recoverable_def card_view_def fun_eq_iff)
  moreover have "handoff_typed sample_sealed"
    by (simp add: handoff_typed_def sample_sealed_fields) (simp add: sample_handoff_def)
  ultimately show ?thesis
    using started_at [OF _ init, of "\<lambda>w. w" "\<lambda>w. {w}" sample_driver] mk by (simp add: sample_sealed_fields)
qed

lemma sample_started:
  "du_handoff (du_work sample_durable) = sample_sealed" "address (du_protocol sample_durable) = 1" "\<not> killed (du_protocol sample_durable)"
  "initialized (du_protocol sample_durable)" "\<not> active (du_protocol sample_durable)" "durable_world sample_durable = (\<lambda>_. replicate 512 0)"
  "durable_config (du_work sample_durable) = card_config"
proof -
  have "du_maps (du_work sample_durable) = durable_maps sample_sealed"
    using started_work(2) [OF sample_durable [unfolded kui_vmu_durable_init_def]] .
  moreover show h: "du_handoff (du_work sample_durable) = sample_sealed"
    using started_work(1) [OF sample_durable [unfolded kui_vmu_durable_init_def]] .
  ultimately show "durable_config (du_work sample_durable) = card_config"
    by (simp add: durable_config_def Let_def sample_sealed_fields sample_durable_maps card_config_def)
  have "du_protocol sample_durable = the (kui_vmu_emulation_init 1)"
    using seal_validates [OF sample_sealed]
    by (simp add: sample_durable_def kui_vmu_durable_init_def kui_vmu_durable_init_address_def kui_vmu_emulation_init_def)
  then show "address (du_protocol sample_durable) = 1" "\<not> killed (du_protocol sample_durable)"
    "initialized (du_protocol sample_durable)" "\<not> active (du_protocol sample_durable)"
    by (simp_all add: kui_vmu_emulation_init_def)
  show "durable_world sample_durable = (\<lambda>_. replicate 512 0)"
    using started_work(3) [OF sample_durable [unfolded kui_vmu_durable_init_def]] .
qed

lemma memory_healthy: "healthy (\<lambda>w. w) (\<lambda>w. {w}) sample_driver (memory_lease 2048) sample_sealed"
proof -
  have same: "put_world u (durable_world u) = u" for u :: "(u64 \<Rightarrow> bytes) vmu_durable" by (simp add: put_world_def)
  have st: "steady (\<lambda>w. w) (\<lambda>w. {w}) w w" for w :: "u64 \<Rightarrow> bytes" by (simp add: steady_def)
  let ?loan = "\<lparr>loan_ready = True, loan_slow = False, loan_select = True, loan_transfer = True, loan_ticks = True,
                   loan_transfer_block = True, loan_blocks = 2048, loan_high_capacity = False\<rparr>"
  have "healthy_lease (\<lambda>w. w) (\<lambda>w. {w}) (memory_lease 2048) sample_sealed"
    unfolding healthy_lease_def
  proof (intro allI)
    fix run :: "(u64 \<Rightarrow> bytes) vmu_durable \<Rightarrow> sd_loan \<Rightarrow> (u64 \<Rightarrow> bytes) vmu_durable \<times> sd_loan \<times> bool"
      and s :: "(u64 \<Rightarrow> bytes) vmu_durable"
    obtain s1 loan1 ok where run: "run s ?loan = (s1, loan1, ok)" by (metis prod_cases3)
    have "good_loan sample_sealed ?loan" by (simp add: good_loan_def sample_sealed_fields)
    moreover have "memory_lease 2048 run s = (s1, if ok then Lease_OK else Lease_Fault)" using run by (simp add: memory_lease_def)
    ultimately show "\<exists>w1 loan s1 loan1 ok w2. steady (\<lambda>w. w) (\<lambda>w. {w}) (durable_world s) w1 \<and> good_loan sample_sealed loan \<and>
        run (put_world s w1) loan = (s1, loan1, ok) \<and> steady (\<lambda>w. w) (\<lambda>w. {w}) (durable_world s1) w2 \<and>
        memory_lease 2048 run s = (put_world s1 w2, if ok then Lease_OK else Lease_Fault)"
      using run st same by metis
  qed
  moreover have "healthy_driver sample_driver sample_sealed"
    by (simp add: healthy_driver_def memory_sd_def sample_sealed_fields)
  ultimately show ?thesis by (simp add: healthy_def)
qed

abbreviation blank_view :: "nat \<Rightarrow> bytes" where "blank_view \<equiv> \<lambda>b. if b < 256 then replicate 512 0 else []"

text \<open>A READ of block 5 from the card that was just started.\<close>

definition durable_read_request :: bytes where
  "durable_read_request = [11, 1, 0, 2, 0, 0, 0, 2, 0, 0, 0, 5]"

lemma sample_read_run:
  "\<exists>s' bs. kui_vmu_durable_handle sample_driver (memory_lease 2048) sample_durable durable_read_request 524 = (s', Durable_Handled bs) \<and> hd bs = 8"
proof -
  let ?s = "sample_durable\<lparr>du_work := (du_work sample_durable)\<lparr>du_handling := True\<rparr>\<rparr>"
  have rest: "durable_rest sample_driver (\<lambda>w. w) (\<lambda>w. {w}) 1001 ?s blank_view"
    using sample_durable_at durable_rest_cong [of ?s sample_durable sample_driver "\<lambda>w. w" "\<lambda>w. {w}" 1001 blank_view]
    by (simp add: durable_at_def)
  have h: "healthy (\<lambda>w. w) (\<lambda>w. {w}) sample_driver (memory_lease 2048) (du_handoff (du_work ?s))"
    using memory_healthy by (simp add: sample_started)
  have c: "marker_clear (\<lambda>w. w) 1001 ?s" by (simp add: marker_clear_def sample_started)
  obtain t where t: "durable_card_read sample_driver (memory_lease 2048) ?s 5 = (t, Emu_OK, blank_view 5)"
    using read_succeeds [OF memory_medium memory_lease_law rest _ _ h c, of 5] by auto
  have base: "du_ready (du_work sample_durable)" "\<not> du_faulted (du_work sample_durable)" "\<not> du_handling (du_work sample_durable)"
    "\<not> du_inflight (du_work sample_durable)"
    using sample_durable_at by (simp_all add: durable_at_def durable_rest_def Let_def)
  show ?thesis
    using base t sample_started(2-4)
    by (simp add: kui_vmu_durable_handle_def durable_read_request_def get32_def durable_card_shape_def kui_vmu_emulation_handle_def
        needed_capacity_def handle_storage_def window_def memcard_function_def handle_read_def durable_reply_def reply_def Let_def)
qed

theorem durable_card_faithful_witness:
  "\<exists>s' bs. kui_vmu_durable_handle sample_driver (memory_lease 2048) sample_durable durable_read_request 524 = (s', Durable_Handled bs) \<and>
     drop 12 bs = replicate 512 0"
proof -
  obtain s' bs where run: "kui_vmu_durable_handle sample_driver (memory_lease 2048) sample_durable durable_read_request 524 = (s', Durable_Handled bs)"
    "hd bs = 8" using sample_read_run by blast
  have "durable_read_request ! 0 = 11" "request_block durable_read_request = 5" by (simp_all add: durable_read_request_def)
  then have "drop 12 bs = blank_view 5"
    using durable_card_faithful [OF memory_medium memory_lease_law sample_durable_at run(1)] run(2) by auto
  then show ?thesis using run(1) by auto
qed

theorem durable_card_never_faults_witness:
  "\<exists>s' bs. kui_vmu_durable_handle sample_driver (memory_lease 2048) sample_durable durable_read_request 524 = (s', Durable_Handled bs) \<and>
     \<not> du_faulted (du_work s')"
proof -
  obtain s' bs where run: "kui_vmu_durable_handle sample_driver (memory_lease 2048) sample_durable durable_read_request 524 = (s', Durable_Handled bs)"
    using sample_read_run by blast
  have h: "healthy (\<lambda>w. w) (\<lambda>w. {w}) sample_driver (memory_lease 2048) (du_handoff (du_work sample_durable))"
    using memory_healthy by (simp add: sample_started)
  have c: "marker_clear (\<lambda>w. w) 1001 sample_durable" by (simp add: marker_clear_def sample_started)
  show ?thesis
    using durable_card_never_faults [OF memory_medium memory_lease_law sample_durable_at h c _ run, of 5] run by (auto simp: sample_started)
qed

text \<open>A card with a complete block staged, and the SYNC that commits it.\<close>

definition sample_staged :: "(u64 \<Rightarrow> bytes) vmu_durable" where
  "sample_staged = sample_durable\<lparr>du_protocol := (du_protocol sample_durable)\<lparr>staged := replicate 512 7, staged_block := 5, active := True,
     phases := 15\<rparr>\<rparr>"

definition durable_sync_request :: bytes where
  "durable_sync_request = [13, 1, 0, 2, 0, 0, 0, 2, 0, 4, 0, 5]"

lemma sample_staged_at: "durable_at sample_driver (\<lambda>w. w) (\<lambda>w. {w}) 1001 sample_staged blank_view"
proof -
  have p: "emu_inv (du_protocol sample_durable)" "\<not> committed_valid (du_protocol sample_durable)"
    using started_work(9,10) [OF sample_durable [unfolded kui_vmu_durable_init_def]] .
  have "durable_rest sample_driver (\<lambda>w. w) (\<lambda>w. {w}) 1001 sample_staged blank_view"
    using sample_durable_at durable_rest_cong [of sample_staged sample_durable sample_driver "\<lambda>w. w" "\<lambda>w. {w}" 1001 blank_view]
    by (simp add: durable_at_def sample_staged_def)
  then show ?thesis
    using sample_durable_at p by (auto simp: durable_at_def protocol_holds_def emu_inv_def sample_staged_def phase_sets_def)
qed

lemma sample_sync_run:
  "\<exists>s' bs. kui_vmu_durable_handle sample_driver (memory_lease 2048) sample_staged durable_sync_request 8 = (s', Durable_Handled bs) \<and> hd bs = 7"
proof -
  let ?s = "sample_staged\<lparr>du_work := (du_work sample_staged)\<lparr>du_handling := True\<rparr>\<rparr>"
  have rest: "durable_rest sample_driver (\<lambda>w. w) (\<lambda>w. {w}) 1001 ?s blank_view"
    using sample_staged_at durable_rest_cong [of ?s sample_staged sample_driver "\<lambda>w. w" "\<lambda>w. {w}" 1001 blank_view]
    by (simp add: durable_at_def)
  have h: "healthy (\<lambda>w. w) (\<lambda>w. {w}) sample_driver (memory_lease 2048) (du_handoff (du_work ?s))"
    using memory_healthy by (simp add: sample_started sample_staged_def)
  have c: "marker_clear (\<lambda>w. w) 1001 ?s" by (simp add: marker_clear_def sample_started sample_staged_def)
  obtain t where t: "durable_card_commit sample_driver (memory_lease 2048) ?s 5 (staged (du_protocol ?s)) = (t, Emu_OK)"
    using commit_succeeds [OF memory_medium memory_lease_law rest _ _ h c, of 5] by auto
  have base: "du_ready (du_work sample_staged)" "\<not> du_faulted (du_work sample_staged)" "\<not> du_handling (du_work sample_staged)"
    "\<not> du_inflight (du_work sample_staged)"
    using sample_staged_at by (simp_all add: durable_at_def durable_rest_def Let_def)
  have p: "address (du_protocol sample_staged) = 1" "\<not> killed (du_protocol sample_staged)" "initialized (du_protocol sample_staged)"
    "active (du_protocol sample_staged)" "phases (du_protocol sample_staged) = 15" "staged_block (du_protocol sample_staged) = 5"
    using sample_started by (simp_all add: sample_staged_def)
  show ?thesis
    using base t p
    by (simp add: kui_vmu_durable_handle_def durable_sync_request_def get32_def durable_card_shape_def kui_vmu_emulation_handle_def
        needed_capacity_def handle_storage_def window_def memcard_function_def handle_sync_def durable_reply_def reply_def Let_def)
qed

theorem durable_save_survives_witness:
  "\<exists>s' bs t u. kui_vmu_durable_handle sample_driver (memory_lease 2048) sample_staged durable_sync_request 8 = (s', Durable_Handled bs) \<and>
     kui_vmu_store_open (power_card (durable_world s') 9) card_config = (t, Store_OK) \<and>
     kui_vmu_store_read t 5 = (u, Store_OK, Some (replicate 512 7))"
proof -
  obtain s' bs where run: "kui_vmu_durable_handle sample_driver (memory_lease 2048) sample_staged durable_sync_request 8 = (s', Durable_Handled bs)"
    "hd bs = 7" using sample_sync_run by blast
  have q: "durable_sync_request ! 0 = 13" "durable_sync_request ! 9 = 4" "request_block durable_sync_request = 5"
    by (simp_all add: durable_sync_request_def)
  have cfg: "durable_config (du_work sample_staged) = card_config" using sample_started by (simp add: sample_staged_def)
  let ?m = "durable_world s'"
  have in_crash: "?m \<in> {durable_world s'}" by simp
  note re = acknowledged_reopen [where crash = "\<lambda>w. {w}", OF memory_medium memory_lease_law sample_staged_at run(1) q(1,2) run(2), of ?m]
  have rec: "recoverable (configured (power_card ?m 9) card_config) ?m"
    using re same_config_media(1) [OF configured_same_config [of "power_card ?m 9" card_config "durable_io sample_driver None"]]
    by (auto simp: durable_model_def cfg)
  obtain t where t: "kui_vmu_store_open (power_card ?m 9) card_config = (t, Store_OK)" using power_open [OF _ rec] by auto
  have same: "same_store (configured (power_card ?m 9) card_config) t" and ready: "st_ready t"
    using open_sound [OF card_config_valid power_card_up rec t] t open_configured [OF card_config_valid(1), of "power_card ?m 9"]
    by (auto split: prod.splits if_splits)
  have "read_sector (st_io t) = (\<lambda>c l. (c, Some (fst c l)))"
    using same by (simp add: same_store_def configured_def Let_def power_card_def)
  then obtain u x where rd: "kui_vmu_store_read t 5 = (u, Store_OK, Some x)"
    using ready by (simp add: kui_vmu_store_read_def store_read_sector_def)
  have "x = staged (du_protocol sample_staged)"
    using durable_save_survives [where crash = "\<lambda>w. {w}", OF memory_medium memory_lease_law sample_staged_at run(1) q(1,2) run(2), OF in_crash, of "power_card ?m 9" fst
        "\<lambda>c. {fst c}" t Store_OK 5 u x] power_card_up [of ?m 9 card_config] t rd unfolding cfg q(3) by blast
  then show ?thesis using run(1) t rd by (auto simp: sample_staged_def)
qed

text \<open>
  The buffer check of the handler lets a RESET request with a response buffer of 4 bytes through, but the protocol wants 8 bytes
  before it answers anything: the request faults the card for good.
\<close>

theorem durable_reset_short_buffer:
  "\<exists>s'. kui_vmu_durable_handle drv lease sample_durable [3, 1, 0, 0] 4 = (s', Durable_Internal) \<and> du_faulted (du_work s')"
proof -
  have base: "du_ready (du_work sample_durable)" "\<not> du_faulted (du_work sample_durable)" "\<not> du_handling (du_work sample_durable)"
    "\<not> du_inflight (du_work sample_durable)"
    using sample_durable_at by (simp_all add: durable_at_def durable_rest_def Let_def)
  show ?thesis
    using base sample_started(2-4)
    by (simp add: kui_vmu_durable_handle_def get32_def durable_card_shape_def kui_vmu_emulation_handle_def needed_capacity_def
        durable_reply_def Let_def)
qed

end
