(* ===== verification/Vmu_Tools.thy ===== *)
theory Vmu_Tools
  imports Vmu_Image
begin

text \<open>
  Building card images from files and merging cards (src/core/vmu\_image\_pack.c and vmu\_image\_merge.c).
  An image in memory is a card, a function from block numbers to blocks.  Buffers are known by their addresses in the checks that they do
  not overlap; the sizes of the C structures are those of the 32-bit target.
\<close>

unbundle bit_operations_syntax

abbreviation (input) uintptr_top :: nat where "uintptr_top \<equiv> 0xffffffff"
abbreviation (input) workspace_size :: nat where "workspace_size \<equiv> 3720"
abbreviation (input) summary_size :: nat where "summary_size \<equiv> 16"
abbreviation (input) file_size :: nat where "file_size \<equiv> 40"

subsection \<open>Packing files into a new image\<close>

record vmu_image_file =
  vf_entry :: bytes
  vf_payload :: bytes
  vf_payload_at :: nat
  vf_bytes :: nat

type_synonym span = "nat \<times> nat"

definition span_for :: "nat \<Rightarrow> nat \<Rightarrow> span option" where
  "span_for p n = (if p = 0 \<or> n > uintptr_top - p then None else Some (p, p + n))"

definition overlap :: "span \<Rightarrow> span \<Rightarrow> bool" where
  "overlap a b = (fst a < snd b \<and> fst b < snd a)"

fun prevalidate_files :: "span list \<Rightarrow> vmu_image_file list \<Rightarrow> nat \<Rightarrow> nat \<Rightarrow> vmu_image_result" where
  "prevalidate_files outputs [] blocks_used games = Image_OK"
| "prevalidate_files outputs (f # fs) blocks_used games =
     (let entry = vf_entry f; n = le16 entry 24; game = (entry ! 0 = 0xcc) in
      if (entry ! 0 \<noteq> 0x33 \<and> entry ! 0 \<noteq> 0xcc) \<or> n = 0 \<or> n > 200 \<or> le16 entry 26 \<ge> n \<or> vf_bytes f \<noteq> n * 512 then Image_Filesystem
      else if game \<and> games + 1 > 1 then Image_Filesystem
      else if blocks_used + n > 200 then Image_Filesystem
      else case span_for (vf_payload_at f) (vf_bytes f) of None \<Rightarrow> Image_Argument
        | Some payload \<Rightarrow>
            if list_ex (\<lambda>out. overlap out payload) outputs then Image_Argument
            else prevalidate_files outputs fs (blocks_used + n) (if game then games + 1 else games))"

definition prevalidate :: "vmu_image_file list \<Rightarrow> nat \<Rightarrow> nat \<Rightarrow> nat \<Rightarrow> nat \<Rightarrow> nat \<Rightarrow> vmu_image_result" where
  "prevalidate files files_at dest n work summary =
     (if files = [] \<or> length files > 200 \<or> n \<noteq> vmu_image_bytes then Image_Argument
      else case (span_for dest n, span_for work workspace_size, span_for summary summary_size, span_for files_at (length files * file_size)) of
        (Some d, Some w, Some s, Some descriptors) \<Rightarrow>
          if overlap d descriptors \<or> overlap w descriptors \<or> overlap w d \<or> overlap s descriptors \<or> overlap s d \<or> overlap s w then Image_Argument
          else prevalidate_files [d, w, s] files 0 0
      | _ \<Rightarrow> Image_Argument)"

text \<open>Block \<open>n\<close> of a file: minigames grow upwards from block 0, data files downwards from \<open>first\<close>.\<close>

definition target :: "bool \<Rightarrow> nat \<Rightarrow> nat \<Rightarrow> nat" where
  "target game first n = (if game then n else first - n)"

definition next_block :: "bool \<Rightarrow> nat \<Rightarrow> nat \<Rightarrow> nat \<Rightarrow> nat" where
  "next_block game first len n = (let at = target game first n in if n + 1 = len then vmu_end else if game then at + 1 else at - 1)"

definition place_block :: "bool \<Rightarrow> nat \<Rightarrow> nat \<Rightarrow> (nat \<Rightarrow> bytes) \<Rightarrow> nat \<Rightarrow> card \<Rightarrow> card" where
  "place_block game first len payload n img =
     (let at = target game first n; img = img(at := payload n)
      in img(vmu_fat := patch (img vmu_fat) (2 * at) (put16 (next_block game first len n))))"

definition place_entry :: "bytes \<Rightarrow> nat \<Rightarrow> nat \<Rightarrow> card \<Rightarrow> card" where
  "place_entry entry i first img =
     (let d = vmu_dir_first - i div 16 in
      img(d := patch (patch (img d) (32 * (i mod 16)) entry) (32 * (i mod 16) + 2) (put16 first)))"

text \<open>One turn of the file loop; \<open>high\<close> is the first block above the free user area.\<close>

definition place_file :: "bytes \<Rightarrow> (nat \<Rightarrow> bytes) \<Rightarrow> nat \<Rightarrow> nat \<times> card \<Rightarrow> nat \<times> card" where
  "place_file entry payload i st =
     (case st of (high, img) \<Rightarrow>
      let len = le16 entry 24; game = (entry ! 0 = 0xcc); first = (if game then 0 else high - 1);
          img = place_entry entry i first img;
          img = fold (place_block game first len payload) [0..<len] img
      in (if game then high else high - len, img))"

fun place_files :: "(bytes \<times> (nat \<Rightarrow> bytes)) list \<Rightarrow> nat \<Rightarrow> nat \<times> card \<Rightarrow> nat \<times> card" where
  "place_files [] i st = st"
| "place_files ((entry, payload) # fs) i st = place_files fs (Suc i) (place_file entry payload i st)"

definition blank_card :: card where
  "blank_card b = make_block b default_time"

definition packed_file :: "vmu_image_file \<Rightarrow> bytes \<times> (nat \<Rightarrow> bytes)" where
  "packed_file f = (vf_entry f, \<lambda>n. window (vf_payload f) (512 * n) 512)"

definition kui_vmu_image_pack ::
    "vmu_image_file list \<Rightarrow> nat \<Rightarrow> card \<Rightarrow> nat \<Rightarrow> nat \<Rightarrow> nat \<Rightarrow> nat \<Rightarrow> vmu_image_workspace \<Rightarrow> vmu_image_result \<times> card \<times> vmu_image_summary option" where
  "kui_vmu_image_pack files files_at destination dest n work_at summary work =
     (let r = prevalidate files files_at dest n work_at summary in
      if r \<noteq> Image_OK then (r, destination, None)
      else let image = snd (place_files (map packed_file files) 0 (200, blank_card)) in
        case validate_card image work of (r, _, verified) \<Rightarrow>
          if r \<noteq> Image_OK then (Image_Verify, image, None) else (Image_OK, image, Some verified))"

subsection \<open>Where the builder puts a file\<close>

definition file_chain :: "bytes \<Rightarrow> nat \<Rightarrow> nat list" where
  "file_chain entry high =
     (let len = le16 entry 24 in if entry ! 0 = 0xcc then [0..<len] else rev [high - len..<high])"

lemma length_file_chain: "le16 entry 24 \<le> high \<Longrightarrow> length (file_chain entry high) = le16 entry 24"
  by (simp add: file_chain_def Let_def)

lemma file_chain_nth:
  assumes "le16 entry 24 \<le> high" "n < le16 entry 24"
  shows "file_chain entry high ! n = target (entry ! 0 = 0xcc) (if entry ! 0 = 0xcc then 0 else high - 1) n"
  using assms by (simp add: file_chain_def Let_def target_def rev_nth)

lemma place_block_apply:
  "target game first n < 200 \<Longrightarrow> place_block game first len payload n img b =
     (if b = vmu_fat then patch (img vmu_fat) (2 * target game first n) (put16 (next_block game first len n))
      else if b = target game first n then payload n else img b)"
  by (auto simp: place_block_def Let_def)

lemma fold_place_block:
  assumes "k \<le> len" "inj_on (target game first) {..<len}" "\<forall>n<len. target game first n < 200"
  shows "fold (place_block game first len payload) [0..<k] img b =
    (if b < 200 then (if b \<in> target game first ` {..<k} then payload (the_inv_into {..<len} (target game first) b) else img b)
     else if b = vmu_fat then fold (\<lambda>n fat. patch fat (2 * target game first n) (put16 (next_block game first len n))) [0..<k] (img vmu_fat)
     else img b)"
  using assms(1)
proof (induction k arbitrary: b)
  case (Suc k)
  let ?t = "target game first"
  have t: "?t k < 200" using assms(3) Suc.prems by simp
  have inv: "the_inv_into {..<len} ?t (?t k) = k" using assms(2) Suc.prems by (intro the_inv_into_f_f) auto
  have unf: "fold (place_block game first len payload) [0..<Suc k] img = place_block game first len payload k (fold (place_block game first len payload) [0..<k] img)"
    by simp
  show ?case
    unfolding unf place_block_apply [OF t] using Suc.IH [of b] Suc.IH [of vmu_fat] Suc.prems t inv
    by (auto simp: lessThan_Suc)
qed simp

lemma fold_patch_fat:
  assumes "k \<le> len" "inj_on t {..<len}" "\<forall>n<len. t n < 200" "length fat = 512" "\<forall>n<len. v n < 65536"
  shows "length (fold (\<lambda>n fat. patch fat (2 * t n) (put16 (v n))) [0..<k] fat) = 512
    \<and> (\<forall>b<256. le16 (fold (\<lambda>n fat. patch fat (2 * t n) (put16 (v n))) [0..<k] fat) (2 * b) =
       (if b \<in> t ` {..<k} then v (the_inv_into {..<len} t b) else le16 fat (2 * b)))"
  using assms(1)
proof (induction k)
  case (Suc k)
  let ?f = "fold (\<lambda>n fat. patch fat (2 * t n) (put16 (v n))) [0..<k] fat"
  have IH: "length ?f = 512" "\<And>b. b < 256 \<Longrightarrow> le16 ?f (2 * b) = (if b \<in> t ` {..<k} then v (the_inv_into {..<len} t b) else le16 fat (2 * b))"
    using Suc by auto
  have t: "t k < 200" "v k < 65536" using assms Suc.prems by auto
  have inv: "the_inv_into {..<len} t (t k) = k" using assms(2) Suc.prems by (intro the_inv_into_f_f) auto
  have "le16 (patch ?f (2 * t k) (put16 (v k))) (2 * b) = (if b \<in> t ` {..<Suc k} then v (the_inv_into {..<len} t b) else le16 fat (2 * b))" if "b < 256" for b
  proof (cases "b = t k")
    case True
    then show ?thesis using t IH(1) inv by (simp add: le16_patch_put16 lessThan_Suc)
  next
    case False
    then have "le16 (patch ?f (2 * t k) (put16 (v k))) (2 * b) = le16 ?f (2 * b)"
      using t IH(1) that by (intro le16_patch_other) auto
    then show ?thesis using False IH(2) [OF that] by (simp add: lessThan_Suc)
  qed
  then show ?case using t IH(1) by (simp add: length_patch)
qed (use assms in simp)

text \<open>The blocks and the allocation table after one file.\<close>

definition chain_links :: "bytes \<Rightarrow> nat list \<Rightarrow> bool" where
  "chain_links fat cs = (\<forall>n<length cs. le16 fat (2 * cs ! n) = (if n + 1 = length cs then vmu_end else cs ! (n + 1)))"

lemma place_file_image:
  assumes e: "length entry = 32" and len: "0 < le16 entry 24" "le16 entry 24 \<le> high" "high \<le> 200"
    and fat: "length (img vmu_fat) = 512" and i: "i < 208"
    and p: "place_file entry payload i (high, img) = (high', img')"
  defines "cs \<equiv> file_chain entry high"
  shows "high' = (if entry ! 0 = 0xcc then high else high - le16 entry 24)"
    "\<And>n. n < length cs \<Longrightarrow> img' (cs ! n) = payload n"
    "\<And>b. b < 200 \<Longrightarrow> b \<notin> set cs \<Longrightarrow> img' b = img b"
    "length (img' vmu_fat) = 512" "chain_links (img' vmu_fat) cs"
    "\<And>b. b < 256 \<Longrightarrow> b \<notin> set cs \<Longrightarrow> le16 (img' vmu_fat) (2 * b) = le16 (img vmu_fat) (2 * b)"
    "img' vmu_root = img vmu_root"
    "\<And>d. 200 \<le> d \<Longrightarrow> d < 254 \<Longrightarrow> img' d = (if d = vmu_dir_first - i div 16
        then patch (patch (img d) (32 * (i mod 16)) entry) (32 * (i mod 16) + 2) (put16 (if entry ! 0 = 0xcc then 0 else high - 1)) else img d)"
proof -
  define len where "len = le16 entry 24"
  define game where "game = (entry ! 0 = 0xcc)"
  define first where "first = (if game then 0 else high - 1)"
  define im where "im = place_entry entry i first img"
  let ?t = "target game first" and ?v = "next_block game first len"
  have l: "0 < len" "len \<le> high" "len \<le> 200" using len by (simp_all add: len_def)
  have inj: "inj_on ?t {..<len}" using l by (auto simp: inj_on_def target_def first_def split: if_splits)
  have lt: "\<forall>n<len. ?t n < 200" using l len(3) by (auto simp: target_def first_def)
  have v: "\<forall>n<len. ?v n < 65536" using lt by (auto simp: next_block_def Let_def target_def split: if_splits)
  have img': "img' = fold (place_block game first len payload) [0..<len] im" "high' = (if game then high else high - len)"
    using p by (auto simp: place_file_def Let_def im_def first_def game_def len_def)
  have csl: "length cs = len" using len by (simp add: cs_def length_file_chain len_def)
  have csn: "cs ! n = ?t n" if "n < len" for n
    using that len file_chain_nth [of entry high n] by (simp add: cs_def game_def first_def len_def)
  have css: "set cs = ?t ` {..<len}" using csl csn by (auto simp: set_conv_nth image_iff) force
  have dd: "241 \<le> vmu_dir_first - i div 16" using i by simp
  have imb: "im b = img b" if "b < 241 \<or> 253 < b" for b using that dd by (auto simp: im_def place_entry_def Let_def)
  note fb = fold_place_block [OF order_refl inj lt, of payload im]
  have fatfold: "img' vmu_fat = fold (\<lambda>n fat. patch fat (2 * ?t n) (put16 (?v n))) [0..<len] (img vmu_fat)"
    using fb [of vmu_fat] imb [of vmu_fat] by (simp add: img')
  have "length (img vmu_fat) = 512" by (rule fat)
  note ff = fold_patch_fat [OF order_refl inj lt this v]
  have tinv: "the_inv_into {..<len} ?t (?t n) = n" if "n < len" for n using that inj by (intro the_inv_into_f_f) auto
  show "high' = (if entry ! 0 = 0xcc then high else high - le16 entry 24)" using img'(2) by (simp add: game_def len_def)
  show "img' (cs ! n) = payload n" if "n < length cs" for n
    using that csl csn lt tinv fb [of "?t n"] by (auto simp: img')
  show "img' b = img b" if "b < 200" "b \<notin> set cs" for b using that fb [of b] imb [of b] css by (simp add: img')
  show "length (img' vmu_fat) = 512" using ff fatfold by simp
  show "le16 (img' vmu_fat) (2 * b) = le16 (img vmu_fat) (2 * b)" if "b < 256" "b \<notin> set cs" for b
    using that ff fatfold css by simp
  show "chain_links (img' vmu_fat) cs"
    unfolding chain_links_def
  proof (intro allI impI)
    fix n assume n: "n < length cs"
    then have n': "n < len" "?t n \<in> ?t ` {..<len}" "?t n < 256" using csl lt by fastforce+
    have "le16 (img' vmu_fat) (2 * ?t n) = ?v (the_inv_into {..<len} ?t (?t n))"
      unfolding fatfold using ff n'(2,3) by simp
    then have "le16 (img' vmu_fat) (2 * cs ! n) = ?v n" using csn n'(1) tinv by simp
    also have "\<dots> = (if n + 1 = length cs then vmu_end else cs ! (n + 1))"
    proof (cases "n + 1 = len")
      case False
      then have "n + 1 < len" using n csl by simp
      then show ?thesis using csn [of "n + 1"] csl l by (auto simp: next_block_def Let_def target_def first_def)
    qed (simp add: next_block_def Let_def csl)
    finally show "le16 (img' vmu_fat) (2 * cs ! n) = (if n + 1 = length cs then vmu_end else cs ! (n + 1))" .
  qed
  show "img' vmu_root = img vmu_root" using fb [of vmu_root] imb [of vmu_root] by (simp add: img')
  show "img' d = (if d = vmu_dir_first - i div 16
        then patch (patch (img d) (32 * (i mod 16)) entry) (32 * (i mod 16) + 2) (put16 (if entry ! 0 = 0xcc then 0 else high - 1)) else img d)"
    if "200 \<le> d" "d < 254" for d
    using that fb [of d] by (auto simp: img' im_def place_entry_def Let_def first_def game_def)
qed

subsection \<open>The directory as 208 slots\<close>

definition dir_slot :: "card \<Rightarrow> nat \<Rightarrow> bytes" where
  "dir_slot img k = window (img (vmu_dir_first - k div 16)) (32 * (k mod 16)) 32"

lemma directory_blocks_eq: "directory_blocks = map (\<lambda>j. vmu_dir_first - j) [0..<13]"
  by (simp add: directory_blocks_def upt_conv_Cons upt_rec)

lemma concat_rows: "concat (map (\<lambda>j. map (f j) [0..<w]) [0..<n]) = map (\<lambda>k. f (k div w) (k mod w)) [0..<n * w]"
proof (induction n)
  case (Suc n)
  have "[0..<Suc n * w] = [0..<n * w] @ [n * w..<n * w + w]" 
    using upt_add_eq_append [of 0 "n * w" w] by (simp add: add.commute)
  moreover have "map (\<lambda>k. f (k div w) (k mod w)) [n * w..<n * w + w] = map (f n) [0..<w]"
    by (rule nth_equalityI) auto
  ultimately show ?case using Suc by (simp only: map_append upt_Suc_append concat_append le0 list.map concat.simps append_Nil2)
qed simp

lemma dir_entries_slots: "dir_entries img = map (dir_slot img) [0..<208]"
proof -
  have "dir_entries img = concat (map (\<lambda>j. map (\<lambda>s. window (img (vmu_dir_first - j)) (32 * s) 32) [0..<16]) [0..<13])"
    by (simp add: dir_entries_def directory_blocks_eq block_entries_def comp_def)
  also have "\<dots> = map (\<lambda>k. window (img (vmu_dir_first - k div 16)) (32 * (k mod 16)) 32) [0..<13 * 16]" by (rule concat_rows)
  finally show ?thesis by (simp add: dir_slot_def)
qed

definition placed_entry :: "bytes \<Rightarrow> nat \<Rightarrow> bytes" where
  "placed_entry entry first = patch entry 2 (put16 first)"

lemma patch_inner:
  assumes "length entry = 32" "i + 32 \<le> length p" "length v = 2"
  shows "window (patch (patch p i entry) (i + 2) v) i 32 = patch entry 2 v"
  using assms by (auto intro!: nth_equalityI simp: nth_window length_window nth_patch length_patch)

lemma dir_slot_place:
  assumes e: "length entry = 32" and len: "\<And>d. 241 \<le> d \<Longrightarrow> d < 254 \<Longrightarrow> length (img d) = 512" and ik: "i < 208" "k < 208"
    and d: "\<And>d. 241 \<le> d \<Longrightarrow> d < 254 \<Longrightarrow> img' d = (if d = vmu_dir_first - i div 16
        then patch (patch (img d) (32 * (i mod 16)) entry) (32 * (i mod 16) + 2) (put16 first) else img d)"
  shows "dir_slot img' k = (if k = i then placed_entry entry first else dir_slot img k)"
proof -
  have r: "241 \<le> vmu_dir_first - k div 16" "vmu_dir_first - k div 16 < 254" using ik by auto
  have dk: "vmu_dir_first - k div 16 = vmu_dir_first - i div 16 \<longleftrightarrow> k div 16 = i div 16" using ik by auto
  have bounds: "32 * (k mod 16) + 32 \<le> 512" "32 * (i mod 16) + 32 \<le> 512"
    using mod_less_divisor [of 16 k] mod_less_divisor [of 16 i] by linarith+
  show ?thesis
  proof (cases "k div 16 = i div 16")
    case False
    then have "k \<noteq> i" by auto
    then show ?thesis using d [OF r] dk False by (simp add: dir_slot_def)
  next
    case same: True
    let ?p = "img (vmu_dir_first - i div 16)"
    have l: "length ?p = 512" using len r same by simp
    have im: "img' (vmu_dir_first - k div 16) = patch (patch ?p (32 * (i mod 16)) entry) (32 * (i mod 16) + 2) (put16 first)"
      using d [OF r] dk same by simp
    show ?thesis
    proof (cases "k = i")
      case True
      then show ?thesis unfolding dir_slot_def im using patch_inner [OF e, of "32 * (i mod 16)" ?p "put16 first"] l bounds
        by (simp add: placed_entry_def)
    next
      case False
      then have "k mod 16 \<noteq> i mod 16" using same by (metis div_mult_mod_eq)
      then have sep: "32 * (k mod 16) + 32 \<le> 32 * (i mod 16) \<or> 32 * (i mod 16) + 32 \<le> 32 * (k mod 16)" by linarith
      have "window (patch (patch ?p (32 * (i mod 16)) entry) (32 * (i mod 16) + 2) (put16 first)) (32 * (k mod 16)) 32 = window ?p (32 * (k mod 16)) 32"
        using sep bounds l e by (auto intro!: nth_equalityI simp: nth_window length_window nth_patch length_patch)
      then show ?thesis using False same unfolding dir_slot_def im by simp
    qed
  qed
qed

subsection \<open>Placing a list of files\<close>

definition high_after :: "bytes \<Rightarrow> nat \<Rightarrow> nat" where
  "high_after e high = (if e ! 0 = 0xcc then high else high - le16 e 24)"

fun layout :: "nat \<Rightarrow> bytes list \<Rightarrow> nat list list" where
  "layout high [] = []"
| "layout high (e # es) = file_chain e high # layout (high_after e high) es"

fun fits :: "nat \<Rightarrow> bytes list \<Rightarrow> bool" where
  "fits high [] = True"
| "fits high (e # es) = (length e = 32 \<and> 0 < le16 e 24 \<and> le16 e 24 \<le> high \<and> fits (high_after e high) es)"

lemma length_layout [simp]: "length (layout high es) = length es"
  by (induction es arbitrary: high) auto

definition card_sized :: "card \<Rightarrow> bool" where
  "card_sized img = (length (img vmu_fat) = 512 \<and> (\<forall>d. 241 \<le> d \<and> d < 254 \<longrightarrow> length (img d) = 512))"

text \<open>The effect of placing files from slot \<open>i\<close> on, along their chains \<open>cc\<close>.\<close>

definition placed :: "(bytes \<times> (nat \<Rightarrow> bytes)) list \<Rightarrow> nat list list \<Rightarrow> nat \<Rightarrow> card \<Rightarrow> card \<Rightarrow> bool" where
  "placed fs cc i img img' =
     (card_sized img' \<and> img' vmu_root = img vmu_root
      \<and> (\<forall>j<length fs. \<forall>n<length (cc ! j). img' (cc ! j ! n) = snd (fs ! j) n)
      \<and> (\<forall>j<length fs. chain_links (img' vmu_fat) (cc ! j))
      \<and> (\<forall>b<200. b \<notin> set (concat cc) \<longrightarrow> img' b = img b)
      \<and> (\<forall>b<256. b \<notin> set (concat cc) \<longrightarrow> le16 (img' vmu_fat) (2 * b) = le16 (img vmu_fat) (2 * b))
      \<and> (\<forall>k<208. dir_slot img' k = (if i \<le> k \<and> k < i + length fs then placed_entry (fst (fs ! (k - i))) (hd (cc ! (k - i))) else dir_slot img k)))"

lemma file_chain_hd: "0 < le16 e 24 \<Longrightarrow> le16 e 24 \<le> high \<Longrightarrow> hd (file_chain e high) = (if e ! 0 = 0xcc then 0 else high - 1)"
  by (simp add: file_chain_def Let_def hd_rev last_conv_nth)

lemma chain_links_cong:
  "chain_links fat cs \<Longrightarrow> (\<And>b. b \<in> set cs \<Longrightarrow> le16 fat' (2 * b) = le16 fat (2 * b)) \<Longrightarrow> chain_links fat' cs"
  by (simp add: chain_links_def)

lemma place_file_placed:
  assumes "length e = 32" "0 < le16 e 24" "le16 e 24 \<le> high" "high \<le> 200" "card_sized img" "i < 208"
    and p: "place_file e payload i (high, img) = (high', img')"
  shows "high' = high_after e high \<and> placed [(e, payload)] [file_chain e high] i img img'"
proof -
  have f: "length (img vmu_fat) = 512" using assms(5) by (simp add: card_sized_def)
  note g = place_file_image [OF assms(1-4) f assms(6) p]
  have d: "img' d = (if d = vmu_dir_first - i div 16 then patch (patch (img d) (32 * (i mod 16)) e) (32 * (i mod 16) + 2)
      (put16 (hd (file_chain e high))) else img d)" if "241 \<le> d" "d < 254" for d
    using that g(8) [of d] assms(2,3) by (simp add: file_chain_hd)
  have "length (img' d) = 512" if "241 \<le> d" "d < 254" for d
  proof -
    have "32 * (i mod 16) + 32 \<le> 512" using mod_less_divisor [of 16 i] by linarith
    then show ?thesis using that d assms(1,5) by (simp add: card_sized_def length_patch)
  qed
  moreover have "dir_slot img' k = (if k = i then placed_entry e (hd (file_chain e high)) else dir_slot img k)" if "k < 208" for k
    by (rule dir_slot_place [OF assms(1) _ assms(6) that]) (use d assms(5) in \<open>auto simp: card_sized_def\<close>)
  ultimately show ?thesis using g by (auto simp: placed_def card_sized_def high_after_def less_Suc_eq_le)
qed

lemma placed_Cons:
  assumes a: "placed [f] [c] i img im" and b: "placed fs cc (Suc i) im img'"
    and l: "length cc = length fs" and dj: "set c \<inter> set (concat cc) = {}" and lt: "set c \<subseteq> {..<200}"
  shows "placed (f # fs) (c # cc) i img img'"
proof -
  have n: "c ! n < 200" "c ! n \<notin> set (concat cc)" if "n < length c" for n
  proof -
    have "c ! n \<in> set c" using that by simp
    then show "c ! n < 200" "c ! n \<notin> set (concat cc)" using dj lt by blast+
  qed
  have pf: "le16 (img' vmu_fat) (2 * x) = le16 (im vmu_fat) (2 * x)" if "x < 256" "x \<notin> set (concat cc)" for x
    using that b unfolding placed_def by blast
  have cl: "chain_links (im vmu_fat) c" using a by (simp add: placed_def)
  have links: "chain_links (img' vmu_fat) c"
  proof (rule chain_links_cong [OF cl pf])
    fix x assume "x \<in> set c"
    then have "x < 200" "x \<notin> set (concat cc)" using dj lt by blast+
    then show "x < 256" "x \<notin> set (concat cc)" by simp_all
  qed
  have pay: "img' (c ! k) = snd f k" if "k < length c" for k
    using that a b n [OF that] unfolding placed_def by auto
  show ?thesis
    unfolding placed_def
  proof (intro conjI allI impI)
    show "card_sized img'" using b by (simp add: placed_def)
    show "img' vmu_root = img vmu_root" using a b by (simp add: placed_def)
    show "img' ((c # cc) ! j ! k) = snd ((f # fs) ! j) k" if "j < length (f # fs)" "k < length ((c # cc) ! j)" for j k
      using that pay b by (cases j) (auto simp: placed_def)
    show "chain_links (img' vmu_fat) ((c # cc) ! j)" if "j < length (f # fs)" for j
      using that links b by (cases j) (auto simp: placed_def)
    show "img' x = img x" if "x < 200" "x \<notin> set (concat (c # cc))" for x
      using that a b by (auto simp: placed_def)
    show "le16 (img' vmu_fat) (2 * x) = le16 (img vmu_fat) (2 * x)" if "x < 256" "x \<notin> set (concat (c # cc))" for x
      using that a b by (auto simp: placed_def)
    fix k :: nat assume k: "k < 208"
    have s1: "dir_slot im k = (if k = i then placed_entry (fst f) (hd c) else dir_slot img k)"
      using a k by (simp add: placed_def)
    have s2: "dir_slot img' k = (if Suc i \<le> k \<and> k < Suc i + length fs then placed_entry (fst (fs ! (k - Suc i))) (hd (cc ! (k - Suc i))) else dir_slot im k)"
      using b k unfolding placed_def by blast
    consider "k < i" | "k = i" | "Suc i \<le> k" "k < Suc i + length fs" | "Suc i + length fs \<le> k" by linarith
    then show "dir_slot img' k = (if i \<le> k \<and> k < i + length (f # fs) then placed_entry (fst ((f # fs) ! (k - i))) (hd ((c # cc) ! (k - i))) else dir_slot img k)"
    proof cases
      case 3
      then have "k - i = Suc (k - Suc i)" by simp
      then show ?thesis using 3 s2 by simp
    qed (use s1 s2 in auto)
  qed
qed

lemma file_chain_bounds: "le16 e 24 \<le> high \<Longrightarrow> set (file_chain e high) \<subseteq> {..<high}"
  by (auto simp: file_chain_def Let_def)

lemma high_after_le: "high_after e high \<le> high"
  by (simp add: high_after_def)

lemma place_files_placed:
  assumes "fits high (map fst fs)" "high \<le> 200" "card_sized img" "i + length fs \<le> 208" "distinct (concat (layout high (map fst fs)))"
  shows "placed fs (layout high (map fst fs)) i img (snd (place_files fs i (high, img)))"
  using assms
proof (induction fs arbitrary: i high img)
  case Nil
  then show ?case by (auto simp: placed_def)
next
  case (Cons f fs)
  obtain e payload where f: "f = (e, payload)" by fastforce
  obtain h im where p: "place_file e payload i (high, img) = (h, im)" by fastforce
  have ft: "length e = 32" "0 < le16 e 24" "le16 e 24 \<le> high" "fits (high_after e high) (map fst fs)" using Cons.prems(1) by (simp_all add: f)
  have q: "h = high_after e high" "placed [(e, payload)] [file_chain e high] i img im"
    using place_file_placed [OF ft(1-3) Cons.prems(2,3) _ p] Cons.prems(4) by auto
  have sized: "card_sized im" using q(2) by (simp add: placed_def)
  have d: "distinct (concat (layout (high_after e high) (map fst fs)))" "set (file_chain e high) \<inter> set (concat (layout (high_after e high) (map fst fs))) = {}"
    using Cons.prems(5) by (simp_all add: f)
  have IH: "placed fs (layout (high_after e high) (map fst fs)) (Suc i) im (snd (place_files fs (Suc i) (high_after e high, im)))"
    by (rule Cons.IH [OF ft(4) _ sized _ d(1)]) (use Cons.prems high_after_le [of e high] in auto)
  have "set (file_chain e high) \<subseteq> {..<200}" using file_chain_bounds [OF ft(3)] Cons.prems(2) by auto
  from placed_Cons [OF q(2) IH _ d(2) this] show ?case by (simp add: f p q(1))
qed

subsection \<open>The packed card is well formed\<close>

definition entry_sound :: "bytes \<Rightarrow> bool" where
  "entry_sound e = (length e = 32 \<and> (e ! 0 = 0x33 \<or> e ! 0 = 0xcc) \<and> 0 < le16 e 24 \<and> le16 e 24 \<le> 200 \<and> le16 e 26 < le16 e 24)"

definition file_blocks_total :: "bytes list \<Rightarrow> nat" where
  "file_blocks_total es = sum_list (map (\<lambda>e. le16 e 24) es)"

definition data_blocks_total :: "bytes list \<Rightarrow> nat" where
  "data_blocks_total es = sum_list (map (\<lambda>e. if e ! 0 = 0xcc then 0 else le16 e 24) es)"

lemma data_le_total: "data_blocks_total es \<le> file_blocks_total es"
  unfolding data_blocks_total_def file_blocks_total_def by (intro sum_list_mono) simp

text \<open>The layout of files that fit: data files fill the user area from the top, the minigame from the bottom.\<close>

lemma layout_data:
  assumes "data_blocks_total es \<le> high" "\<forall>e\<in>set es. e ! 0 \<noteq> 0xcc"
  shows "distinct (concat (layout high es)) \<and> set (concat (layout high es)) = {high - data_blocks_total es..<high}"
  using assms
proof (induction es arbitrary: high)
  case (Cons e es)
  let ?h = "high - le16 e 24"
  have t: "data_blocks_total (e # es) = le16 e 24 + data_blocks_total es" using Cons.prems(2) by (simp add: data_blocks_total_def)
  have IH: "distinct (concat (layout ?h es)) \<and> set (concat (layout ?h es)) = {?h - data_blocks_total es..<?h}"
    by (rule Cons.IH) (use Cons.prems t in auto)
  have "file_chain e high = rev [?h..<high]" "high_after e high = ?h" using Cons.prems(2) by (simp_all add: file_chain_def high_after_def Let_def)
  then show ?case using IH t Cons.prems(1) by auto
qed (simp add: data_blocks_total_def)

lemma file_layout_bounds:
  "data_blocks_total es \<le> high \<Longrightarrow> (\<forall>e\<in>set es. e ! 0 = 0xcc \<longrightarrow> le16 e 24 \<le> high - data_blocks_total es) \<Longrightarrow> length (filter is_game es) \<le> 1
   \<Longrightarrow> distinct (concat (layout high es))
     \<and> set (concat (layout high es)) = {high - data_blocks_total es..<high} \<union> (\<Union>e\<in>set es. if e ! 0 = 0xcc then {..<le16 e 24} else {})"
proof (induction es arbitrary: high)
  case (Cons e es)
  show ?case
  proof (cases "e ! 0 = 0xcc")
    case True
    then have "is_game e" by (simp add: is_game_def)
    then have ng: "filter is_game es = []" using Cons.prems(3) by simp
    then have ns: "\<forall>e\<in>set es. e ! 0 \<noteq> 0xcc" by (auto simp: is_game_def filter_empty_conv)
    have t: "data_blocks_total (e # es) = data_blocks_total es" using True by (simp add: data_blocks_total_def)
    note ld = layout_data [OF _ ns, of high]
    have "file_chain e high = [0..<le16 e 24]" "high_after e high = high" using True by (simp_all add: file_chain_def high_after_def Let_def)
    moreover have "le16 e 24 \<le> high - data_blocks_total es" using Cons.prems(2) True t by simp
    ultimately show ?thesis using ld Cons.prems(1) t True ns by (auto split: if_splits)
  next
    case False
    let ?h = "high - le16 e 24"
    have t: "data_blocks_total (e # es) = le16 e 24 + data_blocks_total es" using False by (simp add: data_blocks_total_def)
    have IH: "distinct (concat (layout ?h es))
      \<and> set (concat (layout ?h es)) = {?h - data_blocks_total es..<?h} \<union> (\<Union>e\<in>set es. if e ! 0 = 0xcc then {..<le16 e 24} else {})"
      by (rule Cons.IH) (use Cons.prems t False in \<open>auto simp: is_game_def\<close>)
    have f: "file_chain e high = rev [?h..<high]" "high_after e high = ?h" using False by (simp_all add: file_chain_def high_after_def Let_def)
    have "le16 x 24 \<le> ?h" if "x \<in> set es" "x ! 0 = 0xcc" for x using Cons.prems(2) that t by fastforce
    then have "{?h..<high} \<inter> set (concat (layout ?h es)) = {}" using IH by (fastforce split: if_splits)
    moreover have "set (concat (layout ?h es)) \<union> {?h..<high} =
        {high - data_blocks_total (e # es)..<high} \<union> (\<Union>e\<in>set (e # es). if e ! 0 = 0xcc then {..<le16 e 24} else {})"
      using IH t Cons.prems(1) False by auto
    ultimately show ?thesis using IH f by auto
  qed
qed (simp add: data_blocks_total_def)

lemma chain_of_links: "chain_links fat cs \<Longrightarrow> cs \<noteq> [] \<Longrightarrow> chain fat (hd cs) (length cs) = cs"
proof (induction cs)
  case (Cons c cs)
  show ?case
  proof (cases cs)
    case (Cons d ds)
    have "le16 fat (2 * c) = hd cs" using Cons.prems(1) Cons by (auto simp: chain_links_def dest: spec [of _ 0])
    moreover have "chain_links fat cs"
      unfolding chain_links_def
    proof (intro allI impI)
      fix n assume "n < length cs"
      then show "le16 fat (2 * cs ! n) = (if n + 1 = length cs then vmu_end else cs ! (n + 1))"
        using Cons.prems(1) [unfolded chain_links_def, rule_format, of "Suc n"] by simp
    qed
    ultimately show ?thesis using Cons.IH Cons by simp
  qed simp
qed simp

lemma filter_count_eq:
  assumes "map P xs = map P ys"
  shows "length (filter P xs) = length (filter P ys)"
proof -
  have "length (filter P zs) = length (filter (\<lambda>b. b) (map P zs))" for zs by (simp add: filter_map comp_def)
  from this [of xs] this [of ys] show ?thesis unfolding assms by (rule trans [OF _ sym])
qed

lemma placed_entry_fields:
  assumes "length e = 32" "first < 65536"
  shows "placed_entry e first ! 0 = e ! 0" "le16 (placed_entry e first) 2 = first" "le16 (placed_entry e first) 24 = le16 e 24"
    "le16 (placed_entry e first) 26 = le16 e 26"
  using assms by (simp_all add: placed_entry_def nth_patch le16_patch_put16 le16_patch_other)

definition built_entries :: "bytes list \<Rightarrow> bytes list" where
  "built_entries es = map (\<lambda>j. placed_entry (es ! j) (hd (layout 200 es ! j))) [0..<length es]"

definition buildable :: "bytes list \<Rightarrow> bool" where
  "buildable es = ((\<forall>e\<in>set es. entry_sound e) \<and> length es \<le> 200 \<and> length (filter is_game es) \<le> 1 \<and> file_blocks_total es \<le> 200)"

lemma game_total: "e \<in> set es \<Longrightarrow> e ! 0 = 0xcc \<Longrightarrow> le16 e 24 + data_blocks_total es \<le> file_blocks_total es"
proof (induction es)
  case (Cons x es)
  then show ?case using data_le_total [of es] by (auto simp: data_blocks_total_def file_blocks_total_def)
qed simp

lemma buildable_layout:
  assumes "buildable es"
  shows "distinct (concat (layout 200 es))" "set (concat (layout 200 es)) \<subseteq> {..<200}" "fits 200 es" "length (concat (layout 200 es)) = file_blocks_total es"
proof -
  have t: "data_blocks_total es \<le> 200" "\<forall>e\<in>set es. e ! 0 = 0xcc \<longrightarrow> le16 e 24 \<le> 200 - data_blocks_total es" "length (filter is_game es) \<le> 1"
    using assms data_le_total [of es] game_total [of _ es] unfolding buildable_def by fastforce+
  from file_layout_bounds [OF t] show "distinct (concat (layout 200 es))" "set (concat (layout 200 es)) \<subseteq> {..<200}"
    using t by (auto split: if_splits)
  have f: "fits high es" if "\<forall>e\<in>set es. entry_sound e" "data_blocks_total es \<le> high" "\<forall>e\<in>set es. e ! 0 = 0xcc \<longrightarrow> le16 e 24 \<le> high - data_blocks_total es"
    for high es
    using that
  proof (induction es arbitrary: high)
    case (Cons e es)
    have "fits (high_after e high) es"
      by (rule Cons.IH) (use Cons.prems in \<open>auto simp: high_after_def data_blocks_total_def split: if_splits\<close>)
    moreover have "le16 e 24 \<le> high" using Cons.prems by (cases "e ! 0 = 0xcc") (auto simp: data_blocks_total_def)
    ultimately show ?case using Cons.prems by (simp add: entry_sound_def)
  qed simp
  then show fit: "fits 200 es" using assms t unfolding buildable_def by blast
  have "fits high es \<Longrightarrow> length (concat (layout high es)) = file_blocks_total es" for high
    by (induction high es rule: fits.induct) (auto simp: length_file_chain file_blocks_total_def)
  then show "length (concat (layout 200 es)) = file_blocks_total es" using fit .
qed

lemma layout_nth:
  assumes "fits high es" "j < length es"
  shows "length (layout high es ! j) = le16 (es ! j) 24 \<and> layout high es ! j \<noteq> []
    \<and> (es ! j ! 0 = 0xcc \<longrightarrow> layout high es ! j = [0..<le16 (es ! j) 24])"
  using assms
proof (induction high es arbitrary: j rule: fits.induct)
  case (2 high e es)
  have "length (file_chain e high) = le16 e 24" using "2.prems"(1) by (simp add: length_file_chain)
  moreover have "0 < le16 e 24" using "2.prems"(1) by simp
  moreover have "e ! 0 = 0xcc \<longrightarrow> file_chain e high = [0..<le16 e 24]" by (simp add: file_chain_def Let_def)
  ultimately show ?case using "2.IH" "2.prems" by (cases j) auto
qed simp

lemma blank_sized: "card_sized blank_card"
  proof -
  have "length (make_block d default_time) = 512" if "241 \<le> d" "d < 254" for d using that by (simp add: make_block_def)
  then show ?thesis unfolding card_sized_def blank_card_def using length_fat_block by blast
qed

lemma blank_slot: "k < 208 \<Longrightarrow> dir_slot blank_card k = replicate 32 0"
proof -
  assume "k < 208"
  then have "vmu_dir_first - k div 16 \<noteq> vmu_fat" "vmu_dir_first - k div 16 \<noteq> vmu_root" by auto
  moreover have "32 * (k mod 16) + 32 \<le> 512" using mod_less_divisor [of 16 k] by linarith
  ultimately show ?thesis by (simp add: dir_slot_def blank_card_def make_block_def window_def min_def)
qed

text \<open>Everything about a card that was built from a buildable list of files.\<close>

lemma built_card:
  assumes b: "buildable (map fst fs)" and p: "placed fs (layout 200 (map fst fs)) 0 blank_card img"
  defines "es \<equiv> map fst fs"
  shows "live_entries img = built_entries es" "map (entry_chain (img vmu_fat)) (built_entries es) = layout 200 es" "wf_card img"
    "card_summary img = \<lparr>sm_files = length es, sm_game_files = length (filter is_game es), sm_used_blocks = file_blocks_total es,
       sm_free_blocks = 200 - file_blocks_total es\<rparr>"
proof -
  let ?L = "layout 200 es" and ?fat = "img vmu_fat"
  have b': "buildable es" using b by (simp add: es_def)
  note bl = buildable_layout [OF b']
  have len: "length es = length fs" "length es \<le> 200" using b' by (simp_all add: es_def buildable_def)
  have snd: "entry_sound (es ! j)" if "j < length es" for j using b' that by (simp add: buildable_def)
  have lay: "length (?L ! j) = le16 (es ! j) 24" "?L ! j \<noteq> []" "es ! j ! 0 = 0xcc \<longrightarrow> ?L ! j = [0..<le16 (es ! j) 24]" if "j < length es" for j
    using layout_nth [OF bl(3) that] by blast+
  have memb: "set (?L ! j) \<subseteq> {..<200}" if "j < length es" for j
  proof -
    have "?L ! j \<in> set ?L" using that by simp
    then show ?thesis using bl(2) unfolding set_concat by blast
  qed
  have hd200: "hd (?L ! j) < 200" if "j < length es" for j using memb [OF that] lay(2) [OF that] hd_in_set by blast
  have fl: "placed_entry (es ! j) (hd (?L ! j)) ! 0 = es ! j ! 0" "le16 (placed_entry (es ! j) (hd (?L ! j))) 2 = hd (?L ! j)"
    "le16 (placed_entry (es ! j) (hd (?L ! j))) 24 = le16 (es ! j) 24" "le16 (placed_entry (es ! j) (hd (?L ! j))) 26 = le16 (es ! j) 26"
    if "j < length es" for j
  proof -
    have "length (es ! j) = 32" "hd (?L ! j) < 65536" using snd [OF that] hd200 [OF that] by (simp_all add: entry_sound_def)
    note f = placed_entry_fields [OF this]
    show "placed_entry (es ! j) (hd (?L ! j)) ! 0 = es ! j ! 0" "le16 (placed_entry (es ! j) (hd (?L ! j))) 2 = hd (?L ! j)"
      "le16 (placed_entry (es ! j) (hd (?L ! j))) 24 = le16 (es ! j) 24" "le16 (placed_entry (es ! j) (hd (?L ! j))) 26 = le16 (es ! j) 26"
      by (rule f)+
  qed
  have slots: "dir_slot img k = (if k < length es then placed_entry (es ! k) (hd (?L ! k)) else replicate 32 0)" if "k < 208" for k
    using that p blank_slot [OF that] len by (auto simp: placed_def es_def)
  have "dir_entries img = map (dir_slot img) ([0..<length es] @ [length es..<208])"
    using len upt_add_eq_append [of 0 "length es" "208 - length es"] by (simp add: dir_entries_slots)
  also have "\<dots> = built_entries es @ replicate (208 - length es) (replicate 32 0)"
    using len slots by (auto simp: built_entries_def intro!: nth_equalityI)
  finally have de: "dir_entries img = built_entries es @ replicate (208 - length es) (replicate 32 0)" .
  have "e ! 0 \<noteq> 0" if "e \<in> set (built_entries es)" for e
    using that snd fl by (fastforce simp: built_entries_def entry_sound_def)
  then show live: "live_entries img = built_entries es"
    unfolding live_entries_def de by (simp add: filter_id_conv)
  have links: "chain_links ?fat (?L ! j)" if "j < length es" for j using p that by (simp add: placed_def es_def)
  have ec: "entry_chain ?fat (placed_entry (es ! j) (hd (?L ! j))) = ?L ! j" if "j < length es" for j
    using chain_of_links [OF links [OF that] lay(2) [OF that]] fl [OF that] lay(1) [OF that] by (simp add: entry_chain_def)
  show chains: "map (entry_chain ?fat) (built_entries es) = ?L"
    by (rule nth_equalityI) (simp_all add: built_entries_def ec)
  have fatother: "le16 ?fat (2 * x) = system_next x" if "x < 256" "x \<notin> set (concat ?L)" for x
    using p that by (simp add: placed_def es_def blank_card_def le16_fat_block)
  have "root_geometry (img vmu_root)" using p root_block_geometry [of default_time] by (simp add: placed_def blank_card_def default_time_def)
  moreover have "system_allocation ?fat"
    unfolding system_allocation_def list_all_iff
  proof
    fix x assume "x \<in> set [200..<256]"
    then have "x < 256" "x \<notin> set (concat ?L)" using bl(2) by auto
    then show "le16 ?fat (2 * x) = system_next x" by (rule fatother)
  qed
  moreover have "files_ok ?fat (built_entries es)"
    unfolding files_ok_def
  proof (intro conjI ballI)
    fix e assume "e \<in> set (built_entries es)"
    then obtain j where j: "j < length es" "e = placed_entry (es ! j) (hd (?L ! j))" by (auto simp: built_entries_def)
    have "le16 ?fat (2 * last (?L ! j)) = vmu_end"
      using links [OF j(1)] lay(2) [OF j(1)] by (auto simp: chain_links_def last_conv_nth dest: spec [of _ "length (?L ! j) - 1"])
    then show "entry_ok ?fat e" using snd [OF j(1)] fl [OF j(1)] ec [OF j(1)] lay [OF j(1)] memb [OF j(1)]
      by (auto simp: entry_ok_def j(2) entry_sound_def is_game_def)
  next
    have "map is_game (built_entries es) = map is_game es"
      by (rule nth_equalityI) (simp_all add: built_entries_def is_game_def fl)
    then have "length (filter is_game (built_entries es)) = length (filter is_game es)" by (rule filter_count_eq)
    then show "length (filter is_game (built_entries es)) \<le> 1" using b' by (simp add: buildable_def)
  qed (use chains bl(1) in simp)
  moreover have "set (concat ?L) = {x. x < 200 \<and> le16 ?fat (2 * x) \<noteq> vmu_free}"
  proof (intro set_eqI iffI)
    fix x assume x: "x \<in> set (concat ?L)"
    then obtain j n where jn: "j < length es" "n < length (?L ! j)" "x = ?L ! j ! n" by (auto simp: in_set_conv_nth)
    have "le16 ?fat (2 * x) = (if n + 1 = length (?L ! j) then vmu_end else ?L ! j ! (n + 1))"
      using links [OF jn(1)] jn by (simp add: chain_links_def)
    moreover have "?L ! j ! (n + 1) < 200" if "n + 1 \<noteq> length (?L ! j)"
      using memb [OF jn(1)] nth_mem [of "n + 1" "?L ! j"] jn(2) that by (auto simp: subset_iff)
    ultimately have "le16 ?fat (2 * x) \<noteq> vmu_free" by (auto split: if_splits)
    then show "x \<in> {x. x < 200 \<and> le16 ?fat (2 * x) \<noteq> vmu_free}" using x bl(2) by auto
  next
    fix x assume x: "x \<in> {x. x < 200 \<and> le16 ?fat (2 * x) \<noteq> vmu_free}"
    show "x \<in> set (concat ?L)"
    proof (rule ccontr)
      assume "x \<notin> set (concat ?L)"
      then have "le16 ?fat (2 * x) = vmu_free" using fatother [of x] x by (simp add: system_next_def)
      then show False using x by simp
    qed
  qed
  ultimately show "wf_card img" unfolding wf_card_def Let_def live chains [symmetric] by (simp add: chains)
  have "length (filter is_game (built_entries es)) = length (filter is_game es)"
  proof -
    have "map is_game (built_entries es) = map is_game es"
      by (rule nth_equalityI) (simp_all add: built_entries_def is_game_def fl)
    then show ?thesis by (rule filter_count_eq)
  qed
  moreover have "length (concat ?L) = file_blocks_total es" by (rule bl(4))
  ultimately show "card_summary img = \<lparr>sm_files = length es, sm_game_files = length (filter is_game es), sm_used_blocks = file_blocks_total es,
       sm_free_blocks = 200 - file_blocks_total es\<rparr>"
    unfolding card_summary_def Let_def live chains by (simp add: built_entries_def)
qed

subsection \<open>Packing is correct\<close>

text \<open>
  The abstraction: what a card stores is, for every directory entry in order, the entry without its start-block field and the bytes of its chain.
\<close>

definition entry_data :: "bytes \<Rightarrow> bytes \<times> bytes" where
  "entry_data e = (take 2 e, drop 4 e)"

definition file_contents :: "card \<Rightarrow> bytes \<Rightarrow> bytes" where
  "file_contents img e = concat (map img (entry_chain (img vmu_fat) e))"

definition card_files :: "card \<Rightarrow> ((bytes \<times> bytes) \<times> bytes) list" where
  "card_files img = map (\<lambda>e. (entry_data e, file_contents img e)) (live_entries img)"

definition file_typed :: "vmu_image_file \<Rightarrow> bool" where
  "file_typed f = (length (vf_entry f) = 32 \<and> length (vf_payload f) = vf_bytes f)"

lemma entry_data_placed: "length e = 32 \<Longrightarrow> entry_data (placed_entry e first) = entry_data e"
  by (simp add: entry_data_def placed_entry_def patch_def)

lemma concat_slices: "concat (map (\<lambda>n. window p (c * n) c) [0..<k]) = take (c * k) p"
proof (induction k)
  case (Suc k)
  have "take (c * Suc k) p = take (c * k) p @ window p (c * k) c"
    using take_add [of "c * k" c p] by (simp add: window_def add.commute)
  then show ?case using Suc by simp
qed simp

lemma built_card_files:
  assumes b: "buildable (map fst fs)" and p: "placed fs (layout 200 (map fst fs)) 0 blank_card img"
  shows "card_files img = map (\<lambda>f. (entry_data (fst f), concat (map (snd f) [0..<le16 (fst f) 24]))) fs"
proof (rule nth_equalityI)
  let ?es = "map fst fs"
  note bc = built_card [OF b p]
  show len: "length (card_files img) = length (map (\<lambda>f. (entry_data (fst f), concat (map (snd f) [0..<le16 (fst f) 24]))) fs)"
    by (simp add: card_files_def bc(1) built_entries_def)
  fix j assume "j < length (card_files img)"
  then have j: "j < length fs" using len by simp
  have snd: "entry_sound (fst (fs ! j))" using b j by (simp add: buildable_def)
  have l: "length (layout 200 ?es ! j) = le16 (fst (fs ! j)) 24" using layout_nth [OF buildable_layout(3) [OF b], of j] j by simp
  have "map (entry_chain (img vmu_fat)) (built_entries ?es) ! j = layout 200 ?es ! j" using bc(2) by simp
  then have ec: "entry_chain (img vmu_fat) (built_entries ?es ! j) = layout 200 ?es ! j" using j by (simp add: built_entries_def)
  have "map img (layout 200 ?es ! j) = map (snd (fs ! j)) [0..<le16 (fst (fs ! j)) 24]"
    using p j l by (intro nth_equalityI) (auto simp: placed_def)
  then show "card_files img ! j = map (\<lambda>f. (entry_data (fst f), concat (map (snd f) [0..<le16 (fst f) 24]))) fs ! j"
    using j snd ec by (simp add: card_files_def bc(1) built_entries_def file_contents_def entry_data_placed entry_sound_def)
qed

lemma prevalidate_files_sound:
  assumes "prevalidate_files outs fs used games = Image_OK" "\<forall>f\<in>set fs. file_typed f"
  shows "(\<forall>f\<in>set fs. entry_sound (vf_entry f) \<and> vf_bytes f = le16 (vf_entry f) 24 * 512)
    \<and> (used \<le> 200 \<longrightarrow> used + file_blocks_total (map vf_entry fs) \<le> 200)
    \<and> (games \<le> 1 \<longrightarrow> games + length (filter is_game (map vf_entry fs)) \<le> 1)"
  using assms
proof (induction outs fs used games rule: prevalidate_files.induct)
  case (2 outs f fs used games)
  let ?n = "le16 (vf_entry f) 24" and ?game = "vf_entry f ! 0 = 0xcc"
  have c: "vf_entry f ! 0 = 0x33 \<or> ?game" "0 < ?n" "?n \<le> 200" "le16 (vf_entry f) 26 < ?n" "vf_bytes f = ?n * 512" "\<not> (?game \<and> games + 1 > 1)" "used + ?n \<le> 200"
    and r: "prevalidate_files outs fs (used + ?n) (if ?game then games + 1 else games) = Image_OK"
    using "2.prems"(1) by (auto simp: Let_def split: if_splits option.splits)
  have "(\<forall>f\<in>set fs. entry_sound (vf_entry f) \<and> vf_bytes f = le16 (vf_entry f) 24 * 512)
    \<and> (used + ?n \<le> 200 \<longrightarrow> used + ?n + file_blocks_total (map vf_entry fs) \<le> 200)
    \<and> ((if ?game then games + 1 else games) \<le> 1 \<longrightarrow> (if ?game then games + 1 else games) + length (filter is_game (map vf_entry fs)) \<le> 1)"
  proof (cases "span_for (vf_payload_at f) (vf_bytes f)")
    case None
    then show ?thesis using "2.prems"(1) c by (auto simp: Let_def)
  next
    case (Some payload)
    then show ?thesis using "2.IH" [OF refl refl refl _ _ _ Some, of] c r "2.prems" by (auto simp: Let_def split: if_splits)
  qed
  then have IH: "\<forall>f\<in>set fs. entry_sound (vf_entry f) \<and> vf_bytes f = le16 (vf_entry f) 24 * 512"
    "used + ?n \<le> 200 \<longrightarrow> used + ?n + file_blocks_total (map vf_entry fs) \<le> 200"
    "(if ?game then games + 1 else games) \<le> 1 \<longrightarrow> (if ?game then games + 1 else games) + length (filter is_game (map vf_entry fs)) \<le> 1"
    by blast+
  have "entry_sound (vf_entry f)" using c "2.prems"(2) by (simp add: entry_sound_def file_typed_def)
  moreover have "file_blocks_total (map vf_entry (f # fs)) = ?n + file_blocks_total (map vf_entry fs)" by (simp add: file_blocks_total_def)
  moreover have "length (filter is_game (map vf_entry (f # fs))) = (if ?game then 1 else 0) + length (filter is_game (map vf_entry fs))"
    by (simp add: is_game_def)
  ultimately show ?case using IH c by (auto split: if_splits)
qed (simp add: file_blocks_total_def)

lemma prevalidate_buildable:
  assumes "prevalidate files fa dest n work summary = Image_OK" "\<forall>f\<in>set files. file_typed f"
  shows "buildable (map vf_entry files) \<and> (\<forall>f\<in>set files. length (vf_payload f) = 512 * le16 (vf_entry f) 24)"
proof -
  have l: "length files \<le> 200" and p: "\<exists>outs. prevalidate_files outs files 0 0 = Image_OK"
    using assms(1) by (auto simp: prevalidate_def split: if_splits option.splits)
  then obtain outs where "prevalidate_files outs files 0 0 = Image_OK" by blast
  from prevalidate_files_sound [OF this assms(2)] l assms(2) show ?thesis
    by (auto simp: buildable_def file_typed_def)
qed

text \<open>
  C31.  Packing files into a new card never fails once the descriptors pass the read-only pre-check, and never touches the
  destination when they do not.  The card that results is well formed, its summary counts exactly the files, and reading it back through
  the directory and the allocation table gives the same entries and the same bytes, file by file and in order.
\<close>

theorem vmu_pack_correct:
  assumes "\<forall>f\<in>set files. file_typed f"
    and "kui_vmu_image_pack files files_at destination dest n work_at summary work = (r, img, s)"
  shows "if prevalidate files files_at dest n work_at summary \<noteq> Image_OK
    then r = prevalidate files files_at dest n work_at summary \<and> img = destination \<and> s = None
    else r = Image_OK \<and> s = Some (card_summary img) \<and> wf_card img
      \<and> card_files img = map (\<lambda>f. (entry_data (vf_entry f), vf_payload f)) files"
proof (cases "prevalidate files files_at dest n work_at summary = Image_OK")
  case False
  then show ?thesis using assms(2) by (simp add: kui_vmu_image_pack_def Let_def)
next
  case True
  let ?fs = "map packed_file files"
  have m: "map fst ?fs = map vf_entry files" by (simp add: packed_file_def)
  note pb = prevalidate_buildable [OF True assms(1)]
  have b: "buildable (map fst ?fs)" unfolding m using pb by blast
  define image where "image = snd (place_files ?fs 0 (200, blank_card))"
  have "placed ?fs (layout 200 (map fst ?fs)) 0 blank_card image"
    unfolding image_def using buildable_layout [OF b] b blank_sized by (intro place_files_placed) (auto simp: buildable_def)
  note built = built_card [OF b this] built_card_files [OF b this]
  obtain w where v: "validate_card image work = (Image_OK, w, card_summary image)" using wf_card_validates [OF built(3), of work] by blast
  have eq: "(r, img, s) = (Image_OK, image, Some (card_summary image))"
    using assms(2) True v unfolding kui_vmu_image_pack_def Let_def image_def [symmetric] by auto
  have "card_files image = map (\<lambda>f. (entry_data (vf_entry f), vf_payload f)) files"
    unfolding built(5) using pb by (auto simp: packed_file_def concat_slices)
  then show ?thesis using True eq built(3) by simp
qed

definition sample_data_entry :: bytes where
  "sample_data_entry = patch (patch (replicate 32 0) 0 [0x33]) 24 (put16 2)"

definition sample_game_entry :: bytes where
  "sample_game_entry = patch (patch (patch (replicate 32 0) 0 [0xcc]) 24 (put16 3)) 26 (put16 1)"

lemma sample_entry_fields:
  "length sample_data_entry = 32" "sample_data_entry ! 0 = 0x33" "le16 sample_data_entry 24 = 2" "le16 sample_data_entry 26 = 0"
  "length sample_game_entry = 32" "sample_game_entry ! 0 = 0xcc" "le16 sample_game_entry 24 = 3" "le16 sample_game_entry 26 = 1"
  by (simp_all add: sample_data_entry_def sample_game_entry_def le16_patch_put16 le16_patch_other length_patch nth_patch le16_def [of "replicate 32 0"])

definition sample_files :: "vmu_image_file list" where
  "sample_files =
     [\<lparr>vf_entry = sample_data_entry, vf_payload = replicate 1024 7, vf_payload_at = 0x400000, vf_bytes = 1024\<rparr>,
      \<lparr>vf_entry = sample_game_entry, vf_payload = replicate 1536 9, vf_payload_at = 0x500000, vf_bytes = 1536\<rparr>]"

definition sample_workspace :: vmu_image_workspace where
  "sample_workspace = \<lparr>ws_block = replicate 512 0, ws_fat = replicate 512 0, ws_used = replicate 200 False\<rparr>"

lemma sample_files_ready:
  "\<forall>f\<in>set sample_files. file_typed f" "prevalidate sample_files 0x1000 0x100000 131072 0x200000 0x300000 = Image_OK"
  by (simp_all add: prevalidate_def sample_files_def span_for_def overlap_def sample_entry_fields file_typed_def Let_def)

theorem vmu_pack_correct_witness:
  "\<exists>img s. kui_vmu_image_pack sample_files 0x1000 blank_card 0x100000 131072 0x200000 0x300000 sample_workspace = (Image_OK, img, s) \<and> wf_card img
    \<and> card_files img = map (\<lambda>f. (entry_data (vf_entry f), vf_payload f)) sample_files"
proof -
  obtain r img s where p: "kui_vmu_image_pack sample_files 0x1000 blank_card 0x100000 131072 0x200000 0x300000 sample_workspace = (r, img, s)" by (metis prod_cases3)
  from vmu_pack_correct [OF sample_files_ready(1) p] sample_files_ready(2) p show ?thesis by auto
qed

section \<open>Merging two cards\<close>

datatype merge_result = Merge_OK | Merge_Argument | Merge_Invalid | Merge_Name_Conflict | Merge_Full | Merge_Minigame_Conflict | Merge_Verify

record merge_ref =
  mr_image :: card
  mr_entry :: bytes
  mr_name :: bytes

record merge_report =
  rp_summary :: vmu_image_summary
  rp_added :: nat
  rp_duplicates :: nat
  rp_conflict :: bytes

record merge_state =
  ms_files :: "merge_ref list"
  ms_used :: nat
  ms_games :: nat
  ms_base_count :: nat
  ms_report :: merge_report

abbreviation (input) merge_workspace_size :: nat where "merge_workspace_size \<equiv> 7720"
abbreviation (input) merge_report_size :: nat where "merge_report_size \<equiv> 40"

text \<open>A file name without its trailing blanks, padded with zeroes; \<open>None\<close> when nothing is left.\<close>

definition normalize_name :: "bytes \<Rightarrow> bytes option" where
  "normalize_name entry =
     (let name = rev (dropWhile (\<lambda>c. c = 0 \<or> c = 0x20) (rev (window entry 4 12)))
      in if name = [] then None else Some (name @ replicate (12 - length name) 0))"

fun same_blocks :: "card \<Rightarrow> card \<Rightarrow> nat \<Rightarrow> nat \<Rightarrow> nat \<Rightarrow> bool" where
  "same_blocks a b left right 0 = True"
| "same_blocks a b left right (Suc n) =
     (if a left \<noteq> b right then False
      else same_blocks a b (le16 (a vmu_fat) (2 * left)) (le16 (b vmu_fat) (2 * right)) n)"

definition same_file :: "merge_ref \<Rightarrow> card \<Rightarrow> bytes \<Rightarrow> bool" where
  "same_file a img entry =
     (if window (mr_entry a) 0 2 \<noteq> window entry 0 2 \<or> window (mr_entry a) 4 28 \<noteq> window entry 4 28 then False
      else same_blocks (mr_image a) img (le16 (mr_entry a) 2) (le16 entry 2) (le16 entry 24))"

definition conflict :: "merge_report \<Rightarrow> bytes \<Rightarrow> merge_report" where
  "conflict report name =
     report\<lparr>rp_conflict := map (\<lambda>c. if 32 \<le> c \<and> c < 127 then c else if c \<noteq> 0 then 0x5f else 0) name @ [0]\<rparr>"

fun find_name :: "bytes \<Rightarrow> merge_ref list \<Rightarrow> nat" where
  "find_name name [] = 0"
| "find_name name (f # fs) = (if mr_name f \<noteq> name then Suc (find_name name fs) else 0)"

text \<open>One directory slot of one source; \<open>incoming\<close> is false for the base card.\<close>

definition merge_slot :: "bool \<Rightarrow> card \<Rightarrow> nat \<Rightarrow> merge_state \<Rightarrow> merge_result \<times> merge_state" where
  "merge_slot incoming img slot st =
     (let entry = dir_slot img slot in
      if entry ! 0 = 0 then (Merge_OK, st)
      else case normalize_name entry of None \<Rightarrow> (Merge_Invalid, st)
      | Some name \<Rightarrow>
        if list_ex (\<lambda>prior. dir_slot img prior ! 0 \<noteq> 0 \<and> normalize_name (dir_slot img prior) = Some name) [0..<slot] then (Merge_Invalid, st)
        else let existing = find_name name (ms_files st) in
          if existing < length (ms_files st) then
            if incoming \<and> existing < ms_base_count st \<and> same_file (ms_files st ! existing) img entry
            then (Merge_OK, st\<lparr>ms_report := (ms_report st)\<lparr>rp_duplicates := rp_duplicates (ms_report st) + 1\<rparr>\<rparr>)
            else (Merge_Name_Conflict, st\<lparr>ms_report := conflict (ms_report st) name\<rparr>)
          else let n = le16 entry 24; game = (entry ! 0 = 0xcc) in
            if length (ms_files st) \<ge> 200 \<or> n > 200 - ms_used st then (Merge_Full, st)
            else if game \<and> ms_games st \<noteq> 0 then (Merge_Minigame_Conflict, st\<lparr>ms_report := conflict (ms_report st) name\<rparr>)
            else (Merge_OK, st\<lparr>ms_files := ms_files st @ [\<lparr>mr_image = img, mr_entry = entry, mr_name = name\<rparr>],
                    ms_used := ms_used st + n, ms_games := (if game then ms_games st + 1 else ms_games st),
                    ms_report := (if incoming then (ms_report st)\<lparr>rp_added := rp_added (ms_report st) + 1\<rparr> else ms_report st)\<rparr>))"

fun merge_scan :: "bool \<Rightarrow> card \<Rightarrow> nat list \<Rightarrow> merge_state \<Rightarrow> merge_result \<times> merge_state" where
  "merge_scan incoming img [] st = (Merge_OK, st)"
| "merge_scan incoming img (slot # slots) st =
     (case merge_slot incoming img slot st of (r, st') \<Rightarrow>
        if r \<noteq> Merge_OK then (r, st') else merge_scan incoming img slots st')"

definition merge_source :: "bool \<Rightarrow> card \<Rightarrow> vmu_image_workspace \<Rightarrow> merge_state \<Rightarrow> merge_result \<times> merge_state" where
  "merge_source incoming img work st =
     (if fst (validate_card img work) \<noteq> Image_OK then (Merge_Invalid, st)
      else merge_scan incoming img [0..<208] st)"

fun walk_to :: "bytes \<Rightarrow> nat \<Rightarrow> nat \<Rightarrow> nat" where
  "walk_to fat at 0 = at"
| "walk_to fat at (Suc n) = walk_to fat (le16 fat (2 * at)) n"

definition merged_file :: "merge_ref \<Rightarrow> bytes \<times> (nat \<Rightarrow> bytes)" where
  "merged_file f = (mr_entry f, \<lambda>n. mr_image f (walk_to (mr_image f vmu_fat) (le16 (mr_entry f) 2) n))"

definition merge_spans_ok :: "nat list \<Rightarrow> nat \<Rightarrow> bool" where
  "merge_spans_ok addresses n =
     (case map (\<lambda>(p, size). span_for p size) (zip addresses [n, n, n, merge_workspace_size, merge_report_size]) of spans \<Rightarrow>
        list_all (\<lambda>s. s \<noteq> None) spans
        \<and> \<not> list_ex (\<lambda>i. list_ex (\<lambda>j. overlap (the (spans ! i)) (the (spans ! j))) [0..<i]) [0..<5])"

definition empty_report :: merge_report where
  "empty_report = \<lparr>rp_summary = no_summary, rp_added = 0, rp_duplicates = 0, rp_conflict = replicate 13 0\<rparr>"

definition kui_vmu_image_merge ::
    "nat list \<Rightarrow> card \<Rightarrow> card \<Rightarrow> card \<Rightarrow> nat \<Rightarrow> vmu_image_workspace \<Rightarrow> merge_report \<Rightarrow> merge_result \<times> card \<times> merge_report" where
  "kui_vmu_image_merge addresses base incoming destination n work report =
     (if n \<noteq> vmu_image_bytes \<or> \<not> merge_spans_ok addresses n then (Merge_Argument, destination, report)
      else case merge_source False base work \<lparr>ms_files = [], ms_used = 0, ms_games = 0, ms_base_count = 0, ms_report = empty_report\<rparr> of (r, st) \<Rightarrow>
        if r \<noteq> Merge_OK then (r, destination, ms_report st)
        else case merge_source True incoming work (st\<lparr>ms_base_count := length (ms_files st)\<rparr>) of (r, st) \<Rightarrow>
          if r \<noteq> Merge_OK then (r, destination, ms_report st)
          else let out = snd (place_files (map merged_file (ms_files st)) 0 (200, blank_card)) in
            case validate_card out work of (r, _, summary) \<Rightarrow>
              (if r \<noteq> Image_OK then Merge_Verify else Merge_OK, out, (ms_report st)\<lparr>rp_summary := summary\<rparr>))"

subsection \<open>What the scan collects\<close>

text \<open>The files of a card as the merger sees them.\<close>

definition card_refs :: "card \<Rightarrow> merge_ref list" where
  "card_refs img = map (\<lambda>e. \<lparr>mr_image = img, mr_entry = e, mr_name = the (normalize_name e)\<rparr>) (live_entries img)"

definition ref_file :: "merge_ref \<Rightarrow> (bytes \<times> bytes) \<times> bytes" where
  "ref_file f = (entry_data (mr_entry f), file_contents (mr_image f) (mr_entry f))"

lemma map_ref_file: "map ref_file (card_refs img) = card_files img"
  by (simp add: card_refs_def ref_file_def card_files_def)

lemma find_name_lt: "find_name name fs < length fs \<longleftrightarrow> name \<in> set (map mr_name fs)"
  by (induction fs) auto

lemma find_name_nth: "find_name name fs < length fs \<Longrightarrow> mr_name (fs ! find_name name fs) = name"
  by (induction fs) auto

lemma live_slots: "live_entries img = filter (\<lambda>e. e ! 0 \<noteq> 0) (map (dir_slot img) [0..<208])"
  by (simp add: live_entries_def dir_entries_slots)

definition slot_refs :: "card \<Rightarrow> nat list \<Rightarrow> merge_ref list" where
  "slot_refs img ks = map (\<lambda>e. \<lparr>mr_image = img, mr_entry = e, mr_name = the (normalize_name e)\<rparr>) (filter (\<lambda>e. e ! 0 \<noteq> 0) (map (dir_slot img) ks))"

lemma card_refs_slots: "card_refs img = slot_refs img [0..<208]"
  by (simp add: card_refs_def slot_refs_def live_slots)

lemma slot_refs_Cons: "slot_refs img (k # ks) = (if dir_slot img k ! 0 = 0 then [] else
    [\<lparr>mr_image = img, mr_entry = dir_slot img k, mr_name = the (normalize_name (dir_slot img k))\<rparr>]) @ slot_refs img ks"
  by (simp add: slot_refs_def)

definition refs_total :: "merge_ref list \<Rightarrow> nat" where
  "refs_total fs = file_blocks_total (map mr_entry fs)"

definition refs_games :: "merge_ref list \<Rightarrow> nat" where
  "refs_games fs = length (filter is_game (map mr_entry fs))"

definition ms_ok :: "merge_state \<Rightarrow> bool" where
  "ms_ok st = (length (ms_files st) \<le> 200 \<and> ms_used st = refs_total (ms_files st) \<and> ms_used st \<le> 200 \<and> ms_games st = refs_games (ms_files st)
     \<and> ms_games st \<le> 1 \<and> distinct (map mr_name (ms_files st)))"

lemma merge_slot_cases:
  assumes "merge_slot incoming img slot st = (Merge_OK, st')" "ms_ok st"
  shows "(dir_slot img slot ! 0 = 0 \<and> st' = st)
    \<or> (dir_slot img slot ! 0 \<noteq> 0 \<and> normalize_name (dir_slot img slot) \<noteq> None \<and> incoming \<and> ms_files st' = ms_files st \<and> ms_base_count st' = ms_base_count st \<and> ms_ok st'
        \<and> rp_added (ms_report st') = rp_added (ms_report st) \<and> rp_duplicates (ms_report st') = rp_duplicates (ms_report st) + 1
        \<and> (\<exists>f\<in>set (take (ms_base_count st) (ms_files st)). mr_name f = the (normalize_name (dir_slot img slot)) \<and> same_file f img (dir_slot img slot)))
    \<or> (dir_slot img slot ! 0 \<noteq> 0 \<and> normalize_name (dir_slot img slot) \<noteq> None
        \<and> ms_files st' = ms_files st @ [\<lparr>mr_image = img, mr_entry = dir_slot img slot, mr_name = the (normalize_name (dir_slot img slot))\<rparr>]
        \<and> the (normalize_name (dir_slot img slot)) \<notin> set (map mr_name (ms_files st)) \<and> ms_base_count st' = ms_base_count st \<and> ms_ok st'
        \<and> rp_added (ms_report st') = rp_added (ms_report st) + (if incoming then 1 else 0) \<and> rp_duplicates (ms_report st') = rp_duplicates (ms_report st))"
proof (cases "dir_slot img slot ! 0 = 0")
  case True
  then show ?thesis using assms by (simp add: merge_slot_def)
next
  case False
  let ?e = "dir_slot img slot"
  obtain name where n: "normalize_name ?e = Some name" using assms False by (cases "normalize_name ?e") (auto simp: merge_slot_def Let_def)
  let ?x = "find_name name (ms_files st)"
  show ?thesis
  proof (cases "?x < length (ms_files st)")
    case True
    then have c: "incoming" "?x < ms_base_count st" "same_file (ms_files st ! ?x) img ?e"
      "st' = st\<lparr>ms_report := (ms_report st)\<lparr>rp_duplicates := rp_duplicates (ms_report st) + 1\<rparr>\<rparr>"
      using assms(1) False n by (auto simp: merge_slot_def Let_def split: if_splits)
    have "ms_files st ! ?x \<in> set (take (ms_base_count st) (ms_files st))" using True c(2) by (auto simp: in_set_conv_nth)
    then show ?thesis using False n c find_name_nth [OF True] assms(2) by (auto simp: ms_ok_def)
  next
    case nofind: False
    then have nn: "name \<notin> set (map mr_name (ms_files st))" using find_name_lt by blast
    have c: "length (ms_files st) < 200" "le16 ?e 24 \<le> 200 - ms_used st" "\<not> (?e ! 0 = 0xcc \<and> ms_games st \<noteq> 0)"
      "st' = st\<lparr>ms_files := ms_files st @ [\<lparr>mr_image = img, mr_entry = ?e, mr_name = name\<rparr>],
                    ms_used := ms_used st + le16 ?e 24, ms_games := (if ?e ! 0 = 0xcc then ms_games st + 1 else ms_games st),
                    ms_report := (if incoming then (ms_report st)\<lparr>rp_added := rp_added (ms_report st) + 1\<rparr> else ms_report st)\<rparr>"
      using assms(1) False n nofind by (auto simp: merge_slot_def Let_def split: if_splits)
    have "ms_ok st'" using assms(2) c nn by (auto simp: ms_ok_def refs_total_def refs_games_def file_blocks_total_def is_game_def)
    then show ?thesis using False n c nn by auto
  qed
qed

definition card_full :: "card \<Rightarrow> bool" where
  "card_full img = (\<forall>b<256. length (img b) = 512)"

lemma length_dir_slot: "card_full img \<Longrightarrow> k < 208 \<Longrightarrow> length (dir_slot img k) = 32"
proof -
  assume "card_full img" "k < 208"
  moreover have "32 * (k mod 16) + 32 \<le> 512" using mod_less_divisor [of 16 k] by linarith
  ultimately show ?thesis unfolding dir_slot_def by (intro length_window) (simp add: card_full_def)
qed

lemma same_blocks_chain:
  "same_blocks a b l r n \<Longrightarrow> map a (chain (a vmu_fat) l n) = map b (chain (b vmu_fat) r n)"
  by (induction n arbitrary: l r) (auto split: if_splits)

lemma window_eq_drop: "window a 4 28 = window e 4 28 \<Longrightarrow> length a = 32 \<Longrightarrow> length e = 32 \<Longrightarrow> drop 4 a = drop 4 e"
  by (simp add: window_def)

lemma le16_entry_data: "entry_data a = entry_data e \<Longrightarrow> length a = 32 \<Longrightarrow> length e = 32 \<Longrightarrow> 4 \<le> i \<Longrightarrow> i + 2 \<le> 32 \<Longrightarrow> le16 a i = le16 e i"
proof -
  assume h: "entry_data a = entry_data e" "length a = 32" "length e = 32" "4 \<le> i" "i + 2 \<le> 32"
  have d: "drop 4 a = drop 4 e" using h(1) by (simp add: entry_data_def)
  have n: "a ! j = e ! j" if "4 \<le> j" "j < 32" for j
  proof -
    have "a ! j = drop 4 a ! (j - 4)" "e ! j = drop 4 e ! (j - 4)" using that h by simp_all
    then show ?thesis using d by simp
  qed
  show ?thesis using n [of i] n [of "i + 1"] h by (simp add: le16_def)
qed

lemma normalize_entry_data: "entry_data a = entry_data e \<Longrightarrow> normalize_name a = normalize_name e"
  by (simp add: entry_data_def normalize_name_def window_def Let_def)

definition entry_ref :: "card \<Rightarrow> bytes \<Rightarrow> merge_ref" where
  "entry_ref img e = \<lparr>mr_image = img, mr_entry = e, mr_name = the (normalize_name e)\<rparr>"

lemma same_file_ref:
  assumes "same_file f img e" "length (mr_entry f) = 32" "length e = 32"
  shows "ref_file f = ref_file (entry_ref img e)"
proof -
  have w: "window (mr_entry f) 0 2 = window e 0 2" "window (mr_entry f) 4 28 = window e 4 28"
    and sb: "same_blocks (mr_image f) img (le16 (mr_entry f) 2) (le16 e 2) (le16 e 24)"
    using assms(1) by (auto simp: same_file_def split: if_splits)
  have ed: "entry_data (mr_entry f) = entry_data e"
    using w(1) window_eq_drop [OF w(2) assms(2,3)] by (simp add: entry_data_def window_def)
  have "le16 (mr_entry f) 24 = le16 e 24" by (rule le16_entry_data [OF ed assms(2,3)]) simp_all
  then show ?thesis using ed same_blocks_chain [OF sb] by (simp add: ref_file_def entry_ref_def file_contents_def entry_chain_def)
qed

lemma slot_refs_Cons': "slot_refs img (k # ks) = (if dir_slot img k ! 0 = 0 then [] else [entry_ref img (dir_slot img k)]) @ slot_refs img ks"
  by (simp add: slot_refs_Cons entry_ref_def)

lemma scan_base:
  assumes "merge_scan False img ks st = (Merge_OK, st')" "ms_ok st"
  shows "ms_files st' = ms_files st @ slot_refs img ks \<and> ms_ok st' \<and> ms_base_count st' = ms_base_count st
    \<and> rp_added (ms_report st') = rp_added (ms_report st) \<and> rp_duplicates (ms_report st') = rp_duplicates (ms_report st)
    \<and> (\<forall>f\<in>set (slot_refs img ks). mr_name f = the (normalize_name (mr_entry f)) \<and> normalize_name (mr_entry f) \<noteq> None)"
  using assms
proof (induction ks arbitrary: st)
  case (Cons k ks)
  obtain s1 where s: "merge_slot False img k st = (Merge_OK, s1)" "merge_scan False img ks s1 = (Merge_OK, st')"
    using Cons.prems(1) by (auto split: prod.splits if_splits)
  from merge_slot_cases [OF s(1) Cons.prems(2)] show ?case
    using Cons.IH [OF s(2)] Cons.prems(2) by (auto simp: slot_refs_Cons' entry_ref_def)
qed (simp add: slot_refs_def)

lemma scan_incoming:
  assumes "merge_scan True img ks st = (Merge_OK, st')" "ms_ok st" "card_full img" "\<forall>k\<in>set ks. k < 208"
    and "ms_files st = B @ N" "length B = ms_base_count st"
    and "\<forall>f\<in>set B. mr_name f = the (normalize_name (mr_entry f)) \<and> length (mr_entry f) = 32"
  shows "ms_files st' = B @ N @ filter (\<lambda>f. ref_file f \<notin> ref_file ` set B) (slot_refs img ks) \<and> ms_ok st'
    \<and> rp_added (ms_report st') = rp_added (ms_report st) + length (filter (\<lambda>f. ref_file f \<notin> ref_file ` set B) (slot_refs img ks))
    \<and> rp_duplicates (ms_report st') = rp_duplicates (ms_report st) + length (filter (\<lambda>f. ref_file f \<in> ref_file ` set B) (slot_refs img ks))"
  using assms(1-6)
proof (induction ks arbitrary: st N)
  case (Cons k ks)
  let ?e = "dir_slot img k"
  obtain s1 where s: "merge_slot True img k st = (Merge_OK, s1)" "merge_scan True img ks s1 = (Merge_OK, st')"
    using Cons.prems(1) by (auto split: prod.splits if_splits)
  have le: "length ?e = 32" using length_dir_slot [OF Cons.prems(3)] Cons.prems(4) by simp
  have ks: "\<forall>k\<in>set ks. k < 208" using Cons.prems(4) by simp
  consider (empty) "?e ! 0 = 0" "s1 = st"
    | (dup) f where "?e ! 0 \<noteq> 0" "ms_files s1 = ms_files st" "ms_base_count s1 = ms_base_count st" "ms_ok s1"
        "rp_added (ms_report s1) = rp_added (ms_report st)" "rp_duplicates (ms_report s1) = rp_duplicates (ms_report st) + 1"
        "f \<in> set (take (ms_base_count st) (ms_files st))" "same_file f img ?e"
    | (new) "?e ! 0 \<noteq> 0" "ms_files s1 = ms_files st @ [entry_ref img ?e]" "the (normalize_name ?e) \<notin> set (map mr_name (ms_files st))"
        "ms_base_count s1 = ms_base_count st" "ms_ok s1" "rp_added (ms_report s1) = rp_added (ms_report st) + 1"
        "rp_duplicates (ms_report s1) = rp_duplicates (ms_report st)"
    using merge_slot_cases [OF s(1) Cons.prems(2)] by (auto simp: entry_ref_def)
  then show ?case
  proof cases
    case empty
    then show ?thesis using Cons.IH [OF s(2)] Cons.prems ks by (simp add: slot_refs_Cons')
  next
    case dup
    then have "f \<in> set B" using Cons.prems(5,6) by simp
    then have "ref_file (entry_ref img ?e) \<in> ref_file ` set B" using same_file_ref [OF dup(8) _ le] assms(7) by (metis image_eqI)
    then show ?thesis using Cons.IH [OF s(2) dup(4) Cons.prems(3) ks, of N] Cons.prems(5,6) dup by (simp add: slot_refs_Cons')
  next
    case new
    have "ref_file (entry_ref img ?e) \<notin> ref_file ` set B"
    proof
      assume "ref_file (entry_ref img ?e) \<in> ref_file ` set B"
      then obtain f where f: "f \<in> set B" "entry_data (mr_entry f) = entry_data ?e" by (auto simp: ref_file_def entry_ref_def)
      then have "mr_name f = the (normalize_name ?e)" using normalize_entry_data assms(7) by metis
      moreover have "mr_name f \<in> set (map mr_name (ms_files st))" using f(1) Cons.prems(5) by simp
      ultimately show False using new(3) by simp
    qed
    then show ?thesis using Cons.IH [OF s(2) new(5) Cons.prems(3) ks, of "N @ [entry_ref img ?e]"] Cons.prems(5,6) new by (simp add: slot_refs_Cons')
  qed
qed (simp add: slot_refs_def)

lemma chain_walk: "chain fat at k = map (walk_to fat at) [0..<k]"
proof (induction k arbitrary: at)
  case (Suc k)
  have "map (walk_to fat at) [0..<Suc k] = walk_to fat at 0 # map (\<lambda>n. walk_to fat at (Suc n)) [0..<k]"
    unfolding upt_conv_Cons [OF zero_less_Suc] by (simp add: map_Suc_upt [symmetric] comp_def del: upt_Suc)
  then show ?case using Suc by simp
qed simp

lemma merged_contents: "concat (map (snd (merged_file f)) [0..<le16 (fst (merged_file f)) 24]) = file_contents (mr_image f) (mr_entry f)"
  by (simp add: merged_file_def file_contents_def entry_chain_def chain_walk comp_def)

lemma live_entry_sound:
  assumes "wf_card img" "card_full img" "e \<in> set (live_entries img)"
  shows "entry_sound e"
proof -
  have "files_ok (img vmu_fat) (live_entries img)" using assms(1) by (simp add: wf_card_def Let_def)
  then have "entry_ok (img vmu_fat) e" using assms(3) by (simp add: files_ok_def)
  moreover have "length e = 32" using assms(2,3) length_dir_slot by (auto simp: live_slots)
  ultimately show ?thesis by (auto simp: entry_ok_def entry_sound_def is_game_def)
qed

lemma merge_source_ok:
  assumes "merge_source incoming img work st = (Merge_OK, st')"
  shows "wf_card img \<and> merge_scan incoming img [0..<208] st = (Merge_OK, st')"
  using assms validate_decides [of img work] by (auto simp: merge_source_def split: if_splits)

lemma merge_source_never_verify: "fst (merge_source incoming img work st) \<noteq> Merge_Verify"
proof -
  have slot: "fst (merge_slot incoming img k st) \<noteq> Merge_Verify" for k st
    by (auto simp: merge_slot_def Let_def split: option.splits)
  have "fst (merge_scan incoming img ks st) \<noteq> Merge_Verify" for ks
  proof (induction ks arbitrary: st)
    case (Cons k ks)
    then show ?case using slot [of k st] by (auto split: prod.splits)
  qed simp
  then show ?thesis by (simp add: merge_source_def)
qed

text \<open>
  C32.  Merging two cards loses nothing and invents nothing.  When it succeeds both inputs were well formed, the result is a well-formed card
  that stores exactly the files of the base followed by those incoming files that the base does not already hold, byte for byte, and
  the report counts them; the built card is never rejected by its own verification, and on any other outcome the destination is untouched.
\<close>

theorem vmu_merge_correct:
  assumes "card_full base" and "card_full incoming"
    and "kui_vmu_image_merge addresses base incoming destination n work report = (r, out, rep)"
  shows "r \<noteq> Merge_Verify
    \<and> (if r = Merge_OK then wf_card base \<and> wf_card incoming \<and> wf_card out \<and> rp_summary rep = card_summary out
         \<and> card_files out = card_files base @ filter (\<lambda>f. f \<notin> set (card_files base)) (card_files incoming)
         \<and> rp_added rep = length (filter (\<lambda>f. f \<notin> set (card_files base)) (card_files incoming))
         \<and> rp_duplicates rep = length (filter (\<lambda>f. f \<in> set (card_files base)) (card_files incoming))
       else out = destination)"
proof -
  define st0 where "st0 = \<lparr>ms_files = [], ms_used = 0, ms_games = 0, ms_base_count = 0, ms_report = empty_report\<rparr>"
  obtain r1 s1 where m1: "merge_source False base work st0 = (r1, s1)" by fastforce
  define t1 where "t1 = s1\<lparr>ms_base_count := length (ms_files s1)\<rparr>"
  obtain r2 s2 where m2: "merge_source True incoming work t1 = (r2, s2)" by fastforce
  note unf = assms(3) [unfolded kui_vmu_image_merge_def, folded st0_def, unfolded m1 prod.case, folded t1_def, unfolded m2 prod.case]
  have nv: "r1 \<noteq> Merge_Verify" "r2 \<noteq> Merge_Verify" using merge_source_never_verify m1 m2 by (metis fst_conv)+
  show ?thesis
  proof (cases "(n \<noteq> vmu_image_bytes \<or> \<not> merge_spans_ok addresses n) \<or> r1 \<noteq> Merge_OK \<or> r2 \<noteq> Merge_OK")
    case True
    then show ?thesis using unf nv by (auto split: if_splits)
  next
    case False
    then have ok: "merge_source False base work st0 = (Merge_OK, s1)" "merge_source True incoming work t1 = (Merge_OK, s2)" using m1 m2 by auto
    note b = merge_source_ok [OF ok(1)] and i = merge_source_ok [OF ok(2)]
    have ok0: "ms_ok st0" by (simp add: st0_def ms_ok_def refs_total_def refs_games_def file_blocks_total_def)
    have sb: "ms_files s1 = card_refs base" "ms_ok s1" "rp_added (ms_report s1) = 0" "rp_duplicates (ms_report s1) = 0"
      "\<forall>f\<in>set (card_refs base). mr_name f = the (normalize_name (mr_entry f))"
      using scan_base [OF conjunct2 [OF b] ok0] by (simp_all add: card_refs_slots st0_def empty_report_def)
    have t1: "ms_files t1 = card_refs base @ []" "length (card_refs base) = ms_base_count t1" "ms_ok t1" "ms_report t1 = ms_report s1"
      using sb by (simp_all add: t1_def ms_ok_def)
    have bl: "\<forall>f\<in>set (card_refs base). mr_name f = the (normalize_name (mr_entry f)) \<and> length (mr_entry f) = 32"
      using sb(5) live_entry_sound [OF conjunct1 [OF b] assms(1)] by (auto simp: card_refs_def entry_sound_def)
    let ?B = "ref_file ` set (card_refs base)"
    let ?new = "filter (\<lambda>f. ref_file f \<notin> ?B) (card_refs incoming)"
    have si: "ms_files s2 = card_refs base @ ?new" "ms_ok s2" "rp_added (ms_report s2) = length ?new"
      "rp_duplicates (ms_report s2) = length (filter (\<lambda>f. ref_file f \<in> ?B) (card_refs incoming))"
      using scan_incoming [OF conjunct2 [OF i] t1(3) assms(2) _ t1(1,2) bl] t1(4) sb(3,4) by (simp_all add: card_refs_slots)
    let ?fs = "map merged_file (ms_files s2)"
    have m: "map fst ?fs = map mr_entry (ms_files s2)" by (simp add: merged_file_def)
    have "entry_sound (mr_entry f)" if "f \<in> set (ms_files s2)" for f
      using that si(1) live_entry_sound [OF conjunct1 [OF b] assms(1)] live_entry_sound [OF conjunct1 [OF i] assms(2)]
      by (auto simp: card_refs_def)
    then have bu: "buildable (map fst ?fs)"
      unfolding m using si(2) by (auto simp: buildable_def ms_ok_def refs_total_def refs_games_def)
    define image where "image = snd (place_files ?fs 0 (200, blank_card))"
    have "placed ?fs (layout 200 (map fst ?fs)) 0 blank_card image"
      unfolding image_def using buildable_layout [OF bu] bu blank_sized by (intro place_files_placed) (auto simp: buildable_def)
    note built = built_card [OF bu this] built_card_files [OF bu this]
    obtain w where v: "validate_card image work = (Image_OK, w, card_summary image)" using wf_card_validates [OF built(3), of work] by blast
    have eq: "(r, out, rep) = (Merge_OK, image, (ms_report s2)\<lparr>rp_summary := card_summary image\<rparr>)"
      using unf False v unfolding Let_def image_def [symmetric] by auto
    have setB: "set (card_files base) = ?B" by (simp flip: map_ref_file)
    have "card_files image = map ref_file (ms_files s2)"
      unfolding built(5) by (simp add: ref_file_def merged_contents del: upt_Suc) (simp add: merged_file_def)
    then have "card_files image = card_files base @ filter (\<lambda>f. f \<notin> set (card_files base)) (card_files incoming)"
      unfolding si(1) setB by (simp add: filter_map comp_def flip: map_ref_file)
    moreover have "length ?new = length (filter (\<lambda>f. f \<notin> set (card_files base)) (card_files incoming))"
      "length (filter (\<lambda>f. ref_file f \<in> ?B) (card_refs incoming)) = length (filter (\<lambda>f. f \<in> set (card_files base)) (card_files incoming))"
      unfolding setB by (simp_all add: filter_map comp_def flip: map_ref_file)
    ultimately show ?thesis using eq built(3) b i si by simp
  qed
qed

lemma blank_full: "card_full blank_card"
  unfolding card_full_def
proof (intro allI impI)
  fix b :: nat assume "b < 256"
  show "length (blank_card b) = 512"
  proof (cases "b = vmu_fat")
    case True
    then show ?thesis using length_fat_block by (simp add: blank_card_def)
  next
    case False
    then show ?thesis by (simp add: blank_card_def make_block_def default_time_def length_patch Let_def)
  qed
qed

lemma blank_scan: "merge_scan incoming blank_card ks st = (Merge_OK, st)" if "\<forall>k\<in>set ks. k < 208"
  using that by (induction ks) (simp_all add: merge_slot_def blank_slot)

lemma blank_source: "merge_source incoming blank_card work st = (Merge_OK, st)"
proof -
  have "wf_card blank_card" unfolding blank_card_def by (rule blank_card_wf) (simp add: default_time_def)
  then show ?thesis using validate_decides [of blank_card work] by (simp add: merge_source_def blank_scan)
qed

theorem vmu_merge_correct_witness:
  "\<exists>out rep. kui_vmu_image_merge [0x100000, 0x200000, 0x300000, 0x400000, 0x500000] blank_card blank_card (\<lambda>b. []) 131072 sample_workspace empty_report
      = (Merge_OK, out, rep) \<and> wf_card out \<and> card_files out = card_files blank_card"
proof -
  obtain r out rep where m: "kui_vmu_image_merge [0x100000, 0x200000, 0x300000, 0x400000, 0x500000] blank_card blank_card (\<lambda>b. []) 131072 sample_workspace empty_report
      = (r, out, rep)" by (metis prod_cases3)
  have "merge_spans_ok [0x100000, 0x200000, 0x300000, 0x400000, 0x500000] 131072"
    by (simp add: merge_spans_ok_def span_for_def overlap_def upt_rec)
  then have "r = Merge_OK \<or> r = Merge_Verify" using m by (auto simp: kui_vmu_image_merge_def blank_source Let_def split: prod.splits if_splits)
  moreover note vmu_merge_correct [OF blank_full blank_full m]
  ultimately have r: "r = Merge_OK" "wf_card out" "card_files out = card_files blank_card @ filter (\<lambda>f. f \<notin> set (card_files blank_card)) (card_files blank_card)"
    by auto
  then show ?thesis using m by auto
qed

end
