(* ===== verification/Vmu_Subset.thy ===== *)
theory Vmu_Subset
  imports Vmu_Tools "HOL-Library.Multiset"
begin

text \<open>
  Selecting saves (src/core/vmu\_image\_subset.c and vmu\_import\_plan.c): copying chosen files of an admitted card into a new image, the
  listing a player chooses from, and the builder behind it.
\<close>

subsection \<open>Copying chosen slots\<close>

datatype subset_result = Subset_Image vmu_image_result | Subset_Selection

definition ranges_overlap :: "nat \<times> nat \<Rightarrow> nat \<times> nat \<Rightarrow> bool" where
  "ranges_overlap a b =
     (case (a, b) of ((x, an), (y, bn)) \<Rightarrow> an \<noteq> 0 \<and> bn \<noteq> 0 \<and> (if x \<le> y then y - x < an else x - y < bn))"

text \<open>The pre-check of the five buffers, given as address and size.\<close>

definition subset_ranges_ok :: "(nat \<times> nat) list \<Rightarrow> (nat \<times> nat) list \<Rightarrow> bool" where
  "subset_ranges_ok read_only mutable =
     (list_all (\<lambda>(p, n). p \<le> uintptr_top - (n - 1)) (read_only @ mutable)
      \<and> \<not> list_ex (\<lambda>i. list_ex (ranges_overlap (mutable ! i)) read_only \<or> list_ex (\<lambda>j. ranges_overlap (mutable ! i) (mutable ! j)) [0..<i])
            [0..<length mutable])"

fun mark_chain :: "bytes \<Rightarrow> nat \<Rightarrow> nat \<Rightarrow> bool list \<Rightarrow> bool list" where
  "mark_chain fat at 0 used = used"
| "mark_chain fat at (Suc n) used = mark_chain fat (le16 fat (2 * at)) n (used[at := True])"

fun select_slots :: "card \<Rightarrow> bytes \<Rightarrow> nat list \<Rightarrow> bool list \<times> bool list \<times> vmu_image_summary \<Rightarrow> (bool list \<times> bool list \<times> vmu_image_summary) option" where
  "select_slots img fat [] st = Some st"
| "select_slots img fat (slot # slots) (chosen, used, expected) =
     (if slot \<ge> 208 \<or> chosen ! slot then None
      else let entry = dir_slot img slot; n = le16 entry 24 in
        if entry ! 0 = 0 then None
        else select_slots img fat slots
               (chosen[slot := True], mark_chain fat (le16 entry 2) n used,
                expected\<lparr>sm_files := sm_files expected + 1, sm_game_files := (if entry ! 0 = 0xcc then sm_game_files expected + 1 else sm_game_files expected),
                         sm_used_blocks := sm_used_blocks expected + n\<rparr>))"

definition subset_fat :: "bytes \<Rightarrow> bool list \<Rightarrow> bytes" where
  "subset_fat fat used = fold (\<lambda>b fat. if used ! b then fat else patch fat (2 * b) (put16 vmu_free)) [0..<200] fat"

definition copy_slot :: "card \<Rightarrow> nat \<Rightarrow> card \<Rightarrow> card" where
  "copy_slot img slot out =
     (let d = vmu_dir_first - slot div 16 in out(d := patch (out d) (32 * (slot mod 16)) (dir_slot img slot)))"

definition subset_image :: "card \<Rightarrow> bytes \<Rightarrow> bool list \<Rightarrow> bool list \<Rightarrow> card" where
  "subset_image img fat chosen used =
     (let out = (\<lambda>b. if b < 200 \<and> used ! b then img b else if b = vmu_fat then subset_fat fat used else replicate 512 0);
          out = fold (\<lambda>slot out. if chosen ! slot then copy_slot img slot out else out) [0..<208] out
      in out(vmu_root := img vmu_root))"

definition kui_vmu_image_subset ::
    "nat \<Rightarrow> card \<Rightarrow> nat \<Rightarrow> nat \<Rightarrow> card \<Rightarrow> nat \<Rightarrow> nat \<Rightarrow> nat list \<Rightarrow> nat \<Rightarrow> vmu_image_workspace \<Rightarrow> nat \<Rightarrow> vmu_image_summary
     \<Rightarrow> subset_result \<times> card \<times> vmu_image_summary" where
  "kui_vmu_image_subset source_at source source_bytes dest_at destination dest_bytes slots_at slots work_at work summary_at summary =
     (if source_at = 0 \<or> dest_at = 0 \<or> slots_at = 0 \<or> work_at = 0 \<or> summary_at = 0 \<or> source_bytes \<noteq> vmu_image_bytes \<or> dest_bytes \<noteq> vmu_image_bytes
         \<or> slots = [] \<or> length slots > 208 then (Subset_Image Image_Argument, destination, summary)
      else if \<not> subset_ranges_ok [(source_at, source_bytes), (slots_at, 2 * length slots)]
                  [(dest_at, dest_bytes), (work_at, workspace_size), (summary_at, summary_size)]
      then (Subset_Image Image_Argument, destination, summary)
      else case validate_card source work of (r, work, _) \<Rightarrow>
        if r \<noteq> Image_OK then (Subset_Image r, destination, no_summary)
        else case select_slots source (ws_fat work) slots (replicate 208 False, replicate 200 False, no_summary) of
          None \<Rightarrow> (Subset_Selection, destination, no_summary)
        | Some (chosen, used, expected) \<Rightarrow>
          let expected = expected\<lparr>sm_free_blocks := 200 - sm_used_blocks expected\<rparr>;
              out = subset_image source (ws_fat work) chosen used
          in case validate_card out work of (r, _, verified) \<Rightarrow>
            if r \<noteq> Image_OK \<or> verified \<noteq> expected then (Subset_Image Image_Verify, out, no_summary)
            else (Subset_Image Image_OK, out, verified))"

subsection \<open>The listing\<close>

record import_entry =
  ie_slot :: nat
  ie_blocks :: nat
  ie_header_offset :: nat
  ie_type :: u8
  ie_name :: bytes
  ie_short :: bytes
  ie_long :: bytes
  ie_application :: bytes
  ie_hints :: nat

text \<open>Printable text of a field: unprintable bytes become a question mark, trailing blanks are dropped.\<close>

definition plan_text :: "bytes \<Rightarrow> bytes" where
  "plan_text field =
     rev (dropWhile (\<lambda>c. c = 0x20) (rev (map (\<lambda>c. if 0x20 \<le> c \<and> c \<le> 0x7e then c else 0x3f) (takeWhile (\<lambda>c. c \<noteq> 0) field))))"

definition plan_upper :: "u8 \<Rightarrow> u8" where
  "plan_upper c = (if 0x61 \<le> c \<and> c \<le> 0x7a then c - 0x61 + 0x41 else c)"

definition trim_blanks :: "bytes \<Rightarrow> bytes" where
  "trim_blanks s = rev (dropWhile (\<lambda>c. c = 0x20) (rev (dropWhile (\<lambda>c. c = 0x20) s)))"

text \<open>A key is the bytes the code may read from it, \<open>key_bound\<close> of them at most.\<close>

definition plan_text_equal :: "bytes \<Rightarrow> bytes option \<Rightarrow> nat \<Rightarrow> bool" where
  "plan_text_equal field key key_bound =
     (case key of None \<Rightarrow> False
      | Some key \<Rightarrow>
        let f = takeWhile (\<lambda>c. c \<noteq> 0) field; k = takeWhile (\<lambda>c. c \<noteq> 0) (take key_bound key) in
        if list_ex (\<lambda>c. c < 0x20 \<or> c > 0x7e) f then False
        else if list_ex (\<lambda>c. c < 0x20 \<or> c > 0x7e) k then False
        else if length k = key_bound then False
        else let f = trim_blanks f; k = trim_blanks k in
          \<not> (length f < 4 \<or> length f \<noteq> length k) \<and> map plan_upper f = map plan_upper k)"

definition plan_hints :: "bytes \<Rightarrow> bytes option \<Rightarrow> bytes option \<Rightarrow> nat" where
  "plan_hints field title product =
     (if plan_text_equal field title 128 then 1 else 0) + (if plan_text_equal field product 32 then 2 else 0)"

definition or_hints :: "nat list \<Rightarrow> nat" where
  "or_hints hs = (if list_ex odd hs then 1 else 0) + (if list_ex (\<lambda>h. h \<ge> 2) hs then 2 else 0)"

definition plan_entry :: "card \<Rightarrow> bytes \<Rightarrow> bytes option \<Rightarrow> bytes option \<Rightarrow> nat \<Rightarrow> import_entry" where
  "plan_entry img fat title product slot =
     (let entry = dir_slot img slot; offset = le16 entry 26; header = img (walk_to fat (le16 entry 2) offset) in
      \<lparr>ie_slot = slot, ie_blocks = le16 entry 24, ie_header_offset = offset, ie_type = entry ! 0,
       ie_name = plan_text (window entry 4 12), ie_short = plan_text (window header 0 16), ie_long = plan_text (window header 16 32),
       ie_application = plan_text (window header 48 16),
       ie_hints = or_hints [plan_hints (window entry 4 12) title product, plan_hints (window header 0 16) title product,
                            plan_hints (window header 16 32) title product, plan_hints (window header 48 16) title product]\<rparr>)"

definition plan_list :: "card \<Rightarrow> bytes \<Rightarrow> bytes option \<Rightarrow> bytes option \<Rightarrow> import_entry list" where
  "plan_list img fat title product =
     map (plan_entry img fat title product) (filter (\<lambda>slot. dir_slot img slot ! 0 \<noteq> 0) [0..<208])"

definition plan_range :: "nat \<times> nat \<Rightarrow> bool" where
  "plan_range r = (case r of (p, n) \<Rightarrow> p \<noteq> 0 \<and> n \<noteq> 0 \<and> p \<le> uintptr_top - (n - 1))"

definition plan_key_bytes :: "bytes option \<Rightarrow> nat \<Rightarrow> nat" where
  "plan_key_bytes key bound =
     (case key of None \<Rightarrow> 0
      | Some key \<Rightarrow> let n = length (takeWhile (\<lambda>c. c \<noteq> 0) (take bound key)) in if n < bound then n + 1 else bound)"

abbreviation (input) plan_size :: nat where "plan_size \<equiv> 18324"

definition kui_vmu_import_plan_inspect ::
    "nat \<Rightarrow> card \<Rightarrow> nat \<Rightarrow> nat \<times> bytes option \<Rightarrow> nat \<times> bytes option \<Rightarrow> nat \<Rightarrow> vmu_image_workspace \<Rightarrow> nat
     \<Rightarrow> vmu_image_result \<times> (vmu_image_summary \<times> import_entry list) option" where
  "kui_vmu_import_plan_inspect source_at source source_bytes title product work_at work plan_at =
     (if source_bytes \<noteq> vmu_image_bytes \<or> \<not> plan_range (source_at, source_bytes) \<or> \<not> plan_range (work_at, workspace_size)
         \<or> \<not> plan_range (plan_at, plan_size) then (Image_Argument, None)
      else let read_only = [(source_at, source_bytes), (fst title, plan_key_bytes (snd title) 128), (fst product, plan_key_bytes (snd product) 32)] in
        if list_ex (\<lambda>r. (snd r \<noteq> 0 \<and> \<not> plan_range r) \<or> ranges_overlap (work_at, workspace_size) r \<or> ranges_overlap (plan_at, plan_size) r) read_only
        then (Image_Argument, None)
        else if ranges_overlap (work_at, workspace_size) (plan_at, plan_size) then (Image_Argument, None)
        else case validate_card source work of (r, work, summary) \<Rightarrow>
          if r \<noteq> Image_OK then (r, Some (no_summary, []))
          else (Image_OK, Some (summary, plan_list source (ws_fat work) (snd title) (snd product))))"

definition kui_vmu_import_plan_build ::
    "nat \<Rightarrow> card \<Rightarrow> nat \<Rightarrow> nat \<Rightarrow> card \<Rightarrow> nat \<Rightarrow> nat \<Rightarrow> nat list \<Rightarrow> nat \<Rightarrow> vmu_image_workspace \<Rightarrow> nat \<Rightarrow> vmu_image_summary
     \<Rightarrow> subset_result \<times> card \<times> vmu_image_summary" where
  "kui_vmu_import_plan_build source_at source source_bytes dest_at destination dest_bytes slots_at slots work_at work summary_at summary =
     (if slots \<noteq> [] then kui_vmu_image_subset source_at source source_bytes dest_at destination dest_bytes slots_at slots work_at work summary_at summary
      else let mutable = [(dest_at, dest_bytes), (work_at, workspace_size), (summary_at, summary_size)] in
        if source_bytes \<noteq> vmu_image_bytes \<or> dest_bytes \<noteq> vmu_image_bytes \<or> \<not> list_all plan_range ((source_at, source_bytes) # mutable)
           \<or> list_ex (\<lambda>i. ranges_overlap (mutable ! i) (source_at, source_bytes) \<or> list_ex (\<lambda>j. ranges_overlap (mutable ! i) (mutable ! j)) [0..<i]) [0..<3]
        then (Subset_Image Image_Argument, destination, summary)
        else case validate_card source work of (r, work, _) \<Rightarrow>
          if r \<noteq> Image_OK then (Subset_Image r, destination, no_summary)
          else case validate_card blank_card work of (r, _, verified) \<Rightarrow>
            if r \<noteq> Image_OK \<or> sm_files verified \<noteq> 0 \<or> sm_game_files verified \<noteq> 0 \<or> sm_used_blocks verified \<noteq> 0 \<or> sm_free_blocks verified \<noteq> 200
            then (Subset_Image Image_Verify, blank_card, no_summary)
            else (Subset_Image Image_OK, blank_card, verified))"

subsection \<open>The subset is exact\<close>

definition slot_chain :: "card \<Rightarrow> nat \<Rightarrow> nat list" where
  "slot_chain img k = entry_chain (img vmu_fat) (dir_slot img k)"

lemma mark_chain_mark: "mark_chain fat at n used = mark used (chain fat at n)"
  by (induction n arbitrary: at used) simp_all

lemma select_slots_sound:
  assumes "select_slots img (img vmu_fat) slots (chosen, used, ex) = Some (chosen', used', ex')"
    and "length chosen = 208" "length used = 200" "\<forall>k<208. dir_slot img k ! 0 \<noteq> 0 \<longrightarrow> (\<forall>b\<in>set (slot_chain img k). b < 200)"
  shows "distinct slots \<and> (\<forall>k\<in>set slots. k < 208 \<and> dir_slot img k ! 0 \<noteq> 0 \<and> \<not> chosen ! k)
    \<and> (\<forall>k<208. chosen' ! k \<longleftrightarrow> chosen ! k \<or> k \<in> set slots) \<and> length used' = 200
    \<and> (\<forall>b<200. used' ! b \<longleftrightarrow> used ! b \<or> b \<in> set (concat (map (slot_chain img) slots)))
    \<and> ex' = ex\<lparr>sm_files := sm_files ex + length slots,
         sm_game_files := sm_game_files ex + length (filter (\<lambda>k. is_game (dir_slot img k)) slots),
         sm_used_blocks := sm_used_blocks ex + sum_list (map (\<lambda>k. length (slot_chain img k)) slots)\<rparr>"
  using assms
proof (induction slots arbitrary: chosen used ex)
  case (Cons k ks)
  have c: "k < 208" "\<not> chosen ! k" "dir_slot img k ! 0 \<noteq> 0"
    and r: "select_slots img (img vmu_fat) ks (chosen[k := True], mark used (slot_chain img k),
        ex\<lparr>sm_files := sm_files ex + 1, sm_game_files := (if is_game (dir_slot img k) then sm_game_files ex + 1 else sm_game_files ex),
           sm_used_blocks := sm_used_blocks ex + length (slot_chain img k)\<rparr>) = Some (chosen', used', ex')"
    using Cons.prems(1) by (auto simp: Let_def mark_chain_mark slot_chain_def entry_chain_def is_game_def split: if_splits)
  note IH = Cons.IH [OF r]
  have "\<forall>b\<in>set (slot_chain img k). b < 200" using Cons.prems(4) c(1,3) by blast
  then have mk: "mark used (slot_chain img k) ! b \<longleftrightarrow> used ! b \<or> b \<in> set (slot_chain img k)" if "b < 200" for b
    using Cons.prems(3) that by auto
  have n: "chosen[k := True] ! j \<longleftrightarrow> j = k \<or> chosen ! j" if "j < 208" for j
    using that Cons.prems(2) by (cases "j = k") (simp_all add: nth_list_update)
  have IH': "distinct ks" "\<forall>j\<in>set ks. j < 208 \<and> dir_slot img j ! 0 \<noteq> 0 \<and> \<not> chosen[k := True] ! j"
    "\<forall>j<208. chosen' ! j \<longleftrightarrow> chosen[k := True] ! j \<or> j \<in> set ks" "length used' = 200"
    "\<forall>b<200. used' ! b \<longleftrightarrow> mark used (slot_chain img k) ! b \<or> b \<in> set (concat (map (slot_chain img) ks))"
    using IH Cons.prems(2-4) by simp_all
  have d: "k \<notin> set ks" using IH'(2) n c(1) by blast
  have a: "\<forall>j\<in>set (k # ks). j < 208 \<and> dir_slot img j ! 0 \<noteq> 0 \<and> \<not> chosen ! j" using IH'(2) n c by auto
  have b: "\<forall>j<208. chosen' ! j \<longleftrightarrow> chosen ! j \<or> j \<in> set (k # ks)" using IH'(3) n by auto
  have u: "\<forall>b<200. used' ! b \<longleftrightarrow> used ! b \<or> b \<in> set (concat (map (slot_chain img) (k # ks)))" using IH'(5) mk by auto
  have "ex' = ex\<lparr>sm_files := sm_files ex + length (k # ks),
         sm_game_files := sm_game_files ex + length (filter (\<lambda>k. is_game (dir_slot img k)) (k # ks)),
         sm_used_blocks := sm_used_blocks ex + sum_list (map (\<lambda>k. length (slot_chain img k)) (k # ks))\<rparr>"
    using IH Cons.prems(2-4) by (simp add: add.assoc)
  then show ?case using d IH'(1,4) a b u by simp
qed auto

lemma subset_fat_fold:
  assumes "length fat = 512" "k \<le> 200"
  shows "length (fold (\<lambda>b fat. if used ! b then fat else patch fat (2 * b) (put16 vmu_free)) [0..<k] fat) = 512
    \<and> (\<forall>b<256. le16 (fold (\<lambda>b fat. if used ! b then fat else patch fat (2 * b) (put16 vmu_free)) [0..<k] fat) (2 * b)
        = (if b < k \<and> \<not> used ! b then vmu_free else le16 fat (2 * b)))"
  using assms(2)
proof (induction k)
  case (Suc k)
  let ?f = "fold (\<lambda>b fat. if used ! b then fat else patch fat (2 * b) (put16 vmu_free)) [0..<k] fat"
  have IH: "length ?f = 512" "\<And>b. b < 256 \<Longrightarrow> le16 ?f (2 * b) = (if b < k \<and> \<not> used ! b then vmu_free else le16 fat (2 * b))" using Suc by auto
  have "le16 (patch ?f (2 * k) (put16 vmu_free)) (2 * b) = (if b = k then vmu_free else le16 ?f (2 * b))" if "b < 256" for b
  proof (cases "b = k")
    case True
    then show ?thesis using IH(1) Suc.prems by (simp add: le16_patch_put16)
  next
    case False
    then show ?thesis using IH(1) Suc.prems that by (subst le16_patch_other) auto
  qed
  then show ?case using IH Suc.prems by (auto simp: length_patch less_Suc_eq)
qed (use assms(1) in simp)

lemma subset_fat_le16:
  "length fat = 512 \<Longrightarrow> b < 256 \<Longrightarrow> le16 (subset_fat fat used) (2 * b) = (if b < 200 \<and> \<not> used ! b then vmu_free else le16 fat (2 * b))"
  unfolding subset_fat_def using subset_fat_fold [of fat 200 used] by simp

lemma patch_slot_other:
  assumes "length p = 512" "length e = 32" "s < 16" "j < 16" "j \<noteq> s"
  shows "window (patch p (32 * s) e) (32 * j) 32 = window p (32 * j) 32"
proof -
  have "32 * j + 32 \<le> 32 * s \<or> 32 * s + 32 \<le> 32 * j" using assms(5) by linarith
  then show ?thesis using assms by (auto intro!: nth_equalityI simp: nth_window length_window nth_patch length_patch)
qed

definition dir_sized :: "card \<Rightarrow> bool" where
  "dir_sized img = (\<forall>d. 241 \<le> d \<and> d < 254 \<longrightarrow> length (img d) = 512)"

lemma dir_slot_copy:
  assumes "card_full img" "dir_sized out" "s < 208" "k < 208"
  shows "dir_slot (copy_slot img s out) k = (if k = s then dir_slot img s else dir_slot out k)"
    "dir_sized (copy_slot img s out)"
    "\<not> (241 \<le> b \<and> b < 254) \<Longrightarrow> copy_slot img s out b = out b"
proof -
  have e: "length (dir_slot img s) = 32" using length_dir_slot assms(1,3) by blast
  have sd: "241 \<le> vmu_dir_first - s div 16" "vmu_dir_first - s div 16 < 254" using assms(3) by auto
  have m: "s mod 16 < 16" "k mod 16 < 16" by simp_all
  have l: "length (out (vmu_dir_first - s div 16)) = 512" using assms(2) sd unfolding dir_sized_def by blast
  show "dir_slot (copy_slot img s out) k = (if k = s then dir_slot img s else dir_slot out k)"
  proof (cases "k div 16 = s div 16")
    case True
    show ?thesis
    proof (cases "k = s")
      case True
      define e' where "e' = dir_slot img s"
      have "32 * (s mod 16) + length e' \<le> length (out (vmu_dir_first - s div 16))" using e l m unfolding e'_def by linarith
      then have "window (patch (out (vmu_dir_first - s div 16)) (32 * (s mod 16)) e') (32 * (s mod 16)) 32 = e'"
        using e by (intro window_patch_same) (simp_all add: e'_def)
      moreover have "copy_slot img s out (vmu_dir_first - s div 16) = patch (out (vmu_dir_first - s div 16)) (32 * (s mod 16)) e'"
        by (simp add: copy_slot_def Let_def e'_def)
      ultimately have "dir_slot (copy_slot img s out) s = e'" unfolding dir_slot_def [of "copy_slot img s out" s] by simp
      then show ?thesis using True by (simp add: e'_def)
    next
      case False
      then have "k mod 16 \<noteq> s mod 16" using True by (metis div_mult_mod_eq)
      moreover have "copy_slot img s out (vmu_dir_first - k div 16) = patch (out (vmu_dir_first - s div 16)) (32 * (s mod 16)) (dir_slot img s)"
        using True by (simp add: copy_slot_def Let_def)
      ultimately show ?thesis using patch_slot_other [OF l e m(1,2)] False True
        unfolding dir_slot_def [of "copy_slot img s out" k] dir_slot_def [of out k] by simp
    qed
  next
    case False
    then have "vmu_dir_first - k div 16 \<noteq> vmu_dir_first - s div 16" using assms(3,4) by auto
    then have "copy_slot img s out (vmu_dir_first - k div 16) = out (vmu_dir_first - k div 16)" by (simp add: copy_slot_def Let_def)
    then show ?thesis using False unfolding dir_slot_def [of "copy_slot img s out" k] dir_slot_def [of out k] by auto
  qed
  have "32 * (s mod 16) + length (dir_slot img s) \<le> length (out (vmu_dir_first - s div 16))" using e l m by linarith
  then show "dir_sized (copy_slot img s out)"
    using assms(2) by (auto simp: copy_slot_def Let_def length_patch dir_sized_def)
  show "copy_slot img s out b = out b" if "\<not> (241 \<le> b \<and> b < 254)" using that sd by (auto simp: copy_slot_def Let_def)
qed

lemma copy_slots_fold:
  assumes "card_full img" "dir_sized out" "n \<le> 208"
  shows "dir_sized (fold (\<lambda>s out. if chosen ! s then copy_slot img s out else out) [0..<n] out)
    \<and> (\<forall>b. \<not> (241 \<le> b \<and> b < 254) \<longrightarrow> fold (\<lambda>s out. if chosen ! s then copy_slot img s out else out) [0..<n] out b = out b)
    \<and> (\<forall>k<208. dir_slot (fold (\<lambda>s out. if chosen ! s then copy_slot img s out else out) [0..<n] out) k
        = (if k < n \<and> chosen ! k then dir_slot img k else dir_slot out k))"
  using assms(3)
proof (induction n)
  case (Suc n)
  let ?o = "fold (\<lambda>s out. if chosen ! s then copy_slot img s out else out) [0..<n] out"
  have IH: "dir_sized ?o" "\<And>b. \<not> (241 \<le> b \<and> b < 254) \<Longrightarrow> ?o b = out b"
    "\<And>k. k < 208 \<Longrightarrow> dir_slot ?o k = (if k < n \<and> chosen ! k then dir_slot img k else dir_slot out k)" using Suc by auto
  have n: "n < 208" using Suc.prems by simp
  note dc = dir_slot_copy [OF assms(1) IH(1) n]
  show ?case
  proof (cases "chosen ! n")
    case True
    then have eq: "fold (\<lambda>s out. if chosen ! s then copy_slot img s out else out) [0..<Suc n] out = copy_slot img n ?o" by simp
    have "dir_slot (copy_slot img n ?o) k = (if k < Suc n \<and> chosen ! k then dir_slot img k else dir_slot out k)" if "k < 208" for k
      using dc(1) [OF that] IH(3) [OF that] True by (cases "k = n") (auto simp: less_Suc_eq)
    moreover have "copy_slot img n ?o b = out b" if "\<not> (241 \<le> b \<and> b < 254)" for b using dc(3) [OF n that] IH(2) [OF that] by simp
    ultimately show ?thesis unfolding eq using dc(2) [OF n] by blast
  next
    case False
    then have eq: "fold (\<lambda>s out. if chosen ! s then copy_slot img s out else out) [0..<Suc n] out = ?o" by simp
    have "dir_slot ?o k = (if k < Suc n \<and> chosen ! k then dir_slot img k else dir_slot out k)" if "k < 208" for k
      using IH(3) [OF that] False by (cases "k = n") (auto simp: less_Suc_eq)
    then show ?thesis unfolding eq using IH(1,2) by blast
  qed
qed (use assms(2) in simp)

lemma chain_cong: "\<forall>b\<in>set (chain fat at n). le16 fat' (2 * b) = le16 fat (2 * b) \<Longrightarrow> chain fat' at n = chain fat at n"
  by (induction n arbitrary: at) simp_all

lemma distinct_concat_filter: "distinct (concat (map f xs)) \<Longrightarrow> distinct (concat (map f (filter P xs)))"
  by (induction xs) auto

lemma length_filter_mono: "(\<And>x. P x \<Longrightarrow> Q x) \<Longrightarrow> length (filter P xs) \<le> length (filter Q xs)"
  by (induction xs) (auto intro: le_SucI)

text \<open>What the card must be that a selection of its slots produces.\<close>

definition slot_order :: "nat list \<Rightarrow> nat list" where
  "slot_order slots = filter (\<lambda>k. k \<in> set slots) [0..<208]"

lemma slot_order_facts:
  assumes "distinct slots" "\<forall>k\<in>set slots. k < 208"
  shows "set (slot_order slots) = set slots" "distinct (slot_order slots)" "mset (slot_order slots) = mset slots"
proof -
  show 1: "set (slot_order slots) = set slots" using assms(2) by (auto simp: slot_order_def)
  show 2: "distinct (slot_order slots)" by (simp add: slot_order_def)
  show "mset (slot_order slots) = mset slots" using 1 2 assms(1) by (simp add: set_eq_iff_mset_eq_distinct)
qed

definition cut_card :: "card \<Rightarrow> nat list \<Rightarrow> card \<Rightarrow> bool" where
  "cut_card img slots out =
     (out vmu_root = img vmu_root \<and> length (out vmu_fat) = 512
      \<and> (\<forall>b<256. le16 (out vmu_fat) (2 * b) =
           (if b < 200 \<and> b \<notin> set (concat (map (slot_chain img) slots)) then vmu_free else le16 (img vmu_fat) (2 * b)))
      \<and> (\<forall>b<200. out b = (if b \<in> set (concat (map (slot_chain img) slots)) then img b else replicate 512 0))
      \<and> (\<forall>k<208. dir_slot out k = (if k \<in> set slots then dir_slot img k else replicate 32 0)))"

lemma subset_image_cut:
  assumes "card_full img" "\<forall>k<208. chosen ! k \<longleftrightarrow> k \<in> set slots"
    "\<forall>b<200. used ! b \<longleftrightarrow> b \<in> set (concat (map (slot_chain img) slots))"
  shows "cut_card img slots (subset_image img (img vmu_fat) chosen used)"
proof -
  let ?base = "\<lambda>b. if b < 200 \<and> used ! b then img b else if b = vmu_fat then subset_fat (img vmu_fat) used else replicate 512 0"
  have l: "length (img vmu_fat) = 512" using assms(1) by (simp add: card_full_def)
  have lf: "length (subset_fat (img vmu_fat) used) = 512"
    unfolding subset_fat_def using subset_fat_fold [of "img vmu_fat" 200 used] l by simp
  define o1 where "o1 = fold (\<lambda>slot out. if chosen ! slot then copy_slot img slot out else out) [0..<208] ?base"
  have "dir_sized ?base" by (simp add: dir_sized_def)
  then have f: "\<And>b. \<not> (241 \<le> b \<and> b < 254) \<Longrightarrow> o1 b = ?base b"
    "\<And>k. k < 208 \<Longrightarrow> dir_slot o1 k = (if k < 208 \<and> chosen ! k then dir_slot img k else dir_slot ?base k)"
    using copy_slots_fold [of img ?base 208 chosen, OF assms(1)] unfolding o1_def by blast+
  have eq: "subset_image img (img vmu_fat) chosen used = o1(vmu_root := img vmu_root)"
    unfolding subset_image_def Let_def o1_def by (rule refl)
  have z: "dir_slot ?base k = replicate 32 0" if "k < 208" for k
  proof -
    have "vmu_dir_first - k div 16 \<noteq> vmu_fat" "\<not> vmu_dir_first - k div 16 < 200" using that by auto
    moreover have "32 * (k mod 16) + 32 \<le> 512" using mod_less_divisor [of 16 k] by linarith
    ultimately show ?thesis by (simp add: dir_slot_def window_def min_def)
  qed
  have d: "dir_slot (o1(vmu_root := img vmu_root)) k = dir_slot o1 k" if "k < 208" for k
  proof -
    have "vmu_dir_first - k div 16 \<noteq> vmu_root" by linarith
    then show ?thesis by (simp only: dir_slot_def fun_upd_other not_False_eq_True)
  qed
  have fat: "o1 vmu_fat = subset_fat (img vmu_fat) used" using f(1) [of vmu_fat] by simp
  have "\<forall>k<208. dir_slot (o1(vmu_root := img vmu_root)) k = (if k \<in> set slots then dir_slot img k else replicate 32 0)"
    using d f(2) z assms(2) by simp
  moreover have "\<forall>b<200. (o1(vmu_root := img vmu_root)) b = (if b \<in> set (concat (map (slot_chain img) slots)) then img b else replicate 512 0)"
    using f(1) assms(3) by simp
  moreover have "\<forall>b<256. le16 (o1 vmu_fat) (2 * b) =
           (if b < 200 \<and> b \<notin> set (concat (map (slot_chain img) slots)) then vmu_free else le16 (img vmu_fat) (2 * b))"
    unfolding fat using subset_fat_le16 [OF l] assms(3) by (auto simp del: set_concat set_map)
  ultimately show ?thesis unfolding cut_card_def eq using lf fat by simp
qed

text \<open>The blocks that no file can own are zero, and every block keeps its size.\<close>

lemma subset_image_rest:
  assumes "card_full img"
  shows "\<forall>b. 200 \<le> b \<and> b < 241 \<longrightarrow> subset_image img (img vmu_fat) chosen used b = replicate 512 0"
    "card_full (subset_image img (img vmu_fat) chosen used)"
proof -
  let ?base = "\<lambda>b. if b < 200 \<and> used ! b then img b else if b = vmu_fat then subset_fat (img vmu_fat) used else replicate 512 0"
  have l: "length (img vmu_fat) = 512" using assms by (simp add: card_full_def)
  have lf: "length (subset_fat (img vmu_fat) used) = 512"
    unfolding subset_fat_def using subset_fat_fold [of "img vmu_fat" 200 used] l by simp
  define o1 where "o1 = fold (\<lambda>slot out. if chosen ! slot then copy_slot img slot out else out) [0..<208] ?base"
  have "dir_sized ?base" by (simp add: dir_sized_def)
  then have f: "dir_sized o1" "\<And>b. \<not> (241 \<le> b \<and> b < 254) \<Longrightarrow> o1 b = ?base b"
    using copy_slots_fold [of img ?base 208 chosen, OF assms] unfolding o1_def by blast+
  have eq: "subset_image img (img vmu_fat) chosen used = o1(vmu_root := img vmu_root)"
    unfolding subset_image_def Let_def o1_def by (rule refl)
  show "\<forall>b. 200 \<le> b \<and> b < 241 \<longrightarrow> subset_image img (img vmu_fat) chosen used b = replicate 512 0"
    unfolding eq using f(2) by simp
  have "length ((o1(vmu_root := img vmu_root)) b) = 512" if "b < 256" for b
  proof (cases "241 \<le> b \<and> b < 254")
    case True
    then show ?thesis using f(1) by (simp add: dir_sized_def)
  next
    case False
    then show ?thesis using f(2) [OF False] assms lf that by (simp add: card_full_def)
  qed
  then show "card_full (subset_image img (img vmu_fat) chosen used)" unfolding eq card_full_def by blast
qed

lemma cut_card_sound:
  assumes "wf_card img" "cut_card img slots out" "distinct slots" "\<forall>k\<in>set slots. k < 208 \<and> dir_slot img k ! 0 \<noteq> 0"
  shows "live_entries out = map (dir_slot img) (slot_order slots)"
    "\<forall>k\<in>set slots. entry_chain (out vmu_fat) (dir_slot img k) = slot_chain img k \<and> file_contents out (dir_slot img k) = file_contents img (dir_slot img k)"
    "wf_card out"
proof -
  let ?B = "set (concat (map (slot_chain img) slots))"
  note cut = assms(2) [unfolded cut_card_def]
  have wf: "root_geometry (img vmu_root)" "system_allocation (img vmu_fat)" "files_ok (img vmu_fat) (live_entries img)"
    "set (concat (map (entry_chain (img vmu_fat)) (live_entries img))) = {b. b < 200 \<and> le16 (img vmu_fat) (2 * b) \<noteq> vmu_free}"
    using assms(1) by (simp_all add: wf_card_def Let_def)
  have live: "live_entries img = map (dir_slot img) (filter (\<lambda>k. dir_slot img k ! 0 \<noteq> 0) [0..<208])"
    by (simp add: live_slots filter_map comp_def)
  have so: "set (slot_order slots) = set slots" using slot_order_facts assms(3,4) by blast
  have "filter (\<lambda>k. dir_slot out k ! 0 \<noteq> 0) [0..<208] = slot_order slots"
    unfolding slot_order_def using cut assms(4) by (intro filter_cong) auto
  then have "live_entries out = map (dir_slot out) (slot_order slots)" by (simp add: live_slots filter_map comp_def)
  also have "\<dots> = map (dir_slot img) (slot_order slots)" using cut assms(4) so by (intro map_cong) auto
  finally show le: "live_entries out = map (dir_slot img) (slot_order slots)" .
  have mem: "dir_slot img k \<in> set (live_entries img)" if "k \<in> set slots" for k using that assms(4) live by auto
  have sub: "?B \<subseteq> {b. b < 200 \<and> le16 (img vmu_fat) (2 * b) \<noteq> vmu_free}" unfolding wf(4) [symmetric] using mem by (auto simp: slot_chain_def)
  have fatB: "le16 (out vmu_fat) (2 * b) = le16 (img vmu_fat) (2 * b)" if "b \<in> ?B" for b
  proof -
    have "b < 256" using that sub by fastforce
    then have "le16 (out vmu_fat) (2 * b) = (if b < 200 \<and> b \<notin> ?B then vmu_free else le16 (img vmu_fat) (2 * b))" using cut by blast
    then show ?thesis using that by (simp del: set_concat set_map)
  qed
  have ch: "entry_chain (out vmu_fat) (dir_slot img k) = slot_chain img k" if "k \<in> set slots" for k
    unfolding slot_chain_def entry_chain_def
    by (intro chain_cong ballI fatB) (use that in \<open>auto simp: slot_chain_def entry_chain_def\<close>)
  have bl: "out b = img b" if "b \<in> ?B" for b
  proof -
    have "b < 200" using that sub by blast
    then have "out b = (if b \<in> ?B then img b else replicate 512 0)" using cut by blast
    then show ?thesis using that by (simp del: set_concat set_map)
  qed
  have fc: "file_contents out (dir_slot img k) = file_contents img (dir_slot img k)" if "k \<in> set slots" for k
  proof -
    have "map out (slot_chain img k) = map img (slot_chain img k)" using that bl by (intro map_cong) auto
    then show ?thesis unfolding file_contents_def ch [OF that] slot_chain_def [symmetric] by (rule arg_cong)
  qed
  show "\<forall>k\<in>set slots. entry_chain (out vmu_fat) (dir_slot img k) = slot_chain img k \<and> file_contents out (dir_slot img k) = file_contents img (dir_slot img k)"
    using ch fc by blast
  have chs: "map (entry_chain (out vmu_fat)) (live_entries out) = map (slot_chain img) (slot_order slots)"
    unfolding le using ch so by simp
  have sel: "slot_order slots = filter (\<lambda>k. k \<in> set slots) (filter (\<lambda>k. dir_slot img k ! 0 \<noteq> 0) [0..<208])"
    unfolding slot_order_def filter_filter using assms(4) by (intro filter_cong) auto
  have cB: "set (concat (map (entry_chain (out vmu_fat)) (live_entries out))) = ?B" unfolding chs using so by simp
  have "distinct (concat (map (slot_chain img) (filter (\<lambda>k. dir_slot img k ! 0 \<noteq> 0) [0..<208])))"
    using wf(3) unfolding files_ok_def live by (simp add: slot_chain_def [abs_def] comp_def)
  then have dis: "distinct (concat (map (entry_chain (out vmu_fat)) (live_entries out)))"
    unfolding chs sel by (rule distinct_concat_filter)
  have gm: "length (filter is_game (live_entries out)) \<le> 1"
  proof -
    have "length (filter is_game (live_entries out)) \<le> length (filter is_game (live_entries img))"
      unfolding le live sel filter_map length_map filter_filter by (rule length_filter_mono) simp
    then show ?thesis using wf(3) by (simp add: files_ok_def)
  qed
  have eok: "entry_ok (out vmu_fat) e" if e: "e \<in> set (live_entries out)" for e
  proof -
    obtain k where k: "k \<in> set slots" "e = dir_slot img k" using e le so by auto
    then have ok: "entry_ok (img vmu_fat) e" using mem wf(3) by (simp add: files_ok_def)
    have c: "entry_chain (out vmu_fat) e = entry_chain (img vmu_fat) e" using ch [OF k(1)] k(2) by (simp add: slot_chain_def)
    have "entry_chain (img vmu_fat) e \<noteq> []" using ok by (simp add: entry_ok_def entry_chain_def)
    then have "last (entry_chain (img vmu_fat) e) \<in> ?B" using k by (force simp: slot_chain_def)
    then show ?thesis using ok fatB unfolding entry_ok_def c by simp
  qed
  have fatle: "le16 (out vmu_fat) (2 * b) = (if b < 200 \<and> b \<notin> ?B then vmu_free else le16 (img vmu_fat) (2 * b))" if "b < 256" for b
    using cut that by blast
  have sys: "system_allocation (out vmu_fat)"
    unfolding system_allocation_def list_all_iff
  proof
    fix b
    assume b: "b \<in> set [200..<256]"
    then have "\<not> b < 200" "b < 256" by (simp_all only: set_upt atLeastLessThan_iff not_less)
    then have "le16 (out vmu_fat) (2 * b) = le16 (img vmu_fat) (2 * b)" using fatle by presburger
    then show "le16 (out vmu_fat) (2 * b) = system_next b" using wf(2) b unfolding system_allocation_def list_all_iff by metis
  qed
  have "b \<in> ?B \<longleftrightarrow> b < 200 \<and> le16 (out vmu_fat) (2 * b) \<noteq> vmu_free" for b
    using sub fatle [of b] by (cases "b < 200") (auto simp del: set_concat set_map)
  then have B: "?B = {b. b < 200 \<and> le16 (out vmu_fat) (2 * b) \<noteq> vmu_free}" by blast
  have root: "root_geometry (out vmu_root)" using wf(1) cut by simp
  show "wf_card out"
    unfolding wf_card_def Let_def files_ok_def cB using sys eok gm dis B root by blast
qed

lemma validate_never_verify: "fst (validate_card img work) \<noteq> Image_Verify"
  unfolding validate_card_eq Let_def by (auto split: option.splits)

lemma cut_card_summary:
  assumes "wf_card img" "cut_card img slots out" "distinct slots" "\<forall>k\<in>set slots. k < 208 \<and> dir_slot img k ! 0 \<noteq> 0"
  shows "card_summary out =
    \<lparr>sm_files = length slots, sm_game_files = length (filter (\<lambda>k. is_game (dir_slot img k)) slots),
     sm_used_blocks = sum_list (map (\<lambda>k. length (slot_chain img k)) slots),
     sm_free_blocks = 200 - sum_list (map (\<lambda>k. length (slot_chain img k)) slots)\<rparr>"
proof -
  note cs = cut_card_sound [OF assms]
  have m: "mset (slot_order slots) = mset slots" and so: "set (slot_order slots) = set slots" using slot_order_facts assms(3,4) by blast+
  have ch: "map (entry_chain (out vmu_fat)) (live_entries out) = map (slot_chain img) (slot_order slots)"
    unfolding cs(1) using cs(2) so by simp
  have "length (concat (map (slot_chain img) (slot_order slots))) = sum_list (map (\<lambda>k. length (slot_chain img k)) (slot_order slots))"
    by (simp add: length_concat comp_def)
  also have "\<dots> = sum_mset (mset (map (\<lambda>k. length (slot_chain img k)) (slot_order slots)))" by (rule sum_mset_sum_list [symmetric])
  also have "\<dots> = sum_mset (mset (map (\<lambda>k. length (slot_chain img k)) slots))" by (simp only: mset_map m)
  also have "\<dots> = sum_list (map (\<lambda>k. length (slot_chain img k)) slots)" by (rule sum_mset_sum_list)
  finally have n: "length (concat (map (slot_chain img) (slot_order slots))) = sum_list (map (\<lambda>k. length (slot_chain img k)) slots)" .
  have "size (filter_mset P (mset (slot_order slots))) = size (filter_mset P (mset slots))" for P by (simp only: m)
  then have g: "length (filter P (slot_order slots)) = length (filter P slots)" for P by (simp only: mset_filter [symmetric] size_mset)
  have l: "length (slot_order slots) = length slots" using m by (rule mset_eq_length)
  show ?thesis unfolding card_summary_def Let_def ch n unfolding cs(1) by (simp add: filter_map comp_def l g)
qed

text \<open>C33. Copying a selection of saves to a new card is exact: the verification pass of the code can never fail, a successful
  result comes from a well-formed source and a selection without repetition of slots that hold files, the new card is well formed, its
  directory holds exactly the selected entries, in the order of the directory and unchanged, every copied file has its contents, and the
  summary handed back is the summary of the new card.  Every byte of the new card is determined: each block below the directory, 200 to
  240 included, is the block of a copied file or zero; each of the 208 directory entries is the selected entry or 32 zero bytes; each FAT
  entry is that of the source or, for a user block of no copied file, free; and the root is the root of the source.  In every refusal
  the destination is untouched.\<close>

theorem vmu_subset_correct:
  assumes "card_full source"
    and "kui_vmu_image_subset source_at source n dest_at destination dn slots_at slots work_at work summary_at summary = (r, out, s)"
  shows "r \<noteq> Subset_Image Image_Verify
    \<and> (if r = Subset_Image Image_OK then wf_card source \<and> wf_card out \<and> s = card_summary out \<and> distinct slots
         \<and> live_entries out = map (dir_slot source) (filter (\<lambda>k. k \<in> set slots) [0..<208])
         \<and> map (file_contents out) (live_entries out) = map (file_contents source) (live_entries out)
         \<and> (let copied = set (concat (map (entry_chain (source vmu_fat)) (live_entries out))) in
              (\<forall>b<241. out b = (if b \<in> copied then source b else replicate 512 0))
              \<and> (\<forall>k<208. dir_slot out k = (if k \<in> set slots then dir_slot source k else replicate 32 0))
              \<and> (\<forall>b<256. le16 (out vmu_fat) (2 * b) = (if b < 200 \<and> b \<notin> copied then vmu_free else le16 (source vmu_fat) (2 * b))))
         \<and> out vmu_root = source vmu_root \<and> card_full out
       else (r = Subset_Selection \<or> r = Subset_Image Image_Argument \<or> \<not> wf_card source) \<and> out = destination)"
proof -
  obtain r1 w1 s1 where v: "validate_card source work = (r1, w1, s1)" by (metis prod_cases3)
  note unf = assms(2) [unfolded kui_vmu_image_subset_def v prod.case]
  consider (ok) ch us ex where "r1 = Image_OK" "select_slots source (ws_fat w1) slots (replicate 208 False, replicate 200 False, no_summary) = Some (ch, us, ex)"
      "(r, out, s) = (case validate_card (subset_image source (ws_fat w1) ch us) w1 of (r', _, verified) \<Rightarrow>
         if r' \<noteq> Image_OK \<or> verified \<noteq> ex\<lparr>sm_free_blocks := 200 - sm_used_blocks ex\<rparr> then (Subset_Image Image_Verify, subset_image source (ws_fat w1) ch us, no_summary)
         else (Subset_Image Image_OK, subset_image source (ws_fat w1) ch us, verified))"
    | (arg) "r = Subset_Image Image_Argument" "out = destination"
    | (bad) "r1 \<noteq> Image_OK" "r = Subset_Image r1" "out = destination"
    | (sel) "r = Subset_Selection" "out = destination"
    using unf by (auto simp: Let_def split: if_splits option.splits prod.splits)
  then show ?thesis
  proof cases
    case ok
    have wf: "wf_card source" using validate_decides [of source work] v ok(1) by simp
    then have w1: "ws_fat w1 = source vmu_fat" using wf_card_validates [OF wf, of work] v by auto
    have files: "files_ok (source vmu_fat) (live_entries source)" using wf by (simp add: wf_card_def Let_def)
    note sel = ok(2) [unfolded w1]
    have bd: "\<forall>k<208. dir_slot source k ! 0 \<noteq> 0 \<longrightarrow> (\<forall>b\<in>set (slot_chain source k). b < 200)"
    proof (intro allI impI)
      fix k
      assume "k < 208" "dir_slot source k ! 0 \<noteq> 0"
      then have "dir_slot source k \<in> set (live_entries source)" by (simp add: live_slots)
      then have "\<forall>b\<in>set (entry_chain (source vmu_fat) (dir_slot source k)). b < 200" using files by (simp add: files_ok_def entry_ok_def)
      then show "\<forall>b\<in>set (slot_chain source k). b < 200" by (simp add: slot_chain_def)
    qed
    have ss: "distinct slots" "\<forall>k\<in>set slots. k < 208 \<and> dir_slot source k ! 0 \<noteq> 0" "\<forall>k<208. ch ! k \<longleftrightarrow> k \<in> set slots"
      "\<forall>b<200. us ! b \<longleftrightarrow> b \<in> set (concat (map (slot_chain source) slots))"
      "ex = no_summary\<lparr>sm_files := length slots, sm_game_files := length (filter (\<lambda>k. is_game (dir_slot source k)) slots),
         sm_used_blocks := sum_list (map (\<lambda>k. length (slot_chain source k)) slots)\<rparr>"
      using select_slots_sound [OF sel _ _ bd] by (simp_all add: no_summary_def del: set_concat set_map)
    let ?out = "subset_image source (source vmu_fat) ch us"
    note cut = subset_image_cut [OF assms(1) ss(3,4)]
    note cs = cut_card_sound [OF wf cut ss(1,2)]
    note sm = cut_card_summary [OF wf cut ss(1,2)]
    have so: "set (slot_order slots) = set slots" using slot_order_facts ss(1,2) by blast
    have ex: "ex\<lparr>sm_free_blocks := 200 - sm_used_blocks ex\<rparr> = card_summary ?out" unfolding sm ss(5) by (simp add: no_summary_def)
    have eq: "(r, out, s) = (Subset_Image Image_OK, ?out, card_summary ?out)"
      using ok(3) unfolding w1 ex wf_card_validates [OF cs(3)] by simp
    have fc: "map (file_contents ?out) (live_entries ?out) = map (file_contents source) (live_entries ?out)"
      unfolding cs(1) using cs(2) so by simp
    let ?copied = "set (concat (map (slot_chain source) slots))"
    have copied: "set (concat (map (entry_chain (source vmu_fat)) (live_entries ?out))) = ?copied"
      unfolding cs(1) using so by (simp add: slot_chain_def)
    have low: "b < 200" if "b \<in> ?copied" for b using that bd ss(2) by auto
    note rest = subset_image_rest [OF assms(1), of ch us]
    note exact = cut [unfolded cut_card_def]
    have blocks: "\<forall>b<241. ?out b = (if b \<in> ?copied then source b else replicate 512 0)"
    proof (intro allI impI)
      fix b :: nat
      assume "b < 241"
      then show "?out b = (if b \<in> ?copied then source b else replicate 512 0)"
        using exact rest(1) low [of b] by (cases "b < 200") (auto simp del: set_concat set_map)
    qed
    have exactly: "let copied = set (concat (map (entry_chain (source vmu_fat)) (live_entries ?out))) in
        (\<forall>b<241. ?out b = (if b \<in> copied then source b else replicate 512 0))
        \<and> (\<forall>k<208. dir_slot ?out k = (if k \<in> set slots then dir_slot source k else replicate 32 0))
        \<and> (\<forall>b<256. le16 (?out vmu_fat) (2 * b) = (if b < 200 \<and> b \<notin> copied then vmu_free else le16 (source vmu_fat) (2 * b)))"
      unfolding Let_def copied using blocks exact by blast
    have root: "?out vmu_root = source vmu_root" using exact by blast
    have parts: "r = Subset_Image Image_OK" "out = ?out" "s = card_summary ?out" using eq by simp_all
    have live: "live_entries ?out = map (dir_slot source) (filter (\<lambda>k. k \<in> set slots) [0..<208])" using cs(1) by (simp add: slot_order_def)
    have no: "Subset_Image Image_OK \<noteq> Subset_Image Image_Verify" by simp
    show ?thesis
      unfolding parts if_P [OF refl] by (intro conjI no wf cs(3) refl ss(1) live fc exactly root rest(2))
  next
    case arg
    then show ?thesis by simp
  next
    case bad
    then show ?thesis using validate_decides [of source work] v validate_never_verify [of source work] by auto
  next
    case sel
    then show ?thesis by simp
  qed
qed

text \<open>A card with one file of two blocks.\<close>

lemma card_full_upd: "card_full img \<Longrightarrow> length d = 512 \<Longrightarrow> card_full (img(b := d))"
  by (simp add: card_full_def)

lemma card_full_place_block:
  assumes "card_full img" "length (payload n) = 512" "target game first n < 200"
  shows "card_full (place_block game first len payload n img)"
proof -
  let ?img = "img(target game first n := payload n)"
  have f: "card_full ?img" using assms(1,2) by (rule card_full_upd)
  then have l: "length (?img vmu_fat) = 512" unfolding card_full_def by (elim allE [of _ vmu_fat]) simp
  then have "2 * target game first n + length (put16 (next_block game first len n)) \<le> length (?img vmu_fat)"
    unfolding l using assms(3) by simp
  then have "length (patch (?img vmu_fat) (2 * target game first n) (put16 (next_block game first len n))) = length (?img vmu_fat)" by (rule length_patch)
  also note l
  finally show ?thesis using f unfolding place_block_def Let_def by (intro card_full_upd [OF f])
qed

lemma card_full_place_entry:
  assumes "card_full img" "length entry = 32" "i < 208"
  shows "card_full (place_entry entry i first img)"
proof -
  have "length (img (vmu_dir_first - i div 16)) = 512" using assms(1) by (simp add: card_full_def)
  moreover have "32 * (i mod 16) + 32 \<le> 512" using mod_less_divisor [of 16 i] by linarith
  ultimately show ?thesis using assms unfolding place_entry_def Let_def by (intro card_full_upd) (simp_all add: length_patch)
qed

definition sample_card :: card where
  "sample_card = snd (place_files [(sample_data_entry, \<lambda>n. replicate 512 7)] 0 (200, blank_card))"

lemma sample_card_facts: "card_full sample_card" "wf_card sample_card" "dir_slot sample_card 0 ! 0 = 0x33"
proof -
  let ?fs = "[(sample_data_entry, \<lambda>n. replicate 512 7)] :: (bytes \<times> (nat \<Rightarrow> bytes)) list"
  have e: "[0..<2] = [0, 1 :: nat]" by (simp add: upt_rec)
  show "card_full sample_card"
    unfolding sample_card_def
    by (simp add: place_file_def sample_entry_fields Let_def e target_def card_full_place_block card_full_place_entry blank_full)
  have b: "buildable (map fst ?fs)"
    by (simp add: buildable_def entry_sound_def sample_entry_fields is_game_def file_blocks_total_def)
  have p: "placed ?fs (layout 200 (map fst ?fs)) 0 blank_card sample_card"
    unfolding sample_card_def using buildable_layout [OF b] blank_sized by (intro place_files_placed) auto
  show "wf_card sample_card" by (rule built_card(3) [OF b p])
  have "dir_slot sample_card 0 = placed_entry sample_data_entry (hd (layout 200 (map fst ?fs) ! 0))" using p unfolding placed_def by simp
  then show "dir_slot sample_card 0 ! 0 = 0x33" by (simp add: placed_entry_def sample_entry_fields nth_patch)
qed

theorem vmu_subset_correct_witness:
  "\<exists>out s. kui_vmu_image_subset 0x100000 sample_card 131072 0x200000 blank_card 131072 0x300000 [0] 0x400000 sample_workspace 0x500000 no_summary
      = (Subset_Image Image_OK, out, s) \<and> wf_card out \<and> live_entries out = [dir_slot sample_card 0]"
proof -
  obtain r out s where m: "kui_vmu_image_subset 0x100000 sample_card 131072 0x200000 blank_card 131072 0x300000 [0] 0x400000 sample_workspace 0x500000 no_summary
      = (r, out, s)" by (metis prod_cases3)
  have "subset_ranges_ok [(0x100000, 131072), (0x300000, 2)] [(0x200000, 131072), (0x400000, workspace_size), (0x500000, summary_size)]"
    by (simp add: subset_ranges_ok_def ranges_overlap_def upt_rec)
  then have "r \<noteq> Subset_Selection \<and> r \<noteq> Subset_Image Image_Argument"
    using m sample_card_facts(3) by (auto simp: kui_vmu_image_subset_def wf_card_validates sample_card_facts(2) Let_def split: prod.splits if_splits option.splits)
  then have r: "r = Subset_Image Image_OK" using vmu_subset_correct [OF sample_card_facts(1) m] sample_card_facts(2) by presburger
  then have t: "wf_card out" "live_entries out = map (dir_slot sample_card) (filter (\<lambda>k. k \<in> set [0]) [0..<208])"
    using vmu_subset_correct [OF sample_card_facts(1) m] by presburger+
  have "filter (\<lambda>k. k \<in> set [0]) [0..<208] = [0 :: nat]" by (simp add: upt_rec)
  then have "live_entries out = [dir_slot sample_card 0]" unfolding t(2) by (simp only: list.map)
  then show ?thesis using t(1) m r by blast
qed

subsection \<open>The builder behind the listing\<close>

lemma blank_card_summary: "card_summary blank_card = \<lparr>sm_files = 0, sm_game_files = 0, sm_used_blocks = 0, sm_free_blocks = 200\<rparr>"
  using blank_live_entries [of default_time] by (simp add: card_summary_def blank_card_def [abs_def])

text \<open>Choosing nothing builds the blank card, and its verification cannot fail either.\<close>

lemma import_plan_build_empty:
  assumes "kui_vmu_import_plan_build source_at source n dest_at destination dn slots_at [] work_at work summary_at summary = (r, out, s)"
  shows "r \<noteq> Subset_Image Image_Verify \<and> (if r = Subset_Image Image_OK then out = blank_card \<and> wf_card out \<and> s = card_summary out else out = destination)"
proof -
  have wf: "wf_card blank_card" using blank_card_wf [of default_time] by (simp add: blank_card_def [abs_def] default_time_def)
  obtain r1 w1 s1 where v: "validate_card source work = (r1, w1, s1)" by (metis prod_cases3)
  have "r1 \<noteq> Image_Verify" using validate_never_verify [of source work] v by simp
  then show ?thesis
    using assms unfolding kui_vmu_import_plan_build_def Let_def v prod.case wf_card_validates [OF wf] blank_card_summary
    by (auto simp: wf blank_card_summary split: if_splits)
qed

text \<open>The header that the listing shows is read from a block of the file itself, at the offset its entry gives.\<close>

lemma import_plan_header:
  assumes "wf_card img" "k < 208" "dir_slot img k ! 0 \<noteq> 0"
  shows "walk_to (img vmu_fat) (le16 (dir_slot img k) 2) (le16 (dir_slot img k) 26) = slot_chain img k ! le16 (dir_slot img k) 26"
    "le16 (dir_slot img k) 26 < length (slot_chain img k)"
proof -
  have "dir_slot img k \<in> set (live_entries img)" using assms(2,3) by (simp add: live_slots)
  then have "entry_ok (img vmu_fat) (dir_slot img k)" using assms(1) by (simp add: wf_card_def files_ok_def Let_def)
  then show l: "le16 (dir_slot img k) 26 < length (slot_chain img k)" by (simp add: entry_ok_def slot_chain_def entry_chain_def)
  then show "walk_to (img vmu_fat) (le16 (dir_slot img k) 2) (le16 (dir_slot img k) 26) = slot_chain img k ! le16 (dir_slot img k) 26"
    by (simp add: slot_chain_def entry_chain_def chain_walk del: upt_Suc)
qed

end
