(* ===== verification/Sha256.thy ===== *)
theory Sha256
  imports Kui_Checksums
begin

text \<open>
  The streaming SHA-256 of src/core/hash.c: \<open>kui_sha256_init\<close>, \<open>kui_sha256_update\<close>,
  \<open>kui_sha256_digest\<close>, and the hexadecimal printer \<open>kui_hex\<close>.  The reference is the one-shot hash of FIPS
  180-4 (pad, cut into 64-byte blocks, fold the compression function); the streaming
  routines are proved to compute it for every way of cutting a message into pieces.
\<close>

unbundle bit_operations_syntax

subsection \<open>The routines\<close>

record sha256 =
  sha_h :: "u32 list"
  sha_bytes :: u64
  sha_block :: bytes

definition rotate :: "u32 \<Rightarrow> nat \<Rightarrow> u32" where
  "rotate n r = drop_bit r n OR push_bit (32 - r) n"

definition sha_k :: "u32 list" where
  "sha_k = [
    0x428a2f98, 0x71374491, 0xb5c0fbcf, 0xe9b5dba5, 0x3956c25b, 0x59f111f1, 0x923f82a4, 0xab1c5ed5,
    0xd807aa98, 0x12835b01, 0x243185be, 0x550c7dc3, 0x72be5d74, 0x80deb1fe, 0x9bdc06a7, 0xc19bf174,
    0xe49b69c1, 0xefbe4786, 0x0fc19dc6, 0x240ca1cc, 0x2de92c6f, 0x4a7484aa, 0x5cb0a9dc, 0x76f988da,
    0x983e5152, 0xa831c66d, 0xb00327c8, 0xbf597fc7, 0xc6e00bf3, 0xd5a79147, 0x06ca6351, 0x14292967,
    0x27b70a85, 0x2e1b2138, 0x4d2c6dfc, 0x53380d13, 0x650a7354, 0x766a0abb, 0x81c2c92e, 0x92722c85,
    0xa2bfe8a1, 0xa81a664b, 0xc24b8b70, 0xc76c51a3, 0xd192e819, 0xd6990624, 0xf40e3585, 0x106aa070,
    0x19a4c116, 0x1e376c08, 0x2748774c, 0x34b0bcb5, 0x391c0cb3, 0x4ed8aa4a, 0x5b9cca4f, 0x682e6ff3,
    0x748f82ee, 0x78a5636f, 0x84c87814, 0x8cc70208, 0x90befffa, 0xa4506ceb, 0xbef9a3f7, 0xc67178f2]"

definition big32 :: "bytes \<Rightarrow> nat \<Rightarrow> u32" where
  "big32 b i = push_bit 24 (ucast (b ! i)) OR push_bit 16 (ucast (b ! (i + 1))) OR push_bit 8 (ucast (b ! (i + 2)))
     OR ucast (b ! (i + 3))"

definition sha_next :: "u32 list \<Rightarrow> nat \<Rightarrow> u32" where
  "sha_next w i =
     (let x = w ! (i - 15); y = w ! (i - 2)
      in w ! (i - 16) + (rotate x 7 XOR (rotate x 18 XOR drop_bit 3 x)) + w ! (i - 7)
         + (rotate y 17 XOR (rotate y 19 XOR drop_bit 10 y)))"

definition sha_schedule :: "bytes \<Rightarrow> u32 list" where
  "sha_schedule b = fold (\<lambda>i w. w @ [sha_next w i]) [16..<64] (map (\<lambda>i. big32 b (4 * i)) [0..<16])"

definition sha_round ::
    "u32 list \<Rightarrow> nat \<Rightarrow> u32 \<times> u32 \<times> u32 \<times> u32 \<times> u32 \<times> u32 \<times> u32 \<times> u32
     \<Rightarrow> u32 \<times> u32 \<times> u32 \<times> u32 \<times> u32 \<times> u32 \<times> u32 \<times> u32" where
  "sha_round w i r =
     (case r of (a, bb, c, d, e, f, g, h) \<Rightarrow>
      let t = h + (rotate e 6 XOR (rotate e 11 XOR rotate e 25)) + ((e AND f) XOR (NOT e AND g)) + sha_k ! i + w ! i;
          u = (rotate a 2 XOR (rotate a 13 XOR rotate a 22)) + ((a AND bb) XOR ((a AND c) XOR (bb AND c)))
      in (t + u, a, bb, c, d + t, e, f, g))"

definition compress :: "u32 list \<Rightarrow> bytes \<Rightarrow> u32 list" where
  "compress hs b =
     (let w = sha_schedule b in
      case fold (sha_round w) [0..<64] (hs ! 0, hs ! 1, hs ! 2, hs ! 3, hs ! 4, hs ! 5, hs ! 6, hs ! 7) of
        (a, bb, c, d, e, f, g, h) \<Rightarrow>
          [hs ! 0 + a, hs ! 1 + bb, hs ! 2 + c, hs ! 3 + d, hs ! 4 + e, hs ! 5 + f, hs ! 6 + g, hs ! 7 + h])"

definition sha_initial :: "u32 list" where
  "sha_initial = [0x6a09e667, 0xbb67ae85, 0x3c6ef372, 0xa54ff53a, 0x510e527f, 0x9b05688c, 0x1f83d9ab, 0x5be0cd19]"

definition kui_sha256_init :: sha256 where
  "kui_sha256_init = \<lparr>sha_h = sha_initial, sha_bytes = 0, sha_block = replicate 64 0\<rparr>"

function kui_sha256_update :: "sha256 \<Rightarrow> bytes \<Rightarrow> sha256" where
  "kui_sha256_update s data =
     (if data = [] then s
      else let used = unat (sha_bytes s mod 64); n = min (64 - used) (length data);
               s = s\<lparr>sha_block := patch (sha_block s) used (take n data), sha_bytes := sha_bytes s + of_nat n\<rparr>;
               s = (if sha_bytes s mod 64 = 0 then s\<lparr>sha_h := compress (sha_h s) (sha_block s)\<rparr> else s)
           in kui_sha256_update s (drop n data))"
  by auto

lemma unat_mod_64: "unat (x mod 64 :: u64) < 64"
  by (simp add: unat_mod)

termination kui_sha256_update
  by (relation "measure (\<lambda>(s, data). length data)") (auto simp: unat_mod_64)

definition digest_bytes :: "u32 list \<Rightarrow> bytes" where
  "digest_bytes hs = map (\<lambda>i. ucast (drop_bit (24 - 8 * (i mod 4)) (hs ! (i div 4)))) [0..<32]"

definition sha_padding :: "u64 \<Rightarrow> bytes" where
  "sha_padding n =
     (let bits = n * 8; used = unat (n mod 64);
          count = (if 64 - used < 9 then 64 - used + 64 else 64 - used);
          padding = 0x80 # replicate 127 0
      in take count (fold (\<lambda>i p. p[count - 1 - i := ucast (drop_bit (8 * i) bits)]) [0..<8] padding))"

definition kui_sha256_digest :: "sha256 \<Rightarrow> bytes" where
  "kui_sha256_digest s = digest_bytes (sha_h (kui_sha256_update s (sha_padding (sha_bytes s))))"

definition hex_digits :: bytes where
  "hex_digits = [0x30, 0x31, 0x32, 0x33, 0x34, 0x35, 0x36, 0x37, 0x38, 0x39, 0x61, 0x62, 0x63, 0x64, 0x65, 0x66]"

definition kui_hex :: "bytes \<Rightarrow> bytes" where
  "kui_hex bytes = concat (map (\<lambda>b. [hex_digits ! unat (drop_bit 4 b), hex_digits ! unat (b AND 15)]) bytes) @ [0]"

subsection \<open>The reference\<close>

definition sha_blocks :: "bytes \<Rightarrow> bytes list" where
  "sha_blocks m = map (\<lambda>i. window m (64 * i) 64) [0..<length m div 64]"

definition sha_pad :: "nat \<Rightarrow> bytes" where
  "sha_pad l = 0x80 # replicate ((119 - l mod 64) mod 64) 0 @ map (\<lambda>i. of_nat (8 * l div 256 ^ (7 - i))) [0..<8]"

definition sha256_reference :: "bytes \<Rightarrow> bytes" where
  "sha256_reference m = digest_bytes (foldl compress sha_initial (sha_blocks (m @ sha_pad (length m))))"

subsection \<open>Streaming computes the reference\<close>

definition sha_rep :: "sha256 \<Rightarrow> bytes \<Rightarrow> bool" where
  "sha_rep s m =
     (sha_bytes s = of_nat (length m) \<and> sha_h s = foldl compress sha_initial (sha_blocks m) \<and> length (sha_block s) = 64
      \<and> take (length m mod 64) (sha_block s) = drop (64 * (length m div 64)) m)"

lemma window_append_left: "i + n \<le> length m \<Longrightarrow> window (m @ x) i n = window m i n"
  by (simp add: window_def)

lemma block_low: "i < l div 64 \<Longrightarrow> 64 * i + 64 \<le> (l :: nat)"
  using mult_le_mono1 [of "Suc i" "l div 64" 64] div_times_less_eq_dividend [of l 64] by simp

lemma div_short: "(l + k) div 64 = (l :: nat) div 64" if "l mod 64 + k < 64"
proof -
  have "l + k = (l mod 64 + k) + l div 64 * 64" using div_mult_mod_eq [of l 64] by linarith
  then have "(l + k) div 64 = l div 64 + (l mod 64 + k) div 64" by (metis div_mult_self1 zero_neq_numeral)
  then show ?thesis using that by simp
qed

lemma sha_blocks_short:
  assumes "length m mod 64 + length x < 64"
  shows "sha_blocks (m @ x) = sha_blocks m"
proof -
  have q: "length (m @ x) div 64 = length m div 64" using div_short [OF assms] by simp
  show ?thesis unfolding sha_blocks_def q by (intro map_cong) (auto simp: window_append_left block_low)
qed

lemma sha_blocks_full:
  assumes "length m mod 64 + length x = 64"
  shows "sha_blocks (m @ x) = sha_blocks m @ [drop (64 * (length m div 64)) m @ x]"
proof -
  let ?q = "length m div 64"
  have "length (m @ x) = 64 * Suc ?q" using assms mult_div_mod_eq [of 64 "length m"] unfolding length_append mult_Suc_right by linarith
  then have q: "length (m @ x) div 64 = Suc ?q" by (metis nonzero_mult_div_cancel_left zero_neq_numeral)
  have last: "window (m @ x) (64 * ?q) 64 = drop (64 * ?q) m @ x"
  proof -
    have "64 * ?q \<le> length m" by simp
    then have "drop (64 * ?q) (m @ x) = drop (64 * ?q) m @ x" by simp
    moreover have "length (drop (64 * ?q) m @ x) = 64" using assms by (simp add: minus_mult_div_eq_mod)
    ultimately show ?thesis by (simp add: window_def)
  qed
  show ?thesis unfolding sha_blocks_def q using last by (auto simp: window_append_left block_low)
qed

lemma used_mod: "unat (of_nat l mod 64 :: u64) = l mod 64"
proof -
  have "unat (of_nat l :: u64) mod 64 = l mod 64" by (simp add: unat_of_nat mod_mod_cancel)
  then show ?thesis by (simp add: unat_mod)
qed

lemma bytes_mod_zero: "(of_nat l mod 64 :: u64) = 0 \<longleftrightarrow> l mod 64 = 0"
  using used_mod [of l] by (metis unsigned_0 unsigned_word_eqI)

lemma sha_step:
  assumes "sha_rep s m" and "data \<noteq> []"
  defines "n \<equiv> min (64 - unat (sha_bytes s mod 64)) (length data)"
  defines "t \<equiv> s\<lparr>sha_block := patch (sha_block s) (unat (sha_bytes s mod 64)) (take n data), sha_bytes := sha_bytes s + of_nat n\<rparr>"
  shows "sha_rep (if sha_bytes t mod 64 = 0 then t\<lparr>sha_h := compress (sha_h t) (sha_block t)\<rparr> else t) (m @ take n data)"
proof -
  let ?used = "length m mod 64" and ?x = "take n data"
  have bytes: "sha_bytes s = of_nat (length m)" using assms(1) by (simp add: sha_rep_def)
  have used: "unat (sha_bytes s mod 64) = ?used" by (simp add: bytes used_mod)
  have u64: "?used < 64" by simp
  have n: "n = min (64 - ?used) (length data)" by (simp add: n_def used)
  have nx: "length ?x = n" "0 < n" "?used + n \<le> 64" using assms(2) u64 by (auto simp: n)
  have tbytes: "sha_bytes t = of_nat (length (m @ ?x))" using nx by (simp add: t_def bytes)
  have mod: "(length m + n) mod 64 = (if ?used + n = 64 then 0 else ?used + n)"
    using nx(3) mod_add_left_eq [of "length m" 64 n] by (cases "?used + n = 64") auto
  have full: "sha_bytes t mod 64 = 0 \<longleftrightarrow> ?used + n = 64"
    unfolding tbytes bytes_mod_zero using mod nx by (auto split: if_splits)
  have block: "sha_block t = patch (sha_block s) ?used ?x" by (simp add: t_def used)
  have lens: "length (sha_block s) = 64" and prefix: "take ?used (sha_block s) = drop (64 * (length m div 64)) m"
    and h: "sha_h t = foldl compress sha_initial (sha_blocks m)"
    using assms(1) by (simp_all add: sha_rep_def t_def)
  have lent: "length (sha_block t) = 64" unfolding block using lens nx by (simp add: length_patch)
  show ?thesis
  proof (cases "?used + n = 64")
    case True
    have whole: "sha_block t = drop (64 * (length m div 64)) m @ ?x"
      unfolding block patch_def prefix using True nx lens by simp
    have "sha_blocks (m @ ?x) = sha_blocks m @ [sha_block t]"
      unfolding whole using True nx by (intro sha_blocks_full) simp
    moreover have "64 * ((length m + n) div 64) = length m + n"
      using mod True mult_div_mod_eq [of 64 "length m + n"] by simp
    ultimately show ?thesis using True full tbytes h lent mod nx by (simp add: sha_rep_def)
  next
    case False
    then have lt: "?used + n < 64" using nx(3) by simp
    have q: "(length m + n) div 64 = length m div 64"
      by (rule div_short [OF lt])
    have "take (?used + n) (sha_block t) = drop (64 * (length m div 64)) m @ ?x"
      unfolding block patch_def prefix using lens nx lt by (simp add: minus_mult_div_eq_mod)
    then show ?thesis
      using False full tbytes h lent mod nx q sha_blocks_short [of m ?x] lt by (simp add: sha_rep_def)
  qed
qed

declare kui_sha256_update.simps [simp del]

lemma sha_update_rep: "sha_rep s m \<Longrightarrow> sha_rep (kui_sha256_update s data) (m @ data)"
proof (induction s data arbitrary: m rule: kui_sha256_update.induct)
  case (1 s data)
  show ?case
  proof (cases "data = []")
    case True
    then show ?thesis using 1(2) by (simp add: kui_sha256_update.simps)
  next
    case False
    define n where "n = min (64 - unat (sha_bytes s mod 64)) (length data)"
    define t where "t = s\<lparr>sha_block := patch (sha_block s) (unat (sha_bytes s mod 64)) (take n data), sha_bytes := sha_bytes s + of_nat n\<rparr>"
    define t' where "t' = (if sha_bytes t mod 64 = 0 then t\<lparr>sha_h := compress (sha_h t) (sha_block t)\<rparr> else t)"
    have rep: "sha_rep t' (m @ take n data)"
      using sha_step [OF 1(2) False] unfolding t'_def t_def n_def .
    have step: "kui_sha256_update s data = kui_sha256_update t' (drop n data)"
      using False unfolding t'_def t_def n_def by (subst kui_sha256_update.simps) (simp add: Let_def)
    have "sha_rep (kui_sha256_update t' (drop n data)) ((m @ take n data) @ drop n data)"
      using 1(1) [OF False refl n_def t_def t'_def rep] .
    then show ?thesis by (simp add: step)
  qed
qed

lemma length_fold_put [simp]: "length (fold (\<lambda>i p. p[g i := f i]) xs p) = length p"
  by (induction xs arbitrary: p) simp_all

lemma fold_put_nth:
  assumes "c \<le> length p" and "n \<le> c" and "k < length p"
  shows "fold (\<lambda>i p. p[c - 1 - i := f i]) [0..<n] p ! k = (if c - n \<le> k \<and> k < c then f (c - 1 - k) else p ! k)"
  using assms
proof (induction n)
  case (Suc n)
  show ?case using Suc by (cases "k = c - Suc n") (auto simp: nth_list_update)
qed auto

lemma length_byte:
  assumes "8 * l < 2 ^ 64"
  shows "(ucast (drop_bit (8 * j) (of_nat l * 8 :: u64)) :: u8) = of_nat (8 * l div 256 ^ j)"
proof -
  have "unat (of_nat l * 8 :: u64) = 8 * l"
    using assms by (simp add: unat_word_ariths unat_of_nat mult.commute)
  then have "unat (drop_bit (8 * j) (of_nat l * 8 :: u64)) = 8 * l div 256 ^ j"
    unfolding unat_drop_bit_eq by (simp add: drop_bit_eq_div power_mult)
  then show ?thesis by (metis of_nat_unat)
qed

lemma sha_padding_pad:
  assumes "8 * l < 2 ^ 64"
  shows "sha_padding (of_nat l) = sha_pad l"
proof -
  define used where "used = l mod 64"
  define count where "count = (if 64 - used < 9 then 64 - used + 64 else 64 - used)"
  have used: "used < 64" by (simp add: used_def)
  have count: "count \<le> 128" "9 \<le> count" "count = 9 + (119 - used) mod 64"
    using used by (auto simp: count_def mod_if)
  let ?f = "\<lambda>i. ucast (drop_bit (8 * i) (of_nat l * 8 :: u64)) :: u8"
  let ?p = "0x80 # replicate 127 0 :: bytes"
  have pad: "sha_padding (of_nat l) = take count (fold (\<lambda>i p. p[count - 1 - i := ?f i]) [0..<8] ?p)"
    by (simp add: sha_padding_def used_mod used_def count_def Let_def)
  show ?thesis
  proof (rule nth_equalityI)
    show len: "length (sha_padding (of_nat l)) = length (sha_pad l)"
      unfolding pad using count by (simp add: sha_pad_def used_def)
    fix k assume "k < length (sha_padding (of_nat l))"
    then have k: "k < count" unfolding pad using count(1) by simp
    have "sha_padding (of_nat l) ! k = (if count - 8 \<le> k then ?f (count - 1 - k) else ?p ! k)"
      unfolding pad using k count fold_put_nth [of count ?p 8 k ?f] by simp
    also have "\<dots> = sha_pad l ! k"
    proof (cases "count - 8 \<le> k")
      case True
      define j where "j = k - (count - 8)"
      have j: "j < 8" "k = Suc ((119 - used) mod 64) + j" "count - 1 - k = 7 - j"
        using True k count unfolding j_def by linarith+
      have "sha_pad l ! k = map (\<lambda>i. of_nat (8 * l div 256 ^ (7 - i))) [0..<8] ! j"
        unfolding j(2) by (simp add: sha_pad_def used_def [symmetric] nth_append)
      also have "\<dots> = of_nat (8 * l div 256 ^ (7 - j))"
        using j(1) nth_map [of j "[0..<8]"] by (simp del: upt_conv_Nil upt_rec_numeral)
      finally show ?thesis using True j(3) length_byte [OF assms] by simp
    next
      case False
      then show ?thesis
        using k count used by (cases k) (auto simp: sha_pad_def nth_append used_def [symmetric])
    qed
    finally show "sha_padding (of_nat l) ! k = sha_pad l ! k" .
  qed
qed

text \<open>
  C21. Streaming SHA-256 is SHA-256: for every way of cutting a message of less than 2^61 bytes into pieces,
  feeding the pieces to \<open>kui_sha256_update\<close> and asking for the digest gives the reference hash of the
  message, including pieces that are empty or cross block boundaries.
\<close>

theorem sha256_streaming:
  assumes "8 * length (concat pieces) < 2 ^ 64"
  shows "kui_sha256_digest (foldl kui_sha256_update kui_sha256_init pieces) = sha256_reference (concat pieces)"
proof -
  have init: "sha_rep kui_sha256_init []" by (simp add: sha_rep_def kui_sha256_init_def sha_blocks_def)
  have pieces: "sha_rep s m \<Longrightarrow> sha_rep (foldl kui_sha256_update s ps) (m @ concat ps)" for s m ps
    by (induction ps arbitrary: s m) (simp, metis append_assoc concat.simps(2) foldl_Cons sha_update_rep)
  let ?s = "foldl kui_sha256_update kui_sha256_init pieces" and ?m = "concat pieces"
  have rep: "sha_rep ?s ?m" using pieces [OF init] by simp
  then have "sha_bytes ?s = of_nat (length ?m)" by (simp add: sha_rep_def)
  then have "sha_rep (kui_sha256_update ?s (sha_padding (sha_bytes ?s))) (?m @ sha_pad (length ?m))"
    using sha_update_rep [OF rep] sha_padding_pad [OF assms] by simp
  then show ?thesis by (simp add: kui_sha256_digest_def sha256_reference_def sha_rep_def)
qed

theorem sha256_streaming_witness:
  "kui_sha256_digest (kui_sha256_update (kui_sha256_update kui_sha256_init [1, 2, 3]) (replicate 70 9)) =
   sha256_reference ([1, 2, 3] @ replicate 70 9)"
  using sha256_streaming [of "[[1, 2, 3], replicate 70 9]"] by simp

subsection \<open>The hexadecimal printer\<close>

lemma nibbles: "unat (drop_bit 4 b) < 16" "unat (b AND 15) < 16" for b :: u8
proof -
  have "unat b < 256" using unsigned_less [of b, where ?'a = nat] by simp
  then show "unat (drop_bit 4 b) < 16" unfolding unat_drop_bit_eq by (simp add: drop_bit_eq_div less_mult_imp_div_less)
  show "unat (b AND 15) < 16" using unat_take_bit_less [of 4 b] by (simp add: and_mask_word)
qed

lemma nibbles_inj: "drop_bit 4 b = drop_bit 4 c \<Longrightarrow> b AND 15 = c AND 15 \<Longrightarrow> b = c" for b c :: u8
proof -
  assume hi: "drop_bit 4 b = drop_bit 4 c" and lo: "b AND 15 = c AND 15"
  have "push_bit 4 (drop_bit 4 b) + take_bit 4 b = push_bit 4 (drop_bit 4 c) + take_bit 4 c"
    using hi lo by (simp add: and_mask_word)
  then show ?thesis by (metis bits_ident)
qed

lemma hex_nth_inj: "i < 16 \<Longrightarrow> j < 16 \<Longrightarrow> hex_digits ! i = hex_digits ! j \<Longrightarrow> i = j"
proof -
  have "distinct hex_digits" by (simp add: hex_digits_def)
  then show "i < 16 \<Longrightarrow> j < 16 \<Longrightarrow> hex_digits ! i = hex_digits ! j \<Longrightarrow> i = j"
    by (simp add: nth_eq_iff_index_eq hex_digits_def)
qed

lemma hex_byte_inj:
  fixes b c :: u8
  assumes "hex_digits ! unat (drop_bit 4 b) = hex_digits ! unat (drop_bit 4 c)" and "hex_digits ! unat (b AND 15) = hex_digits ! unat (c AND 15)"
  shows "b = c"
  using hex_nth_inj [OF nibbles(1) nibbles(1) assms(1)] hex_nth_inj [OF nibbles(2) nibbles(2) assms(2)] nibbles_inj
  by (metis unsigned_word_eqI)

text \<open>
  The hexadecimal printer writes two lower-case hexadecimal digits per byte and the terminator, and
  different byte strings print differently.
\<close>

theorem kui_hex_printer:
  "length (kui_hex bs) = 2 * length bs + 1 \<and> last (kui_hex bs) = 0 \<and> set (butlast (kui_hex bs)) \<subseteq> set hex_digits \<and>
   (kui_hex bs = kui_hex cs \<longleftrightarrow> bs = cs)"
proof -
  let ?h = "\<lambda>b :: u8. [hex_digits ! unat (drop_bit 4 b), hex_digits ! unat (b AND 15)]"
  have len: "length hex_digits = 16" by (simp add: hex_digits_def)
  have inj: "concat (map ?h xs) = concat (map ?h ys) \<Longrightarrow> xs = ys" for xs ys
  proof (induction xs arbitrary: ys)
    case (Cons x xs)
    then show ?case by (cases ys) (auto intro: hex_byte_inj)
  next
    case Nil
    then show ?case by (cases ys) auto
  qed
  have "length (concat (map ?h bs)) = 2 * length bs" by (induction bs) simp_all
  moreover have "set (concat (map ?h bs)) \<subseteq> set hex_digits" using nibbles by (auto simp: len intro: nth_mem)
  ultimately show ?thesis using inj [of bs cs] by (auto simp: kui_hex_def)
qed

end
