(* ===== verification/Disc_Sectors.thy ===== *)
theory Disc_Sectors
  imports Kui_Checksums
begin

text \<open>
  Volumes, tables of contents and raw sectors: the pure helpers of src/core/data.c, the sector checks
  of src/core/hash.c that acquisition uses, and the strict checks of src/core/recovery_sector.c
  (EDC plus the P and Q parity of ECMA-130).  Sector results are the flag words of the C code.

  The reference for the parity check is the pair of syndromes of a Reed-Solomon code over GF(256)
  with generator 2 modulo 0x11d; the two EDC checks, written independently in the program, are
  proved to accept the same Mode 1 sectors.
\<close>

unbundle bit_operations_syntax

subsection \<open>Volumes and tables of contents (data.c)\<close>

definition kui_block_range :: "u64 \<Rightarrow> u64 \<Rightarrow> u64 \<Rightarrow> bool" where
  "kui_block_range start count tot = (count \<noteq> 0 \<and> start < tot \<and> count \<le> tot - start)"

record kui_volume =
  vol_start :: u32
  vol_count :: u32
  partitioned :: bool

definition fat32_name :: bytes where
  "fat32_name = [0x46, 0x41, 0x54, 0x33, 0x32, 0x20, 0x20, 0x20]"

definition exfat_name :: bytes where
  "exfat_name = [0x45, 0x58, 0x46, 0x41, 0x54, 0x20, 0x20, 0x20]"

text \<open>The scan of the four partition entries; \<open>found\<close> counts the used ones.\<close>

fun scan_partitions :: "bytes \<Rightarrow> u64 \<Rightarrow> nat list \<Rightarrow> kui_volume option \<Rightarrow> kui_volume option option" where
  "scan_partitions mbr blocks [] found = Some found"
| "scan_partitions mbr blocks (i # is) found =
     (let p = window mbr (446 + i * 16) 16; start = get32 p 8; count = get32 p 12 in
      if p ! 4 = 0 then (if start \<noteq> 0 \<or> count \<noteq> 0 then None else scan_partitions mbr blocks is found)
      else if found \<noteq> None \<or> (p ! 0 \<noteq> 0 \<and> p ! 0 \<noteq> 0x80) \<or> (p ! 4 \<noteq> 0x0b \<and> p ! 4 \<noteq> 0x0c \<and> p ! 4 \<noteq> 0x07) then None
      else if start = 0 \<or> \<not> kui_block_range (ucast start) (ucast count) blocks then None
      else scan_partitions mbr blocks is (Some \<lparr>vol_start = start, vol_count = count, partitioned = True\<rparr>))"

definition kui_select_volume :: "bytes \<Rightarrow> u64 \<Rightarrow> kui_volume option" where
  "kui_select_volume mbr blocks =
     (if blocks = 0 \<or> blocks > 0xffffffff \<or> mbr ! 510 \<noteq> 0x55 \<or> mbr ! 511 \<noteq> 0xaa then None
      else if (window mbr 82 8 = fat32_name \<and> mbr ! 11 = 0 \<and> mbr ! 12 = 2)
           \<or> (window mbr 3 8 = exfat_name \<and> mbr ! 108 = 9)
      then Some \<lparr>vol_start = 0, vol_count = ucast blocks, partitioned = False\<rparr>
      else case scan_partitions mbr blocks [0..<4] None of None \<Rightarrow> None | Some found \<Rightarrow> found)"

definition kui_fad_to_lba :: "u32 \<Rightarrow> u32 option" where
  "kui_fad_to_lba fad = (if fad < 150 \<or> fad > 0xffffff then None else Some (fad - 150))"

record kui_track =
  tr_number :: nat
  tr_control :: nat
  tr_start :: nat
  tr_end :: nat

text \<open>
  The loop over the entries of a table of contents; \<open>entries\<close> are the 99 words the drive returns.
  Fields of 24 bits and less are read as numbers.
\<close>

definition toc_fad :: "u32 \<Rightarrow> nat" where
  "toc_fad w = unat (w AND 0xffffff)"

fun toc_tracks :: "u32 list \<Rightarrow> nat \<Rightarrow> nat \<Rightarrow> nat list \<Rightarrow> kui_track list option" where
  "toc_tracks entries hi stop [] = Some []"
| "toc_tracks entries hi stop (n # ns) =
     (let word = entries ! (n - 1); start = toc_fad word;
          next = (if n = hi then stop else toc_fad (entries ! n)) in
      if word = 0xffffffff \<or> drop_bit 24 word AND 15 \<noteq> 1 \<or> start < 150 \<or> next \<le> start \<or> next > stop then None
      else case toc_tracks entries hi stop ns of None \<Rightarrow> None
        | Some ts \<Rightarrow> Some (\<lparr>tr_number = n, tr_control = unat (drop_bit 28 word AND 15), tr_start = start, tr_end = next\<rparr> # ts))"

definition kui_parse_toc :: "u32 list \<Rightarrow> u32 \<Rightarrow> u32 \<Rightarrow> u32 \<Rightarrow> kui_track list option" where
  "kui_parse_toc entries first_word last_word leadout =
     (let lo = unat (drop_bit 16 first_word AND 255); hi = unat (drop_bit 16 last_word AND 255); stop = toc_fad leadout in
      if lo < 1 \<or> hi > 99 \<or> lo > hi \<or> leadout = 0xffffffff then None
      else toc_tracks entries hi stop [lo..<hi + 1])"

definition kui_sample_points :: "kui_track \<Rightarrow> nat list" where
  "kui_sample_points t =
     (if tr_end t \<le> tr_start t then []
      else let len = tr_end t - tr_start t;
               candidates = [tr_start t, tr_start t + (len - 1) div 2, if len > 300 then tr_end t - 151 else tr_start t]
           in fold (\<lambda>c ps. if c \<in> set ps then ps else ps @ [c]) candidates [])"

definition kui_data_offset :: "bytes \<Rightarrow> nat option" where
  "kui_data_offset raw =
     (if raw ! 0 \<noteq> 0 \<or> raw ! 11 \<noteq> 0 then None
      else if \<not> list_all (\<lambda>i. raw ! i = 255) [1..<11] then None
      else if raw ! 15 = 1 then Some 16
      else if raw ! 15 = 2 \<and> raw ! 18 AND 0x20 = 0 \<and> window raw 16 4 = window raw 20 4 then Some 24
      else None)"

definition kui_guard_is :: "bytes \<Rightarrow> u8 \<Rightarrow> bool" where
  "kui_guard_is data v = list_all (\<lambda>b. b = v) data"

definition kui_pattern :: "u64 \<Rightarrow> nat \<Rightarrow> bytes" where
  "kui_pattern offset n =
     map (\<lambda>i. let pos = offset + of_nat i;
                  x = (ucast (pos div 4) :: u32) XOR 0x4b554931;
                  x = x XOR push_bit 13 x;
                  x = x XOR drop_bit 17 x;
                  x = x XOR push_bit 5 x
              in ucast (drop_bit (unat (pos mod 4) * 8) x)) [0..<n]"

subsection \<open>Acquisition checks (hash.c)\<close>

definition kui_sector_edc_valid :: "bytes \<Rightarrow> bool" where
  "kui_sector_edc_valid raw =
     (case kui_data_offset raw of None \<Rightarrow> False
      | Some offset \<Rightarrow>
        (let end = offset + 2048; begin = (if offset = 16 then 0 else 16)
         in get32 raw end = kui_cd_edc (window raw begin (end - begin))))"

definition kui_sector_edc_valid_at :: "bytes \<Rightarrow> nat \<Rightarrow> bool" where
  "kui_sector_edc_valid_at raw fad =
     (if \<not> kui_sector_edc_valid raw then False
      else if raw ! 15 \<noteq> 1 then True
      else if fad < 150 \<or> fad > 719999 then False
      else let fields = [fad div 4500, (fad div 75) mod 60, fad mod 75]
           in list_all (\<lambda>i. raw ! (12 + i) = of_nat ((fields ! i div 10) * 16 + fields ! i mod 10)) [0..<3])"

subsection \<open>Strict checks (recovery\_sector.c)\<close>

definition edc_table :: "u32 list" where
  "edc_table = map (\<lambda>i. (crc_bit 0xd8018001 ^^ 8) (of_nat i)) [0..<256]"

definition ecc_double :: "nat \<Rightarrow> nat" where
  "ecc_double i = (let j = i * 2 in if bit j 8 then j XOR 0x11d else j)"

definition ecc_f :: "u8 list" where
  "ecc_f = map (\<lambda>i. of_nat (ecc_double i)) [0..<256]"

definition ecc_b :: "u8 list" where
  "ecc_b = fold (\<lambda>i t. t[i XOR ecc_double i := of_nat i]) [0..<256] (replicate 256 0)"

text \<open>One row or diagonal: \<open>k\<close> bytes are left, \<open>index\<close> is the next one.\<close>

fun parity_walk :: "bytes \<Rightarrow> nat \<Rightarrow> nat \<Rightarrow> nat \<Rightarrow> nat \<Rightarrow> u8 \<times> u8 \<Rightarrow> u8 \<times> u8" where
  "parity_walk src len minor_inc 0 index (a, b) = (a, b)"
| "parity_walk src len minor_inc (Suc k) index (a, b) =
     (let v = src ! index
      in parity_walk src len minor_inc k ((index + minor_inc) mod len) (ecc_f ! unat (a XOR v), b XOR v))"

definition parity_row_ok :: "bytes \<Rightarrow> nat \<Rightarrow> nat \<Rightarrow> nat \<Rightarrow> nat \<Rightarrow> bytes \<Rightarrow> nat \<Rightarrow> bool" where
  "parity_row_ok src major_count minor_count major_mult minor_inc parity major =
     (case parity_walk src (major_count * minor_count) minor_inc minor_count
        ((major div 2) * major_mult + major mod 2) (0, 0) of (a, b) \<Rightarrow>
      let a = ecc_b ! unat (ecc_f ! unat a XOR b)
      in parity ! major = a \<and> parity ! (major + major_count) = a XOR b)"

definition parity_ok :: "bytes \<Rightarrow> nat \<Rightarrow> nat \<Rightarrow> nat \<Rightarrow> nat \<Rightarrow> bytes \<Rightarrow> bool" where
  "parity_ok src major_count minor_count major_mult minor_inc parity =
     list_all (parity_row_ok src major_count minor_count major_mult minor_inc parity) [0..<major_count]"

definition bcd :: "nat \<Rightarrow> u8" where
  "bcd v = push_bit 4 (of_nat (v div 10)) OR of_nat (v mod 10)"

definition sector_sync :: bytes where
  "sector_sync = [0, 255, 255, 255, 255, 255, 255, 255, 255, 255, 255, 0]"

definition address_ok :: "bytes \<Rightarrow> nat \<Rightarrow> bool" where
  "address_ok s fad = (s ! 12 = bcd (fad div 4500) \<and> s ! 13 = bcd ((fad div 75) mod 60) \<and> s ! 14 = bcd (fad mod 75))"

abbreviation (input) flag_sync :: u32 where "flag_sync \<equiv> 1"
abbreviation (input) flag_address :: u32 where "flag_address \<equiv> 2"
abbreviation (input) flag_edc :: u32 where "flag_edc \<equiv> 4"
abbreviation (input) flag_ecc :: u32 where "flag_ecc \<equiv> 8"
abbreviation (input) flag_unsupported :: u32 where "flag_unsupported \<equiv> 16"
abbreviation (input) flag_input :: u32 where "flag_input \<equiv> 32"
abbreviation (input) flag_reserved :: u32 where "flag_reserved \<equiv> 64"
abbreviation (input) flag_subheader :: u32 where "flag_subheader \<equiv> 128"

definition raise_if :: "bool \<Rightarrow> u32 \<Rightarrow> u32 \<Rightarrow> u32" where
  "raise_if c flag result = (if c then result OR flag else result)"

definition check_edc :: "bytes \<Rightarrow> nat \<Rightarrow> u32" where
  "check_edc s fad =
     (if window s 0 12 \<noteq> sector_sync then flag_sync
      else if s ! 15 \<noteq> 1 then flag_unsupported
      else let result = raise_if (\<not> address_ok s fad) flag_address 0
           in raise_if (table_loop edc_table 0 (window s 0 2064) \<noteq> get32 s 2064) flag_edc result)"

definition kui_recovery_sector_check :: "bytes \<Rightarrow> nat \<Rightarrow> u32" where
  "kui_recovery_sector_check raw fad =
     (if length raw \<noteq> 2352 \<or> fad < 150 \<or> fad > 719999 then flag_input
      else let result = check_edc raw fad in
        if result AND (flag_sync OR flag_unsupported) \<noteq> 0 then result
        else let result = raise_if (\<not> zeroes (window raw 2068 8)) flag_reserved result
             in raise_if (\<not> parity_ok (drop 12 raw) 86 24 2 86 (drop 2076 raw)
                          \<or> \<not> parity_ok (drop 12 raw) 52 43 86 88 (drop 2248 raw)) flag_ecc result)"

definition kui_recovery_cd_sector_check :: "bytes \<Rightarrow> nat \<Rightarrow> u32" where
  "kui_recovery_cd_sector_check raw fad =
     (if length raw \<noteq> 2352 \<or> fad < 150 \<or> fad > 719999 then flag_input
      else if raw ! 15 \<noteq> 2 then kui_recovery_sector_check raw fad
      else if window raw 0 12 \<noteq> sector_sync then flag_sync
      else let result = raise_if (\<not> address_ok raw fad) flag_address 0;
               result = raise_if (window raw 16 4 \<noteq> window raw 20 4) flag_subheader result
           in if (raw ! 18 OR raw ! 22) AND 0x20 \<noteq> 0 then result OR flag_unsupported
              else let result = raise_if (table_loop edc_table 0 (window raw 16 2056) \<noteq> get32 raw 2072) flag_edc result;
                       parity_data = patch (window raw 12 2236) 0 (replicate 4 0)
                   in raise_if (\<not> parity_ok parity_data 86 24 2 86 (drop 2076 raw)
                                \<or> \<not> parity_ok parity_data 52 43 86 88 (drop 2248 raw)) flag_ecc result)"

subsection \<open>The parity check is a Reed-Solomon syndrome test\<close>

text \<open>
  Multiplication by the generator 2 in GF(256) modulo 0x11d, and the two syndromes of a codeword
  by Horner's rule: the values of its polynomial at 1 and at 2.
\<close>

definition gf_double :: "u8 \<Rightarrow> u8" where
  "gf_double v = push_bit 1 v XOR (if bit v 7 then 0x1d else 0)"

definition syndrome_one :: "bytes \<Rightarrow> u8" where
  "syndrome_one c = foldl (XOR) 0 c"

definition syndrome_two :: "bytes \<Rightarrow> u8" where
  "syndrome_two c = foldl (\<lambda>s v. gf_double s XOR v) 0 c"

definition rs_codeword :: "bytes \<Rightarrow> bool" where
  "rs_codeword c = (syndrome_one c = 0 \<and> syndrome_two c = 0)"

lemma xor_zero_iff: "a XOR b = 0 \<longleftrightarrow> a = b" for a b :: "'a :: len word"
proof
  assume "a XOR b = 0"
  then have "(a XOR b) XOR b = b" by simp
  then show "a = b" by (simp add: xor.assoc)
qed simp

lemma gf_double_xor: "gf_double (a XOR b) = gf_double a XOR gf_double b"
  unfolding gf_double_def
  by (rule bit_word_eqI) (auto simp: bit_xor_iff bit_push_bit_iff)

lemma ecc_double_word: "of_nat (ecc_double i) = gf_double (of_nat i)"
proof -
  have d: "(of_nat (i * 2) :: u8) = push_bit 1 (of_nat i)" by (simp add: push_bit_eq_mult)
  have c: "of_nat (0x11d :: nat) = (0x1d :: u8)" by simp
  have b: "bit (i * 2) 8 \<longleftrightarrow> bit (of_nat i :: u8) 7"
    using bit_double_iff [of i 8] by (simp add: bit_of_nat_iff mult.commute)
  show ?thesis unfolding ecc_double_def Let_def gf_double_def b if_distrib [of of_nat] of_nat_xor_eq d c
    by simp
qed

lemma bit_gf_double:
  "n < 8 \<Longrightarrow> bit (gf_double x) n \<longleftrightarrow> (0 < n \<and> bit x (n - 1)) \<noteq> (bit x 7 \<and> bit (0x1d :: u8) n)"
  unfolding gf_double_def bit_xor_iff bit_push_bit_iff by auto

lemma gf_triple_inj: "inj (\<lambda>p. p XOR gf_double p)"
proof (rule injI)
  fix p q assume eq: "p XOR gf_double p = q XOR gf_double q"
  define x where "x = p XOR q"
  have "x XOR gf_double x = 0" using eq unfolding x_def gf_double_xor
    by (metis (no_types, lifting) xor.assoc xor.commute xor_self_eq)
  then have x: "x = gf_double x" by (simp only: xor_zero_iff)
  have step: "bit x n \<longleftrightarrow> (0 < n \<and> bit x (n - 1)) \<noteq> (bit x 7 \<and> bit (0x1d :: u8) n)" if "n < 8" for n
    using bit_gf_double [OF that, of x] x by simp
  have c: "bit (0x1d :: u8) 0" "\<not> bit (0x1d :: u8) 1" "bit (0x1d :: u8) 2" "bit (0x1d :: u8) 3" "bit (0x1d :: u8) 4"
    "\<not> bit (0x1d :: u8) 5" "\<not> bit (0x1d :: u8) 6" "\<not> bit (0x1d :: u8) 7" by simp_all
  have s: "bit x 0 \<longleftrightarrow> bit x 7" "bit x 1 \<longleftrightarrow> bit x 0" "bit x 2 \<longleftrightarrow> bit x 1 \<noteq> bit x 7" "bit x 3 \<longleftrightarrow> bit x 2 \<noteq> bit x 7"
    "bit x 4 \<longleftrightarrow> bit x 3 \<noteq> bit x 7" "bit x 5 \<longleftrightarrow> bit x 4" "bit x 6 \<longleftrightarrow> bit x 5" "bit x 7 \<longleftrightarrow> bit x 6"
    using step [of 0] step [of 1] step [of 2] step [of 3] step [of 4] step [of 5] step [of 6] step [of 7] c by simp_all
  then have z: "\<not> bit x 0" "\<not> bit x 1" "\<not> bit x 2" "\<not> bit x 3" "\<not> bit x 4" "\<not> bit x 5" "\<not> bit x 6" "\<not> bit x 7"
    by blast+
  have "\<not> bit x n" if lt: "n < 8" for n
  proof -
    consider "n = 0" | "n = 1" | "n = 2" | "n = 3" | "n = 4" | "n = 5" | "n = 6" | "n = 7" using lt by linarith
    then show ?thesis by cases (simp_all only: z not_False_eq_True)
  qed
  then have "x = 0" by (intro bit_word_eqI) simp
  then show "p = q" unfolding x_def by (simp only: xor_zero_iff)
qed

lemma ecc_f_nth: "ecc_f ! unat v = gf_double v"
  using unsigned_less [of v, where ?'a = nat] by (simp add: ecc_f_def ecc_double_word)

lemma fold_update_nth:
  "distinct (map g is) \<Longrightarrow> i \<in> set is \<Longrightarrow> list_all (\<lambda>i. g i < length t) is
   \<Longrightarrow> fold (\<lambda>i t. t[g i := h i]) is t ! g i = h i"
proof (induction "is" arbitrary: t)
  case (Cons j js)
  have keep: "g k \<notin> g ` set ks \<Longrightarrow> fold (\<lambda>i t. t[g i := h i]) ks t ! g k = t ! g k" for k ks t
    by (induction ks arbitrary: t) auto
  show ?case
  proof (cases "i = j")
    case True
    then show ?thesis using Cons.prems keep [of j js] by simp
  next
    case False
    then show ?thesis using Cons by simp
  qed
qed simp

lemma high_bits_clear: "x < 2 ^ k \<Longrightarrow> k \<le> n \<Longrightarrow> \<not> bit x n" for x :: nat
  by (metis bit_take_bit_iff not_le take_bit_nat_eq_self)

lemma low_bits_only: "(\<And>n. k \<le> n \<Longrightarrow> \<not> bit x n) \<Longrightarrow> x < 2 ^ k" for x :: nat
proof -
  assume "\<And>n. k \<le> n \<Longrightarrow> \<not> bit x n"
  then have "take_bit k x = x" by (intro bit_eqI) (auto simp: bit_take_bit_iff not_le [symmetric])
  then show ?thesis by (metis take_bit_nat_less_exp)
qed

lemma ecc_double_small: "ecc_double i < 256" if "i < 256"
proof -
  have j: "i * 2 < 2 ^ 9" using that by simp
  have "ecc_double i < 2 ^ 8"
  proof (rule low_bits_only)
    fix n :: nat assume "8 \<le> n"
    then consider "n = 8" | "9 \<le> n" by linarith
    then show "\<not> bit (ecc_double i) n"
    proof cases
      case 2
      then show ?thesis using high_bits_clear [OF j, of n] high_bits_clear [of "0x11d" 9 n]
        by (simp add: ecc_double_def Let_def bit_xor_iff)
    qed (simp add: ecc_double_def Let_def bit_xor_iff bit_0)
  qed
  then show ?thesis by simp
qed

lemma ecc_index: "i XOR ecc_double i = unat (of_nat i XOR gf_double (of_nat i) :: u8)" if "i < 256"
proof -
  have "i XOR ecc_double i < 2 ^ 8"
    by (rule low_bits_only) (use high_bits_clear [of i 8] high_bits_clear [of "ecc_double i" 8] ecc_double_small [OF that] that
        in \<open>simp add: bit_xor_iff\<close>)
  then have "unat (of_nat (i XOR ecc_double i) :: u8) = i XOR ecc_double i" by (simp add: unat_of_nat)
  then show ?thesis by (metis ecc_double_word of_nat_xor_eq)
qed

lemma ecc_b_inverse: "ecc_b ! unat (p XOR gf_double p) = p"
proof -
  let ?g = "\<lambda>i :: nat. i XOR ecc_double i"
  have g: "?g i = unat (of_nat i XOR gf_double (of_nat i) :: u8)" if "i < 256" for i using ecc_index [OF that] .
  have inj: "inj_on ?g {0..<256}"
  proof (rule inj_onI)
    fix i j :: nat assume ij: "i \<in> {0..<256}" "j \<in> {0..<256}" "?g i = ?g j"
    then have "(of_nat i :: u8) XOR gf_double (of_nat i) = of_nat j XOR gf_double (of_nat j)"
      using g [of i] g [of j] by (simp add: unsigned_word_eqI)
    then have "(of_nat i :: u8) = of_nat j" by (rule injD [OF gf_triple_inj])
    then have "unat (of_nat i :: u8) = unat (of_nat j :: u8)" by simp
    then show "i = j" using ij by (simp add: unat_of_nat)
  qed
  have p: "unat p < 256" using unsigned_less [of p, where ?'a = nat] by simp
  have lt: "list_all (\<lambda>i. ?g i < length (replicate 256 (0 :: u8))) [0..<256]"
    using g unsigned_less [where ?'a = nat and ?'b = 8] by (simp add: list_all_iff)
  have "ecc_b ! ?g (unat p) = of_nat (unat p)"
    unfolding ecc_b_def by (rule fold_update_nth [OF _ _ lt]) (use inj p in \<open>simp_all add: distinct_map\<close>)
  then show ?thesis using g [OF p] by simp
qed

lemma ecc_b_nth: "ecc_b ! unat y = p \<longleftrightarrow> p XOR gf_double p = y"
proof -
  have "surj (\<lambda>p. p XOR gf_double p)" using gf_triple_inj by (rule finite_UNIV_inj_surj [OF finite])
  then obtain q where "y = q XOR gf_double q" by (metis surjD)
  then have y: "y = q XOR gf_double q" .
  have "ecc_b ! unat y = q" unfolding y by (rule ecc_b_inverse)
  moreover have "p XOR gf_double p = y \<longleftrightarrow> p = q" unfolding y using injD [OF gf_triple_inj, of p q] by blast
  ultimately show ?thesis by metis
qed

text \<open>
  What one row of the check computes: the two running values are the two sums of the code, and the
  comparison with the stored parity is the test that both syndromes of the codeword vanish.
\<close>

fun walk_positions :: "nat \<Rightarrow> nat \<Rightarrow> nat \<Rightarrow> nat \<Rightarrow> nat list" where
  "walk_positions len minor_inc 0 index = []"
| "walk_positions len minor_inc (Suc k) index = index # walk_positions len minor_inc k ((index + minor_inc) mod len)"

lemma walk_sums:
  "parity_walk src len minor_inc k index (gf_double a, b)
   = (gf_double (foldl (\<lambda>s v. gf_double s XOR v) a (map ((!) src) (walk_positions len minor_inc k index))),
      foldl (XOR) b (map ((!) src) (walk_positions len minor_inc k index)))"
  by (induction k arbitrary: index a b) (simp_all add: ecc_f_nth Let_def)

lemma gf_double_zero [simp]: "gf_double 0 = 0"
  by (simp add: gf_double_def)

lemma parity_row_syndromes:
  "parity_row_ok src major_count minor_count major_mult minor_inc parity major \<longleftrightarrow>
   rs_codeword (map ((!) src) (walk_positions (major_count * minor_count) minor_inc minor_count ((major div 2) * major_mult + major mod 2))
     @ [parity ! major, parity ! (major + major_count)])"
proof -
  define c where "c = map ((!) src) (walk_positions (major_count * minor_count) minor_inc minor_count ((major div 2) * major_mult + major mod 2))"
  define a where "a = foldl (\<lambda>s v. gf_double s XOR v) 0 c"
  define b where "b = foldl (XOR) 0 c"
  define p where "p = parity ! major"
  define q where "q = parity ! (major + major_count)"
  have walk: "parity_walk src (major_count * minor_count) minor_inc minor_count ((major div 2) * major_mult + major mod 2) (0, 0) = (gf_double a, b)"
    using walk_sums [of src "major_count * minor_count" minor_inc minor_count "(major div 2) * major_mult + major mod 2" 0 0]
    by (simp add: a_def b_def c_def)
  have "parity_row_ok src major_count minor_count major_mult minor_inc parity major
      \<longleftrightarrow> p XOR gf_double p = gf_double (gf_double a) XOR b \<and> q = p XOR b"
    unfolding parity_row_ok_def walk prod.case Let_def ecc_f_nth p_def [symmetric] q_def [symmetric] ecc_b_nth [symmetric] by metis
  also have "\<dots> \<longleftrightarrow> b XOR p XOR q = 0 \<and> gf_double (gf_double a XOR p) XOR q = 0"
  proof -
    have one: "q = p XOR b \<longleftrightarrow> b XOR p XOR q = 0" unfolding xor.assoc [symmetric] xor_zero_iff by (metis xor.commute)
    have two: "gf_double (gf_double a XOR p) XOR (p XOR b) = (p XOR gf_double p) XOR (gf_double (gf_double a) XOR b)"
      unfolding gf_double_xor by (simp add: ac_simps)
    show ?thesis unfolding one [symmetric] using two xor_zero_iff by metis
  qed
  also have "\<dots> \<longleftrightarrow> rs_codeword (c @ [p, q])"
    unfolding rs_codeword_def syndrome_one_def syndrome_two_def foldl_append a_def b_def by (simp add: xor.assoc)
  finally show ?thesis unfolding c_def p_def q_def .
qed

subsection \<open>What a clean Mode 1 sector is\<close>

text \<open>
  The 86 P codewords are the columns of the 26 by 86 matrix after the sync pattern, parity included; the 52 Q
  codewords are the diagonals that the walk visits, followed by their two parity bytes.
\<close>

definition p_codeword :: "bytes \<Rightarrow> nat \<Rightarrow> bytes" where
  "p_codeword raw m = map (\<lambda>k. raw ! (12 + m + 86 * k)) [0..<26]"

definition q_codeword :: "bytes \<Rightarrow> nat \<Rightarrow> bytes" where
  "q_codeword raw m = map (\<lambda>i. raw ! (12 + i)) (walk_positions 2236 88 43 ((m div 2) * 86 + m mod 2))
     @ [raw ! (2248 + m), raw ! (2300 + m)]"

lemma walk_column:
  "m < 86 \<Longrightarrow> j + k \<le> 24 \<Longrightarrow> walk_positions 2064 86 k (m + 86 * j) = map (\<lambda>i. m + 86 * i) [j..<j + k]"
proof (induction k arbitrary: j)
  case (Suc k)
  show ?case
  proof (cases k)
    case (Suc k')
    have "(m + 86 * j + 86) mod 2064 = m + 86 * Suc j" using Suc.prems Suc by simp
    then show ?thesis using Suc.IH [of "Suc j"] Suc.prems by (simp add: upt_conv_Cons)
  qed simp
qed simp

lemma walk_bound: "index < len \<Longrightarrow> list_all (\<lambda>i. i < len) (walk_positions len minor_inc k index)"
  by (induction k arbitrary: index) auto

lemma p_parity_iff:
  assumes "length raw = 2352"
  shows "parity_ok (drop 12 raw) 86 24 2 86 (drop 2076 raw) \<longleftrightarrow> list_all (\<lambda>m. rs_codeword (p_codeword raw m)) [0..<86]"
proof -
  have "parity_row_ok (drop 12 raw) 86 24 2 86 (drop 2076 raw) m \<longleftrightarrow> rs_codeword (p_codeword raw m)" if m: "m < 86" for m
  proof -
    have start: "m div 2 * 2 + m mod 2 = m + 86 * 0" by simp
    have pos: "walk_positions (86 * 24) 86 24 (m div 2 * 2 + m mod 2) = map (\<lambda>i. m + 86 * i) [0..<24]"
      unfolding start using walk_column [OF m, of 0 24] by simp
    have "p_codeword raw m = map ((!) (drop 12 raw)) (map (\<lambda>i. m + 86 * i) [0..<24]) @ [drop 2076 raw ! m, drop 2076 raw ! (m + 86)]"
    proof -
      have "[0..<26 :: nat] = [0..<24] @ [24, 25]" by (simp add: upt_conv_Cons)
      moreover have "drop 12 raw ! (m + 86 * i) = raw ! (12 + m + 86 * i)" if "i < 24" for i
        using assms m that by (simp add: add.assoc)
      ultimately show ?thesis using assms m unfolding p_codeword_def by (simp add: ac_simps)
    qed
    then show ?thesis unfolding parity_row_syndromes pos by simp
  qed
  then show ?thesis by (simp add: parity_ok_def list_all_iff)
qed

lemma q_parity_iff:
  assumes "length raw = 2352"
  shows "parity_ok (drop 12 raw) 52 43 86 88 (drop 2248 raw) \<longleftrightarrow> list_all (\<lambda>m. rs_codeword (q_codeword raw m)) [0..<52]"
proof -
  have "parity_row_ok (drop 12 raw) 52 43 86 88 (drop 2248 raw) m \<longleftrightarrow> rs_codeword (q_codeword raw m)" if m: "m < 52" for m
  proof -
    have "m div 2 * 86 + m mod 2 < 2236" using m by linarith
    from walk_bound [OF this, of 88 43]
    have "map ((!) (drop 12 raw)) (walk_positions 2236 88 43 (m div 2 * 86 + m mod 2))
        = map (\<lambda>i. raw ! (12 + i)) (walk_positions 2236 88 43 (m div 2 * 86 + m mod 2))"
      using assms by (intro map_cong) (auto simp: list_all_iff)
    moreover have "drop 2248 raw ! m = raw ! (2248 + m)" "drop 2248 raw ! (m + 52) = raw ! (2300 + m)"
      using assms m by (simp_all add: ac_simps)
    moreover have "(52 * 43 :: nat) = 2236" by simp
    ultimately show ?thesis unfolding parity_row_syndromes q_codeword_def by presburger
  qed
  then show ?thesis by (simp add: parity_ok_def list_all_iff)
qed

lemma edc_table_eq: "edc_table = byte_table 0xd8018001"
  unfolding edc_table_def byte_table_eq ..

lemma raise_if_zero: "flag \<noteq> 0 \<Longrightarrow> raise_if c flag r = 0 \<longleftrightarrow> \<not> c \<and> r = 0"
  by (auto simp: raise_if_def or_eq_0_iff)

lemma check_edc_zero:
  "check_edc s fad = 0 \<longleftrightarrow> window s 0 12 = sector_sync \<and> s ! 15 = 1 \<and> address_ok s fad \<and> get32 s 2064 = kui_cd_edc (window s 0 2064)"
  by (auto simp: check_edc_def Let_def raise_if_zero edc_table_eq kui_cd_edc_def)

definition clean_mode1 :: "bytes \<Rightarrow> nat \<Rightarrow> bool" where
  "clean_mode1 raw fad =
     (length raw = 2352 \<and> 150 \<le> fad \<and> fad \<le> 719999 \<and> window raw 0 12 = sector_sync \<and> raw ! 15 = 1 \<and> address_ok raw fad
      \<and> get32 raw 2064 = kui_cd_edc (window raw 0 2064) \<and> zeroes (window raw 2068 8)
      \<and> list_all (\<lambda>m. rs_codeword (p_codeword raw m)) [0..<86] \<and> list_all (\<lambda>m. rs_codeword (q_codeword raw m)) [0..<52])"

lemma or_flag_nonzero: "(0 :: u32) \<noteq> f \<Longrightarrow> r OR f \<noteq> 0"
  by (metis or_eq_0_iff)

lemma sector_check_zero_iff: "kui_recovery_sector_check raw fad = 0 \<longleftrightarrow> clean_mode1 raw fad"
proof (cases "length raw = 2352 \<and> 150 \<le> fad \<and> fad \<le> 719999")
  case True
  have "kui_recovery_sector_check raw fad = 0 \<longleftrightarrow> check_edc raw fad = 0 \<and> zeroes (window raw 2068 8)
      \<and> parity_ok (drop 12 raw) 86 24 2 86 (drop 2076 raw) \<and> parity_ok (drop 12 raw) 52 43 86 88 (drop 2248 raw)"
    using True unfolding kui_recovery_sector_check_def Let_def by (auto simp: raise_if_zero not_less)
  then show ?thesis using True p_parity_iff [of raw] q_parity_iff [of raw]
    unfolding clean_mode1_def check_edc_zero by blast
next
  case False
  then show ?thesis by (auto simp: kui_recovery_sector_check_def clean_mode1_def)
qed

text \<open>
  C19.  The strict sector check of the recovery tools reports no flag exactly for the clean Mode 1 sectors: 2352
  bytes, an address the disc can have, sync pattern, mode, header address, EDC and reserved zeros as ECMA-130 has
  them, and both syndromes of each of the 86 P and 52 Q Reed-Solomon codewords zero.  The table-driven parity comparison of the
  code is thereby shown to be the syndrome test of the code over GF(256).
\<close>

theorem recovery_sector_check_exact:
  "kui_recovery_sector_check raw fad = 0 \<longleftrightarrow>
   length raw = 2352 \<and> 150 \<le> fad \<and> fad \<le> 719999 \<and> window raw 0 12 = sector_sync \<and> raw ! 15 = 1 \<and> address_ok raw fad
   \<and> get32 raw 2064 = kui_cd_edc (window raw 0 2064) \<and> zeroes (window raw 2068 8)
   \<and> list_all (\<lambda>m. rs_codeword (p_codeword raw m)) [0..<86] \<and> list_all (\<lambda>m. rs_codeword (q_codeword raw m)) [0..<52]"
  unfolding sector_check_zero_iff clean_mode1_def ..

subsection \<open>One damaged byte is never missed\<close>

lemma xor_sum_update:
  "k < length c \<Longrightarrow> foldl (XOR) s (c[k := v]) = foldl (XOR) s c XOR (c ! k XOR v)" for c :: bytes
proof (induction c arbitrary: s k)
  case (Cons x xs)
  have shift: "foldl (XOR) (s XOR t) ys = foldl (XOR) s ys XOR t" for s t and ys :: bytes
  proof (induction ys arbitrary: s)
    case (Cons y ys)
    have "(s XOR t) XOR y = (s XOR y) XOR t" by (simp add: ac_simps)
    then show ?case using Cons.IH [of "s XOR y"] by simp
  qed simp
  show ?case
  proof (cases k)
    case 0
    have "s XOR v = (s XOR x) XOR (x XOR v)" by (metis xor.assoc xor.right_neutral xor_self_eq)
    then show ?thesis using 0 shift [of "s XOR x" "x XOR v" xs] by simp
  qed (use Cons in simp)
qed simp

lemma codeword_update:
  assumes "rs_codeword c" "k < length c" "v \<noteq> c ! k"
  shows "\<not> rs_codeword (c[k := v])"
  using assms xor_sum_update [of k c 0 v] by (auto simp: rs_codeword_def syndrome_one_def xor_zero_iff)

lemma p_codeword_update:
  assumes "length raw = 2352" "12 \<le> i" "i < 2248"
  shows "p_codeword (raw[i := v]) ((i - 12) mod 86) = (p_codeword raw ((i - 12) mod 86))[(i - 12) div 86 := v]"
proof (rule nth_equalityI)
  let ?m = "(i - 12) mod 86" and ?k = "(i - 12) div 86"
  have i: "i = 12 + ?m + 86 * ?k" using assms(2) mult_div_mod_eq [of 86 "i - 12"] by linarith
  fix j assume "j < length (p_codeword (raw[i := v]) ?m)"
  then have j: "j < 26" by (simp add: p_codeword_def)
  have "?m < 86" by simp
  then have "12 + ?m + 86 * j < length raw" using assms(1) j by linarith
  moreover have "12 + ?m + 86 * j = i \<longleftrightarrow> j = ?k" using i by linarith
  moreover have "?k < 26" using i assms(3) by linarith
  moreover have "i < length raw" using assms by simp
  ultimately show "p_codeword (raw[i := v]) ?m ! j = (p_codeword raw ?m)[?k := v] ! j"
    using j by (cases "j = ?k") (simp_all add: p_codeword_def)
qed (simp add: p_codeword_def)

lemma q_codeword_update:
  assumes "length raw = 2352" "m < 52" "i = 2248 + m + 52 * b" "b < 2"
  shows "q_codeword (raw[i := v]) m = (q_codeword raw m)[length (q_codeword raw m) - 2 + b := v]"
proof -
  have "m div 2 * 86 + m mod 2 < 2236" using assms(2) by linarith
  from walk_bound [OF this, of 88 43]
  have data: "map (\<lambda>j. raw[i := v] ! (12 + j)) (walk_positions 2236 88 43 ((m div 2) * 86 + m mod 2))
      = map (\<lambda>j. raw ! (12 + j)) (walk_positions 2236 88 43 ((m div 2) * 86 + m mod 2))"
    using assms by (intro map_cong) (auto simp: list_all_iff nth_list_update)
  consider "b = 0" | "b = 1" using assms(4) by linarith
  then show ?thesis
    by cases (use assms data in \<open>simp_all add: q_codeword_def list_update_append nth_list_update\<close>)
qed

lemma damage_detected:
  assumes clean: "clean_mode1 raw fad" and i: "i < 2352" and v: "v \<noteq> raw ! i"
  shows "\<not> clean_mode1 (raw[i := v]) fad"
proof -
  have len: "length raw = 2352" using clean by (simp add: clean_mode1_def)
  consider "i < 12" | "12 \<le> i" "i < 2248" | b where "2248 \<le> i" "b = (i - 2248) div 52" by fastforce
  then show ?thesis
  proof cases
    case 1
    then have "window (raw[i := v]) 0 12 ! i \<noteq> window raw 0 12 ! i" using v len by (simp add: window_def)
    then show ?thesis using clean by (auto simp: clean_mode1_def)
  next
    case 2
    let ?m = "(i - 12) mod 86" and ?k = "(i - 12) div 86"
    have "i = 12 + ?m + 86 * ?k" using 2 mult_div_mod_eq [of 86 "i - 12"] by linarith
    moreover from this have "?k < 26" using 2 by linarith
    ultimately have "?k < length (p_codeword raw ?m)" "p_codeword raw ?m ! ?k = raw ! i" by (simp_all add: p_codeword_def)
    moreover have "rs_codeword (p_codeword raw ?m)" using clean by (simp add: clean_mode1_def list_all_iff)
    ultimately have "\<not> rs_codeword (p_codeword (raw[i := v]) ?m)"
      unfolding p_codeword_update [OF len 2] using v by (intro codeword_update) simp_all
    then show ?thesis by (auto simp: clean_mode1_def list_all_iff)
  next
    case 3
    define m where "m = (i - 2248) mod 52"
    have m: "m < 52" "i = 2248 + m + 52 * b" using 3 mult_div_mod_eq [of 52 "i - 2248"] by (auto simp: m_def)
    then have b: "b < 2" using i by linarith
    let ?c = "q_codeword raw m"
    have "length ?c \<ge> 2" by (simp add: q_codeword_def)
    moreover have "?c ! (length ?c - 2 + b) = raw ! i"
    proof -
      consider "b = 0" | "b = 1" using b by linarith
      then show ?thesis by cases (simp_all add: q_codeword_def m(2) nth_append)
    qed
    moreover have "rs_codeword ?c" using clean m by (simp add: clean_mode1_def list_all_iff)
    ultimately have "\<not> rs_codeword (q_codeword (raw[i := v]) m)"
      unfolding q_codeword_update [OF len m b] using v b by (intro codeword_update) simp_all
    then show ?thesis using m(1) by (auto simp: clean_mode1_def list_all_iff)
  qed
qed

text \<open>
  C20.  No single damaged byte escapes the strict check: when a sector is reported clean, changing any one of
  its 2352 bytes to any other value gives a sector that is reported as damaged.
\<close>

theorem recovery_check_detects_damage:
  assumes "kui_recovery_sector_check raw fad = 0" and "i < 2352" and "v \<noteq> raw ! i"
  shows "kui_recovery_sector_check (raw[i := v]) fad \<noteq> 0"
  using assms damage_detected [of raw fad i v] unfolding sector_check_zero_iff by blast

subsection \<open>The two EDC checks agree\<close>

lemma bcd_arith: "bcd d = of_nat (d div 10 * 16 + d mod 10)" if "d < 160"
proof -
  have "list_all (\<lambda>d. bcd d = of_nat (d div 10 * 16 + d mod 10)) [0..<160]" by code_simp
  then show ?thesis using that by (simp add: list_all_iff)
qed

text \<open>A clean sector: frame 150 with the user data chosen so that the EDC register ends at zero.\<close>

definition clean_byte :: "nat \<Rightarrow> u8" where
  "clean_byte i =
     (if i < 2166 then (if i < 16 then (if i < 7 then (if i < 4 then (if i < 2 then (if i = 1 then 255 else 0)
     else (if i < 3 then (if i = 2 then 255 else 0) else (if i = 3 then 255 else 0))) else (if i < 5 then (if
     i = 4 then 255 else 0) else (if i < 6 then (if i = 5 then 255 else 0) else (if i = 6 then 255 else 0))))
     else (if i < 10 then (if i < 8 then (if i = 7 then 255 else 0) else (if i < 9 then (if i = 8 then 255
     else 0) else (if i = 9 then 255 else 0))) else (if i < 13 then (if i = 10 then 255 else 0) else (if i <
     15 then (if i = 13 then 2 else 0) else (if i = 15 then 1 else 0))))) else (if i < 2080 then (if i < 19
     then (if i < 17 then (if i = 16 then 158 else 0) else (if i < 18 then (if i = 17 then 2 else 0) else (if
     i = 18 then 254 else 0))) else (if i < 2077 then (if i = 19 then 145 else 0) else (if i < 2079 then (if i
     = 2077 then 247 else 0) else (if i = 2079 then 245 else 0)))) else (if i < 2083 then (if i < 2081 then
     (if i = 2080 then 31 else 0) else (if i < 2082 then (if i = 2081 then 247 else 0) else (if i = 2082 then
     95 else 0))) else (if i < 2163 then (if i = 2083 then 21 else 0) else (if i < 2165 then (if i = 2163 then
     245 else 0) else (if i = 2165 then 244 else 0)))))) else (if i < 2297 then (if i < 2291 then (if i < 2169
     then (if i < 2167 then (if i = 2166 then 129 else 0) else (if i < 2168 then (if i = 2167 then 245 else 0)
     else (if i = 2168 then 161 else 0))) else (if i < 2249 then (if i = 2169 then 132 else 0) else (if i <
     2290 then (if i = 2249 then 65 else 0) else (if i = 2290 then 200 else 0)))) else (if i < 2294 then (if i
     < 2292 then (if i = 2291 then 45 else 0) else (if i < 2293 then (if i = 2292 then 180 else 0) else (if i
     = 2293 then 8 else 0))) else (if i < 2295 then (if i = 2294 then 196 else 0) else (if i < 2296 then (if i
     = 2295 then 152 else 0) else (if i = 2296 then 184 else 0))))) else (if i < 2345 then (if i < 2342 then
     (if i < 2299 then (if i = 2297 then 26 else 0) else (if i < 2301 then (if i = 2299 then 230 else 0) else
     (if i = 2301 then 67 else 0))) else (if i < 2343 then (if i = 2342 then 151 else 0) else (if i < 2344
     then (if i = 2343 then 56 else 0) else (if i = 2344 then 10 else 0)))) else (if i < 2348 then (if i <
     2346 then (if i = 2345 then 123 else 0) else (if i < 2347 then (if i = 2346 then 187 else 0) else (if i =
     2347 then 9 else 0))) else (if i < 2349 then (if i = 2348 then 38 else 0) else (if i < 2351 then (if i =
     2349 then 27 else 0) else (if i = 2351 then 18 else 0)))))))"

definition clean_sector :: bytes where
  "clean_sector = map clean_byte [0..<2352]"

lemma clean_nth: "i < 2352 \<Longrightarrow> clean_sector ! i = clean_byte i"
  by (simp add: clean_sector_def)

lemmas clean_numeral = clean_byte_def [of "numeral n" for n]

lemmas codeword_eval = rs_codeword_def syndrome_one_def syndrome_two_def gf_double_def

lemma upt_26: "[0..<26] = [0, 1, 2, 3, 4, 5, 6, 7, 8, 9, 10, 11, 12, 13, 14, 15, 16, 17, 18, 19, 20, 21, 22, 23, 24, 25 :: nat]"
  by (simp add: upt_rec)

lemma upt_8: "[0..<8] = [0, 1, 2, 3, 4, 5, 6, 7 :: nat]"
  by (simp add: upt_rec)

lemma walk_numeral: "walk_positions len minor_inc (numeral k) index
   = index # walk_positions len minor_inc (pred_numeral k) ((index + minor_inc) mod len)"
  by (simp add: numeral_eq_Suc)

lemma clean_p_head: "list_all (\<lambda>m. rs_codeword (map (\<lambda>k. clean_byte (12 + m + 86 * k)) [0..<26])) [0..<8]"
  unfolding upt_8 upt_26 list.map list.pred_inject
  by (intro conjI TrueI; simp add: clean_numeral; simp add: codeword_eval)

lemma clean_p_tail: "clean_byte i \<noteq> 0 \<Longrightarrow> i < 12 \<or> 2248 \<le> i \<or> (i - 12) mod 86 < 8"
proof -
  assume "clean_byte i \<noteq> 0"
  then have "i < 12 \<or> 2248 \<le> i
      \<or> i \<in> {13, 15, 16, 17, 18, 19, 2077, 2079, 2080, 2081, 2082, 2083, 2163, 2165, 2166, 2167, 2168, 2169}"
    by (simp add: clean_byte_def split: if_splits)
  then show ?thesis by auto
qed

lemma clean_p: "list_all (\<lambda>m. rs_codeword (p_codeword clean_sector m)) [0..<86]"
proof -
  have code: "p_codeword clean_sector m = map (\<lambda>k. clean_byte (12 + m + 86 * k)) [0..<26]" if "m < 86" for m
    unfolding p_codeword_def using that by (intro map_cong) (auto intro: clean_nth)
  have "rs_codeword (p_codeword clean_sector m)" if m: "m < 86" for m
  proof (cases "m < 8")
    case True
    then show ?thesis using clean_p_head code [OF m] by (simp add: list_all_iff)
  next
    case False
    have zero: "clean_byte (12 + m + 86 * k) = 0" if "k < 26" for k
    proof (rule ccontr)
      assume "clean_byte (12 + m + 86 * k) \<noteq> 0"
      from clean_p_tail [OF this] show False using False m that by simp
    qed
    have "p_codeword clean_sector m = replicate 26 0"
      unfolding code [OF m] by (rule nth_equalityI) (simp_all add: zero)
    moreover have "rs_codeword (replicate 26 0)" by code_simp
    ultimately show ?thesis by simp
  qed
  then show ?thesis by (simp add: list_all_iff)
qed

definition clean_q_row :: "nat \<Rightarrow> bytes" where
  "clean_q_row m = map (\<lambda>i. clean_byte (12 + i)) (walk_positions 2236 88 43 ((m div 2) * 86 + m mod 2))
     @ [clean_byte (2248 + m), clean_byte (2300 + m)]"

lemma clean_q_rows:
  "rs_codeword (clean_q_row 0)" "rs_codeword (clean_q_row 1)" "rs_codeword (clean_q_row 2)"
  "rs_codeword (clean_q_row 3)" "rs_codeword (clean_q_row 4)" "rs_codeword (clean_q_row 5)"
  "rs_codeword (clean_q_row 6)" "rs_codeword (clean_q_row 7)" "rs_codeword (clean_q_row 8)"
  "rs_codeword (clean_q_row 9)" "rs_codeword (clean_q_row 10)" "rs_codeword (clean_q_row 11)"
  "rs_codeword (clean_q_row 12)" "rs_codeword (clean_q_row 13)" "rs_codeword (clean_q_row 14)"
  "rs_codeword (clean_q_row 15)" "rs_codeword (clean_q_row 16)" "rs_codeword (clean_q_row 17)"
  "rs_codeword (clean_q_row 18)" "rs_codeword (clean_q_row 19)" "rs_codeword (clean_q_row 20)"
  "rs_codeword (clean_q_row 21)" "rs_codeword (clean_q_row 22)" "rs_codeword (clean_q_row 23)"
  "rs_codeword (clean_q_row 24)" "rs_codeword (clean_q_row 25)" "rs_codeword (clean_q_row 26)"
  "rs_codeword (clean_q_row 27)" "rs_codeword (clean_q_row 28)" "rs_codeword (clean_q_row 29)"
  "rs_codeword (clean_q_row 30)" "rs_codeword (clean_q_row 31)" "rs_codeword (clean_q_row 32)"
  "rs_codeword (clean_q_row 33)" "rs_codeword (clean_q_row 34)" "rs_codeword (clean_q_row 35)"
  "rs_codeword (clean_q_row 36)" "rs_codeword (clean_q_row 37)" "rs_codeword (clean_q_row 38)"
  "rs_codeword (clean_q_row 39)" "rs_codeword (clean_q_row 40)" "rs_codeword (clean_q_row 41)"
  "rs_codeword (clean_q_row 42)" "rs_codeword (clean_q_row 43)" "rs_codeword (clean_q_row 44)"
  "rs_codeword (clean_q_row 45)" "rs_codeword (clean_q_row 46)" "rs_codeword (clean_q_row 47)"
  "rs_codeword (clean_q_row 48)" "rs_codeword (clean_q_row 49)" "rs_codeword (clean_q_row 50)"
  "rs_codeword (clean_q_row 51)"
  by (simp_all add: clean_q_row_def clean_numeral walk_numeral) (simp_all add: codeword_eval)

lemma upt_52: "[0..<52] = [0, 1, 2, 3, 4, 5, 6, 7, 8, 9, 10, 11, 12, 13, 14, 15, 16, 17, 18, 19, 20, 21, 22, 23, 24, 25, 26, 27, 28, 29, 30, 31, 32, 33, 34, 35, 36, 37, 38, 39, 40, 41, 42, 43, 44, 45, 46, 47, 48, 49, 50, 51 :: nat]"
  by (simp add: upt_rec)

lemma clean_q: "list_all (\<lambda>m. rs_codeword (q_codeword clean_sector m)) [0..<52]"
proof -
  have "q_codeword clean_sector m = clean_q_row m" if m: "m < 52" for m
  proof -
    have "m div 2 * 86 + m mod 2 < 2236" using m by linarith
    from walk_bound [OF this, of 88 43]
    have "map (\<lambda>i. clean_sector ! (12 + i)) (walk_positions 2236 88 43 ((m div 2) * 86 + m mod 2))
        = map (\<lambda>i. clean_byte (12 + i)) (walk_positions 2236 88 43 ((m div 2) * 86 + m mod 2))"
      by (intro map_cong) (auto simp: list_all_iff intro!: clean_nth)
    then show ?thesis using m by (simp add: q_codeword_def clean_q_row_def clean_nth)
  qed
  then show ?thesis using clean_q_rows (2) by (simp add: upt_52 clean_q_rows)
qed

lemma table_loop_zeros: "table_loop (byte_table poly) 0 (replicate n 0) = 0"
proof -
  have "(crc_bit_mask poly ^^ n) 0 = 0" for n by (induction n) (simp_all add: crc_bit_mask_def)
  then have "table_step (byte_table poly) 0 0 = 0" by (simp add: table_step_def byte_table_def)
  then show ?thesis by (induction n) simp_all
qed

lemma table_loop_append: "table_loop t crc (xs @ ys) = table_loop t (table_loop t crc xs) ys"
  by (induction xs arbitrary: crc) simp_all

lemma eight_times: "(f ^^ 8) x = f (f (f (f (f (f (f (f x)))))))"
  by (simp add: eval_nat_numeral)

lemma clean_edc: "kui_cd_edc (window clean_sector 0 2064) = 0"
proof -
  have low: "i < 20" if "clean_byte i \<noteq> 0" "i < 2064" for i
    using that by (simp add: clean_byte_def split: if_splits)
  have "clean_byte x = 0" if "x \<in> set [20..<2064]" for x
    using low [of x] that unfolding set_upt atLeastLessThan_iff by linarith
  then have "map clean_byte [20..<2064] = map (\<lambda>_. 0) [20..<2064]" by (rule map_cong [OF refl])
  then have "map clean_byte [20..<2064] = replicate 2044 0" unfolding map_replicate_const length_upt by simp
  moreover have "[0..<2064] = [0..<20] @ [20..<2064 :: nat]" using upt_add_eq_append [of 0 20 2044] by simp
  ultimately have w: "window clean_sector 0 2064 = map clean_byte [0..<20] @ replicate 2044 0"
    by (simp add: window_def clean_sector_def take_map)
  have "serial_loop 0xd8018001 0 [0, 255, 255, 255, 255, 255, 255, 255, 255, 255, 255, 0, 0, 2, 0, 1, 158, 2, 254, 145] = 0"
    by (simp add: eight_times crc_bit_def)
  moreover have "map clean_byte [0..<20] = [0, 255, 255, 255, 255, 255, 255, 255, 255, 255, 255, 0, 0, 2, 0, 1, 158, 2, 254, 145]"
    by (simp add: upt_rec clean_byte_def)
  ultimately show ?thesis
    unfolding kui_cd_edc_def w table_loop_append crc32_bytes.table_loop_serial [of "0xd8018001" 0] by (simp only: table_loop_zeros)
qed

lemma clean_sector_clean: "clean_mode1 clean_sector 150"
proof -
  have "window clean_sector 0 12 = map clean_byte [0..<12]" by (simp add: window_def clean_sector_def take_map)
  also have "\<dots> = sector_sync" by (simp add: upt_rec clean_byte_def sector_sync_def)
  finally have sync: "window clean_sector 0 12 = sector_sync" .
  have "window clean_sector 2068 8 = map clean_byte [2068..<2076]" by (simp add: window_def clean_sector_def take_map drop_map)
  also have "zeroes \<dots>" by (simp add: upt_rec clean_numeral zeroes_def)
  finally have reserved: "zeroes (window clean_sector 2068 8)" .
  have edc: "get32 clean_sector 2064 = 0" by (simp add: get32_def clean_nth clean_numeral)
  have header: "address_ok clean_sector 150" "clean_sector ! 15 = 1"
    by (simp_all add: address_ok_def clean_nth clean_numeral bcd_def)
  show ?thesis unfolding clean_mode1_def
    using sync reserved edc header clean_edc clean_p clean_q by (simp add: clean_sector_def)
qed

theorem recovery_check_detects_damage_witness:
  "kui_recovery_sector_check clean_sector 150 = 0 \<and> kui_recovery_sector_check (clean_sector[100 := 1]) 150 \<noteq> 0"
proof -
  have "kui_recovery_sector_check clean_sector 150 = 0" unfolding sector_check_zero_iff by (rule clean_sector_clean)
  moreover have "(1 :: u8) \<noteq> clean_sector ! 100" by (simp add: clean_nth clean_numeral)
  ultimately show ?thesis using recovery_check_detects_damage [of clean_sector 150 100 1] by simp
qed

text \<open>
  Acquisition and recovery check Mode 1 sectors with separately written routines: for every sector and every
  frame address, \<open>kui_sector_edc_valid_at\<close> of hash.c accepts a Mode 1 sector exactly when \<open>check_edc\<close> of recovery\_sector.c
  reports no flag.
\<close>

theorem edc_checks_agree:
  "length raw = 2352 \<Longrightarrow> 150 \<le> fad \<Longrightarrow> fad \<le> 719999 \<Longrightarrow>
   raw ! 15 = 1 \<and> kui_sector_edc_valid_at raw fad \<longleftrightarrow> check_edc raw fad = 0"
proof -
  assume len: "length raw = 2352" and fad: "150 \<le> fad" "fad \<le> 719999"
  have sync: "window raw 0 12 = sector_sync \<longleftrightarrow> raw ! 0 = 0 \<and> raw ! 11 = 0 \<and> list_all (\<lambda>i. raw ! i = 255) [1..<11]"
  proof -
    have "window raw 0 12 = map ((!) raw) [0..<12]"
      using len by (intro nth_equalityI) (simp_all add: window_def)
    moreover have "[0..<12] = [0, 1, 2, 3, 4, 5, 6, 7, 8, 9, 10, 11 :: nat]" "[1..<11] = [1, 2, 3, 4, 5, 6, 7, 8, 9, 10 :: nat]"
      by (simp_all add: upt_rec)
    ultimately show ?thesis unfolding sector_sync_def by auto
  qed
  have offset: "raw ! 15 = 1 \<Longrightarrow> kui_data_offset raw = (if window raw 0 12 = sector_sync then Some 16 else None)"
    unfolding sync kui_data_offset_def by auto
  have m: "fad div 4500 < 160" using fad by (simp add: less_mult_imp_div_less)
  have s: "(fad div 75) mod 60 < 160" "fad mod 75 < 160" using less_trans [of _ 60] less_trans [of _ 75] by simp_all
  have address: "list_all (\<lambda>i. raw ! (12 + i) = of_nat ([fad div 4500, (fad div 75) mod 60, fad mod 75] ! i div 10 * 16
      + [fad div 4500, (fad div 75) mod 60, fad mod 75] ! i mod 10)) [0..<3] \<longleftrightarrow> address_ok raw fad"
    unfolding address_ok_def bcd_arith [OF m] bcd_arith [OF s(1)] bcd_arith [OF s(2)] by (simp add: upt_rec)
  have valid: "raw ! 15 = 1 \<Longrightarrow> kui_sector_edc_valid raw \<longleftrightarrow> window raw 0 12 = sector_sync \<and> get32 raw 2064 = kui_cd_edc (window raw 0 2064)"
    by (simp add: kui_sector_edc_valid_def offset)
  show ?thesis
    unfolding check_edc_zero kui_sector_edc_valid_at_def Let_def using fad valid address by auto
qed

theorem edc_checks_agree_witness:
  "clean_sector ! 15 = 1 \<and> kui_sector_edc_valid_at clean_sector 150 \<longleftrightarrow> check_edc clean_sector 150 = 0"
  by (rule edc_checks_agree) (simp_all add: clean_sector_def)

subsection \<open>Volumes, tracks and samples stay in bounds\<close>

lemma block_range_iff:
  "kui_block_range s c t \<longleftrightarrow> 0 < unat c \<and> unat s + unat c \<le> unat t"
proof -
  have "unat (t - s) = unat t - unat s" if "s < t" using that by (simp add: unat_sub order.strict_implies_order)
  moreover have "c \<noteq> 0 \<longleftrightarrow> 0 < unat c" by (simp add: unat_gt_0)
  ultimately show ?thesis unfolding kui_block_range_def by (auto simp: word_less_nat_alt word_le_nat_alt)
qed

definition volume_inside :: "kui_volume \<Rightarrow> nat \<Rightarrow> bool" where
  "volume_inside v blocks = (0 < vol_count v \<and> unat (vol_start v) + unat (vol_count v) \<le> blocks
     \<and> (partitioned v \<longleftrightarrow> vol_start v \<noteq> 0))"

lemma unat_ucast_up: "unat (ucast (x :: u32) :: u64) = unat x"
  by (simp add: unsigned_ucast_eq take_bit_nat_eq_self unsigned_less [THEN less_trans])

lemma scan_inside:
  "scan_partitions mbr blocks is found = Some (Some v) \<Longrightarrow> (\<And>w. found = Some w \<Longrightarrow> volume_inside w (unat blocks))
   \<Longrightarrow> volume_inside v (unat blocks)"
proof (induction mbr blocks "is" found rule: scan_partitions.induct)
  case (2 mbr blocks i "is" found)
  let ?p = "window mbr (446 + i * 16) 16"
  show ?case
  proof (cases "?p ! 4 = 0")
    case True
    then show ?thesis using 2 by (simp add: Let_def split: if_splits)
  next
    case False
    have ok: "get32 ?p 8 \<noteq> 0" "kui_block_range (ucast (get32 ?p 8)) (ucast (get32 ?p 12)) blocks"
      and rest: "scan_partitions mbr blocks is (Some \<lparr>vol_start = get32 ?p 8, vol_count = get32 ?p 12, partitioned = True\<rparr>) = Some (Some v)"
      and none: "found = None" "?p ! 0 = 0 \<or> ?p ! 0 = 0x80" "?p ! 4 = 0x0b \<or> ?p ! 4 = 0x0c \<or> ?p ! 4 = 0x07"
      using False 2(3) by (simp_all add: Let_def split: if_splits)
    have "volume_inside \<lparr>vol_start = get32 ?p 8, vol_count = get32 ?p 12, partitioned = True\<rparr> (unat blocks)"
      using ok unfolding block_range_iff volume_inside_def unat_ucast_up by (simp add: word_less_nat_alt)
    then show ?thesis using 2(2) [OF refl refl refl False] ok none rest by auto
  qed
qed simp

text \<open>
  C22.  Whatever the first sector of a card holds, the volume that \<open>kui_select_volume\<close> returns is not empty and
  lies inside the card, without wrap-around of the 32-bit start and length, and a partitioned volume never starts at
  the sector that holds the partition table.
\<close>

theorem select_volume_inside:
  "kui_select_volume mbr blocks = Some v \<Longrightarrow>
   0 < vol_count v \<and> unat (vol_start v) + unat (vol_count v) \<le> unat blocks \<and> (partitioned v \<longleftrightarrow> vol_start v \<noteq> 0)"
proof -
  assume sel: "kui_select_volume mbr blocks = Some v"
  have small: "unat blocks \<noteq> 0 \<and> unat blocks < 2 ^ 32"
    using sel by (auto simp: kui_select_volume_def word_le_nat_alt not_less unat_eq_zero split: if_splits)
  then have whole: "unat (ucast blocks :: u32) = unat blocks"
    by (simp add: unsigned_ucast_eq take_bit_nat_eq_self)
  have "volume_inside \<lparr>vol_start = 0, vol_count = ucast blocks, partitioned = False\<rparr> (unat blocks)"
    using small whole unfolding volume_inside_def by (simp add: word_less_nat_alt)
  moreover have "scan_partitions mbr blocks [0..<4] None = Some (Some v) \<Longrightarrow> volume_inside v (unat blocks)"
    using scan_inside [of mbr blocks "[0..<4]" None v] by blast
  ultimately have "volume_inside v (unat blocks)"
    using sel by (auto simp: kui_select_volume_def split: if_splits option.splits)
  then show ?thesis by (simp add: volume_inside_def)
qed

text \<open>A card of 100 sectors with one FAT32 partition at sector 10.\<close>

definition sample_mbr :: bytes where
  "sample_mbr = replicate 450 0 @ [0x0c, 0, 0, 0, 10, 0, 0, 0, 90, 0, 0, 0] @ replicate 48 0 @ [0x55, 0xaa]"

theorem select_volume_inside_witness:
  "kui_select_volume sample_mbr 100 = Some \<lparr>vol_start = 10, vol_count = 90, partitioned = True\<rparr>
   \<and> unat (10 :: u32) + unat (90 :: u32) \<le> unat (100 :: u64)"
proof -
  have "kui_select_volume sample_mbr 100 = Some \<lparr>vol_start = 10, vol_count = 90, partitioned = True\<rparr>"
    by (simp add: kui_select_volume_def sample_mbr_def fat32_name_def exfat_name_def window_def upt_rec Let_def nth_append
        get32_def kui_block_range_def)
  then show ?thesis using select_volume_inside [of sample_mbr 100] by auto
qed

text \<open>The tracks that a table of contents describes: numbered in order, each starting where the one before ends.\<close>

definition track_run :: "nat \<Rightarrow> nat \<Rightarrow> nat \<Rightarrow> kui_track list \<Rightarrow> bool" where
  "track_run lo hi stop ts =
     (map tr_number ts = [lo..<hi + 1]
      \<and> list_all (\<lambda>t. 150 \<le> tr_start t \<and> tr_start t < tr_end t \<and> tr_end t \<le> stop \<and> tr_control t < 16) ts
      \<and> list_all (\<lambda>i. tr_end (ts ! i) = (if i + 1 < length ts then tr_start (ts ! (i + 1)) else stop)) [0..<length ts])"

lemma toc_tracks_spec:
  "toc_tracks entries hi stop [lo..<hi + 1] = Some ts \<Longrightarrow> lo \<le> hi + 1 \<Longrightarrow>
   track_run lo hi stop ts \<and> (ts \<noteq> [] \<longrightarrow> tr_start (ts ! 0) = toc_fad (entries ! (lo - 1)))"
proof (induction "hi + 1 - lo" arbitrary: lo ts)
  case 0
  then show ?case by (simp add: track_run_def)
next
  case (Suc k)
  let ?w = "entries ! (lo - 1)" and ?next = "if lo = hi then stop else toc_fad (entries ! lo)"
  have lo: "lo \<le> hi" "[lo..<hi + 1] = lo # [Suc lo..<hi + 1]" using Suc(2) by (simp_all add: upt_rec)
  obtain us where us: "toc_tracks entries hi stop [Suc lo..<hi + 1] = Some us"
    and ts: "ts = \<lparr>tr_number = lo, tr_control = unat (drop_bit 28 ?w AND 15), tr_start = toc_fad ?w, tr_end = ?next\<rparr> # us"
    and ok: "150 \<le> toc_fad ?w" "toc_fad ?w < ?next" "?next \<le> stop"
    using Suc(3) unfolding lo(2) by (auto simp: Let_def not_less split: if_splits option.splits)
  have IH: "track_run (Suc lo) hi stop us" "us \<noteq> [] \<longrightarrow> tr_start (us ! 0) = toc_fad (entries ! lo)"
    using Suc(1) [of "Suc lo" us] Suc(2) us lo(1) by simp_all
  have len: "length us = hi - lo" using IH(1) unfolding track_run_def
    by (metis add.commute diff_Suc_Suc length_map length_upt plus_1_eq_Suc)
  have c: "unat (drop_bit 28 ?w AND 15) < 16"
    using word_and_le1 [of "drop_bit 28 ?w" 15] by (simp add: word_le_nat_alt order_le_less_trans)
  have "list_all (\<lambda>i. tr_end (ts ! i) = (if i + 1 < length ts then tr_start (ts ! (i + 1)) else stop)) [0..<length ts]"
  proof -
    have "tr_end (ts ! i) = (if i + 1 < length ts then tr_start (ts ! (i + 1)) else stop)" if "i < length ts" for i
    proof (cases i)
      case 0
      then show ?thesis using IH(2) len lo(1) by (cases us) (auto simp: ts)
    next
      case (Suc j)
      then show ?thesis using IH(1) that by (simp add: ts track_run_def list_all_iff)
    qed
    then show ?thesis by (simp add: list_all_iff)
  qed
  moreover have "map tr_number ts = [lo..<hi + 1]" using IH(1) unfolding lo(2) by (simp add: ts track_run_def)
  moreover have "list_all (\<lambda>t. 150 \<le> tr_start t \<and> tr_start t < tr_end t \<and> tr_end t \<le> stop \<and> tr_control t < 16) ts"
    using IH(1) ok c unfolding ts track_run_def by simp
  moreover have "tr_start (ts ! 0) = toc_fad ?w" by (simp add: ts)
  ultimately show ?case unfolding track_run_def by blast
qed

lemma sample_points_ok:
  assumes "tr_start t < tr_end t"
  shows "distinct (kui_sample_points t) \<and> kui_sample_points t \<noteq> [] \<and> kui_sample_points t ! 0 = tr_start t
    \<and> list_all (\<lambda>p. tr_start t \<le> p \<and> p < tr_end t) (kui_sample_points t)"
proof -
  define m where "m = tr_start t + (tr_end t - tr_start t - 1) div 2"
  define l where "l = (if tr_end t - tr_start t > 300 then tr_end t - 151 else tr_start t)"
  have "m < tr_end t" "tr_start t \<le> m" "l < tr_end t" "tr_start t \<le> l" using assms by (auto simp: m_def l_def)
  moreover have "kui_sample_points t = (let ps = (if m = tr_start t then [tr_start t] else [tr_start t, m])
      in if l \<in> set ps then ps else ps @ [l])"
    using assms unfolding kui_sample_points_def Let_def m_def [symmetric] l_def [symmetric] by (simp add: m_def l_def)
  ultimately show ?thesis using assms by (auto simp: Let_def)
qed

text \<open>
  A table of contents that \<open>kui_parse_toc\<close> accepts describes a gapless run of tracks: numbered from the first to the
  last track word, each non-empty and past the lead-in, each ending exactly where the next one starts, the
  last one at the lead-out; and the sample points of every such track are pairwise different sectors of that track, the first
  of them its first sector.
\<close>

theorem parse_toc_gapless:
  assumes "kui_parse_toc entries first_word last_word leadout = Some ts"
  shows "track_run (unat (drop_bit 16 first_word AND 255)) (unat (drop_bit 16 last_word AND 255)) (toc_fad leadout) ts
    \<and> ts \<noteq> [] \<and> length ts \<le> 99
    \<and> list_all (\<lambda>t. distinct (kui_sample_points t) \<and> kui_sample_points t \<noteq> [] \<and> kui_sample_points t ! 0 = tr_start t
        \<and> list_all (\<lambda>p. tr_start t \<le> p \<and> p < tr_end t) (kui_sample_points t)) ts"
proof -
  let ?lo = "unat (drop_bit 16 first_word AND 255)" and ?hi = "unat (drop_bit 16 last_word AND 255)"
  have b: "1 \<le> ?lo" "?hi \<le> 99" "?lo \<le> ?hi" and t: "toc_tracks entries ?hi (toc_fad leadout) [?lo..<?hi + 1] = Some ts"
    using assms by (auto simp: kui_parse_toc_def Let_def split: if_splits)
  have run: "track_run ?lo ?hi (toc_fad leadout) ts" using toc_tracks_spec [OF t] b by simp
  then have "length (map tr_number ts) = length [?lo..<?hi + 1]" unfolding track_run_def by argo
  then have "length ts = ?hi + 1 - ?lo" by (simp only: length_map length_upt)
  then have "ts \<noteq> [] \<and> length ts \<le> 99" using b unfolding length_greater_0_conv [symmetric] by linarith
  moreover have "distinct (kui_sample_points t) \<and> kui_sample_points t \<noteq> [] \<and> kui_sample_points t ! 0 = tr_start t
        \<and> list_all (\<lambda>p. tr_start t \<le> p \<and> p < tr_end t) (kui_sample_points t)" if "t \<in> set ts" for t
  proof -
    have "tr_start t < tr_end t" using run that by (auto simp: track_run_def list_all_iff)
    then show ?thesis by (rule sample_points_ok)
  qed
  ultimately show ?thesis using run by (simp add: list_all_iff)
qed

theorem parse_toc_gapless_witness:
  "kui_parse_toc ([0x41000096, 0x01000200] @ replicate 97 0xffffffff) 0x00010000 0x00020000 0x01001000
     = Some [\<lparr>tr_number = 1, tr_control = 4, tr_start = 150, tr_end = 512\<rparr>, \<lparr>tr_number = 2, tr_control = 0, tr_start = 512, tr_end = 4096\<rparr>]
   \<and> track_run 1 2 4096 [\<lparr>tr_number = 1, tr_control = 4, tr_start = 150, tr_end = 512\<rparr>, \<lparr>tr_number = 2, tr_control = 0, tr_start = 512, tr_end = 4096\<rparr>]"
proof -
  have "kui_parse_toc ([0x41000096, 0x01000200] @ replicate 97 0xffffffff) 0x00010000 0x00020000 0x01001000
     = Some [\<lparr>tr_number = 1, tr_control = 4, tr_start = 150, tr_end = 512\<rparr>, \<lparr>tr_number = 2, tr_control = 0, tr_start = 512, tr_end = 4096\<rparr>]"
    by (simp add: kui_parse_toc_def Let_def toc_fad_def upt_rec)
  from parse_toc_gapless [OF this] this show ?thesis by (simp add: toc_fad_def)
qed

end
