(* ===== verification/Gd_Service.thy ===== *)
theory Gd_Service
  imports Disc_Sectors
begin

text \<open>
  The GD-ROM system-call service of src/core/gd\_service.c: the request, execute and check protocol that a game
  drives through the firmware vector.  Guest memory is a function from P1 addresses to bytes; a pointer into it that the C code obtains
  from \<open>ops.map\<close> is the P1 address it stands for.  The three callbacks are the fields of \<open>gd_ops\<close>: which ranges
  the adapter maps, which sectors it can serve, and the read itself, which threads the adapter's own state
  and returns whether it succeeded with the bytes it has stored from the start of the output.
\<close>

unbundle bit_operations_syntax

type_synonym guest_memory = "u32 \<Rightarrow> u8"

definition mem_read :: "guest_memory \<Rightarrow> u32 \<Rightarrow> nat \<Rightarrow> bytes" where
  "mem_read m p n = map (\<lambda>i. m (p + of_nat i)) [0..<n]"

definition mem_write :: "guest_memory \<Rightarrow> u32 \<Rightarrow> bytes \<Rightarrow> guest_memory" where
  "mem_write m p bs = (\<lambda>a. if unat (a - p) < length bs then bs ! unat (a - p) else m a)"

definition mem_word :: "guest_memory \<Rightarrow> u32 \<Rightarrow> u32" where
  "mem_word m p = get32 (mem_read m p 4) 0"

subsection \<open>The service\<close>

record gd_track =
  gt_number :: u32
  gt_control :: u32
  start_lba :: u32
  end_lba :: u32

record 'd gd_ops =
  op_map :: "u32 \<Rightarrow> u32 \<Rightarrow> bool \<Rightarrow> bool"
  op_check :: "u32 \<Rightarrow> u32 \<Rightarrow> u32 \<Rightarrow> bool"
  op_read :: "'d \<Rightarrow> u32 \<Rightarrow> u32 \<Rightarrow> u32 \<Rightarrow> 'd \<times> bool \<times> bytes"

record gd_service =
  gd_tracks :: "gd_track list"
  guest_begin :: u32
  guest_end :: u32
  sector_part :: u32
  track_type :: u32
  sector_bytes :: u32
  token :: u32
  command :: u32
  lba :: u32
  count :: u32
  destination :: u32
  area :: u32
  request_bytes :: u32
  completed_bytes :: u32
  gd_error :: u32
  pending :: bool
  executing :: bool
  initialized :: bool
  status :: int

abbreviation (input) cmd_pioread :: u32 where "cmd_pioread \<equiv> 16"
abbreviation (input) cmd_dmaread :: u32 where "cmd_dmaread \<equiv> 17"
abbreviation (input) cmd_gettoc2 :: u32 where "cmd_gettoc2 \<equiv> 19"
abbreviation (input) cmd_init :: u32 where "cmd_init \<equiv> 24"
abbreviation (input) cmd_nop :: u32 where "cmd_nop \<equiv> 29"
abbreviation (input) cmd_stop :: u32 where "cmd_stop \<equiv> 33"

abbreviation (input) st_failed :: int where "st_failed \<equiv> -1"
abbreviation (input) st_not_found :: int where "st_not_found \<equiv> 0"
abbreviation (input) st_processing :: int where "st_processing \<equiv> 1"
abbreviation (input) st_completed :: int where "st_completed \<equiv> 2"

abbreviation (input) err_none :: u32 where "err_none \<equiv> 0"
abbreviation (input) err_io :: u32 where "err_io \<equiv> 1"
abbreviation (input) err_cancelled :: u32 where "err_cancelled \<equiv> 2"
abbreviation (input) err_memory :: u32 where "err_memory \<equiv> 3"

text \<open>\<open>guest\<close>: the P1 address of a range that lies in the guest interval and that the adapter maps.\<close>

definition guest :: "'d gd_ops \<Rightarrow> gd_service \<Rightarrow> u32 \<Rightarrow> u32 \<Rightarrow> u32 \<Rightarrow> bool \<Rightarrow> u32 option" where
  "guest ops s address n alignment writing =
     (let region = address AND 0xff000000; p1 = (address AND 0x00ffffff) OR 0x8c000000 in
      if region \<noteq> 0x0c000000 \<and> region \<noteq> 0x8c000000 \<and> region \<noteq> 0xac000000 then None
      else if n = 0 \<or> p1 AND (alignment - 1) \<noteq> 0 \<or> p1 < guest_begin s \<or> p1 \<ge> guest_end s \<or> n > guest_end s - p1 then None
      else if op_map ops p1 n writing then Some p1 else None)"

definition reset_state :: "gd_service \<Rightarrow> gd_service" where
  "reset_state s = s\<lparr>sector_part := 0x2000, track_type := 1024, sector_bytes := 2048, command := 0, pending := False,
     status := st_not_found, completed_bytes := 0, gd_error := err_none\<rparr>"

definition gd_track_ok :: "gd_track list \<Rightarrow> nat \<Rightarrow> bool" where
  "gd_track_ok tracks i =
     (let t = tracks ! i in
      \<not> (gt_number t \<noteq> of_nat (i + 1) \<or> (gt_control t \<noteq> 0 \<and> gt_control t \<noteq> 4) \<or> start_lba t \<ge> end_lba t \<or> end_lba t > 719850
         \<or> (start_lba t < 45000 \<and> end_lba t > 45000) \<or> (i \<noteq> 0 \<and> end_lba (tracks ! (i - 1)) > start_lba t)))"

definition kui_gd_service_init :: "gd_track list \<Rightarrow> u32 \<Rightarrow> u32 \<Rightarrow> gd_service option" where
  "kui_gd_service_init tracks gb ge =
     (if tracks = [] \<or> length tracks > 99 \<or> gb < 0x8c010000 \<or> ge > 0x8d000000 \<or> gb \<ge> ge \<or> gb AND 3 \<noteq> 0 \<or> ge AND 3 \<noteq> 0 then None
      else if \<not> list_all (gd_track_ok tracks) [0..<length tracks] then None
      else Some (reset_state
        \<lparr>gd_tracks = tracks, guest_begin = gb, guest_end = ge, sector_part = 0, track_type = 0, sector_bytes = 0,
         token = 0, command = 0, lba = 0, count = 0, destination = 0, area = 0, request_bytes = 0, completed_bytes = 0,
         gd_error = 0, pending = False, executing = False, initialized = True, status = 0\<rparr>))"

definition area_bounds :: "gd_service \<Rightarrow> u32 \<Rightarrow> (nat \<times> nat) option" where
  "area_bounds s a =
     (if a > 1 then None
      else case filter (\<lambda>i. (start_lba (gd_tracks s ! i) \<ge> 45000) = (a \<noteq> 0)) [0..<length (gd_tracks s)] of
        [] \<Rightarrow> None | i # is \<Rightarrow> Some (i, last (i # is)))"

text \<open>The request is accepted: a fresh token, and the transfer it describes.\<close>

definition submit :: "gd_service \<Rightarrow> u32 \<Rightarrow> u32 \<Rightarrow> u32 \<Rightarrow> u32 \<Rightarrow> u32 \<Rightarrow> u32 \<Rightarrow> gd_service \<times> int" where
  "submit s cmd l n dest n_bytes ar =
     (let tok = (if token s \<ge> 0x7fffffff then 1 else token s + 1)
      in (s\<lparr>token := tok, command := cmd, lba := l, count := n, destination := dest, area := ar, request_bytes := n_bytes,
            completed_bytes := 0, gd_error := err_none, status := st_processing, pending := True\<rparr>, sint tok))"

definition request :: "'d gd_ops \<Rightarrow> guest_memory \<Rightarrow> gd_service \<Rightarrow> u32 \<Rightarrow> u32 \<Rightarrow> gd_service \<times> int" where
  "request ops m s cmd parameters =
     (if pending s then (s, 0)
      else if cmd = cmd_pioread \<or> cmd = cmd_dmaread then
        (case guest ops s parameters 16 4 False of None \<Rightarrow> (s, 0)
         | Some p \<Rightarrow>
           (let fad = mem_word m p; n = mem_word m (p + 4); dest = mem_word m (p + 8) in
            if fad < 150 \<or> fad \<ge> 720000 \<or> n = 0 \<or> n > 64 \<or> mem_word m (p + 12) \<noteq> 0 then (s, 0)
            else let l = fad - 150; n_bytes = n * sector_bytes s in
              if n > 719850 - l \<or> guest ops s dest n_bytes (if cmd = cmd_dmaread then 32 else 2) True = None
                 \<or> \<not> op_check ops l n (sector_bytes s) then (s, 0)
              else submit s cmd l n dest n_bytes 0))
      else if cmd = cmd_gettoc2 then
        (case guest ops s parameters 8 4 False of None \<Rightarrow> (s, 0)
         | Some p \<Rightarrow>
           (let ar = mem_word m p; dest = mem_word m (p + 4) in
            if area_bounds s ar = None \<or> guest ops s dest 408 4 True = None then (s, 0)
            else submit s cmd 0 0 dest 408 ar))
      else if cmd \<noteq> cmd_init \<and> cmd \<noteq> cmd_nop \<and> cmd \<noteq> cmd_stop then (s, 0)
      else submit s cmd 0 0 0 0 0)"

definition track_word :: "gd_track \<Rightarrow> u32 \<Rightarrow> u32" where
  "track_word t v = push_bit 28 (gt_control t) OR push_bit 24 1 OR v"

definition toc_image :: "gd_service \<Rightarrow> nat \<Rightarrow> nat \<Rightarrow> bytes" where
  "toc_image s i j =
     (let out = fold (\<lambda>k b. patch b (unat ((gt_number (gd_tracks s ! k) - 1) * 4))
                          (put32 (track_word (gd_tracks s ! k) (start_lba (gd_tracks s ! k) + 150))))
              [i..<j + 1] (replicate 408 0xff);
          f = gd_tracks s ! i; l = gd_tracks s ! j;
          out = patch out 396 (put32 (track_word f (push_bit 16 (gt_number f))));
          out = patch out 400 (put32 (track_word l (push_bit 16 (gt_number l))))
      in patch out 404 (put32 (track_word l (end_lba l + 150))))"

definition fill_toc :: "gd_service \<Rightarrow> guest_memory \<Rightarrow> u32 \<Rightarrow> guest_memory" where
  "fill_toc s m p = (case area_bounds s (area s) of None \<Rightarrow> m | Some (i, j) \<Rightarrow> mem_write m p (toc_image s i j))"

definition transfer_alignment :: "gd_service \<Rightarrow> u32" where
  "transfer_alignment s = (if command s = cmd_dmaread then 32 else if command s = cmd_gettoc2 then 4 else 2)"

text \<open>
  A transfer with no mapped output cannot reach the read: \<open>out\<close> is missing only when the transfer is empty, which
  the submission of a read or of a table of contents excludes.
\<close>

definition execute :: "'d gd_ops \<Rightarrow> 'd \<Rightarrow> guest_memory \<Rightarrow> gd_service \<Rightarrow> 'd \<times> guest_memory \<times> gd_service \<times> int" where
  "execute ops d m s =
     (if \<not> pending s then (d, m, s, 0)
      else let out = (if request_bytes s \<noteq> 0 then guest ops s (destination s) (request_bytes s) (transfer_alignment s) True else None);
               s = (if request_bytes s \<noteq> 0 \<and> out = None then s\<lparr>gd_error := err_memory\<rparr> else s);
               (d, m, s) =
                 (if gd_error s \<noteq> 0 then (d, m, s)
                  else if command s = cmd_pioread \<or> command s = cmd_dmaread then
                    (case op_read ops d (lba s) (count s) (sector_bytes s) of (d', ok, data) \<Rightarrow>
                      (d', (case out of None \<Rightarrow> m | Some p \<Rightarrow> mem_write m p data), if ok then s else s\<lparr>gd_error := err_io\<rparr>))
                  else if command s = cmd_gettoc2 then (d, (case out of None \<Rightarrow> m | Some p \<Rightarrow> fill_toc s m p), s)
                  else if command s = cmd_init then (d, m, s\<lparr>sector_part := 0x2000, track_type := 1024, sector_bytes := 2048\<rparr>)
                  else (d, m, s))
           in (d, m, s\<lparr>completed_bytes := (if gd_error s \<noteq> 0 then 0 else request_bytes s),
                        status := (if gd_error s \<noteq> 0 then st_failed else st_completed), pending := False, executing := False\<rparr>, 0))"

definition check :: "'d gd_ops \<Rightarrow> guest_memory \<Rightarrow> gd_service \<Rightarrow> u32 \<Rightarrow> u32 \<Rightarrow> guest_memory \<times> int" where
  "check ops m s tok address =
     (case guest ops s address 16 4 True of None \<Rightarrow> (m, st_failed)
      | Some p \<Rightarrow>
        if tok = 0 \<or> tok \<noteq> token s \<or> command s = 0 then (mem_write m p (replicate 16 0), st_not_found)
        else (mem_write m p (put32 (if gd_error s \<noteq> 0 then 1 else 0) @ put32 (gd_error s) @ put32 (completed_bytes s)
                @ put32 (if pending s then 4 else 0)), status s))"

definition datatype_call :: "'d gd_ops \<Rightarrow> guest_memory \<Rightarrow> gd_service \<Rightarrow> u32 \<Rightarrow> guest_memory \<times> gd_service \<times> int" where
  "datatype_call ops m s address =
     (if pending s then (m, s, -1)
      else case guest ops s address 16 4 False of None \<Rightarrow> (m, s, -1)
      | Some p \<Rightarrow>
        (let rw = mem_word m p; part = mem_word m (p + 4); ty = mem_word m (p + 8); n_bytes = mem_word m (p + 12) in
         if rw = 1 then
           (case guest ops s address 16 4 True of None \<Rightarrow> (m, s, -1)
            | Some p \<Rightarrow> (mem_write m (p + 4) (put32 (sector_part s) @ put32 (track_type s) @ put32 (sector_bytes s)), s, 0))
         else if rw \<noteq> 0 \<or> \<not> ((part = 0x2000 \<and> ty = 1024 \<and> n_bytes = 2048) \<or> (part = 0x1000 \<and> ty = 0 \<and> n_bytes = 2352))
         then (m, s, -1)
         else (m, s\<lparr>sector_part := part, track_type := ty, sector_bytes := n_bytes\<rparr>, 0)))"

definition kui_gd_service_dispatch ::
    "'d gd_ops \<Rightarrow> 'd \<Rightarrow> guest_memory \<Rightarrow> gd_service \<Rightarrow> u32 \<Rightarrow> u32 \<Rightarrow> u32 \<Rightarrow> u32 \<Rightarrow> 'd \<times> guest_memory \<times> gd_service \<times> int" where
  "kui_gd_service_dispatch ops d m s r4 r5 r6 r7 =
     (if \<not> initialized s \<or> r6 \<noteq> 0 then (d, m, s, -1)
      else if executing s then (d, m, s, if r7 = 0 then 0 else if r7 = 1 then 4 else -1)
      else if r7 = 0 then (case request ops m s r4 r5 of (s, r) \<Rightarrow> (d, m, s, r))
      else if r7 = 1 then (case check ops m s r4 r5 of (m, r) \<Rightarrow> (d, m, s, r))
      else if r7 = 2 then execute ops d m s
      else if r7 = 3 \<or> r7 = 9 then (d, m, reset_state s, 0)
      else if r7 = 4 then
        (case guest ops s r4 8 4 True of None \<Rightarrow> (d, m, s, -1)
         | Some p \<Rightarrow> (d, mem_write m p (put32 (if pending s then 0 else 1) @ put32 0x80), s, 0))
      else if r7 = 8 then
        (if r4 = 0 \<or> \<not> pending s \<or> r4 \<noteq> token s then (d, m, s, -1)
         else (d, m, s\<lparr>pending := False, status := st_failed, gd_error := err_cancelled, completed_bytes := 0\<rparr>, 0))
      else if r7 = 10 then (case datatype_call ops m s r4 of (m, s, r) \<Rightarrow> (d, m, s, r))
      else (d, m, s, -1))"

subsection \<open>Guest memory\<close>

text \<open>The contract of the read callback: it stores at most the requested bytes, and all of them when it succeeds.\<close>

definition adapter_ok :: "'d gd_ops \<Rightarrow> bool" where
  "adapter_ok ops = (\<forall>d l n b. case op_read ops d l n b of (d', ok, data) \<Rightarrow>
     length data \<le> unat (n * b) \<and> (ok \<longrightarrow> length data = unat (n * b)))"

definition outside_same :: "gd_service \<Rightarrow> guest_memory \<Rightarrow> guest_memory \<Rightarrow> bool" where
  "outside_same s m m' = (\<forall>a. a < guest_begin s \<or> guest_end s \<le> a \<longrightarrow> m' a = m a)"

lemma outside_same_refl [simp]: "outside_same s m m"
  by (simp add: outside_same_def)

lemma guest_range:
  assumes "guest ops s a n al w = Some p"
  shows "n \<noteq> 0" "guest_begin s \<le> p" "unat p + unat n \<le> unat (guest_end s)" "op_map ops p n w"
proof -
  have g: "n \<noteq> 0 \<and> \<not> p < guest_begin s \<and> \<not> p \<ge> guest_end s \<and> \<not> n > guest_end s - p \<and> op_map ops p n w"
    using assms by (auto simp: guest_def Let_def split: if_splits)
  then show "n \<noteq> 0" "guest_begin s \<le> p" "op_map ops p n w" by auto
  have "unat (guest_end s - p) = unat (guest_end s) - unat p" using g by (intro unat_sub) auto
  then show "unat p + unat n \<le> unat (guest_end s)" using g by (auto simp: word_le_nat_alt word_less_nat_alt)
qed

lemma offset_nat:
  fixes a p :: u32
  assumes "unat (a - p) < k" "unat p + k \<le> 2 ^ 32"
  shows "unat a = unat p + unat (a - p)"
proof -
  have "a = p + (a - p)" by simp
  then have "unat a = unat (p + (a - p))" by simp
  also have "\<dots> = unat p + unat (a - p)" by (rule unat_add_lem [THEN iffD1]) (use assms in simp)
  finally show ?thesis .
qed

lemma outside_write:
  assumes "guest ops s a n al w = Some p" and "k + length bs \<le> unat n"
  shows "outside_same s m (mem_write m (p + of_nat k) bs)"
  unfolding outside_same_def
proof (intro allI impI)
  fix x assume x: "x < guest_begin s \<or> guest_end s \<le> x"
  note g = guest_range [OF assms(1)]
  have top: "unat p + unat n \<le> 2 ^ 32" using g(3) unsigned_less [of "guest_end s", where ?'a = nat] by simp
  show "mem_write m (p + of_nat k) bs x = m x"
  proof (cases "unat (x - (p + of_nat k)) < length bs")
    case True
    have "k < 2 ^ 32" using assms(2) True unsigned_less [of n, where ?'a = nat] by simp
    then have k: "unat (of_nat k :: u32) = k" by (simp add: unat_of_nat)
    have pk: "unat (p + of_nat k) = unat p + k"
      using unat_add_lem [of p "of_nat k"] k top assms(2) True by simp
    have "unat x = unat p + k + unat (x - (p + of_nat k))"
      using offset_nat [OF True] pk top assms(2) by simp
    then have "unat p \<le> unat x \<and> unat x < unat (guest_end s)" using True assms(2) g(3) by linarith
    then show ?thesis using x g(2) by (auto simp: word_le_nat_alt word_less_nat_alt)
  qed (simp add: mem_write_def)
qed

lemmas outside_write_0 = outside_write [where k = 0, simplified]

lemma length_toc_patches: "list_all (\<lambda>k. f k + 4 \<le> n) ks \<Longrightarrow> length b = n \<Longrightarrow>
   length (fold (\<lambda>k b. patch b (f k) (put32 (g k))) ks b) = n"
  by (induction ks arbitrary: b) (simp_all add: length_patch)

subsection \<open>The life of a request\<close>

definition mode_ok :: "gd_service \<Rightarrow> bool" where
  "mode_ok s = ((sector_part s = 0x2000 \<and> track_type s = 1024 \<and> sector_bytes s = 2048)
     \<or> (sector_part s = 0x1000 \<and> track_type s = 0 \<and> sector_bytes s = 2352))"

definition transfer_ok :: "gd_service \<Rightarrow> bool" where
  "transfer_ok s =
     (if command s = cmd_pioread \<or> command s = cmd_dmaread
      then 0 < count s \<and> count s \<le> 64 \<and> unat (lba s) + unat (count s) \<le> 719850 \<and> request_bytes s = count s * sector_bytes s
      else if command s = cmd_gettoc2 then request_bytes s = 408 \<and> area_bounds s (area s) \<noteq> None
      else (command s = cmd_init \<or> command s = cmd_nop \<or> command s = cmd_stop) \<and> request_bytes s = 0)"

definition life_ok :: "gd_service \<Rightarrow> bool" where
  "life_ok s =
     (if pending s then token s \<noteq> 0 \<and> status s = st_processing \<and> gd_error s = 0 \<and> completed_bytes s = 0 \<and> transfer_ok s
      else if command s = 0 then status s = st_not_found \<and> gd_error s = 0 \<and> completed_bytes s = 0
      else if gd_error s = 0 then status s = st_completed \<and> completed_bytes s = request_bytes s
      else status s = st_failed \<and> completed_bytes s = 0)"

definition disc_ok :: "gd_service \<Rightarrow> bool" where
  "disc_ok s = (gd_tracks s \<noteq> [] \<and> length (gd_tracks s) \<le> 99 \<and> list_all (gd_track_ok (gd_tracks s)) [0..<length (gd_tracks s)])"

definition gd_inv :: "gd_service \<Rightarrow> bool" where
  "gd_inv s = (initialized s \<and> \<not> executing s \<and> 0x8c010000 \<le> guest_begin s \<and> guest_begin s < guest_end s \<and> guest_end s \<le> 0x8d000000
     \<and> token s \<le> 0x7fffffff \<and> disc_ok s \<and> mode_ok s \<and> life_ok s)"

lemmas gd_inv_defs = gd_inv_def disc_ok_def mode_ok_def life_ok_def

lemma reset_inv: "initialized s \<and> \<not> executing s \<and> 0x8c010000 \<le> guest_begin s \<and> guest_begin s < guest_end s \<and> guest_end s \<le> 0x8d000000
     \<and> token s \<le> 0x7fffffff \<and> disc_ok s \<Longrightarrow> gd_inv (reset_state s)"
  by (simp add: reset_state_def gd_inv_defs)

lemma init_inv: "kui_gd_service_init tracks gb ge = Some s \<Longrightarrow> gd_inv s"
  unfolding kui_gd_service_init_def by (auto simp: disc_ok_def split: if_splits intro!: reset_inv)

lemma area_bounds_cong: "gd_tracks s = gd_tracks s' \<Longrightarrow> area_bounds s = area_bounds s'"
  by (rule ext) (simp add: area_bounds_def)

definition fresh_token :: "u32 \<Rightarrow> u32" where
  "fresh_token t = (if t \<ge> 0x7fffffff then 1 else t + 1)"

lemma fresh_token_range: "fresh_token t \<noteq> 0 \<and> fresh_token t \<le> 0x7fffffff"
proof (cases "t \<ge> 0x7fffffff")
  case False
  then have "unat t < 0x7fffffff" by (simp add: word_le_nat_alt)
  moreover from this have "unat (t + 1) = unat t + 1" using unat_add_lem [of t 1] by simp
  moreover from this have "t + 1 \<noteq> 0" by (metis add_is_0 one_neq_zero unat_0)
  ultimately show ?thesis using False by (simp add: fresh_token_def word_less_nat_alt word_le_nat_alt)
qed (simp add: fresh_token_def)

lemma submit_eq: "submit s cmd l n dest n_bytes ar =
   (s\<lparr>token := fresh_token (token s), command := cmd, lba := l, count := n, destination := dest, area := ar, request_bytes := n_bytes,
      completed_bytes := 0, gd_error := 0, status := st_processing, pending := True\<rparr>, sint (fresh_token (token s)))"
  by (simp add: submit_def fresh_token_def Let_def)

text \<open>Every accepted request is a submission of a transfer that stays valid until it is executed.\<close>

lemma fad_range:
  fixes f n :: u32
  assumes "\<not> f < 150" "\<not> f \<ge> 720000" "\<not> n > 719850 - (f - 150)"
  shows "unat (f - 150) + unat n \<le> 719850"
proof -
  have f: "150 \<le> unat f" "unat f < 720000" using assms by (auto simp: word_le_nat_alt word_less_nat_alt not_less not_le)
  have "unat (f - 150) = unat f - 150" using assms(1) by (subst unat_sub) auto
  moreover have "719850 - (f - 150) = 720000 - f" by simp
  moreover have "unat (720000 - f) = 720000 - unat f" using assms(2) by (subst unat_sub) auto
  ultimately show ?thesis using f assms(3) by (auto simp: word_less_nat_alt not_less)
qed

lemma request_cases:
  assumes "request ops m s cmd parameters = (s', r)"
  obtains "s' = s" "r = 0"
  | l n dest nb ar where "(s', r) = submit s cmd l n dest nb ar" "\<not> pending s" "mode_ok s \<Longrightarrow> transfer_ok s'"
    "nb \<noteq> 0 \<Longrightarrow> guest ops s dest nb (transfer_alignment s') True \<noteq> None"
proof -
  note kept = that(1) and taken = that(2)
  have t: thesis if sub: "(s', r) = submit s cmd l n dest nb ar" and np: "\<not> pending s"
    and ok: "(cmd = cmd_pioread \<or> cmd = cmd_dmaread) \<and> 0 < n \<and> n \<le> 64 \<and> unat l + unat n \<le> 719850 \<and> nb = n * sector_bytes s
      \<and> guest ops s dest nb (if cmd = cmd_dmaread then 32 else 2) True \<noteq> None
      \<or> cmd = cmd_gettoc2 \<and> nb = 408 \<and> area_bounds s ar \<noteq> None \<and> guest ops s dest nb 4 True \<noteq> None
      \<or> (cmd = cmd_init \<or> cmd = cmd_nop \<or> cmd = cmd_stop) \<and> nb = 0" for l n dest nb ar
  proof (rule taken [OF sub np])
    have s': "s' = fst (submit s cmd l n dest nb ar)" using sub by (metis fst_conv)
    have ab: "area_bounds s' = area_bounds s" by (rule area_bounds_cong) (simp add: s' submit_eq)
    show "transfer_ok s'" using ok unfolding transfer_ok_def ab by (auto simp: s' submit_eq)
    show "nb \<noteq> 0 \<Longrightarrow> guest ops s dest nb (transfer_alignment s') True \<noteq> None"
      using ok by (auto simp: s' submit_eq transfer_alignment_def)
  qed
  show thesis
  proof (cases "pending s")
    case True
    then show ?thesis using assms kept by (simp add: request_def)
  next
    case np: False
    consider (rd) "cmd = cmd_pioread \<or> cmd = cmd_dmaread" | (toc) "cmd = cmd_gettoc2"
      | (oth) "\<not> (cmd = cmd_pioread \<or> cmd = cmd_dmaread)" "cmd \<noteq> cmd_gettoc2" by blast
    then show ?thesis
    proof cases
      case rd
      show ?thesis
      proof (cases "guest ops s parameters 16 4 False")
        case None
        then show ?thesis using assms np rd kept by (simp add: request_def)
      next
        case (Some p)
        let ?fad = "mem_word m p" and ?n = "mem_word m (p + 4)" and ?dest = "mem_word m (p + 8)"
        let ?bad = "?fad < 150 \<or> ?fad \<ge> 720000 \<or> ?n = 0 \<or> ?n > 64 \<or> mem_word m (p + 12) \<noteq> 0"
        let ?bad2 = "?n > 719850 - (?fad - 150) \<or> guest ops s ?dest (?n * sector_bytes s) (if cmd = cmd_dmaread then 32 else 2) True = None
                 \<or> \<not> op_check ops (?fad - 150) ?n (sector_bytes s)"
        have eq: "(s', r) = (if ?bad then (s, 0) else if ?bad2 then (s, 0) else submit s cmd (?fad - 150) ?n ?dest (?n * sector_bytes s) 0)"
          unfolding assms [symmetric] request_def Let_def by (simp only: np rd Some if_False if_True option.case)
        show ?thesis
        proof (cases "?bad \<or> ?bad2")
          case True
          then show ?thesis using eq kept by (auto split: if_splits)
        next
          case False
          then have nb: "\<not> ?bad" and nb2: "\<not> ?bad2" by blast+
          have sub: "(s', r) = submit s cmd (?fad - 150) ?n ?dest (?n * sector_bytes s) 0"
            using eq unfolding if_not_P [OF nb] if_not_P [OF nb2] .
          have "unat (?fad - 150) + unat ?n \<le> 719850" by (rule fad_range) (use False in blast)+
          moreover have "0 < ?n" "?n \<le> 64" using nb by (auto simp: word_less_nat_alt word_le_nat_alt unat_gt_0)
          ultimately show ?thesis using nb2 rd by (intro t [OF sub np]) blast
        qed
      qed
    next
      case toc
      have c: "(cmd = cmd_pioread \<or> cmd = cmd_dmaread) = False" using toc by simp
      show ?thesis
      proof (cases "guest ops s parameters 8 4 False")
        case None
        then show ?thesis using assms np toc kept by (simp add: request_def)
      next
        case (Some p)
        let ?bad = "area_bounds s (mem_word m p) = None \<or> guest ops s (mem_word m (p + 4)) 408 4 True = None"
        have eq: "(s', r) = (if ?bad then (s, 0) else submit s cmd 0 0 (mem_word m (p + 4)) 408 (mem_word m p))"
          unfolding assms [symmetric] request_def Let_def
          by (simp only: np c eqTrueI [OF toc] Some if_False if_True option.case)
        show ?thesis
        proof (cases ?bad)
          case False
          have "(s', r) = submit s cmd 0 0 (mem_word m (p + 4)) 408 (mem_word m p)" using eq unfolding if_not_P [OF False] .
          then show ?thesis by (rule t [OF _ np]) (use False toc in simp)
        qed (use eq kept in auto)
      qed
    next
      case oth
      have eq: "(s', r) = (if cmd \<noteq> cmd_init \<and> cmd \<noteq> cmd_nop \<and> cmd \<noteq> cmd_stop then (s, 0) else submit s cmd 0 0 0 0 0)"
        using assms np oth by (simp add: request_def)
      show ?thesis
      proof (cases "cmd = cmd_init \<or> cmd = cmd_nop \<or> cmd = cmd_stop")
        case True
        then have "(s', r) = submit s cmd 0 0 0 0 0" using eq by auto
        then show ?thesis by (rule t [OF _ np]) (use True in blast)
      qed (use eq kept in auto)
    qed
  qed
qed

lemma request_inv:
  assumes "request ops m s cmd parameters = (s', r)" "gd_inv s"
  shows "gd_inv s'"
  using assms(1)
proof (cases rule: request_cases)
  case (2 l n dest nb ar)
  have s': "s' = fst (submit s cmd l n dest nb ar)" using 2(1) by (metis fst_conv)
  have "transfer_ok s'" using 2 assms(2) by (simp add: gd_inv_def)
  then show ?thesis using assms(2) fresh_token_range [of "token s"] unfolding gd_inv_defs by (simp add: s' submit_eq)
qed (use assms in simp)

lemma transfer_bytes:
  assumes "0 < n" "n \<le> 64" "b = 2048 \<or> b = 2352"
  shows "unat (n * b) = unat n * unat b" "n * b \<noteq> (0 :: u32)"
proof -
  have n: "0 < unat n" "unat n \<le> 64" using assms by (auto simp: word_less_nat_alt word_le_nat_alt)
  then have "unat n * unat b < 2 ^ 32" using assms(3) by auto
  then show m: "unat (n * b) = unat n * unat b" using unat_mult_lem [of n b] by simp
  have "unat n * unat b \<noteq> 0" using n assms(3) by auto
  then show "n * b \<noteq> 0" using m by (metis unat_0)
qed

text \<open>The outcome of an executed request.\<close>

lemma execute_cases:
  assumes "execute ops d m s = (d', m', s', r)" "gd_inv s"
  obtains (idle) "\<not> pending s" "d' = d" "m' = m" "s' = s" "r = 0"
  | (unmapped) "pending s" "r = 0" "request_bytes s \<noteq> 0" "guest ops s (destination s) (request_bytes s) (transfer_alignment s) True = None"
      "d' = d" "m' = m" "s' = s\<lparr>gd_error := err_memory, completed_bytes := 0, status := st_failed, pending := False, executing := False\<rparr>"
  | (sectors) p ok data where "pending s" "r = 0" "command s = cmd_pioread \<or> command s = cmd_dmaread"
      "guest ops s (destination s) (request_bytes s) (transfer_alignment s) True = Some p"
      "op_read ops d (lba s) (count s) (sector_bytes s) = (d', ok, data)" "m' = mem_write m p data"
      "s' = s\<lparr>gd_error := (if ok then 0 else err_io), completed_bytes := (if ok then request_bytes s else 0),
        status := (if ok then st_completed else st_failed), pending := False, executing := False\<rparr>"
  | (contents) p where "pending s" "r = 0" "command s = cmd_gettoc2" "d' = d" "m' = fill_toc s m p"
      "guest ops s (destination s) 408 4 True = Some p"
      "s' = s\<lparr>completed_bytes := 408, status := st_completed, pending := False, executing := False\<rparr>"
  | (control) "pending s" "r = 0" "command s \<in> {cmd_init, cmd_nop, cmd_stop}" "d' = d" "m' = m"
      "s' = (if command s = cmd_init then s\<lparr>sector_part := 0x2000, track_type := 1024, sector_bytes := 2048,
          completed_bytes := 0, status := st_completed, pending := False, executing := False\<rparr>
        else s\<lparr>completed_bytes := 0, status := st_completed, pending := False, executing := False\<rparr>)"
proof (cases "pending s")
  case False
  show ?thesis by (rule idle [OF False]) (use assms(1) False in \<open>simp_all add: execute_def\<close>)
next
  case True
  have inv: "gd_error s = 0" "transfer_ok s" "\<not> executing s" using assms(2) True by (simp_all add: gd_inv_def life_ok_def)
  show ?thesis
  proof (cases "request_bytes s = 0")
    case zero: True
    have c: "command s \<in> {cmd_init, cmd_nop, cmd_stop}"
      using inv(2) zero assms(2) transfer_bytes(2) [of "count s" "sector_bytes s"]
      by (auto simp: transfer_ok_def gd_inv_def mode_ok_def split: if_splits)
    show ?thesis
      by (rule control [OF True _ c]) (use assms(1) True inv zero c in \<open>auto simp: execute_def\<close>)
  next
    case nz: False
    show ?thesis
    proof (cases "guest ops s (destination s) (request_bytes s) (transfer_alignment s) True")
      case None
      show ?thesis
        by (rule unmapped [OF True _ nz None]) (use assms(1) True None nz in \<open>simp_all add: execute_def\<close>)
    next
      case (Some p)
      consider (rd) "command s = cmd_pioread \<or> command s = cmd_dmaread" | (toc) "command s = cmd_gettoc2" "request_bytes s = 408"
        using inv(2) nz by (auto simp: transfer_ok_def split: if_splits)
      then show ?thesis
      proof cases
        case rd
        obtain d1 ok data where r: "op_read ops d (lba s) (count s) (sector_bytes s) = (d1, ok, data)" by (metis prod_cases3)
        have e: "(d', m', s', r) = (d1, mem_write m p data, s\<lparr>gd_error := (if ok then 0 else err_io),
            completed_bytes := (if ok then request_bytes s else 0), status := (if ok then st_completed else st_failed), pending := False, executing := False\<rparr>, 0)"
          unfolding assms(1) [symmetric] using True inv rd r Some nz by (cases ok) (simp_all add: execute_def Let_def)
        show ?thesis by (rule sectors [OF True _ rd Some, of ok data]) (use e r in auto)
      next
        case toc
        have e: "(d', m', s', r) = (d, fill_toc s m p, s\<lparr>completed_bytes := 408, status := st_completed, pending := False, executing := False\<rparr>, 0)"
          unfolding assms(1) [symmetric] using True inv toc Some nz by (simp add: execute_def Let_def)
        show ?thesis by (rule contents [OF True _ toc(1)]) (use e Some toc in \<open>auto simp: transfer_alignment_def\<close>)
      qed
    qed
  qed
qed

lemma execute_inv:
  assumes "execute ops d m s = (d', m', s', r)" "gd_inv s"
  shows "gd_inv s'"
  using assms
proof (cases rule: execute_cases)
  case (sectors p ok data)
  then show ?thesis using assms(2) unfolding gd_inv_defs by (cases ok) auto
next
  case (contents p)
  have "request_bytes s = 408" using contents assms(2) by (simp add: gd_inv_def life_ok_def transfer_ok_def)
  then show ?thesis using assms(2) contents unfolding gd_inv_defs by auto
next
  case control
  have "request_bytes s = 0" using control assms(2) by (auto simp: gd_inv_def life_ok_def transfer_ok_def)
  then show ?thesis using assms(2) control unfolding gd_inv_defs by auto
next
  case unmapped
  have "command s \<noteq> 0" using unmapped assms(2) by (auto simp: gd_inv_def life_ok_def transfer_ok_def)
  then show ?thesis using assms(2) unmapped unfolding gd_inv_defs by auto
qed (use assms in simp)

lemma datatype_cases:
  assumes "datatype_call ops m s address = (m', s', r)"
  obtains "m' = m" "s' = s"
  | p where "guest ops s address 16 4 True = Some p" "s' = s" "r = 0"
      "m' = mem_write m (p + 4) (put32 (sector_part s) @ put32 (track_type s) @ put32 (sector_bytes s))"
  | part ty nb where "\<not> pending s" "m' = m" "s' = s\<lparr>sector_part := part, track_type := ty, sector_bytes := nb\<rparr>"
      "(part = 0x2000 \<and> ty = 1024 \<and> nb = 2048) \<or> (part = 0x1000 \<and> ty = 0 \<and> nb = 2352)"
proof -
  note same = that(1) and report = that(2) and set = that(3)
  show thesis
  proof (cases "pending s \<or> guest ops s address 16 4 False = None")
    case True
    show ?thesis by (rule same) (use True assms in \<open>auto simp: datatype_call_def split: option.splits\<close>)
  next
    case False
    then obtain p where p: "guest ops s address 16 4 False = Some p" and np: "\<not> pending s" by auto
    let ?rw = "mem_word m p" and ?part = "mem_word m (p + 4)" and ?ty = "mem_word m (p + 8)" and ?nb = "mem_word m (p + 12)"
    let ?ok = "(?part = 0x2000 \<and> ?ty = 1024 \<and> ?nb = 2048) \<or> (?part = 0x1000 \<and> ?ty = 0 \<and> ?nb = 2352)"
    have eq: "(m', s', r) = (if ?rw = 1 then (case guest ops s address 16 4 True of None \<Rightarrow> (m, s, -1)
            | Some p \<Rightarrow> (mem_write m (p + 4) (put32 (sector_part s) @ put32 (track_type s) @ put32 (sector_bytes s)), s, 0))
         else if ?rw \<noteq> 0 \<or> \<not> ?ok then (m, s, -1)
         else (m, s\<lparr>sector_part := ?part, track_type := ?ty, sector_bytes := ?nb\<rparr>, 0))"
      unfolding assms [symmetric] datatype_call_def Let_def by (simp only: np p if_False option.case)
    show ?thesis
    proof (cases "?rw = 1")
      case True
      then have e: "(m', s', r) = (case guest ops s address 16 4 True of None \<Rightarrow> (m, s, -1)
            | Some p \<Rightarrow> (mem_write m (p + 4) (put32 (sector_part s) @ put32 (track_type s) @ put32 (sector_bytes s)), s, 0))"
        using eq by simp
      then show ?thesis using same report by (cases "guest ops s address 16 4 True") auto
    next
      case rw: False
      show ?thesis
      proof (cases "?rw \<noteq> 0 \<or> \<not> ?ok")
        case True
        have "(m', s', r) = (m, s, -1)" using eq unfolding if_not_P [OF rw] if_P [OF True] .
        then show ?thesis using same by blast
      next
        case False
        have "(m', s', r) = (m, s\<lparr>sector_part := ?part, track_type := ?ty, sector_bytes := ?nb\<rparr>, 0)"
          using eq unfolding if_not_P [OF rw] if_not_P [OF False] .
        then show ?thesis using set np False by blast
      qed
    qed
  qed
qed

lemma dispatch_inv:
  assumes "kui_gd_service_dispatch ops d m s r4 r5 r6 r7 = (d', m', s', r)" "gd_inv s"
  shows "gd_inv s'"
proof -
  have same: "gd_inv s" by (rule assms)
  have reset: "gd_inv (reset_state s)" by (rule reset_inv) (use assms(2) in \<open>simp add: gd_inv_def\<close>)
  have abort: "gd_inv (s\<lparr>pending := False, status := st_failed, gd_error := err_cancelled, completed_bytes := 0\<rparr>)" if "pending s"
  proof -
    have "command s \<noteq> 0" using that assms(2) by (auto simp: gd_inv_def life_ok_def transfer_ok_def)
    then show ?thesis using assms(2) unfolding gd_inv_defs by simp
  qed
  have data: "gd_inv s1" if "datatype_call ops m s r4 = (m1, s1, r1)" for m1 s1 r1
    using that
  proof (cases rule: datatype_cases)
    case (3 part ty nb)
    then show ?thesis using assms(2) unfolding gd_inv_defs by auto
  qed (use same in auto)
  show ?thesis
    using assms(1) same reset abort data request_inv [OF _ same] execute_inv [OF _ same]
    unfolding kui_gd_service_dispatch_def by (auto split: if_splits prod.splits option.splits)
qed

lemma track_slot:
  assumes "disc_ok s" "k < length (gd_tracks s)"
  shows "unat ((gt_number (gd_tracks s ! k) - 1) * 4) = 4 * k"
proof -
  have k: "k < 99" "gt_number (gd_tracks s ! k) = of_nat (k + 1)"
    using assms by (auto simp: disc_ok_def list_all_iff gd_track_ok_def Let_def)
  then have "(gt_number (gd_tracks s ! k) - 1) * 4 = of_nat (k * 4)" by simp
  moreover have "unat (of_nat (k * 4) :: u32) = k * 4" using k(1) unfolding unat_of_nat by simp
  ultimately show ?thesis by (simp only: mult.commute)
qed

definition toc_entries :: "gd_service \<Rightarrow> nat list \<Rightarrow> bytes \<Rightarrow> bytes" where
  "toc_entries s ks b = fold (\<lambda>k b. patch b (4 * k) (put32 (track_word (gd_tracks s ! k) (start_lba (gd_tracks s ! k) + 150)))) ks b"

lemma toc_image_eq:
  assumes "disc_ok s" "j < length (gd_tracks s)"
  shows "toc_image s i j =
    (let f = gd_tracks s ! i; l = gd_tracks s ! j
     in patch (patch (patch (toc_entries s [i..<j + 1] (replicate 408 0xff)) 396 (put32 (track_word f (push_bit 16 (gt_number f)))))
          400 (put32 (track_word l (push_bit 16 (gt_number l))))) 404 (put32 (track_word l (end_lba l + 150))))"
proof -
  have "fold (\<lambda>k b. patch b (unat ((gt_number (gd_tracks s ! k) - 1) * 4))
      (put32 (track_word (gd_tracks s ! k) (start_lba (gd_tracks s ! k) + 150)))) [i..<j + 1] (replicate 408 0xff)
    = toc_entries s [i..<j + 1] (replicate 408 0xff)"
    unfolding toc_entries_def using track_slot [OF assms(1)] assms(2) by (intro fold_cong) auto
  then show ?thesis unfolding toc_image_def Let_def by simp
qed

lemma length_toc_entries: "list_all (\<lambda>k. 4 * k + 4 \<le> length b) ks \<Longrightarrow> length (toc_entries s ks b) = length b"
  unfolding toc_entries_def by (rule length_toc_patches) simp_all

lemma toc_image_length:
  assumes "disc_ok s" "j < length (gd_tracks s)"
  shows "length (toc_image s i j) = 408"
proof -
  have "length (toc_entries s [i..<j + 1] (replicate 408 0xff)) = 408"
    using assms by (subst length_toc_entries) (auto simp: disc_ok_def list_all_iff)
  then show ?thesis unfolding toc_image_eq [OF assms] Let_def by (simp add: length_patch)
qed

lemma area_bounds_range:
  assumes "area_bounds s a = Some (i, j)"
  shows "i \<le> j" "j < length (gd_tracks s)"
proof -
  let ?l = "filter (\<lambda>i. (start_lba (gd_tracks s ! i) \<ge> 45000) = (a \<noteq> 0)) [0..<length (gd_tracks s)]"
  obtain ks where l: "?l = i # ks" "j = last (i # ks)"
    using assms by (auto simp: area_bounds_def split: if_splits list.splits)
  have "sorted ?l" by (rule sorted_filter [of "\<lambda>x. x", simplified]) simp
  then show "i \<le> j" unfolding l using last_in_set [of "i # ks"] by (auto simp del: last.simps)
  have "j \<in> set ?l" unfolding l by (metis last_in_set list.discI)
  then show "j < length (gd_tracks s)" by simp
qed

lemma execute_outside:
  assumes "execute ops d m s = (d', m', s', r)" "gd_inv s" "adapter_ok ops"
  shows "outside_same s m m'"
  using assms(1,2)
proof (cases rule: execute_cases)
  case (sectors p ok data)
  have b: "request_bytes s = count s * sector_bytes s"
    using sectors assms(2) by (auto simp: gd_inv_def life_ok_def transfer_ok_def)
  have "length data \<le> unat (request_bytes s)"
    using assms(3) sectors(5) unfolding b adapter_ok_def by (metis (mono_tags, lifting) case_prod_conv)
  then show ?thesis using outside_write_0 [OF sectors(4)] sectors(6) by simp
next
  case (contents p)
  show ?thesis
  proof (cases "area_bounds s (area s)")
    case (Some ij)
    obtain i j where ij: "area_bounds s (area s) = Some (i, j)" using Some by (cases ij) auto
    have "length (toc_image s i j) = 408"
      using toc_image_length area_bounds_range [OF ij] assms(2) by (simp add: gd_inv_def)
    then show ?thesis using outside_write_0 [OF contents(6)] contents(5) ij by (simp add: fill_toc_def)
  qed (use contents in \<open>simp add: fill_toc_def\<close>)
qed simp_all

lemma dispatch_outside:
  assumes "kui_gd_service_dispatch ops d m s r4 r5 r6 r7 = (d', m', s', r)" "gd_inv s" "adapter_ok ops"
  shows "outside_same s m m'"
proof -
  have data: "outside_same s m m1" if "datatype_call ops m s r4 = (m1, s1, r1)" for m1 s1 r1
    using that
  proof (cases rule: datatype_cases)
    case (2 p)
    have "outside_same s m (mem_write m (p + of_nat 4) (put32 (sector_part s) @ put32 (track_type s) @ put32 (sector_bytes s)))"
      by (rule outside_write [OF 2(1)]) simp
    then show ?thesis using 2(4) by simp
  qed simp_all
  have chk: "outside_same s m m1" if "check ops m s r4 r5 = (m1, r1)" for m1 r1
    using that by (auto simp: check_def split: option.splits if_splits intro!: outside_write_0)
  have drive: "outside_same s m (mem_write m p (put32 x @ put32 0x80))" if "guest ops s r4 8 4 True = Some p" for p x
    by (rule outside_write_0 [OF that]) simp
  show ?thesis
    using assms(1) data chk drive execute_outside [OF _ assms(2,3)]
    unfolding kui_gd_service_dispatch_def by (auto split: if_splits prod.splits option.splits)
qed

subsection \<open>Runs of the service\<close>

text \<open>
  A run starts at a successful initialisation; the guest calls the service with any registers and changes its memory
  between calls as it likes.
\<close>

inductive gd_run :: "'d gd_ops \<Rightarrow> 'd \<Rightarrow> guest_memory \<Rightarrow> gd_service \<Rightarrow> bool" for ops where
  start: "kui_gd_service_init tracks gb ge = Some s \<Longrightarrow> gd_run ops d m s"
| call: "gd_run ops d m s \<Longrightarrow> kui_gd_service_dispatch ops d m s r4 r5 r6 r7 = (d', m', s', r) \<Longrightarrow> gd_run ops d' m' s'"
| play: "gd_run ops d m s \<Longrightarrow> gd_run ops d m' s"

lemma run_inv: "gd_run ops d m s \<Longrightarrow> gd_inv s"
  by (induction rule: gd_run.induct) (auto intro: init_inv dispatch_inv)

text \<open>
  C16.  In every state the GD-ROM service can reach, whatever the guest calls and stores: the guest interval is
  a main-RAM interval above the firmware's 64 KiB; the sector mode is one of the two supported ones; at most one request is
  outstanding, it has a non-zero 31-bit token, status PROCESSING and a transfer of 1 to 64 sectors inside the disc, a table of
  contents of an area that exists, or no data; a request that is over is either COMPLETED with all its bytes or FAILED with
  an error and none; and outside \<open>execute\<close> the re-entrancy flag is clear.
\<close>

theorem gd_request_lifecycle:
  assumes "gd_run ops d m s"
  shows "initialized s \<and> \<not> executing s
    \<and> 0x8c010000 \<le> guest_begin s \<and> guest_begin s < guest_end s \<and> guest_end s \<le> 0x8d000000
    \<and> ((sector_part s = 0x2000 \<and> track_type s = 1024 \<and> sector_bytes s = 2048) \<or> (sector_part s = 0x1000 \<and> track_type s = 0 \<and> sector_bytes s = 2352))
    \<and> (if pending s then 0 < token s \<and> token s \<le> 0x7fffffff \<and> status s = st_processing \<and> gd_error s = 0 \<and> transfer_ok s
       else if command s = 0 then status s = st_not_found
       else if gd_error s = 0 then status s = st_completed \<and> completed_bytes s = request_bytes s
       else status s = st_failed \<and> completed_bytes s = 0)"
  using run_inv [OF assms] unfolding gd_inv_def mode_ok_def life_ok_def by (auto simp: word_neq_0_conv split: if_splits)

text \<open>
  C17.  The service never writes outside the guest interval it was initialised with, for any registers, any guest memory and
  any reachable state, as long as the read callback stores no more than it was asked for.
\<close>

theorem gd_memory_safe:
  assumes "gd_run ops d m s" and "adapter_ok ops"
    and "kui_gd_service_dispatch ops d m s r4 r5 r6 r7 = (d', m', s', r)"
    and "a < guest_begin s \<or> guest_end s \<le> a"
  shows "m' a = m a"
  using dispatch_outside [OF assms(3) run_inv [OF assms(1)] assms(2)] assms(4) by (auto simp: outside_same_def)

subsection \<open>The table of contents comes back\<close>

lemma get32_window: "window p i 4 = window q j 4 \<Longrightarrow> i + 4 \<le> length p \<Longrightarrow> j + 4 \<le> length q \<Longrightarrow> get32 p i = get32 q j"
proof -
  assume w: "window p i 4 = window q j 4" and l: "i + 4 \<le> length p" "j + 4 \<le> length q"
  have "p ! (i + k) = q ! (j + k)" if "k < 4" for k
    using w that window_eq_iff [OF l] by blast
  from this [of 0] this [of 1] this [of 2] this [of 3] show ?thesis by (simp add: get32_def)
qed

lemma get32_patch_same: "i + 4 \<le> length p \<Longrightarrow> get32 (patch p i (put32 v)) i = v"
  by (rule get32_put32_at) (simp_all add: byte_simps)

lemma get32_patch_other:
  "i + 4 \<le> length p \<Longrightarrow> j + 4 \<le> length p \<Longrightarrow> j + 4 \<le> i \<or> i + 4 \<le> j \<Longrightarrow> get32 (patch p i (put32 v)) j = get32 p j"
  by (rule get32_window) (auto simp: byte_simps)

lemma toc_entries_word:
  assumes "n \<in> set ks" "distinct ks" "list_all (\<lambda>k. 4 * k + 4 \<le> length b) ks"
  shows "get32 (toc_entries s ks b) (4 * n) = track_word (gd_tracks s ! n) (start_lba (gd_tracks s ! n) + 150)"
  using assms
proof (induction ks arbitrary: b rule: rev_induct)
  case (snoc k ks)
  have step: "toc_entries s (ks @ [k]) b
      = patch (toc_entries s ks b) (4 * k) (put32 (track_word (gd_tracks s ! k) (start_lba (gd_tracks s ! k) + 150)))"
    by (simp add: toc_entries_def)
  have len: "length (toc_entries s ks b) = length b" using snoc.prems by (intro length_toc_entries) simp
  show ?case
  proof (cases "n = k")
    case True
    then show ?thesis unfolding step using snoc.prems len by (simp add: get32_patch_same)
  next
    case False
    then have n: "n \<in> set ks" using snoc.prems by simp
    then have "4 * n + 4 \<le> length b" using snoc.prems by (simp add: list_all_iff)
    moreover have "4 * n + 4 \<le> 4 * k \<or> 4 * k + 4 \<le> 4 * n" using False by linarith
    ultimately have "get32 (toc_entries s (ks @ [k]) b) (4 * n) = get32 (toc_entries s ks b) (4 * n)"
      unfolding step using snoc.prems len by (intro get32_patch_other) simp_all
    then show ?thesis using snoc.IH [OF n] snoc.prems by simp
  qed
qed simp

lemma toc_image_words:
  assumes "disc_ok s" "i \<le> j" "j < length (gd_tracks s)"
  shows "i \<le> k \<and> k \<le> j \<Longrightarrow> get32 (toc_image s i j) (4 * k) = track_word (gd_tracks s ! k) (start_lba (gd_tracks s ! k) + 150)"
    and "get32 (toc_image s i j) 396 = track_word (gd_tracks s ! i) (push_bit 16 (gt_number (gd_tracks s ! i)))"
    and "get32 (toc_image s i j) 400 = track_word (gd_tracks s ! j) (push_bit 16 (gt_number (gd_tracks s ! j)))"
    and "get32 (toc_image s i j) 404 = track_word (gd_tracks s ! j) (end_lba (gd_tracks s ! j) + 150)"
proof -
  define e where "e = toc_entries s [i..<j + 1] (replicate 408 0xff)"
  have bound: "list_all (\<lambda>k. 4 * k + 4 \<le> length (replicate 408 (0xff :: u8))) [i..<j + 1]" and j: "j < 99"
    using assms by (auto simp: disc_ok_def list_all_iff)
  have len: "length e = 408" using length_toc_entries [OF bound] by (simp add: e_def)
  note image = toc_image_eq [OF assms(1,3), of i, folded e_def, unfolded Let_def]
  show "get32 (toc_image s i j) (4 * k) = track_word (gd_tracks s ! k) (start_lba (gd_tracks s ! k) + 150)" if k: "i \<le> k \<and> k \<le> j"
  proof -
    have "4 * k + 4 \<le> 396" using k j by linarith
    then have "get32 (toc_image s i j) (4 * k) = get32 e (4 * k)"
      unfolding image by (simp add: get32_patch_other length_patch len)
    also have "\<dots> = track_word (gd_tracks s ! k) (start_lba (gd_tracks s ! k) + 150)"
      unfolding e_def by (rule toc_entries_word [OF _ _ bound]) (use k in auto)
    finally show ?thesis .
  qed
  show "get32 (toc_image s i j) 396 = track_word (gd_tracks s ! i) (push_bit 16 (gt_number (gd_tracks s ! i)))"
    and "get32 (toc_image s i j) 400 = track_word (gd_tracks s ! j) (push_bit 16 (gt_number (gd_tracks s ! j)))"
    and "get32 (toc_image s i j) 404 = track_word (gd_tracks s ! j) (end_lba (gd_tracks s ! j) + 150)"
    unfolding image by (simp_all add: get32_patch_same get32_patch_other length_patch len)
qed

lemma mem_word_write:
  assumes "q + 4 \<le> length bs" "length bs < 2 ^ 32"
  shows "mem_word (mem_write m p bs) (p + of_nat q) = get32 bs q"
proof -
  have at: "mem_write m p bs (p + of_nat q + of_nat i) = bs ! (q + i)" if "i < 4" for i
  proof -
    have "p + of_nat q + of_nat i - p = (of_nat (q + i) :: u32)" by simp
    moreover have "unat (of_nat (q + i) :: u32) = q + i" using assms that by (simp add: unat_of_nat del: of_nat_add)
    ultimately show ?thesis using assms that by (simp add: mem_write_def)
  qed
  show ?thesis unfolding mem_word_def mem_read_def
    using at [of 0] at [of 1] at [of 2] at [of 3] by (simp add: get32_def upt_rec)
qed

lemma track_word_fields:
  assumes "gt_control t = 0 \<or> gt_control t = 4" "unat v < 2 ^ 24"
  shows "toc_fad (track_word t v) = unat v" "drop_bit 24 (track_word t v) AND 15 = 1"
    "drop_bit 28 (track_word t v) AND 15 = gt_control t" "track_word t v \<noteq> 0xffffffff"
    "unat n < 256 \<Longrightarrow> v = push_bit 16 n \<Longrightarrow> drop_bit 16 (track_word t v) AND 255 = n"
proof -
  have high: "\<not> bit v n" if "24 \<le> n" for n
    using high_bits_clear [OF assms(2) that] by (simp add: bit_unsigned_iff)
  define c :: u32 where "c = push_bit 28 (gt_control t) OR push_bit 24 1"
  have c: "c = 0x01000000 \<or> c = 0x41000000" using assms(1) by (auto simp: c_def)
  have c0: "\<not> bit c k" if "k < 24" for k
  proof -
    have "c = push_bit 24 1 \<or> c = push_bit 24 0x41" using c by auto
    then show ?thesis using that by (auto simp only: bit_push_bit_iff)
  qed
  have w: "track_word t v = c OR v" by (simp add: track_word_def c_def or.assoc)
  have d24: "drop_bit 24 (c OR v) = drop_bit 24 c" and d28: "drop_bit 28 (c OR v) = drop_bit 28 c"
    by (rule bit_word_eqI, use high in \<open>auto simp: bit_drop_bit_eq bit_or_iff\<close>)+
  have low: "take_bit 24 (c OR v) = v"
    by (rule bit_word_eqI) (use high c0 in \<open>auto simp: bit_take_bit_iff bit_or_iff not_less\<close>)
  have m: "x AND 0xffffff = take_bit 24 x" "x AND 255 = take_bit 8 x" for x :: u32
    by (simp_all add: take_bit_eq_mask mask_eq_exp_minus_1)
  show "toc_fad (track_word t v) = unat v"
    unfolding toc_fad_def w m low ..
  show "drop_bit 24 (track_word t v) AND 15 = 1" unfolding w d24 using c by auto
  show "drop_bit 28 (track_word t v) AND 15 = gt_control t" unfolding w d28 using assms(1) by (auto simp: c_def)
  show "track_word t v \<noteq> 0xffffffff"
  proof
    assume "track_word t v = 0xffffffff"
    then have "drop_bit 24 c = drop_bit 24 0xffffffff" unfolding w using d24 by simp
    then show False using c by auto
  qed
  assume n: "unat n < 256" and v: "v = push_bit 16 n"
  have "unat n < 2 ^ 8" using n by simp
  then have nh: "\<not> bit n k" if "8 \<le> k" for k using high_bits_clear [of "unat n" 8 k] that by (simp add: bit_unsigned_iff)
  show "drop_bit 16 (track_word t v) AND 255 = n"
    unfolding w m
  proof (rule bit_word_eqI)
    fix k assume "k < LENGTH(32)"
    show "bit (take_bit 8 (drop_bit 16 (c OR v))) k = bit n k"
    proof (cases "k < 8")
      case True
      then show ?thesis using c0 [of "16 + k"] by (simp add: bit_take_bit_iff bit_drop_bit_eq bit_or_iff v bit_push_bit_iff)
    next
      case False
      then show ?thesis using nh [of k] by (simp add: bit_take_bit_iff bit_or_iff)
    qed
  qed
qed

text \<open>The tracks of an area as a parser should report them: each runs to the start of the next, the last to the lead-out.\<close>

definition area_tracks :: "gd_service \<Rightarrow> nat \<Rightarrow> nat \<Rightarrow> kui_track list" where
  "area_tracks s i j = map (\<lambda>k. \<lparr>tr_number = k + 1, tr_control = unat (gt_control (gd_tracks s ! k)),
     tr_start = unat (start_lba (gd_tracks s ! k)) + 150,
     tr_end = unat (if k = j then end_lba (gd_tracks s ! j) else start_lba (gd_tracks s ! (k + 1))) + 150\<rparr>) [i..<j + 1]"

lemma track_facts:
  assumes "disc_ok s" "k < length (gd_tracks s)"
  shows "gt_number (gd_tracks s ! k) = of_nat (k + 1)" "gt_control (gd_tracks s ! k) = 0 \<or> gt_control (gd_tracks s ! k) = 4"
    "unat (start_lba (gd_tracks s ! k)) < unat (end_lba (gd_tracks s ! k))" "unat (end_lba (gd_tracks s ! k)) \<le> 719850"
    "k \<noteq> 0 \<Longrightarrow> unat (end_lba (gd_tracks s ! (k - 1))) \<le> unat (start_lba (gd_tracks s ! k))"
proof -
  have "gd_track_ok (gd_tracks s) k" using assms by (simp add: disc_ok_def list_all_iff)
  then show "gt_number (gd_tracks s ! k) = of_nat (k + 1)" "gt_control (gd_tracks s ! k) = 0 \<or> gt_control (gd_tracks s ! k) = 4"
    "unat (start_lba (gd_tracks s ! k)) < unat (end_lba (gd_tracks s ! k))" "unat (end_lba (gd_tracks s ! k)) \<le> 719850"
    "k \<noteq> 0 \<Longrightarrow> unat (end_lba (gd_tracks s ! (k - 1))) \<le> unat (start_lba (gd_tracks s ! k))"
    unfolding gd_track_ok_def Let_def by (auto simp: word_le_nat_alt word_less_nat_alt not_less not_le)
qed

lemma add_150: "unat x \<le> 719850 \<Longrightarrow> unat (x + 150) = unat x + 150" for x :: u32
  using unat_add_lem [of x 150] by simp

lemma starts_before:
  assumes "disc_ok s" "k \<le> j" "j < length (gd_tracks s)"
  shows "unat (end_lba (gd_tracks s ! k)) \<le> unat (end_lba (gd_tracks s ! j))"
  using assms(2,3)
proof (induction j)
  case (Suc j)
  then show ?case using track_facts(3,5) [OF assms(1), of "Suc j"] by (cases "k = Suc j") auto
qed simp

lemma toc_tracks_area:
  assumes d: "disc_ok s" and j: "j < length (gd_tracks s)" and "i \<le> j + 1"
    and e: "\<And>k. i \<le> k \<Longrightarrow> k \<le> j \<Longrightarrow> entries ! k = track_word (gd_tracks s ! k) (start_lba (gd_tracks s ! k) + 150)"
  shows "toc_tracks entries (j + 1) (unat (end_lba (gd_tracks s ! j)) + 150) [i + 1..<j + 2] = Some (area_tracks s i j)"
  using assms(3,4)
proof (induction "j + 1 - i" arbitrary: i)
  case 0
  then show ?case by (simp add: area_tracks_def)
next
  case (Suc n)
  let ?t = "\<lambda>k. gd_tracks s ! k"
  have i: "i \<le> j" "i < length (gd_tracks s)" using Suc(2) j by linarith+
  have f: "unat (start_lba (?t k) + 150) = unat (start_lba (?t k)) + 150" "unat (start_lba (?t k) + 150) < 2 ^ 24"
    if "k < length (gd_tracks s)" for k
    using track_facts(3,4) [OF d that] by (simp_all add: add_150)
  have word: "toc_fad (entries ! k) = unat (start_lba (?t k)) + 150" "drop_bit 24 (entries ! k) AND 15 = 1"
      "drop_bit 28 (entries ! k) AND 15 = gt_control (?t k)" "entries ! k \<noteq> 0xffffffff" if "i \<le> k" "k \<le> j" for k
  proof -
    have k: "k < length (gd_tracks s)" using that j by simp
    note w = track_word_fields [OF track_facts(2) [OF d k] f(2) [OF k], folded Suc(4) [OF that]]
    show "toc_fad (entries ! k) = unat (start_lba (?t k)) + 150" "drop_bit 24 (entries ! k) AND 15 = 1"
      "drop_bit 28 (entries ! k) AND 15 = gt_control (?t k)" "entries ! k \<noteq> 0xffffffff"
      using w(1-4) f(1) [OF k] by simp_all
  qed
  let ?stop = "unat (end_lba (?t j)) + 150"
  let ?next = "if i + 1 = j + 1 then ?stop else toc_fad (entries ! (i + 1))"
  have nx: "?next = unat (if i = j then end_lba (?t j) else start_lba (?t (i + 1))) + 150"
    using word(1) [of "i + 1"] i by auto
  define rest where "rest = [Suc i + 1..<j + 2]"
  have fits: "unat (start_lba (?t i)) + 150 < ?next" "?next \<le> ?stop"
  proof -
    have "unat (start_lba (?t i)) + 150 < ?next \<and> ?next \<le> ?stop"
    proof (cases "i = j")
      case True
      then show ?thesis using track_facts(3) [OF d j] by simp
    next
      case False
      then have i1: "i + 1 \<le> j" "i + 1 < length (gd_tracks s)" using i j by linarith+
      then show ?thesis unfolding nx
        using False track_facts(3) [OF d i(2)] track_facts(3,5) [OF d i1(2)] starts_before [OF d i1(1) j] by simp
    qed
    then show "unat (start_lba (?t i)) + 150 < ?next" "?next \<le> ?stop" by blast+
  qed
  have tail: "toc_tracks entries (j + 1) ?stop rest = Some (area_tracks s (Suc i) j)"
    unfolding rest_def by (rule Suc(1)) (use Suc(2-4) in auto)
  have word_i: "entries ! (i + 1 - 1) = entries ! i" by simp
  have "toc_tracks entries (j + 1) ?stop ((i + 1) # rest)
      = Some (\<lparr>tr_number = i + 1, tr_control = unat (gt_control (?t i)), tr_start = unat (start_lba (?t i)) + 150, tr_end = ?next\<rparr>
          # area_tracks s (Suc i) j)"
    unfolding toc_tracks.simps(2) Let_def word_i tail word(1-3) [OF order_refl i(1)] using fits word(4) [OF order_refl i(1)]
    by (simp only: if_False simp_thms option.case not_less not_le) simp
  moreover have "[i + 1..<j + 2] = (i + 1) # rest" unfolding rest_def using i by (simp add: upt_conv_Cons del: upt_Suc)
  moreover have "area_tracks s i j = \<lparr>tr_number = i + 1, tr_control = unat (gt_control (?t i)),
     tr_start = unat (start_lba (?t i)) + 150, tr_end = ?next\<rparr> # area_tracks s (Suc i) j"
    unfolding area_tracks_def nx using i by (simp add: upt_conv_Cons del: upt_Suc)
  ultimately show ?case by (simp only:)
qed

lemma mem_read_toc:
  assumes inv: "gd_inv s" and ab: "area_bounds s (area s) = Some (i, j)" and k: "k \<le> 101"
  shows "mem_word (fill_toc s m p) (p + of_nat (4 * k)) = get32 (toc_image s i j) (4 * k)"
  using toc_image_length [of s j i] area_bounds_range [OF ab] inv k
  by (simp add: fill_toc_def ab gd_inv_def mem_word_write del: of_nat_mult)

text \<open>
  C15.  A table of contents survives the trip through guest memory: after a pending GETTOC2 request is executed, the words at its
  destination, read back by the other component's parser \<open>kui_parse_toc\<close>, are accepted and describe exactly the tracks of the requested area
  with their numbers, control fields and frame addresses.
\<close>

theorem gd_toc_roundtrip:
  assumes "gd_run ops d m s" and "pending s" and "command s = cmd_gettoc2"
    and "guest ops s (destination s) 408 4 True = Some p" and "area_bounds s (area s) = Some (i, j)"
    and "kui_gd_service_dispatch ops d m s r4 r5 0 2 = (d', m', s', r)"
  shows "status s' = st_completed
    \<and> kui_parse_toc (map (\<lambda>k. mem_word m' (p + of_nat (4 * k))) [0..<99]) (mem_word m' (p + 396)) (mem_word m' (p + 400)) (mem_word m' (p + 404))
      = Some (area_tracks s i j)"
proof -
  have inv: "gd_inv s" by (rule run_inv [OF assms(1)])
  have d: "disc_ok s" and ini: "initialized s" "\<not> executing s" using inv by (simp_all add: gd_inv_def)
  have nb: "request_bytes s = 408" using inv assms(2,3) by (simp add: gd_inv_def life_ok_def transfer_ok_def)
  have exec: "execute ops d m s = (d', m', s', r)" using assms(6) ini by (simp add: kui_gd_service_dispatch_def)
  have res: "m' = fill_toc s m p \<and> status s' = st_completed"
    using exec inv
  proof (cases rule: execute_cases)
    case (contents q)
    then show ?thesis using assms(4) by simp
  qed (use assms nb in \<open>auto simp: transfer_alignment_def\<close>)
  have ij: "i \<le> j" "j < length (gd_tracks s)" and j: "j < 99" using area_bounds_range [OF assms(5)] d by (auto simp: disc_ok_def)
  note img = toc_image_words [OF d ij]
  have read: "mem_word m' (p + of_nat (4 * k)) = get32 (toc_image s i j) (4 * k)" if "k \<le> 101" for k
    using mem_read_toc [OF inv assms(5) that] res by simp
  define es where "es = map (\<lambda>k. mem_word m' (p + of_nat (4 * k))) [0..<99]"
  have es: "es ! k = track_word (gd_tracks s ! k) (start_lba (gd_tracks s ! k) + 150)" if "i \<le> k" "k \<le> j" for k
    using that j read [of k] img(1) [of k] by (simp add: es_def del: of_nat_mult)
  have num: "unat (gt_number (gd_tracks s ! k)) = k + 1" if "k \<le> j" for k
    using track_facts(1) [OF d, of k] ij that j unat_of_nat [of "k + 1", where ?'a = 32] by (simp del: of_nat_add of_nat_Suc)
  have small: "unat (push_bit 16 (gt_number (gd_tracks s ! k))) < 2 ^ 24" if "k \<le> j" for k
    using num [OF that] that j unat_mult_lem [of "gt_number (gd_tracks s ! k)" 65536] by (simp add: push_bit_eq_mult)
  have first: "drop_bit 16 (mem_word m' (p + 396)) AND 255 = gt_number (gd_tracks s ! i)"
    using track_word_fields(5) [OF track_facts(2) [OF d] small [OF ij(1)] _ refl] ij num [OF ij(1)] j img(2) read [of 99] by simp
  have lst: "drop_bit 16 (mem_word m' (p + 400)) AND 255 = gt_number (gd_tracks s ! j)"
    using track_word_fields(5) [OF track_facts(2) [OF d ij(2)] small [OF order_refl] _ refl] num [OF order_refl] j img(3) read [of 100] by simp
  have e: "unat (end_lba (gd_tracks s ! j) + 150) = unat (end_lba (gd_tracks s ! j)) + 150" "unat (end_lba (gd_tracks s ! j) + 150) < 2 ^ 24"
    using track_facts(4) [OF d ij(2)] by (simp_all add: add_150)
  note lead = track_word_fields [OF track_facts(2) [OF d ij(2)] e(2)]
  have out: "toc_fad (mem_word m' (p + 404)) = unat (end_lba (gd_tracks s ! j)) + 150" "mem_word m' (p + 404) \<noteq> 0xffffffff"
    using lead(1,4) img(4) read [of 101] e(1) by simp_all
  have "toc_tracks es (j + 1) (unat (end_lba (gd_tracks s ! j)) + 150) [i + 1..<j + 2] = Some (area_tracks s i j)"
    by (rule toc_tracks_area [OF d ij(2) _ es]) (use ij in simp_all)
  then have "kui_parse_toc es (mem_word m' (p + 396)) (mem_word m' (p + 400)) (mem_word m' (p + 404)) = Some (area_tracks s i j)"
    unfolding kui_parse_toc_def Let_def first lst num [OF ij(1)] num [OF order_refl] out(1)
    using out(2) ij(1) j by (simp del: upt_Suc)
  then show ?thesis using res unfolding es_def by blast
qed

subsection \<open>Every accepted request is answered\<close>

lemma sint_token: "t \<noteq> 0 \<Longrightarrow> t \<le> 0x7fffffff \<Longrightarrow> 0 < sint (t :: u32)"
proof -
  assume t: "t \<noteq> 0" "t \<le> 0x7fffffff"
  then have "unat t < 2147483648" "0 < unat t" by (simp_all add: word_le_nat_alt unat_gt_0)
  moreover have "uint t = int (unat t)" by simp
  ultimately have "uint t < 2147483648 \<and> 0 < uint t" by linarith
  then show ?thesis by (simp add: sint_uint signed_take_bit_int_eq_self del: uint_nat)
qed

lemma execute_done:
  assumes "execute ops d m s = (d', m', s', r)" "gd_inv s" "pending s"
  shows "\<not> pending s' \<and> token s' = token s \<and> command s' = command s \<and> command s' \<noteq> 0
    \<and> guest ops s' = guest ops s \<and> request_bytes s' = request_bytes s"
proof -
  have c: "command s \<noteq> 0" using assms(2,3) by (auto simp: gd_inv_def life_ok_def transfer_ok_def)
  have g: "guest ops s' = guest ops s" if "guest_begin s' = guest_begin s" "guest_end s' = guest_end s"
    by (intro ext) (simp only: guest_def that)
  show ?thesis using assms(1,2)
  proof (cases rule: execute_cases)
    case (sectors p ok data)
    then show ?thesis using c g by simp
  next
    case (contents p)
    then show ?thesis using c g by simp
  qed (use assms(3) c g in \<open>auto\<close>)
qed

lemma check_words:
  assumes "guest ops s q 16 4 True = Some p" "tok \<noteq> 0" "tok = token s" "command s \<noteq> 0"
    "check ops m s tok q = (m', r)"
  shows "r = status s" "mem_word m' (p + 4) = gd_error s" "mem_word m' (p + 8) = completed_bytes s"
    "mem_word m' (p + 12) = (if pending s then 4 else 0)"
proof -
  let ?out = "put32 (if gd_error s \<noteq> 0 then 1 else 0) @ put32 (gd_error s) @ put32 (completed_bytes s) @ put32 (if pending s then 4 else 0)"
  have m': "m' = mem_write m p ?out" and r: "r = status s"
    using assms by (auto simp: check_def)
  show "r = status s" by (rule r)
  have l: "length ?out = 16" by simp
  have w: "mem_word m' (p + of_nat k) = get32 ?out k" if "k + 4 \<le> 16" for k
    unfolding m' by (rule mem_word_write) (use that in simp_all)
  have "get32 ?out 4 = gd_error s" by (rule get32_put32_at) (simp_all add: window_def)
  moreover have "get32 ?out 8 = completed_bytes s" by (rule get32_put32_at) (simp_all add: window_def)
  moreover have "get32 ?out 12 = (if pending s then 4 else 0)" by (rule get32_put32_at) (simp_all add: window_def)
  ultimately show "mem_word m' (p + 4) = gd_error s" "mem_word m' (p + 8) = completed_bytes s"
    "mem_word m' (p + 12) = (if pending s then 4 else 0)"
    using w [of 4] w [of 8] w [of 12] by simp_all
qed

text \<open>
  C18.  Every accepted request is answered: when a REQUEST call returns a non-zero token, that token is positive, and after one EXEC
  call the CHECK call on it reports COMPLETED or FAILED - never PROCESSING or NOT\_FOUND - with the error, the bytes transferred (all of
  them or none) and an idle drive in the four result words, and the service is ready for the next request.
\<close>

theorem gd_request_answered:
  assumes "gd_run ops d m s"
    and "kui_gd_service_dispatch ops d m s cmd parameters 0 0 = (d1, m1, s1, tok)" and "tok \<noteq> 0"
    and "kui_gd_service_dispatch ops d1 m1 s1 x y 0 2 = (d2, m2, s2, r2)"
    and "guest ops s2 q 16 4 True = Some p"
    and "kui_gd_service_dispatch ops d2 m2 s2 (word_of_int tok) q 0 1 = (d3, m3, s3, r3)"
  shows "0 < tok \<and> (r3 = st_completed \<or> r3 = st_failed)
    \<and> mem_word m3 (p + 4) = gd_error s3 \<and> (gd_error s3 = 0 \<longleftrightarrow> r3 = st_completed)
    \<and> mem_word m3 (p + 8) = (if r3 = st_completed then request_bytes s1 else 0) \<and> mem_word m3 (p + 12) = 0
    \<and> \<not> pending s3"
proof -
  have inv: "gd_inv s" by (rule run_inv [OF assms(1)])
  have "initialized s" "\<not> executing s" using inv by (simp_all add: gd_inv_def)
  then have req: "request ops m s cmd parameters = (s1, tok)" and m1: "m1 = m" "d1 = d"
    using assms(2) by (auto simp: kui_gd_service_dispatch_def split: prod.splits)
  have inv1: "gd_inv s1" by (rule request_inv [OF req inv])
  have p1: "pending s1 \<and> tok = sint (token s1)" using req
  proof (cases rule: request_cases)
    case (2 l n dest nb ar)
    then show ?thesis by (simp add: submit_eq)
  qed (use assms(3) in simp)
  have t1: "token s1 \<noteq> 0" "token s1 \<le> 0x7fffffff" using inv1 p1 by (auto simp: gd_inv_def life_ok_def)
  have "initialized s1" "\<not> executing s1" using inv1 by (simp_all add: gd_inv_def)
  then have exec: "execute ops d1 m1 s1 = (d2, m2, s2, r2)" using assms(4) by (simp add: kui_gd_service_dispatch_def)
  have inv2: "gd_inv s2" by (rule execute_inv [OF exec inv1])
  have done2: "\<not> pending s2" "token s2 = token s1" "command s2 \<noteq> 0" "request_bytes s2 = request_bytes s1"
    using execute_done [OF exec inv1 conjunct1 [OF p1]] by blast+
  have "initialized s2" "\<not> executing s2" using inv2 by (simp_all add: gd_inv_def)
  then have chk: "check ops m2 s2 (word_of_int tok) q = (m3, r3)" and s3: "s3 = s2"
    using assms(6) by (auto simp: kui_gd_service_dispatch_def split: prod.splits)
  have tk: "word_of_int tok = token s2" using p1 done2 by simp
  note w = check_words [OF assms(5) _ _ done2(3) chk, unfolded tk, simplified done2(2), OF t1(1) refl]
  have "if gd_error s2 = 0 then status s2 = st_completed \<and> completed_bytes s2 = request_bytes s2 else status s2 = st_failed \<and> completed_bytes s2 = 0"
    using inv2 done2 by (auto simp: gd_inv_def life_ok_def)
  then show ?thesis using w sint_token [OF t1] p1 done2 s3 by (auto split: if_splits)
qed

subsection \<open>A concrete run\<close>

text \<open>
  A disc with one track in each area, an adapter that maps everything and reads sevens, and a guest that asks for the table
  of contents of the high-density area.
\<close>

definition sample_ops :: "unit gd_ops" where
  "sample_ops = \<lparr>op_map = (\<lambda>p n w. True), op_check = (\<lambda>l n b. True), op_read = (\<lambda>d l n b. (d, True, replicate (unat (n * b)) 7))\<rparr>"

definition sample_tracks :: "gd_track list" where
  "sample_tracks = [\<lparr>gt_number = 1, gt_control = 4, start_lba = 0, end_lba = 1000\<rparr>,
     \<lparr>gt_number = 2, gt_control = 4, start_lba = 45000, end_lba = 549150\<rparr>]"

definition sample_start :: gd_service where
  "sample_start = \<lparr>gd_tracks = sample_tracks, guest_begin = 0x8c010000, guest_end = 0x8d000000,
     sector_part = 0x2000, track_type = 1024, sector_bytes = 2048, token = 0, command = 0, lba = 0, count = 0, destination = 0,
     area = 0, request_bytes = 0, completed_bytes = 0, gd_error = 0, pending = False, executing = False, initialized = True, status = 0\<rparr>"

definition sample_memory :: guest_memory where
  "sample_memory = mem_write (\<lambda>_. 0) 0x8c010000 (put32 1 @ put32 0x8c020000)"

definition sample_pending :: gd_service where
  "sample_pending = sample_start\<lparr>token := 1, command := cmd_gettoc2, destination := 0x8c020000, area := 1, request_bytes := 408,
     status := st_processing, pending := True\<rparr>"

lemma sample_init: "kui_gd_service_init sample_tracks 0x8c010000 0x8d000000 = Some sample_start"
  by (simp add: kui_gd_service_init_def sample_tracks_def sample_start_def reset_state_def gd_track_ok_def upt_rec)

lemma sample_run: "gd_run sample_ops () m sample_start"
  by (rule gd_run.start [OF sample_init])

lemma sample_adapter: "adapter_ok sample_ops"
  by (simp add: adapter_ok_def sample_ops_def)

lemma sample_guest:
  "guest sample_ops sample_start 0x8c020000 n 4 w = (if n = 0 \<or> n > 0xfe0000 then None else Some 0x8c020000)"
  "guest sample_ops sample_start 0x8c010000 n 4 w = (if n = 0 \<or> n > 0xff0000 then None else Some 0x8c010000)"
  by (simp_all add: guest_def sample_ops_def sample_start_def)

lemma sample_area: "area_bounds sample_start 1 = Some (1, 1)"
  by (simp add: area_bounds_def sample_start_def sample_tracks_def upt_rec)

lemma sample_words: "mem_word sample_memory 0x8c010000 = 1" "mem_word sample_memory 0x8c010004 = 0x8c020000"
  by (simp_all add: mem_word_def mem_read_def sample_memory_def mem_write_def put32_def get32_def upt_rec nth_append)

lemma sample_request:
  "kui_gd_service_dispatch sample_ops () sample_memory sample_start cmd_gettoc2 0x8c010000 0 0 = ((), sample_memory, sample_pending, 1)"
proof -
  have "request sample_ops sample_memory sample_start cmd_gettoc2 0x8c010000 = submit sample_start cmd_gettoc2 0 0 0x8c020000 408 1"
    by (simp add: request_def sample_guest sample_area sample_words) (simp add: sample_start_def)
  then show ?thesis
    by (simp add: kui_gd_service_dispatch_def submit_eq sample_pending_def fresh_token_def) (simp add: sample_start_def)
qed

lemma sample_pending_run: "gd_run sample_ops () sample_memory sample_pending"
  by (rule gd_run.call [OF sample_run sample_request])

lemma sample_pending_area: "area_bounds sample_pending a = area_bounds sample_start a"
  using area_bounds_cong [of sample_pending sample_start] by (simp add: sample_pending_def)

lemma sample_pending_guest: "guest sample_ops sample_pending = guest sample_ops sample_start"
  unfolding guest_def Let_def by (intro ext) (simp add: sample_pending_def)

theorem gd_request_lifecycle_witness:
  "pending sample_pending \<and> transfer_ok sample_pending \<and> token sample_pending \<le> 0x7fffffff"
proof -
  have "pending sample_pending" by (simp add: sample_pending_def)
  then show ?thesis using gd_request_lifecycle [OF sample_pending_run] by auto
qed

theorem gd_memory_safe_witness:
  "case kui_gd_service_dispatch sample_ops () sample_memory sample_start 0x8c020000 0 0 4 of
     (d', m', s', r) \<Rightarrow> r = 0 \<and> m' 0x8c020000 = 1 \<and> m' 0x8c000000 = sample_memory 0x8c000000"
proof -
  have call: "kui_gd_service_dispatch sample_ops () sample_memory sample_start 0x8c020000 0 0 4
      = ((), mem_write sample_memory 0x8c020000 (put32 1 @ put32 0x80), sample_start, 0)"
    by (simp add: kui_gd_service_dispatch_def sample_guest) (simp add: sample_start_def)
  have "mem_write sample_memory 0x8c020000 (put32 1 @ put32 0x80) 0x8c000000 = sample_memory 0x8c000000"
    by (rule gd_memory_safe [OF sample_run sample_adapter call]) (simp add: sample_start_def)
  then show ?thesis unfolding call by (simp add: mem_write_def nth_append)
qed

theorem gd_toc_roundtrip_witness:
  "case kui_gd_service_dispatch sample_ops () sample_memory sample_pending 0 0 0 2 of (d', m', s', r) \<Rightarrow>
     kui_parse_toc (map (\<lambda>k. mem_word m' (0x8c020000 + of_nat (4 * k))) [0..<99])
       (mem_word m' (0x8c020000 + 396)) (mem_word m' (0x8c020000 + 400)) (mem_word m' (0x8c020000 + 404))
     = Some [\<lparr>tr_number = 2, tr_control = 4, tr_start = 45150, tr_end = 549300\<rparr>]"
proof -
  obtain d' m' s' r where call: "kui_gd_service_dispatch sample_ops () sample_memory sample_pending 0 0 0 2 = (d', m', s', r)"
    by (metis prod_cases4)
  have "area_tracks sample_pending 1 1 = [\<lparr>tr_number = 2, tr_control = 4, tr_start = 45150, tr_end = 549300\<rparr>]"
    by (simp add: area_tracks_def sample_pending_def sample_start_def sample_tracks_def)
  moreover have "guest sample_ops sample_pending (destination sample_pending) 408 4 True = Some 0x8c020000"
    unfolding sample_pending_guest by (simp add: sample_pending_def sample_guest)
  moreover have "area_bounds sample_pending (area sample_pending) = Some (1, 1)"
    unfolding sample_pending_area using sample_area by (simp add: sample_pending_def)
  ultimately show ?thesis
    using gd_toc_roundtrip [OF sample_pending_run _ _ _ _ call, of "0x8c020000" 1 1] unfolding call
    by (simp add: sample_pending_def del: of_nat_mult)
qed

theorem gd_request_answered_witness:
  "case kui_gd_service_dispatch sample_ops () sample_memory sample_pending 0 0 0 2 of (d2, m2, s2, r2) \<Rightarrow>
   case kui_gd_service_dispatch sample_ops d2 m2 s2 1 0x8c010000 0 1 of (d3, m3, s3, r3) \<Rightarrow>
     (r3 = st_completed \<or> r3 = st_failed) \<and> \<not> pending s3"
proof -
  obtain d2 m2 s2 r2 where exec: "kui_gd_service_dispatch sample_ops () sample_memory sample_pending 0 0 0 2 = (d2, m2, s2, r2)"
    by (metis prod_cases4)
  obtain d3 m3 s3 r3 where chk: "kui_gd_service_dispatch sample_ops d2 m2 s2 1 0x8c010000 0 1 = (d3, m3, s3, r3)"
    by (metis prod_cases4)
  have inv: "gd_inv sample_pending" by (rule run_inv [OF sample_pending_run])
  have "execute sample_ops () sample_memory sample_pending = (d2, m2, s2, r2)"
    using exec inv by (simp add: kui_gd_service_dispatch_def gd_inv_def)
  from execute_done [OF this inv] have "guest sample_ops s2 = guest sample_ops sample_start"
    by (simp add: sample_pending_guest) (simp add: sample_pending_def)
  then have "guest sample_ops s2 0x8c010000 16 4 True = Some 0x8c010000" by (simp add: sample_guest)
  from gd_request_answered [OF sample_run sample_request _ exec this] show ?thesis using exec chk by simp
qed

end
