(* ===== verification/Zso.thy ===== *)
theory Zso
  imports Kui_Checksums
begin

text \<open>
  Compressed disc images: the ZSO container with its LZ4 decoder (src/core/zso.c) and the historical
  LZO1X decoder (src/core/lzo1x.c).  The read callback is a function of offset and size that returns an
  error or the bytes; a block under construction is the list of the bytes produced so far, so the C index \<open>done\<close>
  is its length.  All offsets are below \<open>2 ^ 32\<close> once the header is admitted, and are natural numbers here.  The build
  mask \<open>KUI_ZSO_CODECS\<close> is the parameter \<open>codecs\<close>; a failing call's partial output is not represented, because the interface forbids its use.
\<close>

unbundle bit_operations_syntax

datatype zso_result = Zso_OK | Zso_Invalid | Zso_Unsupported | Zso_IO | Zso_Cancelled | Zso_Range

type_synonym zso_read = "nat \<Rightarrow> nat \<Rightarrow> zso_result + bytes"

record zso_info =
  file_bytes :: nat
  total_bytes :: nat
  block_count :: nat
  index_bytes :: nat
  shift :: nat
  codec :: nat

abbreviation (input) codec_lz4 :: nat where "codec_lz4 \<equiv> 0"
abbreviation (input) codec_lzo1x :: nat where "codec_lzo1x \<equiv> 1"

subsection \<open>The container\<close>

definition zso_valid :: "nat \<Rightarrow> zso_info \<Rightarrow> bool" where
  "zso_valid codecs info =
     (total_bytes info \<noteq> 0 \<and> total_bytes info \<le> 0x80000000 \<and> total_bytes info mod 2048 = 0
      \<and> block_count info = total_bytes info div 2048 \<and> index_bytes info = (block_count info + 1) * 4
      \<and> shift info \<le> 9 \<and> codec info \<le> codec_lzo1x \<and> bit codecs (codec info) \<and> file_bytes info \<ge> 24 + index_bytes info)"

definition ziso_magic :: bytes where
  "ziso_magic = [0x5a, 0x49, 0x53, 0x4f]"

definition kui_zso_header_parse_codec :: "nat \<Rightarrow> bytes \<Rightarrow> nat \<Rightarrow> nat \<Rightarrow> zso_result + zso_info" where
  "kui_zso_header_parse_codec codecs header n cdc =
     (if cdc > codec_lzo1x \<or> \<not> bit codecs cdc then Inl Zso_Unsupported
      else if window header 0 4 \<noteq> ziso_magic \<or> header ! 20 > 1
           \<or> (cdc = codec_lz4 \<and> (get32 header 4 \<noteq> 24 \<or> header ! 20 \<noteq> 1)) \<or> get32 header 16 \<noteq> 2048 \<or> header ! 21 > 9
      then Inl Zso_Unsupported
      else if cdc = codec_lz4 \<and> (header ! 22 \<noteq> 0 \<or> header ! 23 \<noteq> 0) then Inl Zso_Invalid
      else let tot = unat (get64 header 8) in
        if tot = 0 \<or> tot mod 2048 \<noteq> 0 then Inl Zso_Invalid
        else if tot > 0x80000000 \<or> n > 0xffffffff then Inl Zso_Range
        else let candidate = \<lparr>file_bytes = n, total_bytes = tot, block_count = tot div 2048,
                   index_bytes = (tot div 2048 + 1) * 4, shift = unat (header ! 21), codec = cdc\<rparr>
             in if \<not> zso_valid codecs candidate then Inl Zso_Range else Inr candidate)"

definition kui_zso_header_parse :: "nat \<Rightarrow> bytes \<Rightarrow> nat \<Rightarrow> zso_result + zso_info" where
  "kui_zso_header_parse codecs header n = kui_zso_header_parse_codec codecs header n codec_lz4"

definition position :: "zso_info \<Rightarrow> u32 \<Rightarrow> zso_result + nat" where
  "position info entry =
     (let v = unat (entry AND 0x7fffffff) in
      if v > 0xffffffff div 2 ^ shift info then Inl Zso_Range
      else let v = v * 2 ^ shift info in
        if v < 24 + index_bytes info \<or> v > file_bytes info then Inl Zso_Range else Inr v)"

definition stored_raw :: "u32 \<Rightarrow> bool" where
  "stored_raw entry = (entry AND 0x80000000 \<noteq> 0)"

definition pair :: "zso_info \<Rightarrow> u32 \<Rightarrow> u32 \<Rightarrow> zso_result + (nat \<times> nat)" where
  "pair info entry next =
     (case position info entry of Inl e \<Rightarrow> Inl e | Inr start \<Rightarrow>
      case position info next of Inl e \<Rightarrow> Inl e | Inr stop \<Rightarrow>
      if stop \<le> start \<or> stop - start > 4096 then Inl Zso_Range
      else if stored_raw entry \<and> (stop - start < 2048 \<or> stop - start \<ge> 2048 + 2 ^ shift info) then Inl Zso_Range
      else Inr (start, stop))"

text \<open>The entries of one page; \<open>previous\<close> is missing only before the first entry of the index.\<close>

fun scan_page :: "zso_info \<Rightarrow> u32 option \<Rightarrow> nat \<Rightarrow> u32 list \<Rightarrow> zso_result + (u32 option \<times> nat)" where
  "scan_page info previous terminal [] = Inr (previous, terminal)"
| "scan_page info previous terminal (entry # entries) =
     (case (case previous of None \<Rightarrow> position info entry
            | Some p \<Rightarrow> (case pair info p entry of Inl e \<Rightarrow> Inl e | Inr (_, t) \<Rightarrow> Inr t)) of
        Inl e \<Rightarrow> Inl e
      | Inr t \<Rightarrow> scan_page info (Some entry) t entries)"

definition page_words :: "bytes \<Rightarrow> nat \<Rightarrow> u32 list" where
  "page_words page n = map (\<lambda>i. get32 page (i * 4)) [0..<n]"

function scan_index :: "zso_info \<Rightarrow> zso_read \<Rightarrow> nat \<Rightarrow> u32 option \<Rightarrow> nat \<Rightarrow> zso_result + nat" where
  "scan_index info rd first previous terminal =
     (if first > block_count info then Inr terminal
      else let n = min (block_count info + 1 - first) 32 in
        case rd (24 + first * 4) (n * 4) of Inl e \<Rightarrow> Inl e
        | Inr page \<Rightarrow>
          (case scan_page info previous terminal (page_words page n) of Inl e \<Rightarrow> Inl e
           | Inr (p, t) \<Rightarrow> scan_index info rd (first + n) p t))"
  by auto
termination
  by (relation "measure (\<lambda>(info, rd, first, previous, terminal). block_count info + 1 - first)") auto

declare scan_index.simps [simp del]

definition kui_zso_validate_index :: "nat \<Rightarrow> zso_info \<Rightarrow> zso_read \<Rightarrow> zso_result" where
  "kui_zso_validate_index codecs info rd =
     (if \<not> zso_valid codecs info then Zso_Invalid
      else case scan_index info rd 0 None 0 of Inl e \<Rightarrow> e
      | Inr terminal \<Rightarrow> if file_bytes info - terminal < 2 ^ shift info then Zso_OK else Zso_Range)"

subsection \<open>Bounded input\<close>

definition zso_take :: "zso_read \<Rightarrow> nat \<Rightarrow> nat \<Rightarrow> nat \<Rightarrow> zso_result + (bytes \<times> nat)" where
  "zso_take rd stop at n =
     (if n > stop - at then Inl Zso_Invalid
      else if n = 0 then Inr ([], at)
      else case rd at n of Inl e \<Rightarrow> Inl e | Inr bs \<Rightarrow> Inr (bs, at + n))"

lemma zso_take_at: "zso_take rd stop at n = Inr (bs, at') \<Longrightarrow> at' = at + n \<and> n \<le> stop - at"
  by (auto simp: zso_take_def split: if_splits sum.splits)

text \<open>The byte copy that implements overlapping matches.\<close>

fun lz_copy :: "nat \<Rightarrow> nat \<Rightarrow> bytes \<Rightarrow> bytes" where
  "lz_copy distance 0 out = out"
| "lz_copy distance (Suc n) out = lz_copy distance n (out @ [out ! (length out - distance)])"

lemma length_lz_copy [simp]: "length (lz_copy d n out) = length out + n"
  by (induction n arbitrary: out) simp_all

subsection \<open>LZ4\<close>

text \<open>The bytes that extend a length field of 15.\<close>

function lz4_more :: "zso_read \<Rightarrow> nat \<Rightarrow> nat \<Rightarrow> nat \<Rightarrow> zso_result + (nat \<times> nat)" where
  "lz4_more rd stop at v =
     (case zso_take rd stop at 1 of Inl e \<Rightarrow> Inl e
      | Inr (bs, at') \<Rightarrow>
        let extra = unat (bs ! 0) in
        if extra > 2048 - v then Inl Zso_Invalid
        else if extra = 255 then lz4_more rd stop at' (v + extra)
        else Inr (v + extra, at'))"
  by auto
termination
  by (relation "measure (\<lambda>(rd, stop, at, v). stop - at)") (auto dest: zso_take_at)

declare lz4_more.simps [simp del]

definition lz4_length :: "zso_read \<Rightarrow> nat \<Rightarrow> nat \<Rightarrow> nat \<Rightarrow> zso_result + (nat \<times> nat)" where
  "lz4_length rd stop at base = (if base = 15 then lz4_more rd stop at base else Inr (base, at))"

lemma lz4_more_at: "lz4_more rd stop at v = Inr (w, at') \<Longrightarrow> at \<le> at'"
proof (induction rd stop at v rule: lz4_more.induct)
  case (1 rd stop at v)
  show ?case
  proof (cases "zso_take rd stop at 1")
    case (Inr x)
    obtain bs at1 where x: "zso_take rd stop at 1 = Inr (bs, at1)" using Inr by (cases x) auto
    have "at1 = at + 1" using zso_take_at [OF x] by simp
    then show ?thesis using "1.prems" "1.IH" [OF x refl refl] x
      by (subst (asm) (1) lz4_more.simps) (auto simp: Let_def split: if_splits)
  qed (use "1.prems" in \<open>simp add: lz4_more.simps\<close>)
qed

lemma lz4_length_at: "lz4_length rd stop at v = Inr (w, at') \<Longrightarrow> at \<le> at'"
  by (auto simp: lz4_length_def dest: lz4_more_at split: if_splits)

text \<open>One sequence per round; \<open>last_match\<close> is where the latest match began.\<close>

function lz4_loop :: "zso_read \<Rightarrow> nat \<Rightarrow> nat \<Rightarrow> nat \<Rightarrow> bytes \<Rightarrow> nat option \<Rightarrow> zso_result + bytes" where
  "lz4_loop rd sh stop at out last_match =
     (case zso_take rd stop at 1 of Inl e \<Rightarrow> Inl e | Inr (tok, at1) \<Rightarrow>
      case lz4_length rd stop at1 (unat (tok ! 0) div 16) of Inl e \<Rightarrow> Inl e | Inr (literals, at2) \<Rightarrow>
      if literals > 2048 - length out then Inl Zso_Invalid
      else case zso_take rd stop at2 literals of Inl e \<Rightarrow> Inl e | Inr (bs, at3) \<Rightarrow>
      let out = out @ bs in
      if length out = 2048 then
        (if literals < 5 \<or> (case last_match of None \<Rightarrow> False | Some m \<Rightarrow> m > 2036) \<or> stop - at3 \<ge> 2 ^ sh
         then Inl Zso_Invalid else Inr out)
      else case zso_take rd stop at3 2 of Inl e \<Rightarrow> Inl e | Inr (ds, at4) \<Rightarrow>
      let distance = le16 ds 0 in
      if distance = 0 \<or> distance > length out then Inl Zso_Invalid
      else case lz4_length rd stop at4 (unat (tok ! 0) mod 16) of Inl e \<Rightarrow> Inl e | Inr (n, at5) \<Rightarrow>
      let n = n + 4 in
      if n > 2048 - length out then Inl Zso_Invalid
      else lz4_loop rd sh stop at5 (lz_copy distance n out) (Some (length out)))"
  by auto
termination
  by (relation "measure (\<lambda>(rd, sh, stop, at, out, last_match). stop - at)") (auto dest!: zso_take_at lz4_length_at)

declare lz4_loop.simps [simp del]

subsection \<open>LZO1X\<close>

function lzo_extended :: "zso_read \<Rightarrow> nat \<Rightarrow> nat \<Rightarrow> nat \<Rightarrow> zso_result + (nat \<times> nat)" where
  "lzo_extended rd stop at base =
     (case zso_take rd stop at 1 of Inl e \<Rightarrow> Inl e
      | Inr (bs, at') \<Rightarrow>
        let extra = unat (bs ! 0); add = (if extra \<noteq> 0 then extra else 255) in
        if add > 2048 - base then Inl Zso_Invalid
        else if extra = 0 then lzo_extended rd stop at' (base + add)
        else Inr (base + add, at'))"
  by auto
termination
  by (relation "measure (\<lambda>(rd, stop, at, base). stop - at)") (auto dest: zso_take_at)

declare lzo_extended.simps [simp del]

text \<open>What one token asks for: the end of the stream, or a run of literals after the output so far, with the next state.\<close>

datatype lzo_action = Lzo_end nat | Lzo_run bytes nat nat nat

definition lzo_match :: "nat \<Rightarrow> nat \<Rightarrow> nat \<Rightarrow> bytes \<Rightarrow> nat \<Rightarrow> zso_result + lzo_action" where
  "lzo_match distance n trailing out at =
     (if distance > length out \<or> n > 2048 - length out then Inl Zso_Invalid
      else Inr (Lzo_run (lz_copy distance n out) trailing (if trailing \<noteq> 0 then 2 else 0) at))"

definition lzo_token :: "zso_read \<Rightarrow> nat \<Rightarrow> nat \<Rightarrow> bytes \<Rightarrow> nat \<Rightarrow> nat \<Rightarrow> zso_result + lzo_action" where
  "lzo_token rd stop at out state token =
     (if state = 0 \<and> token < 16 then
        (case (if token = 0 then lzo_extended rd stop at 15 else Inr (token, at)) of Inl e \<Rightarrow> Inl e
         | Inr (n, at) \<Rightarrow> Inr (Lzo_run out (n + 3) 1 at))
      else if token < 16 then
        (case zso_take rd stop at 1 of Inl e \<Rightarrow> Inl e
         | Inr (low, at) \<Rightarrow>
           let distance = 1 + token div 4 + unat (low ! 0) * 4
           in lzo_match (if state = 1 then distance + 2048 else distance) (if state = 1 then 3 else 2) (token mod 4) out at)
      else if token \<ge> 64 then
        (case zso_take rd stop at 1 of Inl e \<Rightarrow> Inl e
         | Inr (low, at) \<Rightarrow> lzo_match (1 + (token div 4) mod 8 + unat (low ! 0) * 8) (token div 32 + 1) (token mod 4) out at)
      else
        let n = (if token \<ge> 32 then token mod 32 else token mod 8) in
        case (if n = 0 then lzo_extended rd stop at (if token \<ge> 32 then 31 else 7) else Inr (n, at)) of Inl e \<Rightarrow> Inl e
        | Inr (n, at) \<Rightarrow>
          (case zso_take rd stop at 1 of Inl e \<Rightarrow> Inl e
           | Inr (low, at) \<Rightarrow>
             (case zso_take rd stop at 1 of Inl e \<Rightarrow> Inl e
              | Inr (high, at) \<Rightarrow>
                let distance = unat (low ! 0) div 4 + unat (high ! 0) * 64; trailing = unat (low ! 0) mod 4 in
                if token \<ge> 32 then lzo_match (distance + 1) (n + 2) trailing out at
                else let distance = distance + (token AND 8) * 2048 in
                  if distance = 0 then
                    (if token \<noteq> 17 \<or> low ! 0 \<noteq> 0 \<or> length out \<noteq> 2048 then Inl Zso_Invalid else Inr (Lzo_end at))
                  else lzo_match (distance + 16384) (n + 2) trailing out at)))"

definition lzo_literals :: "zso_read \<Rightarrow> nat \<Rightarrow> nat \<Rightarrow> bytes \<Rightarrow> nat \<Rightarrow> zso_result + (bytes \<times> nat \<times> nat)" where
  "lzo_literals rd stop at out n =
     (if n > 2048 - length out then Inl Zso_Invalid
      else case zso_take rd stop at n of Inl e \<Rightarrow> Inl e
      | Inr (bs, at) \<Rightarrow>
        (case zso_take rd stop at 1 of Inl e \<Rightarrow> Inl e | Inr (tok, at) \<Rightarrow> Inr (out @ bs, unat (tok ! 0), at)))"

lemma lzo_extended_at: "lzo_extended rd stop at v = Inr (w, at') \<Longrightarrow> at \<le> at'"
proof (induction rd stop at v rule: lzo_extended.induct)
  case (1 rd stop at v)
  show ?case
  proof (cases "zso_take rd stop at 1")
    case (Inr x)
    obtain bs at1 where x: "zso_take rd stop at 1 = Inr (bs, at1)" using Inr by (cases x) auto
    have "at1 = at + 1" using zso_take_at [OF x] by simp
    then show ?thesis using "1.prems" "1.IH" [OF x refl refl refl] x
      by (subst (asm) (1) lzo_extended.simps) (auto simp: Let_def split: if_splits)
  qed (use "1.prems" in \<open>simp add: lzo_extended.simps\<close>)
qed

lemma lzo_match_at: "lzo_match d n t out at = Inr (Lzo_run out' k s at') \<Longrightarrow> at' = at"
  by (simp add: lzo_match_def split: if_splits)

lemma lzo_token_at: "lzo_token rd stop at out state token = Inr (Lzo_run out' n st at') \<Longrightarrow> at \<le> at'"
  unfolding lzo_token_def
  by (auto simp: Let_def split: if_splits sum.splits dest!: zso_take_at lzo_extended_at lzo_match_at)

lemma lzo_literals_at: "lzo_literals rd stop at out n = Inr (out', tok, at') \<Longrightarrow> at < at' \<and> at' \<le> max at stop"
  by (auto simp: lzo_literals_def split: if_splits sum.splits dest!: zso_take_at)

function lzo_loop :: "zso_read \<Rightarrow> nat \<Rightarrow> nat \<Rightarrow> bytes \<Rightarrow> nat \<Rightarrow> nat \<Rightarrow> zso_result + (bytes \<times> nat)" where
  "lzo_loop rd stop at out state token =
     (case lzo_token rd stop at out state token of Inl e \<Rightarrow> Inl e
      | Inr (Lzo_end at) \<Rightarrow> Inr (out, at)
      | Inr (Lzo_run out n state at) \<Rightarrow>
        (case lzo_literals rd stop at out n of Inl e \<Rightarrow> Inl e
         | Inr (out, token, at) \<Rightarrow> lzo_loop rd stop at out state token))"
  by auto
termination
  by (relation "measure (\<lambda>(rd, stop, at, out, state, token). stop - at)")
    (auto dest!: lzo_token_at lzo_literals_at)

declare lzo_loop.simps [simp del]

definition kui_lzo1x_decode :: "zso_read \<Rightarrow> nat \<Rightarrow> nat \<Rightarrow> zso_result + (bytes \<times> nat)" where
  "kui_lzo1x_decode rd start stop =
     (if start \<ge> stop then Inl Zso_Invalid
      else case zso_take rd stop start 1 of Inl e \<Rightarrow> Inl e
      | Inr (tok, at) \<Rightarrow>
        let token = unat (tok ! 0) in
        case (if token > 17 then
                (case lzo_literals rd stop at [] (token - 17) of Inl e \<Rightarrow> Inl e
                 | Inr (out, tok, at) \<Rightarrow> lzo_loop rd stop at out (if token - 17 < 4 then 2 else 1) tok)
              else lzo_loop rd stop at [] 0 token) of Inl e \<Rightarrow> Inl e
        | Inr (out, at) \<Rightarrow> Inr (out, at - start))"

subsection \<open>One block\<close>

definition kui_zso_read_block :: "nat \<Rightarrow> zso_info \<Rightarrow> nat \<Rightarrow> zso_read \<Rightarrow> zso_result + bytes" where
  "kui_zso_read_block codecs info block rd =
     (if \<not> zso_valid codecs info then Inl Zso_Invalid
      else if block \<ge> block_count info then Inl Zso_Range
      else case rd (24 + block * 4) 8 of Inl e \<Rightarrow> Inl e
      | Inr entries \<Rightarrow>
        (case pair info (get32 entries 0) (get32 entries 4) of Inl e \<Rightarrow> Inl e
         | Inr (start, stop) \<Rightarrow>
           if stored_raw (get32 entries 0) then rd start 2048
           else if codec info = codec_lzo1x \<and> bit codecs codec_lzo1x then
             (case kui_lzo1x_decode rd start stop of Inl e \<Rightarrow> Inl e
              | Inr (out, consumed) \<Rightarrow> if stop - start - consumed < 2 ^ shift info then Inr out else Inl Zso_Invalid)
           else if bit codecs codec_lz4 then lz4_loop rd (shift info) stop start [] None
           else Inl Zso_Unsupported))"

subsection \<open>Reads stay inside the block\<close>

definition reads_agree :: "zso_read \<Rightarrow> zso_read \<Rightarrow> nat \<Rightarrow> nat \<Rightarrow> bool" where
  "reads_agree rd rd' lo hi = (\<forall>a n. lo \<le> a \<and> a + n \<le> hi \<longrightarrow> rd a n = rd' a n)"

definition full_reads :: "zso_read \<Rightarrow> bool" where
  "full_reads rd = (\<forall>a n bs. rd a n = Inr bs \<longrightarrow> length bs = n)"

lemma zso_take_agree:
  "reads_agree rd rd' lo stop \<Longrightarrow> lo \<le> at \<Longrightarrow> at \<le> stop \<Longrightarrow> zso_take rd stop at n = zso_take rd' stop at n"
  by (auto simp: zso_take_def reads_agree_def)

lemma zso_take_stop: "zso_take rd stop at n = Inr (bs, at') \<Longrightarrow> at \<le> stop \<Longrightarrow> at \<le> at' \<and> at' \<le> stop"
  using zso_take_at by fastforce

lemma zso_take_length: "full_reads rd \<Longrightarrow> zso_take rd stop at n = Inr (bs, at') \<Longrightarrow> length bs = n"
  by (auto simp: zso_take_def full_reads_def split: if_splits sum.splits)

text \<open>Two computations agree when their first steps do and their continuations agree on what those steps return.\<close>

lemma case_pair_agree:
  "m = m' \<Longrightarrow> (\<And>a b. m = Inr (a, b) \<Longrightarrow> f a b = g a b) \<Longrightarrow>
   (case m of Inl e \<Rightarrow> Inl e | Inr (a, b) \<Rightarrow> f a b) = (case m' of Inl e \<Rightarrow> Inl e | Inr (a, b) \<Rightarrow> g a b)"
  by (auto split: sum.splits)

lemma lz4_more_stop: "lz4_more rd stop at v = Inr (w, at') \<Longrightarrow> at \<le> stop \<Longrightarrow> at' \<le> stop"
proof (induction rd stop at v rule: lz4_more.induct)
  case (1 rd stop at v)
  obtain bs at1 where x: "zso_take rd stop at 1 = Inr (bs, at1)"
    using "1.prems"(1) by (subst (asm) lz4_more.simps) (auto split: sum.splits)
  show ?case using "1.prems"(1) x "1.IH" [OF x refl refl] zso_take_stop [OF x "1.prems"(2)]
    by (subst (asm) (1) lz4_more.simps) (auto simp: Let_def split: if_splits)
qed

lemma lz4_length_stop: "lz4_length rd stop at v = Inr (w, at') \<Longrightarrow> at \<le> stop \<Longrightarrow> at' \<le> stop"
  by (auto simp: lz4_length_def dest: lz4_more_stop split: if_splits)

lemma lz4_more_agree:
  "reads_agree rd rd' lo stop \<Longrightarrow> lo \<le> at \<Longrightarrow> at \<le> stop \<Longrightarrow> lz4_more rd stop at v = lz4_more rd' stop at v"
proof (induction rd stop at v rule: lz4_more.induct)
  case (1 rd stop at v)
  show ?case unfolding lz4_more.simps [of _ stop at v]
  proof (rule case_pair_agree)
    fix bs at1 assume x: "zso_take rd stop at 1 = Inr (bs, at1)"
    have "lo \<le> at1" "at1 \<le> stop" using zso_take_stop [OF x "1.prems"(3)] "1.prems"(2) by simp_all
    from "1.IH" [OF x refl refl _ _ "1.prems"(1) this] show
      "(let extra = unat (bs ! 0) in if extra > 2048 - v then Inl Zso_Invalid
        else if extra = 255 then lz4_more rd stop at1 (v + extra) else Inr (v + extra, at1))
      = (let extra = unat (bs ! 0) in if extra > 2048 - v then Inl Zso_Invalid
        else if extra = 255 then lz4_more rd' stop at1 (v + extra) else Inr (v + extra, at1))"
      by (simp add: Let_def)
  qed (rule zso_take_agree [OF "1.prems"])
qed

lemma lz4_length_agree:
  "reads_agree rd rd' lo stop \<Longrightarrow> lo \<le> at \<Longrightarrow> at \<le> stop \<Longrightarrow> lz4_length rd stop at v = lz4_length rd' stop at v"
  by (simp add: lz4_length_def lz4_more_agree)

lemma lz4_loop_agree:
  "reads_agree rd rd' lo stop \<Longrightarrow> lo \<le> at \<Longrightarrow> at \<le> stop \<Longrightarrow> lz4_loop rd sh stop at out m = lz4_loop rd' sh stop at out m"
proof (induction rd sh stop at out m rule: lz4_loop.induct)
  case (1 rd sh stop at out m)
  note take = zso_take_agree [OF "1.prems"(1)] and len = lz4_length_agree [OF "1.prems"(1)]
  show ?case unfolding lz4_loop.simps [of _ sh stop at out m] Let_def
  proof (intro case_pair_agree if_cong [OF refl refl])
    show "zso_take rd stop at 1 = zso_take rd' stop at 1" by (rule take [OF "1.prems"(2,3)])
    fix tok at1
    assume a: "zso_take rd stop at 1 = Inr (tok, at1)"
    have at1: "lo \<le> at1" "at1 \<le> stop" using zso_take_stop [OF a "1.prems"(3)] "1.prems"(2) by simp_all
    show "lz4_length rd stop at1 (unat (tok ! 0) div 16) = lz4_length rd' stop at1 (unat (tok ! 0) div 16)" by (rule len [OF at1])
    fix literals at2
    assume b: "lz4_length rd stop at1 (unat (tok ! 0) div 16) = Inr (literals, at2)"
    have at2: "lo \<le> at2" "at2 \<le> stop" using lz4_length_at [OF b] lz4_length_stop [OF b at1(2)] at1 by simp_all
    show "zso_take rd stop at2 literals = zso_take rd' stop at2 literals" by (rule take [OF at2])
    fix bs at3
    assume lit: "\<not> 2048 - length out < literals" and c: "zso_take rd stop at2 literals = Inr (bs, at3)"
    have at3: "lo \<le> at3" "at3 \<le> stop" using zso_take_stop [OF c at2(2)] at2 by simp_all
    show "zso_take rd stop at3 2 = zso_take rd' stop at3 2" by (rule take [OF at3])
    fix ds at4
    assume more: "length (out @ bs) \<noteq> 2048" and d: "zso_take rd stop at3 2 = Inr (ds, at4)"
    have at4: "lo \<le> at4" "at4 \<le> stop" using zso_take_stop [OF d at3(2)] at3 by simp_all
    show "lz4_length rd stop at4 (unat (tok ! 0) mod 16) = lz4_length rd' stop at4 (unat (tok ! 0) mod 16)" by (rule len [OF at4])
    fix n at5
    assume dist: "\<not> (le16 ds 0 = 0 \<or> length (out @ bs) < le16 ds 0)" and f: "lz4_length rd stop at4 (unat (tok ! 0) mod 16) = Inr (n, at5)"
      and fits: "\<not> 2048 - length (out @ bs) < n + 4"
    have at5: "lo \<le> at5" "at5 \<le> stop" using lz4_length_at [OF f] lz4_length_stop [OF f at4(2)] at4 by simp_all
    show "lz4_loop rd sh stop at5 (lz_copy (le16 ds 0) (n + 4) (out @ bs)) (Some (length (out @ bs)))
        = lz4_loop rd' sh stop at5 (lz_copy (le16 ds 0) (n + 4) (out @ bs)) (Some (length (out @ bs)))"
      by (rule "1.IH" [OF a refl b refl lit c refl refl more d refl refl dist f refl refl fits "1.prems"(1) at5])
  qed
qed

lemma lzo_extended_stop: "lzo_extended rd stop at v = Inr (w, at') \<Longrightarrow> at \<le> at' \<and> at' \<le> max at stop"
proof (induction rd stop at v rule: lzo_extended.induct)
  case (1 rd stop at v)
  obtain bs at1 where x: "zso_take rd stop at 1 = Inr (bs, at1)"
    using "1.prems"(1) by (subst (asm) lzo_extended.simps) (auto split: sum.splits)
  have "at1 = at + 1" "at1 \<le> stop" using zso_take_at [OF x] by linarith+
  then show ?case using "1.prems"(1) x "1.IH" [OF x refl refl refl]
    by (subst (asm) (1) lzo_extended.simps) (auto simp: Let_def max_def split: if_splits)
qed

lemma lzo_token_stop: "lzo_token rd stop at out state token = Inr (Lzo_run out' n st at') \<Longrightarrow> at \<le> stop \<Longrightarrow> at \<le> at' \<and> at' \<le> stop"
  unfolding lzo_token_def
  by (auto simp: Let_def max_def split: if_splits sum.splits dest!: zso_take_at lzo_extended_stop lzo_match_at; linarith)

lemma lzo_extended_agree:
  "reads_agree rd rd' lo stop \<Longrightarrow> lo \<le> at \<Longrightarrow> at \<le> stop \<Longrightarrow> lzo_extended rd stop at v = lzo_extended rd' stop at v"
proof (induction rd stop at v rule: lzo_extended.induct)
  case (1 rd stop at v)
  show ?case unfolding lzo_extended.simps [of _ stop at v] Let_def
  proof (intro case_pair_agree if_cong [OF refl refl] refl)
    show "zso_take rd stop at 1 = zso_take rd' stop at 1" by (rule zso_take_agree [OF "1.prems"])
    fix bs at1
    assume x: "zso_take rd stop at 1 = Inr (bs, at1)" and fits: "\<not> 2048 - v < (if unat (bs ! 0) \<noteq> 0 then unat (bs ! 0) else 255)"
    have at1: "lo \<le> at1" "at1 \<le> stop" using zso_take_stop [OF x "1.prems"(3)] "1.prems"(2) by simp_all
    show "(if unat (bs ! 0) = 0 then lzo_extended rd stop at1 (v + (if unat (bs ! 0) \<noteq> 0 then unat (bs ! 0) else 255))
           else Inr (v + (if unat (bs ! 0) \<noteq> 0 then unat (bs ! 0) else 255), at1))
        = (if unat (bs ! 0) = 0 then lzo_extended rd' stop at1 (v + (if unat (bs ! 0) \<noteq> 0 then unat (bs ! 0) else 255))
           else Inr (v + (if unat (bs ! 0) \<noteq> 0 then unat (bs ! 0) else 255), at1))"
      using "1.IH" [OF x refl refl refl fits _ "1.prems"(1) at1] by simp
  qed
qed

lemma lzo_token_agree:
  assumes "reads_agree rd rd' lo stop" "lo \<le> at" "at \<le> stop"
  shows "lzo_token rd stop at out state token = lzo_token rd' stop at out state token"
proof -
  note take = zso_take_agree [OF assms(1)] and ext = lzo_extended_agree [OF assms]
  have two: "(case zso_take rd stop at1 1 of Inl e \<Rightarrow> Inl e | Inr (low, at2) \<Rightarrow>
              (case zso_take rd stop at2 1 of Inl e \<Rightarrow> Inl e | Inr (high, at3) \<Rightarrow> f low high at3))
           = (case zso_take rd' stop at1 1 of Inl e \<Rightarrow> Inl e | Inr (low, at2) \<Rightarrow>
              (case zso_take rd' stop at2 1 of Inl e \<Rightarrow> Inl e | Inr (high, at3) \<Rightarrow> (f low high at3 :: zso_result + lzo_action)))"
    if "lo \<le> at1" "at1 \<le> stop" for at1 f
  proof (intro case_pair_agree refl)
    show "zso_take rd stop at1 1 = zso_take rd' stop at1 1" by (rule take [OF that])
    fix low at2 assume x: "zso_take rd stop at1 1 = Inr (low, at2)"
    have "lo \<le> at2" "at2 \<le> stop" using zso_take_stop [OF x that(2)] that(1) by simp_all
    then show "zso_take rd stop at2 1 = zso_take rd' stop at2 1" by (rule take)
  qed
  have start: "(if n = 0 then lzo_extended rd stop at b else Inr (n, at)) = (if n = 0 then lzo_extended rd' stop at b else Inr (n, at))" for n b
    by (simp add: ext)
  have range: "lo \<le> at1 \<and> at1 \<le> stop" if "(if n = 0 then lzo_extended rd stop at b else Inr (n, at)) = Inr (k, at1)" for n b k at1
    using that assms(2,3) lzo_extended_stop [of rd stop at b k at1] by (auto split: if_splits)
  show ?thesis
  proof (cases "token < 16 \<or> token \<ge> 64")
    case True
    then show ?thesis unfolding lzo_token_def Let_def using take [OF assms(2,3), of 1] ext by (auto intro!: case_pair_agree)
  next
    case False
    then have tok: "\<not> (state = 0 \<and> token < 16)" "\<not> token < 16" "\<not> token \<ge> 64" by simp_all
    show ?thesis unfolding lzo_token_def Let_def if_not_P [OF tok(1)] if_not_P [OF tok(2)] if_not_P [OF tok(3)]
    proof (rule case_pair_agree)
      fix n at1
      assume "(if (if 32 \<le> token then token mod 32 else token mod 8) = 0 then lzo_extended rd stop at (if 32 \<le> token then 31 else 7)
          else Inr ((if 32 \<le> token then token mod 32 else token mod 8), at)) = Inr (n, at1)"
      from range [OF this] show
        "(case zso_take rd stop at1 1 of Inl e \<Rightarrow> Inl e
           | Inr (low, at) \<Rightarrow>
             (case zso_take rd stop at 1 of Inl e \<Rightarrow> Inl e
              | Inr (high, at) \<Rightarrow>
                if token \<ge> 32 then lzo_match (unat (low ! 0) div 4 + unat (high ! 0) * 64 + 1) (n + 2) (unat (low ! 0) mod 4) out at
                else if unat (low ! 0) div 4 + unat (high ! 0) * 64 + (token AND 8) * 2048 = 0 then
                    (if token \<noteq> 17 \<or> low ! 0 \<noteq> 0 \<or> length out \<noteq> 2048 then Inl Zso_Invalid else Inr (Lzo_end at))
                  else lzo_match (unat (low ! 0) div 4 + unat (high ! 0) * 64 + (token AND 8) * 2048 + 16384) (n + 2) (unat (low ! 0) mod 4) out at))
         = (case zso_take rd' stop at1 1 of Inl e \<Rightarrow> Inl e
           | Inr (low, at) \<Rightarrow>
             (case zso_take rd' stop at 1 of Inl e \<Rightarrow> Inl e
              | Inr (high, at) \<Rightarrow>
                if token \<ge> 32 then lzo_match (unat (low ! 0) div 4 + unat (high ! 0) * 64 + 1) (n + 2) (unat (low ! 0) mod 4) out at
                else if unat (low ! 0) div 4 + unat (high ! 0) * 64 + (token AND 8) * 2048 = 0 then
                    (if token \<noteq> 17 \<or> low ! 0 \<noteq> 0 \<or> length out \<noteq> 2048 then Inl Zso_Invalid else Inr (Lzo_end at))
                  else lzo_match (unat (low ! 0) div 4 + unat (high ! 0) * 64 + (token AND 8) * 2048 + 16384) (n + 2) (unat (low ! 0) mod 4) out at))"
        by (intro two) simp_all
    qed (rule start)
  qed
qed

lemma lzo_literals_agree:
  assumes "reads_agree rd rd' lo stop" "lo \<le> at" "at \<le> stop"
  shows "lzo_literals rd stop at out n = lzo_literals rd' stop at out n"
  unfolding lzo_literals_def
proof (intro case_pair_agree if_cong [OF refl refl] refl)
  show "zso_take rd stop at n = zso_take rd' stop at n" by (rule zso_take_agree [OF assms])
  fix bs at1 assume x: "zso_take rd stop at n = Inr (bs, at1)"
  show "zso_take rd stop at1 1 = zso_take rd' stop at1 1"
    by (rule zso_take_agree [OF assms(1)]) (use zso_take_stop [OF x assms(3)] assms(2) in simp_all)
qed

lemma lzo_loop_agree:
  "reads_agree rd rd' lo stop \<Longrightarrow> lo \<le> at \<Longrightarrow> at \<le> stop \<Longrightarrow> lzo_loop rd stop at out state token = lzo_loop rd' stop at out state token"
proof (induction rd stop at out state token rule: lzo_loop.induct)
  case (1 rd stop at out state token)
  note tok = lzo_token_agree [OF "1.prems", of out state token]
  show ?case
  proof (cases "lzo_token rd stop at out state token")
    case (Inl e)
    then show ?thesis unfolding lzo_loop.simps [of _ stop at out state token] tok [symmetric] by simp
  next
    case (Inr act)
    show ?thesis
    proof (cases act)
      case (Lzo_end at1)
      then show ?thesis unfolding lzo_loop.simps [of _ stop at out state token] tok [symmetric] Inr by simp
    next
      case (Lzo_run out1 n st at1)
      have x: "lzo_token rd stop at out state token = Inr (Lzo_run out1 n st at1)" using Inr Lzo_run by simp
      have at1: "lo \<le> at1" "at1 \<le> stop" using lzo_token_stop [OF x "1.prems"(3)] "1.prems"(2) by simp_all
      have "(case lzo_literals rd stop at1 out1 n of Inl e \<Rightarrow> Inl e | Inr (out, p) \<Rightarrow> (case p of (token, at) \<Rightarrow> lzo_loop rd stop at out st token))
          = (case lzo_literals rd' stop at1 out1 n of Inl e \<Rightarrow> Inl e | Inr (out, p) \<Rightarrow> (case p of (token, at) \<Rightarrow> lzo_loop rd' stop at out st token))"
      proof (rule case_pair_agree)
        show "lzo_literals rd stop at1 out1 n = lzo_literals rd' stop at1 out1 n" by (rule lzo_literals_agree [OF "1.prems"(1) at1])
        fix o2 p assume y: "lzo_literals rd stop at1 out1 n = Inr (o2, p)"
        obtain t2 at2 where p: "p = (t2, at2)" by (cases p)
        have "lo \<le> at2" "at2 \<le> stop" using lzo_literals_at [OF y [unfolded p]] at1 by simp_all
        from "1.IH" [OF x refl y refl p [symmetric] "1.prems"(1) this]
        show "(case p of (token, at) \<Rightarrow> lzo_loop rd stop at o2 st token) = (case p of (token, at) \<Rightarrow> lzo_loop rd' stop at o2 st token)"
          by (simp add: p)
      qed
      then show ?thesis unfolding lzo_loop.simps [of _ stop at out state token] tok [symmetric] x by simp
    qed
  qed
qed

lemma lzo_decode_agree:
  assumes "reads_agree rd rd' start stop"
  shows "kui_lzo1x_decode rd start stop = kui_lzo1x_decode rd' start stop"
proof (cases "start \<ge> stop")
  case False
  show ?thesis unfolding kui_lzo1x_decode_def if_not_P [OF False] Let_def
  proof (rule case_pair_agree)
    show "zso_take rd stop start 1 = zso_take rd' stop start 1" by (rule zso_take_agree [OF assms]) (use False in simp_all)
    fix tok at1 assume x: "zso_take rd stop start 1 = Inr (tok, at1)"
    have at1: "start \<le> at1" "at1 \<le> stop" using zso_take_stop [OF x] False by simp_all
    show "(case (if unat (tok ! 0) > 17 then
                (case lzo_literals rd stop at1 [] (unat (tok ! 0) - 17) of Inl e \<Rightarrow> Inl e
                 | Inr (out, tok', at) \<Rightarrow> lzo_loop rd stop at out (if unat (tok ! 0) - 17 < 4 then 2 else 1) tok')
              else lzo_loop rd stop at1 [] 0 (unat (tok ! 0))) of Inl e \<Rightarrow> Inl e
        | Inr (out, at) \<Rightarrow> Inr (out, at - start))
      = (case (if unat (tok ! 0) > 17 then
                (case lzo_literals rd' stop at1 [] (unat (tok ! 0) - 17) of Inl e \<Rightarrow> Inl e
                 | Inr (out, tok', at) \<Rightarrow> lzo_loop rd' stop at out (if unat (tok ! 0) - 17 < 4 then 2 else 1) tok')
              else lzo_loop rd' stop at1 [] 0 (unat (tok ! 0))) of Inl e \<Rightarrow> Inl e
        | Inr (out, at) \<Rightarrow> Inr (out, at - start))"
    proof (rule case_pair_agree, rule if_cong [OF refl])
      show "lzo_loop rd stop at1 [] 0 (unat (tok ! 0)) = lzo_loop rd' stop at1 [] 0 (unat (tok ! 0))"
        by (rule lzo_loop_agree [OF assms at1])
      show "(case lzo_literals rd stop at1 [] (unat (tok ! 0) - 17) of Inl e \<Rightarrow> Inl e
              | Inr (out, tok', at) \<Rightarrow> lzo_loop rd stop at out (if unat (tok ! 0) - 17 < 4 then 2 else 1) tok')
          = (case lzo_literals rd' stop at1 [] (unat (tok ! 0) - 17) of Inl e \<Rightarrow> Inl e
              | Inr (out, tok', at) \<Rightarrow> lzo_loop rd' stop at out (if unat (tok ! 0) - 17 < 4 then 2 else 1) tok')"
      proof (rule case_pair_agree)
        show "lzo_literals rd stop at1 [] (unat (tok ! 0) - 17) = lzo_literals rd' stop at1 [] (unat (tok ! 0) - 17)"
          by (rule lzo_literals_agree [OF assms at1])
        fix o2 p assume y: "lzo_literals rd stop at1 [] (unat (tok ! 0) - 17) = Inr (o2, p)"
        obtain t2 at2 where p: "p = (t2, at2)" by (cases p)
        have "start \<le> at2" "at2 \<le> stop" using lzo_literals_at [OF y [unfolded p]] at1 by simp_all
        then show "(case p of (tok', at) \<Rightarrow> lzo_loop rd stop at o2 (if unat (tok ! 0) - 17 < 4 then 2 else 1) tok')
            = (case p of (tok', at) \<Rightarrow> lzo_loop rd' stop at o2 (if unat (tok ! 0) - 17 < 4 then 2 else 1) tok')"
          unfolding p prod.case by (rule lzo_loop_agree [OF assms])
      qed
    qed simp
  qed
qed (simp add: kui_lzo1x_decode_def)

subsection \<open>The output is exactly one block\<close>

lemma lz4_loop_length: "lz4_loop rd sh stop at out m = Inr res \<Longrightarrow> length res = 2048"
proof (induction rd sh stop at out m rule: lz4_loop.induct)
  case (1 rd sh stop at out m)
  obtain tok at1 where a: "zso_take rd stop at 1 = Inr (tok, at1)"
    using "1.prems" by (subst (asm) lz4_loop.simps) (auto split: sum.splits)
  obtain literals at2 where b: "lz4_length rd stop at1 (unat (tok ! 0) div 16) = Inr (literals, at2)"
    using "1.prems" a by (subst (asm) lz4_loop.simps) (auto split: sum.splits)
  obtain bs at3 where c: "zso_take rd stop at2 literals = Inr (bs, at3)" and lit: "\<not> 2048 - length out < literals"
    using "1.prems" a b by (subst (asm) lz4_loop.simps) (auto split: sum.splits if_splits)
  show ?case
  proof (cases "length (out @ bs) = 2048")
    case True
    then show ?thesis using "1.prems" a b c lit by (subst (asm) (1) lz4_loop.simps) (auto simp: Let_def split: if_splits)
  next
    case more: False
    obtain ds at4 where d: "zso_take rd stop at3 2 = Inr (ds, at4)" and dist: "\<not> (le16 ds 0 = 0 \<or> length (out @ bs) < le16 ds 0)"
      using "1.prems" a b c lit more by (subst (asm) lz4_loop.simps) (auto simp: Let_def split: sum.splits if_splits)
    obtain n at5 where f: "lz4_length rd stop at4 (unat (tok ! 0) mod 16) = Inr (n, at5)" and fits: "\<not> 2048 - length (out @ bs) < n + 4"
      using "1.prems" a b c lit more d dist by (subst (asm) lz4_loop.simps) (auto simp: Let_def split: sum.splits if_splits)
    have "lz4_loop rd sh stop at5 (lz_copy (le16 ds 0) (n + 4) (out @ bs)) (Some (length (out @ bs))) = Inr res"
      using "1.prems" a b c lit more d dist f fits by (subst (asm) (1) lz4_loop.simps) (simp add: Let_def)
    from "1.IH" [OF a refl b refl lit c refl refl more d refl refl dist f refl refl fits this] show ?thesis .
  qed
qed

lemma lzo_end_length: "lzo_token rd stop at out state token = Inr (Lzo_end at') \<Longrightarrow> length out = 2048"
  unfolding lzo_token_def lzo_match_def by (auto simp: Let_def split: if_splits sum.splits)

lemma lzo_loop_length: "lzo_loop rd stop at out state token = Inr (res, at') \<Longrightarrow> length res = 2048"
proof (induction rd stop at out state token rule: lzo_loop.induct)
  case (1 rd stop at out state token)
  show ?case
  proof (cases "lzo_token rd stop at out state token")
    case (Inl e)
    then show ?thesis using "1.prems" by (subst (asm) lzo_loop.simps) simp
  next
    case (Inr act)
    show ?thesis
    proof (cases act)
      case (Lzo_end at1)
      then show ?thesis using "1.prems" Inr lzo_end_length [of rd stop at out state token at1] by (subst (asm) (1) lzo_loop.simps) auto
    next
      case (Lzo_run out1 n st at1)
      have x: "lzo_token rd stop at out state token = Inr (Lzo_run out1 n st at1)" using Inr Lzo_run by simp
      obtain o2 t2 at2 where y: "lzo_literals rd stop at1 out1 n = Inr (o2, t2, at2)"
        using "1.prems" x by (subst (asm) lzo_loop.simps) (auto split: sum.splits)
      have "lzo_loop rd stop at2 o2 st t2 = Inr (res, at')" using "1.prems" x y by (subst (asm) (1) lzo_loop.simps) simp
      from "1.IH" [OF x refl y refl refl this] show ?thesis .
    qed
  qed
qed

lemma position_range: "position info entry = Inr v \<Longrightarrow> 24 + index_bytes info \<le> v \<and> v \<le> file_bytes info"
  by (auto simp: position_def Let_def split: if_splits)

lemma pair_range:
  assumes "pair info entry next = Inr (start, stop)"
  shows "24 + index_bytes info \<le> start" "start < stop" "stop \<le> file_bytes info" "stored_raw entry \<Longrightarrow> start + 2048 \<le> stop"
  using assms position_range by (auto simp: pair_def split: sum.splits if_splits)

lemma lzo_decode_length: "kui_lzo1x_decode rd start stop = Inr (out, consumed) \<Longrightarrow> length out = 2048"
  unfolding kui_lzo1x_decode_def by (auto simp: Let_def split: if_splits sum.splits dest: lzo_loop_length)

text \<open>
  C24.  Decoding one block of a compressed image reads nothing but the block's own two index entries and the block's own payload, the
  span from its entry to the next one: two readers that agree on these bytes give the same result, whatever they do elsewhere, errors
  included, with either codec and on any bytes; and a block that is returned is always exactly 2048 bytes long.
\<close>

theorem zso_block_contained:
  assumes "rd (24 + block * 4) 8 = rd' (24 + block * 4) 8"
    and "\<And>entries start stop a n. rd (24 + block * 4) 8 = Inr entries \<Longrightarrow>
      pair info (get32 entries 0) (get32 entries 4) = Inr (start, stop) \<Longrightarrow> start \<le> a \<Longrightarrow> a + n \<le> stop \<Longrightarrow> rd a n = rd' a n"
    and "full_reads rd"
  shows "kui_zso_read_block codecs info block rd = kui_zso_read_block codecs info block rd'
    \<and> (case kui_zso_read_block codecs info block rd of Inl e \<Rightarrow> True | Inr out \<Rightarrow> length out = 2048)"
proof (cases "zso_valid codecs info \<and> block < block_count info")
  case True
  note index = assms(1)
  show ?thesis
  proof (cases "rd (24 + block * 4) 8")
    case (Inr entries)
    note read = Inr
    show ?thesis
    proof (cases "pair info (get32 entries 0) (get32 entries 4)")
      case (Inl e)
      then show ?thesis using True read index by (simp add: kui_zso_read_block_def)
    next
      case (Inr p)
      obtain start stop where p: "pair info (get32 entries 0) (get32 entries 4) = Inr (start, stop)" using Inr by (cases p) auto
      note r = pair_range [OF p]
      have agree: "reads_agree rd rd' start stop" unfolding reads_agree_def using assms(2) [OF read p] by auto
      have raw: "rd start 2048 = rd' start 2048" if "stored_raw (get32 entries 0)"
        by (rule assms(2) [OF read p]) (use r(4) [OF that] in simp_all)
      note eqs = read index [symmetric] p raw lzo_decode_agree [OF agree]
        lz4_loop_agree [OF agree order_refl less_imp_le [OF r(2)]]
      have len: "rd start 2048 = Inr out \<Longrightarrow> length out = 2048" for out using assms(3) by (simp add: full_reads_def)
      show ?thesis using True eqs len by (auto simp: kui_zso_read_block_def dest: lzo_decode_length lz4_loop_length split: sum.splits)
    qed
  qed (use True index in \<open>simp add: kui_zso_read_block_def\<close>)
qed (auto simp: kui_zso_read_block_def not_less)

subsection \<open>LZ4 blocks round trip\<close>

text \<open>
  A parse of a block into sequences of literals and matches, what it denotes, and its LZ4 encoding: length fields of four bits with
  extension bytes, distances of sixteen bits.
\<close>

datatype lz4_sequence = Lz4_sequence (literals: bytes) (distance: nat) (match_length: nat)

fun lz4_expand :: "bytes \<Rightarrow> lz4_sequence list \<Rightarrow> bytes \<Rightarrow> bytes" where
  "lz4_expand out [] final = out @ final"
| "lz4_expand out (Lz4_sequence l d n # ss) final = lz4_expand (lz_copy d n (out @ l)) ss final"

definition lz4_extension :: "nat \<Rightarrow> bytes" where
  "lz4_extension n = (if n < 15 then [] else replicate ((n - 15) div 255) 255 @ [of_nat ((n - 15) mod 255)])"

definition lz4_encode_sequence :: "lz4_sequence \<Rightarrow> bytes" where
  "lz4_encode_sequence s =
     [of_nat (16 * min (length (literals s)) 15 + min (match_length s - 4) 15)] @ lz4_extension (length (literals s)) @ literals s
     @ put16 (distance s) @ lz4_extension (match_length s - 4)"

definition lz4_encode_final :: "bytes \<Rightarrow> bytes" where
  "lz4_encode_final l = [of_nat (16 * min (length l) 15)] @ lz4_extension (length l) @ l"

definition lz4_encode :: "lz4_sequence list \<Rightarrow> bytes \<Rightarrow> bytes" where
  "lz4_encode ss final = concat (map lz4_encode_sequence ss) @ lz4_encode_final final"

text \<open>The rules of the format: matches of at least four bytes that start inside the output, none in the last twelve bytes, five final literals.\<close>

fun lz4_parse_ok :: "nat \<Rightarrow> lz4_sequence list \<Rightarrow> bytes \<Rightarrow> bool" where
  "lz4_parse_ok done_bytes [] final = (5 \<le> length final \<and> done_bytes + length final = 2048)"
| "lz4_parse_ok done_bytes (Lz4_sequence l d n # ss) final =
     (1 \<le> d \<and> d \<le> done_bytes + length l \<and> d < 65536 \<and> 4 \<le> n \<and> done_bytes + length l \<le> 2036
      \<and> lz4_parse_ok (done_bytes + length l + n) ss final)"

definition file_reader :: "bytes \<Rightarrow> zso_read" where
  "file_reader file a n = (if a + n \<le> length file then Inr (window file a n) else Inl Zso_IO)"

definition left_input :: "bytes \<Rightarrow> nat \<Rightarrow> nat \<Rightarrow> bytes" where
  "left_input file stop at = drop at (take stop file)"

lemma take_left:
  assumes "left_input file stop at = xs @ ys" "at \<le> stop" "stop \<le> length file"
  shows "zso_take (file_reader file) stop at (length xs) = Inr (xs, at + length xs)"
    and "left_input file stop (at + length xs) = ys" and "at + length xs \<le> stop"
proof -
  have "length (left_input file stop at) = stop - at" using assms(2,3) by (simp add: left_input_def)
  then have len: "length xs \<le> stop - at" "at + length xs \<le> length file" using assms by simp_all
  have "take (length xs) (drop at (take stop file)) = xs" using assms(1) by (simp add: left_input_def)
  then have "window file at (length xs) = xs" using len assms(2,3) by (simp add: window_def drop_take take_take min_absorb1)
  then show "zso_take (file_reader file) stop at (length xs) = Inr (xs, at + length xs)"
    using len assms(2,3) by (simp add: zso_take_def file_reader_def)
  show "left_input file stop (at + length xs) = ys"
    unfolding left_input_def by (metis add.commute append_eq_conv_conj assms(1) drop_drop left_input_def)
  show "at + length xs \<le> stop" using len assms(2) by simp
qed

lemma lz4_more_left:
  assumes "left_input file stop at = replicate k 255 @ [of_nat r] @ ys" "r < 255" "at \<le> stop" "stop \<le> length file"
    "v + 255 * k + r \<le> 2048"
  shows "lz4_more (file_reader file) stop at v = Inr (v + 255 * k + r, at + k + 1)"
  using assms
proof (induction k arbitrary: at v)
  case 0
  have left: "left_input file stop at = [of_nat r] @ ys" using 0(1) by simp
  have one: "zso_take (file_reader file) stop at 1 = Inr ([of_nat r], at + 1)"
    using take_left(1) [OF left 0(3,4)] by simp
  have "unat (of_nat r :: u8) = r" using 0(2) by (simp add: unat_of_nat)
  then show ?case using one 0 by (subst lz4_more.simps) (simp add: Let_def)
next
  case (Suc k)
  have left: "left_input file stop at = [255] @ (replicate k 255 @ [of_nat r] @ ys)" using Suc.prems(1) by simp
  note t = take_left [OF left Suc.prems(3,4)]
  have "lz4_more (file_reader file) stop (at + 1) (v + 255) = Inr (v + 255 + 255 * k + r, at + 1 + k + 1)"
    by (rule Suc.IH) (use t(2,3) Suc.prems in simp_all)
  then show ?case using t(1) Suc.prems(5) by (subst lz4_more.simps) (simp add: Let_def)
qed

lemma lz4_length_left:
  assumes "left_input file stop at = lz4_extension n @ ys" "at \<le> stop" "stop \<le> length file" "n \<le> 2048"
  shows "lz4_length (file_reader file) stop at (min n 15) = Inr (n, at + length (lz4_extension n))"
proof (cases "n < 15")
  case False
  let ?k = "(n - 15) div 255" and ?r = "(n - 15) mod 255"
  have "15 + 255 * ?k + ?r = n" using False mult_div_mod_eq [of 255 "n - 15"] by linarith
  moreover have "lz4_more (file_reader file) stop at 15 = Inr (15 + 255 * ?k + ?r, at + ?k + 1)"
    by (rule lz4_more_left) (use assms False calculation in \<open>simp_all add: lz4_extension_def\<close>)
  ultimately show ?thesis using False by (simp add: lz4_length_def lz4_extension_def min_def)
qed (simp add: lz4_length_def lz4_extension_def)

lemma token_fields: "a \<le> 15 \<Longrightarrow> b \<le> 15 \<Longrightarrow> unat (of_nat (16 * a + b) :: u8) div 16 = a \<and> unat (of_nat (16 * a + b) :: u8) mod 16 = b"
proof -
  assume ab: "a \<le> 15" "b \<le> 15"
  then have "unat (of_nat (16 * a + b) :: u8) = 16 * a + b" by (simp add: unat_of_nat del: of_nat_add of_nat_mult)
  then show ?thesis using ab by simp
qed

lemma lz4_loop_encode:
  assumes "left_input file stop at = lz4_encode ss final @ pad" "at \<le> stop" "stop \<le> length file" "length pad < 2 ^ sh"
    "lz4_parse_ok (length out) ss final" "case m of None \<Rightarrow> True | Some p \<Rightarrow> p \<le> 2036"
  shows "lz4_loop (file_reader file) sh stop at out m = Inr (lz4_expand out ss final)"
  using assms
proof (induction ss arbitrary: at out m)
  case Nil
  let ?t = "of_nat (16 * min (length final) 15) :: u8"
  have left: "left_input file stop at = [?t] @ (lz4_extension (length final) @ (final @ pad))"
    using Nil.prems(1) by (simp add: lz4_encode_def lz4_encode_final_def)
  note t1 = take_left [OF left Nil.prems(2,3)]
  have field: "unat ?t div 16 = min (length final) 15" using token_fields [of "min (length final) 15" 0] by simp
  have small: "length final \<le> 2048" using Nil.prems(5) by simp
  note t2 = take_left [OF t1(2) t1(3) Nil.prems(3)]
  note t3 = take_left [OF t2(2) t2(3) Nil.prems(3)]
  note len = lz4_length_left [OF t1(2) t1(3) Nil.prems(3) small]
  let ?at = "at + length [?t] + length (lz4_extension (length final)) + length final"
  have "length pad = stop - ?at" using arg_cong [OF t3(2), of length] Nil.prems(3) by (simp add: left_input_def)
  then have "\<not> stop - ?at \<ge> 2 ^ sh" using Nil.prems(4) by simp
  then show ?case
    using t1(1) len t3(1) Nil.prems(5,6) field by (subst lz4_loop.simps) (auto simp: Let_def split: option.splits)
next
  case (Cons s ss)
  obtain l d n where s: "s = Lz4_sequence l d n" by (cases s)
  let ?t = "of_nat (16 * min (length l) 15 + min (n - 4) 15) :: u8"
  have ok: "1 \<le> d" "d \<le> length out + length l" "d < 65536" "4 \<le> n" "length out + length l \<le> 2036"
    "lz4_parse_ok (length out + length l + n) ss final" using Cons.prems(5) by (simp_all add: s)
  have fit: "length out + length l + n \<le> 2048"
  proof -
    have "lz4_parse_ok k ts final \<Longrightarrow> k \<le> 2048" for k ts
      by (cases "(k, ts, final)" rule: lz4_parse_ok.cases) auto
    then show ?thesis using ok(6) by blast
  qed
  have left: "left_input file stop at = [?t] @ (lz4_extension (length l) @ (l @ (put16 d @ (lz4_extension (n - 4) @ (lz4_encode ss final @ pad)))))"
    using Cons.prems(1) by (simp add: lz4_encode_def lz4_encode_sequence_def s)
  note t1 = take_left [OF left Cons.prems(2,3)]
  note t2 = take_left [OF t1(2) t1(3) Cons.prems(3)]
  note t3 = take_left [OF t2(2) t2(3) Cons.prems(3)]
  note t4 = take_left [OF t3(2) t3(3) Cons.prems(3)]
  note t5 = take_left [OF t4(2) t4(3) Cons.prems(3)]
  have fields: "unat ?t div 16 = min (length l) 15" "unat ?t mod 16 = min (n - 4) 15"
    using token_fields [of "min (length l) 15" "min (n - 4) 15"] by simp_all
  have len1: "length l \<le> 2048" and len2: "n - 4 \<le> 2048" using fit by simp_all
  note n1 = lz4_length_left [OF t1(2) t1(3) Cons.prems(3) len1]
  note n2 = lz4_length_left [OF t4(2) t4(3) Cons.prems(3) len2]
  have dist: "le16 (put16 d) 0 = d" using ok(3) by (simp add: wire_simps)
  let ?at = "at + length [?t] + length (lz4_extension (length l)) + length l + length (put16 d) + length (lz4_extension (n - 4))"
  have IH: "lz4_loop (file_reader file) sh stop ?at (lz_copy d n (out @ l)) (Some (length (out @ l)))
      = Inr (lz4_expand (lz_copy d n (out @ l)) ss final)"
    by (rule Cons.IH [OF t5(2) t5(3) Cons.prems(3,4)]) (use ok in simp_all)
  have n4: "n - 4 + 4 = n" using ok(4) by simp
  have room: "\<not> 2048 - (length out + length l) < n" "\<not> 2048 - length out < length l" using fit by linarith+
  show ?case
    using t1(1) n1 t3(1) t4(1) n2 IH ok fit fields dist room
    by (subst lz4_loop.simps) (simp add: Let_def s n4)
qed

text \<open>
  C23.  The LZ4 decoder inverts every conforming encoder: for any parse of a 2048-byte block that obeys the format rules, any length
  of literal runs and matches and any overlap, a container whose index points at the encoded parse (followed by less than an
  alignment unit of padding) gives back exactly the block that the parse denotes.
\<close>

theorem lz4_block_roundtrip:
  assumes "zso_valid codecs info" and "codec info = codec_lz4" and "bit codecs codec_lz4" and "block < block_count info"
    and "24 + block * 4 + 8 \<le> length file" and "stop \<le> length file"
    and "pair info (get32 file (24 + block * 4)) (get32 file (28 + block * 4)) = Inr (start, stop)"
    and "\<not> stored_raw (get32 file (24 + block * 4))"
    and "window file start (stop - start) = lz4_encode ss final @ pad" and "length pad < 2 ^ shift info" and "lz4_parse_ok 0 ss final"
  shows "kui_zso_read_block codecs info block (file_reader file) = Inr (lz4_expand [] ss final)"
proof -
  let ?e = "window file (24 + block * 4) 8"
  have index: "file_reader file (24 + block * 4) 8 = Inr ?e" using assms(5) by (simp add: file_reader_def)
  have "get32 ?e k = get32 file (24 + block * 4 + k)" if "k + 4 \<le> 8" for k
    using that assms(5) by (simp add: get32_def byte_simps ac_simps)
  from this [of 0] this [of 4] have e: "get32 ?e 0 = get32 file (24 + block * 4)" "get32 ?e 4 = get32 file (28 + block * 4)"
    by (simp_all add: ac_simps)
  have "start < stop" by (rule pair_range(2) [OF assms(7)])
  moreover have "left_input file stop start = lz4_encode ss final @ pad"
    using assms(9) calculation by (simp add: left_input_def window_def drop_take)
  ultimately have "lz4_loop (file_reader file) (shift info) stop start [] None = Inr (lz4_expand [] ss final)"
    using assms(6,10,11) by (intro lz4_loop_encode) simp_all
  then show ?thesis using assms(1-4,7,8) index e by (simp add: kui_zso_read_block_def)
qed

subsection \<open>A validated index\<close>

lemma scan_page_pairs:
  assumes "scan_page info prev t es = Inr (p', t')"
  shows "list_all (\<lambda>i. \<exists>x. pair info ((case prev of None \<Rightarrow> es | Some p \<Rightarrow> p # es) ! i) ((case prev of None \<Rightarrow> es | Some p \<Rightarrow> p # es) ! (i + 1)) = Inr x)
      [0..<length (case prev of None \<Rightarrow> es | Some p \<Rightarrow> p # es) - 1]
    \<and> (es \<noteq> [] \<longrightarrow> p' = Some (last es))"
  using assms
proof (induction es arbitrary: prev t)
  case Nil
  then show ?case by (auto split: option.split)
next
  case (Cons e es)
  obtain t1 where rest: "scan_page info (Some e) t1 es = Inr (p', t')"
    and first: "\<And>p. prev = Some p \<Longrightarrow> \<exists>x. pair info p e = Inr x"
    using Cons.prems by (cases prev) (auto split: sum.splits)
  note IH = Cons.IH [OF rest, simplified]
  have p': "p' = Some (last (e # es))" using IH rest by (cases es) auto
  have at: "\<exists>x. pair info ((e # es) ! i) (es ! i) = Inr x" if "i < length es" for i using IH that by (simp add: list_all_iff)
  show ?case
  proof (cases prev)
    case None
    then show ?thesis using at p' by (simp add: list_all_iff)
  next
    case (Some p)
    have "\<exists>x. pair info ((p # e # es) ! i) ((e # es) ! i) = Inr x" if "i < Suc (length es)" for i
      using at first [OF Some] that by (cases i) auto
    then show ?thesis using Some p' by (simp add: list_all_iff)
  qed
qed

definition index_entry :: "bytes \<Rightarrow> nat \<Rightarrow> u32" where
  "index_entry file b = get32 file (24 + b * 4)"

lemma page_words_file:
  assumes "24 + first * 4 + n * 4 \<le> length file"
  shows "page_words (window file (24 + first * 4) (n * 4)) n = map (index_entry file) [first..<first + n]"
proof (rule nth_equalityI)
  fix i assume "i < length (page_words (window file (24 + first * 4) (n * 4)) n)"
  then have i: "i < n" by (simp add: page_words_def)
  then have "i * 4 + 4 \<le> n * 4" by simp
  then have "get32 (window file (24 + first * 4) (n * 4)) (i * 4) = get32 file (24 + (first + i) * 4)"
    using assms by (simp add: get32_def byte_simps algebra_simps)
  then show "page_words (window file (24 + first * 4) (n * 4)) n ! i = map (index_entry file) [first..<first + n] ! i"
    using i by (simp add: page_words_def index_entry_def)
qed (simp add: page_words_def)

lemma scan_index_pairs:
  "scan_index info (file_reader file) first prev t = Inr tm \<Longrightarrow> prev = (if first = 0 then None else Some (index_entry file (first - 1)))
   \<Longrightarrow> first - 1 \<le> b \<Longrightarrow> b < block_count info \<Longrightarrow> \<exists>x. pair info (index_entry file b) (index_entry file (b + 1)) = Inr x"
proof (induction info "file_reader file" first prev t rule: scan_index.induct)
  case (1 info first prev t)
  show ?case
  proof (cases "first > block_count info")
    case True
    then show ?thesis using "1.prems" by (simp add: scan_index.simps)
  next
    case False
    define n where "n = min (block_count info + 1 - first) 32"
    have n: "0 < n" "first + n \<le> block_count info + 1" using False by (simp_all add: n_def)
    have eq: "scan_index info (file_reader file) first prev t = (case file_reader file (24 + first * 4) (n * 4) of Inl e \<Rightarrow> Inl e
        | Inr page \<Rightarrow> (case scan_page info prev t (page_words page n) of Inl e \<Rightarrow> Inl e
           | Inr (p, t) \<Rightarrow> scan_index info (file_reader file) (first + n) p t))"
      using False unfolding scan_index.simps [of info _ first prev t] n_def Let_def by simp
    obtain page where page: "file_reader file (24 + first * 4) (n * 4) = Inr page"
      using "1.prems"(1) unfolding eq by (auto split: sum.splits)
    have room: "24 + first * 4 + n * 4 \<le> length file" and pg: "page = window file (24 + first * 4) (n * 4)"
      using page by (auto simp: file_reader_def split: if_splits)
    let ?es = "map (index_entry file) [first..<first + n]"
    obtain p1 t1 where scan: "scan_page info prev t ?es = Inr (p1, t1)"
      and rest: "scan_index info (file_reader file) (first + n) p1 t1 = Inr tm"
      using "1.prems"(1) page_words_file [OF room] unfolding eq page by (auto simp: pg split: sum.splits)
    have scan': "scan_page info prev t (page_words page n) = Inr (p1, t1)" using scan page_words_file [OF room] by (simp add: pg)
    note pairs = scan_page_pairs [OF scan]
    have "last ?es = index_entry file (first + n - 1)" using n(1) by (simp add: last_map)
    then have p1: "p1 = (if first + n = 0 then None else Some (index_entry file (first + n - 1)))" using pairs n(1) by simp
    have prev: "(case prev of None \<Rightarrow> ?es | Some p \<Rightarrow> p # ?es) = map (index_entry file) [first - 1..<first + n]"
    proof (cases first)
      case (Suc f)
      then show ?thesis using "1.prems"(2) n(1) by (simp add: upt_conv_Cons del: upt_Suc)
    qed (use "1.prems"(2) in simp)
    show ?thesis
    proof (cases "b + 1 < first + n")
      case True
      let ?i = "b - (first - 1)"
      have i: "?i < length [first - 1..<first + n] - 1" using True "1.prems"(3) by (simp del: upt_Suc)
      have at: "[first - 1..<first + n] ! ?i = b" "[first - 1..<first + n] ! (?i + 1) = b + 1"
        using True "1.prems"(3) by (simp_all del: upt_Suc)
      have "\<exists>x. pair info (map (index_entry file) [first - 1..<first + n] ! ?i) (map (index_entry file) [first - 1..<first + n] ! (?i + 1)) = Inr x"
        using pairs i unfolding prev list_all_iff by (metis (no_types, lifting) atLeast0LessThan length_map lessThan_iff set_upt)
      moreover have "?i + 1 < length [first - 1..<first + n]" using i by linarith
      ultimately show ?thesis using at by simp
    next
      case beyond: False
      have "first + n - 1 \<le> b" using beyond by linarith
      from "1.hyps" [OF False n_def page scan' refl rest p1 this "1.prems"(4)] show ?thesis by blast
    qed
  qed
qed

text \<open>The errors that decoding a block of a complete file can report.\<close>

definition payload_error :: "zso_result \<Rightarrow> bool" where
  "payload_error e = (e = Zso_Invalid \<or> e = Zso_IO)"

lemma payload_invalid [simp]: "payload_error Zso_Invalid"
  by (simp add: payload_error_def)

lemma zso_take_error: "zso_take (file_reader file) stop at n = Inl e \<Longrightarrow> payload_error e"
  by (auto simp: zso_take_def file_reader_def payload_error_def split: if_splits)

lemma case_pair_error:
  assumes "(case m of Inl e \<Rightarrow> Inl e | Inr (a, b) \<Rightarrow> f a b) = Inl e" "m = Inl e \<Longrightarrow> P e" "\<And>a b. m = Inr (a, b) \<Longrightarrow> f a b = Inl e \<Longrightarrow> P e"
  shows "P e"
  using assms by (auto split: sum.splits)

lemma lz4_more_error: "lz4_more (file_reader file) stop at v = Inl e \<Longrightarrow> payload_error e"
proof (induction "file_reader file" stop at v rule: lz4_more.induct)
  case (1 stop at v)
  show ?case
  proof (rule case_pair_error [OF "1.prems" [unfolded lz4_more.simps [of _ stop at v]] zso_take_error])
    fix bs at1
    assume x: "zso_take (file_reader file) stop at 1 = Inr (bs, at1)"
      and "(let extra = unat (bs ! 0) in if 2048 - v < extra then Inl Zso_Invalid
        else if extra = 255 then lz4_more (file_reader file) stop at1 (v + extra) else Inr (v + extra, at1)) = Inl e"
    then show "payload_error e" using "1.hyps" [OF x refl refl] by (auto simp: Let_def split: if_splits)
  qed
qed

lemma lz4_length_error: "lz4_length (file_reader file) stop at v = Inl e \<Longrightarrow> payload_error e"
  by (auto simp: lz4_length_def dest: lz4_more_error split: if_splits)

lemma lz4_loop_error: "lz4_loop (file_reader file) sh stop at out m = Inl e \<Longrightarrow> payload_error e"
proof (induction "file_reader file" sh stop at out m rule: lz4_loop.induct)
  case (1 sh stop at out m)
  show ?case
  proof (rule case_pair_error [OF "1.prems" [unfolded lz4_loop.simps [of _ sh stop at out m]] zso_take_error], goal_cases)
    case (2 tok at1)
    note a = 2(1)
    show ?case
    proof (rule case_pair_error [OF 2(2) lz4_length_error], goal_cases)
      case (2 literals at2)
      note b = 2(1)
      show ?case
      proof (cases "literals > 2048 - length out")
        case lit: False
        show ?thesis
        proof (rule case_pair_error [OF 2(2) [unfolded if_not_P [OF lit]] zso_take_error], goal_cases)
          case (2 bs at3)
          note c = 2(1)
          show ?case
          proof (cases "length (out @ bs) = 2048")
            case True
            then show ?thesis using 2(2) by (auto simp: Let_def split: if_splits)
          next
            case more: False
            show ?thesis
            proof (rule case_pair_error [OF 2(2) [unfolded Let_def if_not_P [OF more]] zso_take_error], goal_cases)
              case (2 ds at4)
              note d = 2(1)
              show ?case
              proof (cases "le16 ds 0 = 0 \<or> length (out @ bs) < le16 ds 0")
                case dist: False
                show ?thesis
                proof (rule case_pair_error [OF 2(2) [unfolded if_not_P [OF dist]] lz4_length_error], goal_cases)
                  case (2 n at5)
                  show ?case
                  proof (cases "2048 - length (out @ bs) < n + 4")
                    case fits: False
                    have "lz4_loop (file_reader file) sh stop at5 (lz_copy (le16 ds 0) (n + 4) (out @ bs)) (Some (length (out @ bs))) = Inl e"
                      using 2(2) unfolding if_not_P [OF fits] .
                    from "1.hyps" [OF a refl b refl lit c refl refl more d refl refl dist 2(1) refl refl fits this]
                    show ?thesis .
                  qed (use 2(2) in auto)
                qed
              qed (use 2(2) in auto)
            qed
          qed
        qed
      qed (use 2(2) in auto)
    qed
  qed
qed

lemma lzo_extended_error: "lzo_extended (file_reader file) stop at v = Inl e \<Longrightarrow> payload_error e"
proof (induction "file_reader file" stop at v rule: lzo_extended.induct)
  case (1 stop at v)
  show ?case
  proof (rule case_pair_error [OF "1.prems" [unfolded lzo_extended.simps [of _ stop at v]] zso_take_error], goal_cases)
    case (2 bs at1)
    then show ?case using "1.hyps" [OF 2(1) refl refl refl] by (auto simp: Let_def split: if_splits)
  qed
qed

lemma lzo_match_error: "lzo_match d n t out at = Inl e \<Longrightarrow> payload_error e"
  by (auto simp: lzo_match_def split: if_splits)

lemma lzo_token_error: "lzo_token (file_reader file) stop at out state token = Inl e \<Longrightarrow> payload_error e"
  unfolding lzo_token_def
  by (auto simp: Let_def split: if_splits sum.splits dest!: zso_take_error lzo_extended_error lzo_match_error)

lemma lzo_literals_error: "lzo_literals (file_reader file) stop at out n = Inl e \<Longrightarrow> payload_error e"
  by (auto simp: lzo_literals_def split: if_splits sum.splits dest: zso_take_error)

lemma lzo_loop_error: "lzo_loop (file_reader file) stop at out state token = Inl e \<Longrightarrow> payload_error e"
proof (induction "file_reader file" stop at out state token rule: lzo_loop.induct)
  case (1 stop at out state token)
  show ?case
  proof (cases "lzo_token (file_reader file) stop at out state token")
    case (Inl x)
    then show ?thesis using "1.prems" lzo_token_error by (subst (asm) lzo_loop.simps) auto
  next
    case (Inr act)
    show ?thesis
    proof (cases act)
      case (Lzo_end at1)
      then show ?thesis using "1.prems" Inr by (subst (asm) lzo_loop.simps) simp
    next
      case (Lzo_run out1 n st at1)
      have x: "lzo_token (file_reader file) stop at out state token = Inr (Lzo_run out1 n st at1)" using Inr Lzo_run by simp
      show ?thesis
      proof (cases "lzo_literals (file_reader file) stop at1 out1 n")
        case (Inl y)
        then show ?thesis using "1.prems" x lzo_literals_error by (subst (asm) lzo_loop.simps) auto
      next
        case (Inr y)
        obtain o2 t2 at2 where y: "lzo_literals (file_reader file) stop at1 out1 n = Inr (o2, t2, at2)" using Inr by (cases y) auto
        have "lzo_loop (file_reader file) stop at2 o2 st t2 = Inl e" using "1.prems" x y by (subst (asm) (1) lzo_loop.simps) simp
        from "1.hyps" [OF x refl y refl refl this] show ?thesis .
      qed
    qed
  qed
qed

lemma lzo_decode_error: "kui_lzo1x_decode (file_reader file) start stop = Inl e \<Longrightarrow> payload_error e"
  unfolding kui_lzo1x_decode_def
  by (auto simp: Let_def split: if_splits sum.splits dest: zso_take_error lzo_literals_error lzo_loop_error)

lemma pair_error: "pair info entry next = Inl e \<Longrightarrow> e = Zso_Range"
  by (auto simp: pair_def position_def Let_def split: sum.splits if_splits)

lemma scan_page_error: "scan_page info prev t es = Inl e \<Longrightarrow> e = Zso_Range"
proof (induction es arbitrary: prev t)
  case (Cons x es)
  then show ?case by (cases prev) (auto simp: position_def Let_def split: sum.splits if_splits dest: pair_error)
qed simp

lemma scan_index_error: "scan_index info (file_reader file) first prev t = Inl e \<Longrightarrow> e \<noteq> Zso_OK"
proof (induction info "file_reader file" first prev t rule: scan_index.induct)
  case (1 info first prev t)
  show ?case
  proof (cases "first > block_count info")
    case True
    then show ?thesis using "1.prems" by (simp add: scan_index.simps)
  next
    case False
    let ?n = "min (block_count info + 1 - first) 32"
    have eq: "scan_index info (file_reader file) first prev t = (case file_reader file (24 + first * 4) (?n * 4) of Inl e \<Rightarrow> Inl e
        | Inr page \<Rightarrow> (case scan_page info prev t (page_words page ?n) of Inl e \<Rightarrow> Inl e
           | Inr (p, t) \<Rightarrow> scan_index info (file_reader file) (first + ?n) p t))"
      using False unfolding scan_index.simps [of info _ first prev t] Let_def by simp
    show ?thesis
    proof (cases "file_reader file (24 + first * 4) (?n * 4)")
      case (Inl x)
      then show ?thesis using "1.prems" unfolding eq by (auto simp: file_reader_def split: if_splits)
    next
      case (Inr page)
      show ?thesis
        by (rule case_pair_error [OF "1.prems" [unfolded eq Inr sum.case]])
          (use "1.hyps" [OF False refl Inr _ refl] in \<open>auto dest: scan_page_error\<close>)
    qed
  qed
qed

text \<open>
  C25.  Validating the index once, page by page, is enough: after \<open>kui_zso_validate_index\<close> accepts a file, every block's pair of
  entries bounds a non-empty payload of at most 4096 bytes that lies between the index and the end of the file, consecutive blocks
  are adjacent, and reading a block can only fail because its payload does not decode - never with RANGE or UNSUPPORTED.
\<close>

theorem zso_validated_index:
  assumes "kui_zso_validate_index codecs info (file_reader file) = Zso_OK" and "length file = file_bytes info" and "block < block_count info"
  shows "(case pair info (index_entry file block) (index_entry file (block + 1)) of Inl e \<Rightarrow> False
      | Inr (start, stop) \<Rightarrow> 24 + index_bytes info \<le> start \<and> start < stop \<and> stop \<le> start + 4096 \<and> stop \<le> file_bytes info
          \<and> (if block + 1 < block_count info then position info (index_entry file (block + 1)) = Inr stop else True))
    \<and> (case kui_zso_read_block codecs info block (file_reader file) of Inl e \<Rightarrow> payload_error e | Inr out \<Rightarrow> length out = 2048)"
proof -
  have v: "zso_valid codecs info" and sc: "\<exists>tm. scan_index info (file_reader file) 0 None 0 = Inr tm"
    using assms(1) by (auto simp: kui_zso_validate_index_def split: if_splits sum.splits dest: scan_index_error)
  obtain start stop where p: "pair info (index_entry file block) (index_entry file (block + 1)) = Inr (start, stop)"
  proof -
    obtain tm where "scan_index info (file_reader file) 0 None 0 = Inr tm" using sc by blast
    from scan_index_pairs [OF this, of block] assms(3) show ?thesis using that by auto
  qed
  note r = pair_range [OF p]
  have le: "stop \<le> start + 4096" "position info (index_entry file (block + 1)) = Inr stop"
    using p by (auto simp: pair_def split: sum.splits if_splits)
  have idx: "24 + block * 4 + 8 \<le> length file" using v assms(2,3) unfolding zso_valid_def by simp
  have index: "file_reader file (24 + block * 4) 8 = Inr (window file (24 + block * 4) 8)" using idx by (simp add: file_reader_def)
  have "get32 (window file (24 + block * 4) 8) k = get32 file (24 + block * 4 + k)" if "k + 4 \<le> 8" for k
    using that idx by (simp add: get32_def byte_simps ac_simps)
  from this [of 0] this [of 4] have e: "get32 (window file (24 + block * 4) 8) 0 = index_entry file block"
    "get32 (window file (24 + block * 4) 8) 4 = index_entry file (block + 1)"
    by (simp_all add: index_entry_def algebra_simps)
  have raw: "file_reader file start 2048 = Inr (window file start 2048)" if "stored_raw (index_entry file block)"
    using r(3) r(4) [OF that] assms(2) by (simp add: file_reader_def)
  have full: "full_reads (file_reader file)" by (auto simp: full_reads_def file_reader_def byte_simps split: if_splits)
  have "case kui_zso_read_block codecs info block (file_reader file) of Inl e \<Rightarrow> payload_error e | Inr out \<Rightarrow> length out = 2048"
  proof (cases "stored_raw (index_entry file block)")
    case True
    then show ?thesis using v assms(2,3) index e p raw r(3,4) by (simp add: kui_zso_read_block_def byte_simps)
  next
    case False
    then have eq: "kui_zso_read_block codecs info block (file_reader file) =
        (if codec info = codec_lzo1x \<and> bit codecs codec_lzo1x then
             (case kui_lzo1x_decode (file_reader file) start stop of Inl e \<Rightarrow> Inl e
              | Inr (out, consumed) \<Rightarrow> if stop - start - consumed < 2 ^ shift info then Inr out else Inl Zso_Invalid)
           else if bit codecs codec_lz4 then lz4_loop (file_reader file) (shift info) stop start [] None
           else Inl Zso_Unsupported)"
      using v assms(3) index e p by (simp add: kui_zso_read_block_def)
    have "codec info = codec_lzo1x \<and> bit codecs codec_lzo1x \<or> codec info \<noteq> codec_lzo1x \<and> bit codecs codec_lz4"
      using v by (cases "codec info") (auto simp: zso_valid_def)
    then show ?thesis unfolding eq
      by (auto split: sum.splits dest: lzo_decode_error lzo_decode_length lz4_loop_error lz4_loop_length)
  qed
  then show ?thesis using p r le by simp
qed

subsection \<open>A concrete image\<close>

text \<open>An image of one block: 2043 sevens, written as one literal and one overlapping match, and five final literals.\<close>

definition sample_parse :: "lz4_sequence list" where
  "sample_parse = [Lz4_sequence [7] 1 2042]"

definition sample_payload :: bytes where
  "sample_payload = [0x1f, 7, 1, 0, 255, 255, 255, 255, 255, 255, 255, 238, 0x50, 1, 2, 3, 4, 5]"

definition sample_file :: bytes where
  "sample_file = replicate 24 0 @ put32 32 @ put32 50 @ sample_payload"

definition sample_image :: zso_info where
  "sample_image = \<lparr>file_bytes = 50, total_bytes = 2048, block_count = 1, index_bytes = 8, shift = 0, codec = codec_lz4\<rparr>"

lemma sample_encoding: "lz4_encode sample_parse [1, 2, 3, 4, 5] = sample_payload"
proof -
  have "replicate 7 (255 :: u8) = [255, 255, 255, 255, 255, 255, 255]" by (simp add: eval_nat_numeral)
  then show ?thesis
    by (simp add: lz4_encode_def lz4_encode_sequence_def lz4_encode_final_def lz4_extension_def sample_parse_def sample_payload_def put16_def)
qed

lemma lz_copy_run: "lz_copy 1 n (replicate (Suc k) x) = replicate (Suc k + n) x"
proof (induction n arbitrary: k)
  case (Suc n)
  have "replicate (Suc k) x @ [replicate (Suc k) x ! k] = replicate (Suc (Suc k)) x"
    by (metis lessI nth_replicate replicate_append_same replicate_Suc)
  then show ?case using Suc [of "Suc k"] by simp
qed simp

lemma sample_block: "lz4_expand [] sample_parse [1, 2, 3, 4, 5] = replicate 2043 7 @ [1, 2, 3, 4, 5]"
  using lz_copy_run [of 2042 0 7] by (simp add: sample_parse_def)

lemma sample_valid: "zso_valid 3 sample_image"
  by (simp add: zso_valid_def sample_image_def)

lemma sample_length: "length sample_file = 50"
  by (simp add: sample_file_def sample_payload_def)

lemma sample_index: "get32 sample_file 24 = 32" "get32 sample_file 28 = 50"
  by (simp_all add: sample_file_def get32_def nth_append put32_def upt_rec)

lemma sample_pair: "pair sample_image 32 50 = Inr (32, 50)" "position sample_image 32 = Inr 32" "\<not> stored_raw 32"
  by (simp_all add: pair_def position_def sample_image_def stored_raw_def)

theorem lz4_block_roundtrip_witness:
  "kui_zso_read_block 3 sample_image 0 (file_reader sample_file) = Inr (replicate 2043 7 @ [1, 2, 3, 4, 5])"
  unfolding sample_block [symmetric]
proof (rule lz4_block_roundtrip [where start = 32 and stop = 50 and pad = "[]", OF sample_valid])
  show "window sample_file 32 (50 - 32) = lz4_encode sample_parse [1, 2, 3, 4, 5] @ []"
    by (simp add: sample_encoding) (simp add: sample_file_def sample_payload_def window_def)
qed (simp_all add: sample_length sample_index sample_pair, simp_all add: sample_image_def sample_parse_def)

text \<open>A reader that fails everywhere but on the index entries and on the 18 bytes of the payload gives the same block as the whole file.\<close>

theorem zso_block_contained_witness:
  "kui_zso_read_block 3 sample_image 0 (file_reader sample_file) =
   kui_zso_read_block 3 sample_image 0 (\<lambda>a n. if a = 24 \<and> n = 8 \<or> 32 \<le> a \<and> a + n \<le> 50 then file_reader sample_file a n else Inl Zso_IO)"
proof (rule conjunct1 [OF zso_block_contained])
  show "full_reads (file_reader sample_file)" by (auto simp: full_reads_def file_reader_def byte_simps split: if_splits)
  fix entries start stop a n
  assume e: "file_reader sample_file (24 + 0 * 4) 8 = Inr entries"
    and p: "pair sample_image (get32 entries 0) (get32 entries 4) = Inr (start, stop)" and "start \<le> a" "a + n \<le> stop"
  have "entries = window sample_file 24 8" using e by (simp add: file_reader_def sample_length)
  then have "get32 entries 0 = 32" "get32 entries 4 = 50"
    using sample_index by (simp_all add: get32_def nth_window sample_length)
  then have "start = 32 \<and> stop = 50" using p sample_pair by simp
  then show "file_reader sample_file a n = (if a = 24 \<and> n = 8 \<or> 32 \<le> a \<and> a + n \<le> 50 then file_reader sample_file a n else Inl Zso_IO)"
    using \<open>start \<le> a\<close> \<open>a + n \<le> stop\<close> by simp
qed simp

lemma sample_scan: "kui_zso_validate_index 3 sample_image (file_reader sample_file) = Zso_OK"
proof -
  have words: "page_words (window sample_file 24 8) 2 = [32, 50]"
    using page_words_file [of 0 2 sample_file] sample_length sample_index
    by (simp add: index_entry_def upt_rec)
  have one: "block_count sample_image = 1" by (simp add: sample_image_def)
  have n: "min (block_count sample_image + 1 - 0) 32 = 2" by (simp add: one)
  have "scan_index sample_image (file_reader sample_file) 2 (Some 50) 50 = Inr 50" by (subst scan_index.simps) (simp add: one)
  moreover have "scan_page sample_image None 0 [32, 50] = Inr (Some 50, 50)" by (simp add: sample_pair)
  moreover have "file_reader sample_file 24 8 = Inr (window sample_file 24 8)" by (simp add: file_reader_def sample_length)
  ultimately have "scan_index sample_image (file_reader sample_file) 0 None 0 = Inr 50"
    using words unfolding scan_index.simps [of sample_image _ 0 None 0] Let_def n by (simp add: one del: scan_page.simps flip: numeral_2_eq_2)
  then show ?thesis using sample_valid by (simp add: kui_zso_validate_index_def) (simp add: sample_image_def)
qed

theorem zso_validated_index_witness:
  "case kui_zso_read_block 3 sample_image 0 (file_reader sample_file) of Inl e \<Rightarrow> payload_error e | Inr out \<Rightarrow> length out = 2048"
  using zso_validated_index [OF sample_scan, of 0] by (simp add: sample_length) (simp add: sample_image_def)

subsection \<open>Stored LZO1X blocks\<close>

lemma lzo_extended_left:
  assumes "left_input file stop at = replicate k 0 @ [of_nat r] @ ys" "0 < r" "r < 256" "at \<le> stop" "stop \<le> length file"
    "v + 255 * k + r \<le> 2048"
  shows "lzo_extended (file_reader file) stop at v = Inr (v + 255 * k + r, at + k + 1)"
  using assms
proof (induction k arbitrary: at v)
  case 0
  have left: "left_input file stop at = [of_nat r] @ ys" using 0(1) by simp
  have "unat (of_nat r :: u8) = r" using 0(3) by (simp add: unat_of_nat)
  then show ?case using take_left(1) [OF left 0(4,5)] 0 by (subst lzo_extended.simps) (simp add: Let_def)
next
  case (Suc k)
  have left: "left_input file stop at = [0] @ (replicate k 0 @ [of_nat r] @ ys)" using Suc.prems(1) by simp
  note t = take_left [OF left Suc.prems(4,5)]
  have "lzo_extended (file_reader file) stop (at + 1) (v + 255) = Inr (v + 255 + 255 * k + r, at + 1 + k + 1)"
    by (rule Suc.IH) (use t(2,3) Suc.prems in simp_all)
  then show ?case using t(1) Suc.prems(6) by (subst lzo_extended.simps) (simp add: Let_def)
qed

text \<open>One literal run of 2048 bytes - fifteen plus three are implicit, 7 * 255 + 245 follow - and the end marker.\<close>

definition lzo_store :: "bytes \<Rightarrow> bytes" where
  "lzo_store block = [0] @ replicate 7 0 @ [245] @ block @ [17, 0, 0]"

text \<open>
  The historical LZO1X decoder gives back every block that was stored as one literal run: whatever the 2048 bytes are and
  whatever follows in the container, decoding returns them unchanged and reports exactly the bytes of the stream as consumed.
\<close>

theorem lzo_stored_roundtrip:
  assumes "length block = 2048" and "stop \<le> length file" and "start \<le> stop" and "window file start (stop - start) = lzo_store block @ rest"
  shows "kui_lzo1x_decode (file_reader file) start stop = Inr (block, length (lzo_store block))"
proof -
  have l0: "left_input file stop start = [0] @ (replicate 7 0 @ [of_nat 245] @ (block @ ([17] @ ([0] @ ([0] @ rest)))))"
    using assms(3,4) by (simp add: left_input_def window_def drop_take lzo_store_def)
  note t0 = take_left [OF l0 assms(3,2)]
  have ext: "lzo_extended (file_reader file) stop (start + 1) 15 = Inr (15 + 255 * 7 + 245, start + 1 + 7 + 1)"
    by (rule lzo_extended_left [OF t0(2) [simplified length_Cons list.size One_nat_def [symmetric] add_0]]) (use t0(3) assms(2) in simp_all)
  have l1: "left_input file stop (start + 1) = (replicate 7 0 @ [of_nat 245]) @ (block @ ([17] @ ([0] @ ([0] @ rest))))"
    using t0(2) by simp
  note t1 = take_left [OF l1 _ assms(2)]
  have a1: "start + 1 \<le> stop" using t0(3) by simp
  have l2: "left_input file stop (start + 9) = block @ ([17] @ ([0] @ ([0] @ rest)))" using t1(2) [OF a1] by (simp add: ac_simps)
  have a2: "start + 9 \<le> stop" using t1(3) [OF a1] by (simp add: ac_simps)
  note t2 = take_left [OF l2 a2 assms(2)]
  note t3 = take_left [OF t2(2) t2(3) assms(2)]
  note t4 = take_left [OF t3(2) t3(3) assms(2)]
  note t5 = take_left [OF t4(2) t4(3) assms(2)]
  have tok1: "lzo_token (file_reader file) stop (start + 1) [] 0 0 = Inr (Lzo_run [] 2048 1 (start + 9))"
    using ext by (simp add: lzo_token_def)
  have lits: "lzo_literals (file_reader file) stop (start + 9) [] 2048 = Inr (block, 17, start + 9 + 2048 + 1)"
    using t2(1) t3(1) assms(1) by (simp add: lzo_literals_def)
  have tok2: "lzo_token (file_reader file) stop (start + 9 + 2048 + 1) block 1 17 = Inr (Lzo_end (start + 9 + 2048 + 3))"
    using t4(1) t5(1) assms(1) by (simp add: lzo_token_def Let_def)
  have "lzo_loop (file_reader file) stop (start + 9 + 2048 + 1) block 1 17 = Inr (block, start + 9 + 2048 + 3)"
    using tok2 by (subst lzo_loop.simps) simp
  then have "lzo_loop (file_reader file) stop (start + 1) [] 0 0 = Inr (block, start + 9 + 2048 + 3)"
    using tok1 lits by (subst lzo_loop.simps) simp
  moreover have "\<not> start \<ge> stop" using a1 by simp
  moreover have "zso_take (file_reader file) stop start 1 = Inr ([0], start + 1)" using t0(1) by simp
  ultimately show ?thesis using assms(1) by (simp add: kui_lzo1x_decode_def Let_def lzo_store_def)
qed

theorem lzo_stored_roundtrip_witness:
  "kui_lzo1x_decode (file_reader (lzo_store (replicate 2048 9))) 0 2060 = Inr (replicate 2048 9, 2060)"
proof -
  have len: "length (lzo_store (replicate 2048 9)) = 2060" by (simp add: lzo_store_def)
  have "window (lzo_store (replicate 2048 9)) 0 (2060 - 0) = lzo_store (replicate 2048 9) @ []"
    using window_all [of "lzo_store (replicate 2048 9)"] len by simp
  from lzo_stored_roundtrip [OF _ _ _ this] len show ?thesis by simp
qed

end
