(* ===== verification/Retail_Image.thy ===== *)
theory Retail_Image
  imports Kui_Checksums
begin

text \<open>
  The map of a disc image on the card and its reader (src/core/retail\_image.c): the tracks of a game, the card extents that
  store each of them, the admission check of the map, its wire form, and the sector reader with its one-block cache.

  The slot table of the C structure, which holds the tracks and then every track's extents, is the two lists \<open>tracks\<close> and
  \<open>extents\<close>; slot numbers are kept, so extent \<open>j\<close> is slot \<open>length tracks + j\<close>.  Its capacity \<open>KUI_RETAIL_MANIFEST_SLOTS\<close>
  depends on the build and is the parameter \<open>cap\<close>.  Sector and byte numbers are natural numbers: the admission check bounds
  all of them far below \<open>2 ^ 32\<close> (lemma \<open>track_bytes_bound\<close>) and the code widens every sum of card addresses to 64 bits.  The variants for
  \<open>KUI_RETAIL_MDK2_CDDA\<close> and \<open>KUI_RETAIL_CE\<close> are not modelled.
\<close>

unbundle bit_operations_syntax

datatype game_result = Game_OK | Game_Invalid | Game_Syntax | Game_Unsupported | Game_Not_Found | Game_IO | Game_Cancelled
  | Game_File_Size | Game_Overlap | Game_Range | Game_Gap | Game_Audio | Game_Mode

datatype sector_format = Sector_Raw | Sector_Mode1

record retail_track =
  start_lba :: nat
  end_lba :: nat
  first_extent :: nat
  extent_count :: nat
  control :: u8

record retail_extent =
  file_block :: nat
  card_lba :: nat
  blocks :: nat

record retail_manifest =
  card_sectors :: nat
  partition_start :: nat
  partition_end :: nat
  session_lba :: nat
  boot_lba :: nat
  boot_bytes :: nat
  storage_transport :: nat
  reader :: nat
  flags :: u32
  boot_crc32 :: u32
  ip_crc32 :: u32
  gdi_crc32 :: u32
  title :: bytes
  product :: bytes
  bootfile :: bytes
  region :: bytes
  tracks :: "retail_track list"
  extents :: "retail_extent list"

abbreviation (input) lba_limit :: nat where "lba_limit \<equiv> 719850"

subsection \<open>Track layout\<close>

text \<open>The control byte: bit 2 marks data; bits 3 to 7 are the high bit of the byte offset and the stored layouts.\<close>

abbreviation (input) data_track :: "retail_track \<Rightarrow> bool" where "data_track t \<equiv> bit (control t) 2"
abbreviation (input) offset_high :: "retail_track \<Rightarrow> bool" where "offset_high t \<equiv> bit (control t) 3"
abbreviation (input) track_2448 :: "retail_track \<Rightarrow> bool" where "track_2448 t \<equiv> bit (control t) 4"
abbreviation (input) track_2336 :: "retail_track \<Rightarrow> bool" where "track_2336 t \<equiv> bit (control t) 5"
abbreviation (input) track_mode2 :: "retail_track \<Rightarrow> bool" where "track_mode2 t \<equiv> bit (control t) 6"
abbreviation (input) track_cooked :: "retail_track \<Rightarrow> bool" where "track_cooked t \<equiv> bit (control t) 7"

definition kui_retail_track_first_extent :: "retail_track \<Rightarrow> nat" where
  "kui_retail_track_first_extent t = first_extent t mod 256"

definition kui_retail_track_file_offset :: "retail_track \<Rightarrow> nat" where
  "kui_retail_track_file_offset t = first_extent t div 256 + (if offset_high t then 256 else 0)"

definition kui_retail_track_sector_bytes :: "retail_track \<Rightarrow> nat" where
  "kui_retail_track_sector_bytes t = (if track_cooked t then 2048 else if track_2336 t then 2336 else if track_2448 t then 2448 else 2352)"

definition kui_retail_track_header_bytes :: "retail_track \<Rightarrow> nat" where
  "kui_retail_track_header_bytes t = (if track_cooked t then 0 else if track_2336 t then 8 else if track_mode2 t then 24 else 16)"

definition slot_extent :: "retail_manifest \<Rightarrow> nat \<Rightarrow> retail_extent" where
  "slot_extent m i = extents m ! (i - length (tracks m))"

subsection \<open>Admission of a map\<close>

definition text_valid :: "bytes \<Rightarrow> bool \<Rightarrow> bool" where
  "text_valid p required =
     (\<not> (required \<and> p ! 0 = 0)
      \<and> (case dropWhile (\<lambda>c. 32 \<le> c \<and> c \<le> 126) p of [] \<Rightarrow> False | c # rest \<Rightarrow> c = 0 \<and> zeroes rest))"

definition layout_ok :: "u32 \<Rightarrow> retail_track \<Rightarrow> bool" where
  "layout_ok fl t =
     (\<not> (start_lba t \<ge> end_lba t \<or> end_lba t > lba_limit
         \<or> (\<not> bit fl 0 \<and> start_lba t < 45000 \<and> end_lba t > 45000)
         \<or> control t AND 3 \<noteq> 0
         \<or> (\<not> data_track t \<and> (track_cooked t \<or> track_mode2 t \<or> track_2336 t))
         \<or> (track_cooked t \<and> (track_2336 t \<or> track_2448 t))
         \<or> (track_2336 t \<and> (\<not> track_mode2 t \<or> track_2448 t))))"

definition tracks_valid :: "nat \<Rightarrow> retail_manifest \<Rightarrow> bool" where
  "tracks_valid cap m =
     (let n = length (tracks m) in
      n \<noteq> 0 \<and> n \<le> 99 \<and> n \<le> cap
      \<and> (\<forall>i<n. layout_ok (flags m) (tracks m ! i) \<and> \<not> (i \<noteq> 0 \<and> end_lba (tracks m ! (i - 1)) > start_lba (tracks m ! i))))"

text \<open>The loop of \<open>range_check\<close> over the tracks.\<close>

fun range_scan :: "retail_track list \<Rightarrow> nat \<Rightarrow> nat \<Rightarrow> sector_format \<Rightarrow> game_result" where
  "range_scan [] cursor stop format = (if cursor = stop then Game_OK else Game_Range)"
| "range_scan (t # ts) cursor stop format =
     (if \<not> cursor < stop then (if cursor = stop then Game_OK else Game_Range)
      else if end_lba t \<le> cursor then range_scan ts cursor stop format
      else if start_lba t > cursor then Game_Gap
      else if extent_count t = 0 \<or> (format = Sector_Mode1 \<and> \<not> data_track t) then Game_Audio
      else if format = Sector_Raw \<and> (track_cooked t \<or> track_2336 t) then Game_Unsupported
      else range_scan ts (if end_lba t < stop then end_lba t else stop) stop format)"

definition range_check :: "retail_manifest \<Rightarrow> nat \<Rightarrow> nat \<Rightarrow> sector_format \<Rightarrow> game_result" where
  "range_check m lba count format =
     (if count = 0 then Game_Invalid
      else if lba < start_lba (tracks m ! 0) \<or> lba \<ge> lba_limit \<or> count > lba_limit - lba
           \<or> lba + count > end_lba (tracks m ! (length (tracks m) - 1)) then Game_Range
      else range_scan (tracks m) lba (lba + count) format)"

definition kui_retail_image_check_validated :: "retail_manifest \<Rightarrow> nat \<Rightarrow> nat \<Rightarrow> sector_format \<Rightarrow> game_result" where
  "kui_retail_image_check_validated m lba count format = (if count > 64 then Game_Range else range_check m lba count format)"

definition kui_retail_image_check :: "nat \<Rightarrow> retail_manifest \<Rightarrow> nat \<Rightarrow> nat \<Rightarrow> sector_format \<Rightarrow> game_result" where
  "kui_retail_image_check cap m lba count format =
     (if \<not> tracks_valid cap m then Game_Invalid else kui_retail_image_check_validated m lba count format)"

definition owns :: "retail_track \<Rightarrow> nat \<Rightarrow> bool" where
  "owns t index = (index \<ge> kui_retail_track_first_extent t \<and> index - kui_retail_track_first_extent t < extent_count t)"

fun owner_from :: "retail_track list \<Rightarrow> nat \<Rightarrow> nat \<Rightarrow> nat option" where
  "owner_from [] k index = None"
| "owner_from (t # ts) k index = (if owns t index then Some k else owner_from ts (Suc k) index)"

definition extent_owner :: "retail_manifest \<Rightarrow> nat \<Rightarrow> nat option" where
  "extent_owner m index = owner_from (tracks m) 0 index"

definition track_bytes :: "retail_track \<Rightarrow> nat" where
  "track_bytes t = kui_retail_track_file_offset t + (end_lba t - start_lba t) * kui_retail_track_sector_bytes t"

definition boundary_block :: "retail_track \<Rightarrow> retail_track \<Rightarrow> retail_extent \<Rightarrow> retail_extent \<Rightarrow> nat \<Rightarrow> bool" where
  "boundary_block ta tb e q first =
     (let stop = track_bytes ta; start = kui_retail_track_file_offset tb in
      stop mod 512 \<noteq> 0 \<and> start \<noteq> 0 \<and> stop mod 512 \<le> start
      \<and> file_block e + (first - card_lba e) = (stop - 1) div 512 \<and> file_block q + (first - card_lba q) = 0)"

definition shared_boundary :: "retail_manifest \<Rightarrow> nat \<Rightarrow> nat \<Rightarrow> bool" where
  "shared_boundary m ei qi =
     (let e = slot_extent m ei; q = slot_extent m qi;
          first = (if card_lba e > card_lba q then card_lba e else card_lba q);
          stop = (if card_lba e + blocks e > card_lba q + blocks q then card_lba q + blocks q else card_lba e + blocks e) in
      if stop - first \<noteq> 1 then False
      else case (extent_owner m ei, extent_owner m qi) of
        (Some a, Some b) \<Rightarrow>
          if a + 1 \<noteq> b \<and> b + 1 \<noteq> a then False
          else if a > b then boundary_block (tracks m ! b) (tracks m ! a) q e first
          else boundary_block (tracks m ! a) (tracks m ! b) e q first
      | _ \<Rightarrow> False)"

definition manifest_fields_ok :: "nat \<Rightarrow> retail_manifest \<Rightarrow> bool" where
  "manifest_fields_ok cap m =
     (\<not> (\<not> tracks_valid cap m \<or> storage_transport m > 2 \<or> card_sectors m = 0 \<or> card_sectors m > 0x100000000
         \<or> flags m AND NOT 7 \<noteq> 0 \<or> (bit (flags m) 1 \<and> \<not> bit (flags m) 0)
         \<or> reader m > 2 \<or> (reader m \<noteq> 0 \<and> (storage_transport m \<noteq> 1 \<or> length (tracks m) > 64 \<or> length (extents m) > 64 - length (tracks m)))
         \<or> partition_start m \<ge> partition_end m \<or> partition_end m > card_sectors m
         \<or> extents m = [] \<or> length (extents m) > cap - length (tracks m)
         \<or> \<not> text_valid (title m) True \<or> \<not> text_valid (product m) False
         \<or> \<not> text_valid (bootfile m) True \<or> \<not> text_valid (region m) False))"

text \<open>The extents of one track, in file order from \<open>next_block\<close>.\<close>

fun extents_fit :: "retail_manifest \<Rightarrow> retail_extent list \<Rightarrow> nat \<Rightarrow> nat \<Rightarrow> game_result + nat" where
  "extents_fit m [] whole next_block = Inr next_block"
| "extents_fit m (e # es) whole next_block =
     (if file_block e \<noteq> next_block \<or> blocks e = 0 \<or> blocks e > whole - next_block
         \<or> card_lba e < partition_start m \<or> card_lba e + blocks e > partition_end m then Inl Game_Range
      else extents_fit m es whole (next_block + blocks e))"

definition track_extents :: "retail_manifest \<Rightarrow> retail_track \<Rightarrow> retail_extent list" where
  "track_extents m t = map (slot_extent m) [kui_retail_track_first_extent t ..< kui_retail_track_first_extent t + extent_count t]"

fun check_tracks :: "retail_manifest \<Rightarrow> retail_track list \<Rightarrow> nat \<Rightarrow> bool \<Rightarrow> game_result + (nat \<times> bool)" where
  "check_tracks m [] next_extent session_found = Inr (next_extent, session_found)"
| "check_tracks m (t # ts) next_extent session_found =
     (let used = length (tracks m) + length (extents m);
          session_found = (session_found \<or> (data_track t \<and> start_lba t = session_lba m \<and> (bit (flags m) 0 \<or> session_lba m \<ge> 45000))) in
      if kui_retail_track_first_extent t \<noteq> next_extent \<or> extent_count t > used - next_extent
         \<or> (extent_count t = 0 \<and> data_track t) then Inl Game_Range
      else if extent_count t = 0 then check_tracks m ts next_extent session_found
      else let whole = (track_bytes t + 511) div 512 in
        case extents_fit m (track_extents m t) whole 0 of Inl r \<Rightarrow> Inl r
        | Inr next_block \<Rightarrow> if next_block \<noteq> whole then Inl Game_File_Size
                          else check_tracks m ts (next_extent + extent_count t) session_found)"

definition card_meet :: "retail_extent \<Rightarrow> retail_extent \<Rightarrow> bool" where
  "card_meet e q = (card_lba e < card_lba q + blocks q \<and> card_lba q < card_lba e + blocks e)"

definition kui_retail_manifest_validate :: "nat \<Rightarrow> retail_manifest \<Rightarrow> game_result" where
  "kui_retail_manifest_validate cap m =
     (if \<not> manifest_fields_ok cap m then Game_Invalid
      else let n = length (tracks m); used = n + length (extents m) in
        case check_tracks m (tracks m) n False of Inl r \<Rightarrow> r
        | Inr (next_extent, session_found) \<Rightarrow>
          if next_extent \<noteq> used \<or> \<not> session_found \<or> boot_bytes m = 0 \<or> boot_bytes m > 12582912 \<or> boot_lba m < session_lba m
          then Game_Invalid
          else let r = range_check m (boot_lba m) ((boot_bytes m + 2047) div 2048) Sector_Mode1 in
            if r \<noteq> Game_OK then r
            else if (\<exists>i\<in>set [n..<used]. \<exists>j\<in>set [n..<i].
                       card_meet (slot_extent m i) (slot_extent m j) \<and> \<not> shared_boundary m i j) then Game_Overlap
            else Game_OK)"

subsection \<open>The wire form\<close>

definition retail_magic :: bytes where
  "retail_magic = [0x4b, 0x55, 0x49, 0x52, 0x54, 0x49, 0x30, 0x33]"

definition wire_crc :: "bytes \<Rightarrow> u32" where
  "wire_crc wire =
     (let crc = kui_retail_crc32 0 (window wire 0 16);
          crc = kui_retail_crc32 crc (replicate 4 0)
      in kui_retail_crc32 crc (window wire 20 (4096 - 20)))"

definition wire_header :: "retail_manifest \<Rightarrow> bytes" where
  "wire_header m =
     retail_magic @ put32 3 @ put32 4096 @ replicate 4 0
     @ put32 (of_nat (length (tracks m))) @ put32 (of_nat (length (extents m))) @ put32 (of_nat (storage_transport m))
     @ put64 (of_nat (card_sectors m)) @ put64 (of_nat (partition_start m)) @ put64 (of_nat (partition_end m))
     @ put32 (of_nat (session_lba m)) @ put32 (of_nat (boot_lba m)) @ put32 (of_nat (boot_bytes m)) @ put32 (gdi_crc32 m)
     @ title m @ product m @ bootfile m @ region m
     @ put32 (boot_crc32 m) @ put32 (ip_crc32 m) @ put32 (of_nat (reader m)) @ put32 (flags m) @ replicate 48 0"

definition track_record :: "retail_track \<Rightarrow> bytes" where
  "track_record t = put32 (of_nat (start_lba t)) @ put32 (of_nat (end_lba t))
     @ [control t, of_nat (extent_count t), of_nat (kui_retail_track_file_offset t), 0]"

definition extent_record :: "retail_extent \<Rightarrow> bytes" where
  "extent_record e = put32 (of_nat (file_block e)) @ put32 (of_nat (card_lba e)) @ put32 (of_nat (blocks e))"

definition kui_retail_manifest_encode :: "nat \<Rightarrow> retail_manifest \<Rightarrow> game_result + bytes" where
  "kui_retail_manifest_encode cap m =
     (let r = kui_retail_manifest_validate cap m in
      if r \<noteq> Game_OK then Inl r
      else let records = concat (map track_record (tracks m)) @ concat (map extent_record (extents m));
               out = wire_header m @ records @ replicate (4096 - 320 - length records) 0
           in Inr (patch out 16 (put32 (wire_crc out))))"

fun decode_tracks :: "bytes list \<Rightarrow> nat \<Rightarrow> retail_track list option" where
  "decode_tracks [] next_extent = Some []"
| "decode_tracks (p # ps) next_extent =
     (if p ! 11 \<noteq> 0 then None
      else case decode_tracks ps (next_extent + unat (p ! 9)) of None \<Rightarrow> None
        | Some ts \<Rightarrow> Some (\<lparr>start_lba = unat (get32 p 0), end_lba = unat (get32 p 4),
              first_extent = unat ((of_nat next_extent :: u16) OR push_bit 8 (ucast (p ! 10))),
              extent_count = unat (p ! 9), control = p ! 8\<rparr> # ts))"

definition decode_extent :: "bytes \<Rightarrow> retail_extent" where
  "decode_extent p = \<lparr>file_block = unat (get32 p 0), card_lba = unat (get32 p 4), blocks = unat (get32 p 8)\<rparr>"

definition wire_record :: "bytes \<Rightarrow> nat \<Rightarrow> bytes" where
  "wire_record wire i = window wire (320 + i * 12) 12"

definition kui_retail_manifest_decode :: "nat \<Rightarrow> bytes \<Rightarrow> game_result + retail_manifest" where
  "kui_retail_manifest_decode cap wire =
     (if window wire 0 8 \<noteq> retail_magic \<or> get32 wire 8 \<noteq> 3 \<or> get32 wire 12 \<noteq> 4096 \<or> get32 wire 16 \<noteq> wire_crc wire
         \<or> \<not> zeroes (window wire 272 48) then Inl Game_Invalid
      else let n = unat (get32 wire 20); k = unat (get32 wire 24) in
        if n > 99 \<or> n > cap \<or> k > cap - n then Inl Game_Invalid
        else if \<not> zeroes (drop (320 + (n + k) * 12) wire) then Inl Game_Invalid
        else case decode_tracks (map (wire_record wire) [0..<n]) n of None \<Rightarrow> Inl Game_Invalid
        | Some ts \<Rightarrow>
          let m = \<lparr>card_sectors = unat (get64 wire 32), partition_start = unat (get64 wire 40), partition_end = unat (get64 wire 48),
                   session_lba = unat (get32 wire 56), boot_lba = unat (get32 wire 60), boot_bytes = unat (get32 wire 64),
                   storage_transport = unat (get32 wire 28), reader = unat (get32 wire 264), flags = get32 wire 268,
                   boot_crc32 = get32 wire 256, ip_crc32 = get32 wire 260, gdi_crc32 = get32 wire 68,
                   title = window wire 72 128, product = window wire 200 16, bootfile = window wire 216 24, region = window wire 240 16,
                   tracks = ts, extents = map (\<lambda>j. decode_extent (wire_record wire (n + j))) [0..<k]\<rparr>;
              r = kui_retail_manifest_validate cap m
          in if r \<noteq> Game_OK then Inl r else Inr m)"

subsection \<open>The sector reader\<close>

text \<open>
  A card callback takes its context and a block number and returns whether it failed, the 512 bytes it left in the buffer and the new
  context; a streaming callback also gets the number of blocks that may follow.  On an error the output of a read is unspecified and
  not represented.
\<close>

record 's retail_image =
  manifest :: retail_manifest
  read_block :: "'s \<Rightarrow> nat \<Rightarrow> bool \<times> bytes \<times> 's"
  read_run :: "('s \<Rightarrow> nat \<Rightarrow> nat \<Rightarrow> bool \<times> bytes \<times> 's) option"
  card_context :: 's
  blocks_read :: u32
  cached_lba :: nat
  cache_valid :: bool
  block :: bytes

definition kui_retail_image_init :: "nat \<Rightarrow> retail_manifest \<Rightarrow> ('s \<Rightarrow> nat \<Rightarrow> bool \<times> bytes \<times> 's) \<Rightarrow> 's \<Rightarrow> game_result + 's retail_image" where
  "kui_retail_image_init cap m rd ctx =
     (let r = kui_retail_manifest_validate cap m in
      if r \<noteq> Game_OK then Inl r
      else Inr \<lparr>manifest = m, read_block = rd, read_run = None, card_context = ctx, blocks_read = 0, cached_lba = 0,
                cache_valid = False, block = replicate 512 0\<rparr>)"

function extent_search :: "retail_manifest \<Rightarrow> nat \<Rightarrow> nat \<Rightarrow> nat \<Rightarrow> nat" where
  "extent_search m fb lo hi =
     (if lo + 1 < hi
      then let mid = lo + (hi - lo) div 2 in
        if file_block (slot_extent m mid) \<le> fb then extent_search m fb mid hi else extent_search m fb lo mid
      else lo)"
  by auto
termination
  by (relation "measure (\<lambda>(m, fb, lo, hi). hi - lo)") auto

declare extent_search.simps [simp del]

text \<open>Bringing the card block of a file block into the cache.\<close>

definition fetch :: "'s retail_image \<Rightarrow> retail_extent \<Rightarrow> nat \<Rightarrow> nat \<Rightarrow> game_result \<times> 's retail_image" where
  "fetch img e fb limit =
     (let lba = card_lba e + fb - file_block e in
      if cache_valid img \<and> cached_lba img = lba then (Game_OK, img)
      else let img = img\<lparr>cache_valid := False\<rparr> in
        if read_run img \<noteq> None \<and> fb \<ge> limit then (Game_Range, img)
        else case (case read_run img of
                 Some run \<Rightarrow> run (card_context img) lba (min (limit - fb) (blocks e - (fb - file_block e)))
               | None \<Rightarrow> read_block img (card_context img) lba) of
          (failed, bs, ctx) \<Rightarrow>
            let img = img\<lparr>card_context := ctx, block := bs\<rparr> in
            if failed then (Game_IO, img)
            else (Game_OK, img\<lparr>blocks_read := blocks_read img + 1, cached_lba := lba, cache_valid := True\<rparr>))"

function file_loop :: "'s retail_image \<Rightarrow> retail_track \<Rightarrow> nat \<Rightarrow> nat \<Rightarrow> nat \<Rightarrow> game_result \<times> bytes \<times> 's retail_image" where
  "file_loop img track offset n limit =
     (if n = 0 then (Game_OK, [], img)
      else let fb = offset div 512; inside = offset mod 512; tk = min (512 - inside) n;
               first = kui_retail_track_first_extent track;
               e = slot_extent (manifest img) (extent_search (manifest img) fb first (first + extent_count track)) in
        if fb < file_block e \<or> fb - file_block e \<ge> blocks e then (Game_Range, [], img)
        else case fetch img e fb limit of (r, img) \<Rightarrow>
          if r \<noteq> Game_OK then (r, [], img)
          else case file_loop img track (offset + tk) (n - tk) limit of (r, out, img') \<Rightarrow>
            (r, window (block img) inside tk @ out, img'))"
  by pat_completeness auto
termination
  by (relation "measure (\<lambda>(img, track, offset, n, limit). n)") auto

declare file_loop.simps [simp del]

definition file_read :: "'s retail_image \<Rightarrow> retail_track \<Rightarrow> nat \<Rightarrow> nat \<Rightarrow> nat \<Rightarrow> game_result \<times> bytes \<times> 's retail_image" where
  "file_read img track offset n limit = file_loop img track (offset + kui_retail_track_file_offset track) n limit"

definition subheader_ok :: "bytes \<Rightarrow> nat \<Rightarrow> bool" where
  "subheader_ok header sub = (\<not> (window header sub 4 \<noteq> window header (sub + 4) 4 \<or> bit (header ! (sub + 2)) 5))"

definition header_ok :: "retail_track \<Rightarrow> bytes \<Rightarrow> bool" where
  "header_ok t header =
     (if \<not> track_2336 t then
        if header ! 0 \<noteq> 0 \<or> header ! 11 \<noteq> 0 \<or> header ! 15 \<noteq> (if track_mode2 t then 2 else 1) then False
        else if \<exists>i\<in>set [1..<11]. header ! i \<noteq> 255 then False
        else if \<not> track_mode2 t then True
        else subheader_ok header 16
      else subheader_ok header 0)"

definition data_header :: "'s retail_image \<Rightarrow> retail_track \<Rightarrow> nat \<Rightarrow> nat \<Rightarrow> game_result \<times> 's retail_image" where
  "data_header img t offset limit =
     (let n = kui_retail_track_header_bytes t in
      if n = 0 then (Game_OK, img)
      else case file_read img t offset n limit of (r, header, img) \<Rightarrow>
        if r \<noteq> Game_OK then (r, img) else (if header_ok t header then Game_OK else Game_Mode, img))"

function track_seek :: "retail_manifest \<Rightarrow> nat \<Rightarrow> nat \<Rightarrow> nat" where
  "track_seek m current k =
     (if k < length (tracks m) \<and> end_lba (tracks m ! k) \<le> current then track_seek m current (Suc k) else k)"
  by auto
termination
  by (relation "measure (\<lambda>(m, current, k). length (tracks m) - k)") auto

declare track_seek.simps [simp del]

definition sector_size :: "sector_format \<Rightarrow> nat" where
  "sector_size format = (case format of Sector_Raw \<Rightarrow> 2352 | Sector_Mode1 \<Rightarrow> 2048)"

text \<open>One turn of the sector loops: check the header of the current sector and copy \<open>n\<close> bytes of its payload from byte \<open>skip\<close> on.\<close>

definition sector_read :: "'s retail_image \<Rightarrow> sector_format \<Rightarrow> nat \<Rightarrow> nat \<Rightarrow> nat \<Rightarrow> nat \<Rightarrow> nat \<Rightarrow> game_result \<times> bytes \<times> 's retail_image" where
  "sector_read img format k current stop skip n =
     (let t = tracks (manifest img) ! k;
          stride = kui_retail_track_sector_bytes t;
          offset = (current - start_lba t) * stride;
          last_lba = (if stop > end_lba t then end_lba t else stop);
          header_bytes = (if format = Sector_Mode1 then kui_retail_track_header_bytes t else 0);
          last_byte = kui_retail_track_file_offset t + (last_lba - 1 - start_lba t) * stride + header_bytes + sector_size format;
          limit = (last_byte + 511) div 512 in
      case (if header_bytes \<noteq> 0 then data_header img t offset limit else (Game_OK, img)) of (r, img) \<Rightarrow>
        if r \<noteq> Game_OK then (r, [], img)
        else file_read img t (offset + header_bytes + skip) n limit)"

fun read_loop :: "'s retail_image \<Rightarrow> sector_format \<Rightarrow> nat \<Rightarrow> nat list \<Rightarrow> nat \<Rightarrow> game_result \<times> bytes \<times> 's retail_image" where
  "read_loop img format k [] stop = (Game_OK, [], img)"
| "read_loop img format k (current # rest) stop =
     (let k = track_seek (manifest img) current k in
      case sector_read img format k current stop 0 (sector_size format) of (r, bs, img) \<Rightarrow>
        if r \<noteq> Game_OK then (r, [], img)
        else case read_loop img format k rest stop of (r, out, img) \<Rightarrow> (r, bs @ out, img))"

definition kui_retail_image_read :: "'s retail_image \<Rightarrow> nat \<Rightarrow> nat \<Rightarrow> sector_format \<Rightarrow> nat \<Rightarrow> game_result \<times> bytes \<times> 's retail_image" where
  "kui_retail_image_read img lba count format capacity =
     (let r = kui_retail_image_check_validated (manifest img) lba count format in
      if r \<noteq> Game_OK then (r, [], img)
      else if capacity < sector_size format * count then (Game_Range, [], img)
      else read_loop img format 0 [lba..<lba + count] (lba + count))"

fun part_loop :: "'s retail_image \<Rightarrow> sector_format \<Rightarrow> nat \<Rightarrow> nat list \<Rightarrow> nat \<Rightarrow> nat \<Rightarrow> nat \<Rightarrow> game_result \<times> bytes \<times> 's retail_image" where
  "part_loop img format k [] stop skip n = (Game_OK, [], img)"
| "part_loop img format k (current # rest) stop skip n =
     (let k = track_seek (manifest img) current k; tk = min (sector_size format - skip) n in
      case sector_read img format k current stop skip tk of (r, bs, img) \<Rightarrow>
        if r \<noteq> Game_OK then (r, [], img)
        else case part_loop img format k rest stop 0 (n - tk) of (r, out, img) \<Rightarrow> (r, bs @ out, img))"

definition kui_retail_image_read_part :: "'s retail_image \<Rightarrow> nat \<Rightarrow> nat \<Rightarrow> nat \<Rightarrow> sector_format \<Rightarrow> game_result \<times> bytes \<times> 's retail_image" where
  "kui_retail_image_read_part img lba skip n format =
     (if n = 0 then (Game_Invalid, [], img)
      else let sb = sector_size format; first = skip div sb; skip = skip mod sb in
        if n > 64 * sb - skip \<or> first > 0xffffffff - lba then (Game_Range, [], img)
        else let lba = lba + first; count = (skip + n + sb - 1) div sb;
                 r = kui_retail_image_check_validated (manifest img) lba count format in
          if r \<noteq> Game_OK then (r, [], img)
          else part_loop img format 0 [lba..<lba + count] (lba + count) skip n)"

datatype retail_header = Header_OK | Header_Sync | Header_Mode | Header_Address

definition header_bcd :: "nat \<Rightarrow> u8" where
  "header_bcd v = of_nat (16 * (v div 10) + v mod 10)"

definition kui_retail_sector_header :: "bytes \<Rightarrow> nat \<Rightarrow> retail_header" where
  "kui_retail_sector_header raw lba =
     (if raw ! 0 \<noteq> 0 \<or> raw ! 11 \<noteq> 0 then Header_Sync
      else if \<exists>i\<in>set [1..<11]. raw ! i \<noteq> 255 then Header_Sync
      else if raw ! 15 \<noteq> 1 then Header_Mode
      else let fad = lba + 150 in
        if lba \<ge> lba_limit \<or> raw ! 12 \<noteq> header_bcd (fad div 4500) \<or> raw ! 13 \<noteq> header_bcd (fad div 75 mod 60)
           \<or> raw ! 14 \<noteq> header_bcd (fad mod 75) then Header_Address
        else Header_OK)"

subsection \<open>What admission guarantees\<close>

lemma check_tracks_error: "check_tracks m ts k f \<noteq> Inl Game_OK"
proof -
  have fit: "extents_fit m es w b \<noteq> Inl Game_OK" for m es w b
    by (induction m es w b rule: extents_fit.induct) auto
  show ?thesis
    by (induction m ts k f rule: check_tracks.induct) (use fit in \<open>auto simp: Let_def split: sum.splits\<close>)
qed

lemma manifest_valid_parts:
  assumes "kui_retail_manifest_validate cap m = Game_OK"
  shows "manifest_fields_ok cap m \<and> check_tracks m (tracks m) (length (tracks m)) False = Inr (length (tracks m) + length (extents m), True)
    \<and> boot_bytes m \<noteq> 0 \<and> boot_bytes m \<le> 12582912 \<and> session_lba m \<le> boot_lba m
    \<and> range_check m (boot_lba m) ((boot_bytes m + 2047) div 2048) Sector_Mode1 = Game_OK"
proof (cases "check_tracks m (tracks m) (length (tracks m)) False")
  case (Inl r)
  then show ?thesis using assms check_tracks_error [of m "tracks m" "length (tracks m)" False]
    by (auto simp: kui_retail_manifest_validate_def Let_def split: if_splits)
next
  case (Inr p)
  then show ?thesis using assms
    by (cases p) (auto simp: kui_retail_manifest_validate_def Let_def simp del: set_upt split: if_splits)
qed

lemma manifest_overlaps:
  assumes "kui_retail_manifest_validate cap m = Game_OK"
    and "length (tracks m) \<le> j" "j < i" "i < length (tracks m) + length (extents m)"
    and "card_meet (slot_extent m i) (slot_extent m j)"
  shows "shared_boundary m i j"
proof -
  note v = manifest_valid_parts [OF assms(1)]
  have "\<not> (\<exists>i\<in>set [length (tracks m)..<length (tracks m) + length (extents m)]. \<exists>j\<in>set [length (tracks m)..<i].
      card_meet (slot_extent m i) (slot_extent m j) \<and> \<not> shared_boundary m i j)"
    using assms(1) v by (auto simp: kui_retail_manifest_validate_def Let_def simp del: set_upt split: if_splits)
  then show ?thesis using assms(2-) by auto
qed

lemma tracks_valid_track:
  assumes "tracks_valid cap m" "t \<in> set (tracks m)"
  shows "layout_ok (flags m) t"
  using assms by (auto simp: tracks_valid_def Let_def in_set_conv_nth)

lemma layout_bounds:
  assumes "layout_ok fl t" and "first_extent t < 65536"
  shows "start_lba t < end_lba t" "end_lba t \<le> 719850" "kui_retail_track_file_offset t < 512" "track_bytes t < 2 ^ 32"
proof -
  show se: "start_lba t < end_lba t" "end_lba t \<le> 719850" using assms by (auto simp: layout_ok_def)
  have "first_extent t div 256 < 256" using assms(2) by (simp add: div_less_iff_less_mult)
  then show off: "kui_retail_track_file_offset t < 512" by (simp add: kui_retail_track_file_offset_def)
  have "kui_retail_track_sector_bytes t \<le> 2448" by (simp add: kui_retail_track_sector_bytes_def)
  moreover have "end_lba t - start_lba t \<le> 719850" using se by simp
  ultimately have "(end_lba t - start_lba t) * kui_retail_track_sector_bytes t \<le> 719850 * 2448" by (rule mult_le_mono [rotated])
  then show "track_bytes t < 2 ^ 32" using off by (simp add: track_bytes_def)
qed

lemma extents_fit_sound:
  assumes "extents_fit m es whole b = Inr c" "b \<le> whole"
  shows "c \<le> whole \<and> c = b + sum_list (map blocks es)
    \<and> (\<forall>i<length es. file_block (es ! i) = b + sum_list (map blocks (take i es)) \<and> blocks (es ! i) \<noteq> 0
         \<and> partition_start m \<le> card_lba (es ! i) \<and> card_lba (es ! i) + blocks (es ! i) \<le> partition_end m)"
  using assms
proof (induction m es whole b rule: extents_fit.induct)
  case (2 m e es whole b)
  then have c: "file_block e = b" "blocks e \<noteq> 0" "blocks e \<le> whole - b" "partition_start m \<le> card_lba e" "card_lba e + blocks e \<le> partition_end m"
    and r: "extents_fit m es whole (b + blocks e) = Inr c" by (auto split: if_splits)
  have "\<not> (file_block e \<noteq> b \<or> blocks e = 0 \<or> blocks e > whole - b \<or> card_lba e < partition_start m \<or> card_lba e + blocks e > partition_end m)"
    using c by simp
  moreover have "b + blocks e \<le> whole" using c(3) 2(3) by linarith
  ultimately have IH: "c \<le> whole" "c = b + blocks e + sum_list (map blocks es)"
    "\<And>i. i < length es \<Longrightarrow> file_block (es ! i) = b + blocks e + sum_list (map blocks (take i es)) \<and> blocks (es ! i) \<noteq> 0
         \<and> partition_start m \<le> card_lba (es ! i) \<and> card_lba (es ! i) + blocks (es ! i) \<le> partition_end m"
    using "2.IH" [OF _ r] by blast+
  then show ?case using c by (auto simp: nth_Cons split: nat.splits)
qed auto

text \<open>Every admitted track: its extents follow those of the track before it and store exactly its blocks.\<close>

definition track_stored :: "retail_manifest \<Rightarrow> retail_track \<Rightarrow> nat \<Rightarrow> bool" where
  "track_stored m t next_extent =
     (kui_retail_track_first_extent t = next_extent \<and> next_extent + extent_count t \<le> length (tracks m) + length (extents m)
      \<and> (extent_count t = 0 \<longrightarrow> \<not> data_track t)
      \<and> (extent_count t \<noteq> 0 \<longrightarrow> extents_fit m (track_extents m t) ((track_bytes t + 511) div 512) 0 = Inr ((track_bytes t + 511) div 512)))"

lemma check_tracks_sound:
  assumes "check_tracks m ts k f = Inr (k', f')" "k \<le> length (tracks m) + length (extents m)"
  shows "k' = k + sum_list (map extent_count ts)
    \<and> (\<forall>i<length ts. track_stored m (ts ! i) (k + sum_list (map extent_count (take i ts))))
    \<and> (f' \<longrightarrow> f \<or> (\<exists>t\<in>set ts. data_track t \<and> start_lba t = session_lba m))"
  using assms
proof (induction ts arbitrary: k f)
  case (Cons t ts)
  obtain f1 where r: "check_tracks m ts (k + extent_count t) f1 = Inr (k', f')"
    and f1: "f1 \<longrightarrow> f \<or> (data_track t \<and> start_lba t = session_lba m)"
    and st: "track_stored m t k"
    using Cons.prems by (fastforce simp: Let_def track_stored_def split: if_splits sum.splits)
  have "k + extent_count t \<le> length (tracks m) + length (extents m)" using st by (auto simp: track_stored_def)
  note IH = Cons.IH [OF r this]
  then have "track_stored m ((t # ts) ! i) (k + sum_list (map extent_count (take i (t # ts))))" if "i < Suc (length ts)" for i
    using st that by (cases i) (auto simp: add.assoc)
  then show ?case using IH f1 by auto
qed auto

lemma window_concat:
  assumes "\<forall>x\<in>set xs. length x = c" "i < length xs"
  shows "window (concat xs) (i * c) c = xs ! i"
  using assms
proof (induction xs arbitrary: i)
  case (Cons x xs)
  show ?case
  proof (cases i)
    case (Suc j)
    then show ?thesis using Cons.IH [of j] Cons.prems by (simp add: window_def)
  qed (use Cons.prems in \<open>simp add: window_def\<close>)
qed simp

lemma window_append: "length p \<le> i \<Longrightarrow> window (p @ q) i n = window q (i - length p) n"
  by (simp add: window_def)

lemma window_prefix: "i + n \<le> length p \<Longrightarrow> window (p @ q) i n = window p i n"
  by (simp add: window_def)

lemma length_concat_const: "\<forall>x\<in>set xs. length x = c \<Longrightarrow> length (concat xs) = length xs * c"
  by (induction xs) auto

text \<open>The encoder's image with its checksum filled in.\<close>

definition wire_body :: "retail_manifest \<Rightarrow> bytes" where
  "wire_body m = 
     put32 (of_nat (length (tracks m))) @ put32 (of_nat (length (extents m))) @ put32 (of_nat (storage_transport m))
     @ put64 (of_nat (card_sectors m)) @ put64 (of_nat (partition_start m)) @ put64 (of_nat (partition_end m))
     @ put32 (of_nat (session_lba m)) @ put32 (of_nat (boot_lba m)) @ put32 (of_nat (boot_bytes m)) @ put32 (gdi_crc32 m)
     @ title m @ product m @ bootfile m @ region m
     @ put32 (boot_crc32 m) @ put32 (ip_crc32 m) @ put32 (of_nat (reader m)) @ put32 (flags m) @ replicate 48 0"

definition wire_records :: "retail_manifest \<Rightarrow> bytes" where
  "wire_records m = concat (map track_record (tracks m) @ map extent_record (extents m))"

definition wire_image :: "u32 \<Rightarrow> retail_manifest \<Rightarrow> bytes" where
  "wire_image crc m = retail_magic @ put32 3 @ put32 4096 @ put32 crc @ wire_body m @ wire_records m @ replicate (3776 - length (wire_records m)) 0"

definition texts_sized :: "retail_manifest \<Rightarrow> bool" where
  "texts_sized m = (length (title m) = 128 \<and> length (product m) = 16 \<and> length (bootfile m) = 24 \<and> length (region m) = 16)"

lemma length_magic [simp]: "length retail_magic = 8"
  by (simp add: retail_magic_def)

lemma length_track_record [simp]: "length (track_record t) = 12"
  by (simp add: track_record_def)

lemma length_extent_record [simp]: "length (extent_record e) = 12"
  by (simp add: extent_record_def)

lemma length_wire_records: "length (wire_records m) = (length (tracks m) + length (extents m)) * 12"
  unfolding wire_records_def by (subst length_concat_const [of _ 12]) auto

lemma length_wire_body: "texts_sized m \<Longrightarrow> length (wire_body m) = 300"
  by (simp add: wire_body_def texts_sized_def)

lemma wire_image_crc:
  assumes "texts_sized m"
  shows "wire_crc (wire_image a m) = wire_crc (wire_image b m)"
proof -
  have "window (wire_image a m) 0 16 = window (wire_image b m) 0 16" by (simp add: wire_image_def window_def)
  moreover have "window (wire_image a m) 20 4076 = window (wire_image b m) 20 4076" by (simp add: wire_image_def window_def)
  ultimately show ?thesis by (simp add: wire_crc_def)
qed

lemma encode_image:
  assumes "kui_retail_manifest_encode cap m = Inr wire" and "texts_sized m"
  shows "wire = wire_image (wire_crc wire) m"
proof -
  let ?out = "wire_header m @ wire_records m @ replicate (4096 - 320 - length (wire_records m)) 0"
  have out: "?out = wire_image 0 m"
    by (simp add: wire_header_def wire_body_def wire_image_def put32_def map_replicate_const)
  have w: "wire = patch ?out 16 (put32 (wire_crc ?out))"
    using assms(1) by (auto simp: kui_retail_manifest_encode_def Let_def wire_records_def split: if_splits)
  have p: "patch (wire_image 0 m) 16 (put32 c) = wire_image c m" for c
    by (simp add: patch_def wire_image_def)
  show ?thesis using w unfolding out p using wire_image_crc [OF assms(2)] by metis
qed

lemma unat_get32_at: "window p i 4 = put32 (of_nat v) \<Longrightarrow> i + 4 \<le> length p \<Longrightarrow> v < 2 ^ 32 \<Longrightarrow> unat (get32 p i) = v"
  by (simp add: get32_put32_at unat_of_nat)

lemma unat_get64_at: "window p i 8 = put64 (of_nat v) \<Longrightarrow> i + 8 \<le> length p \<Longrightarrow> v < 2 ^ 64 \<Longrightarrow> unat (get64 p i) = v"
  by (simp add: get64_put64_at unat_of_nat)

lemma wire_fields:
  assumes "texts_sized m"
  shows "window (wire_image c m) 0 8 = retail_magic" "window (wire_image c m) 8 4 = put32 3" "window (wire_image c m) 12 4 = put32 4096"
    "window (wire_image c m) 16 4 = put32 c" "window (wire_image c m) 20 4 = put32 (of_nat (length (tracks m)))"
    "window (wire_image c m) 24 4 = put32 (of_nat (length (extents m)))" "window (wire_image c m) 28 4 = put32 (of_nat (storage_transport m))"
    "window (wire_image c m) 32 8 = put64 (of_nat (card_sectors m))" "window (wire_image c m) 40 8 = put64 (of_nat (partition_start m))"
    "window (wire_image c m) 48 8 = put64 (of_nat (partition_end m))" "window (wire_image c m) 56 4 = put32 (of_nat (session_lba m))"
    "window (wire_image c m) 60 4 = put32 (of_nat (boot_lba m))" "window (wire_image c m) 64 4 = put32 (of_nat (boot_bytes m))"
    "window (wire_image c m) 68 4 = put32 (gdi_crc32 m)"
    "window (wire_image c m) 72 128 = title m" "window (wire_image c m) 200 16 = product m"
    "window (wire_image c m) 216 24 = bootfile m" "window (wire_image c m) 240 16 = region m"
    "window (wire_image c m) 256 4 = put32 (boot_crc32 m)" "window (wire_image c m) 260 4 = put32 (ip_crc32 m)"
    "window (wire_image c m) 264 4 = put32 (of_nat (reader m))" "window (wire_image c m) 268 4 = put32 (flags m)"
    "window (wire_image c m) 272 48 = replicate 48 0"
  using assms by (simp_all add: wire_image_def wire_body_def window_def texts_sized_def)

lemma wire_image_record:
  assumes "texts_sized m" "i < length (tracks m) + length (extents m)" "length (tracks m) + length (extents m) \<le> 256"
  shows "wire_record (wire_image c m) i = (map track_record (tracks m) @ map extent_record (extents m)) ! i"
proof -
  let ?r = "map track_record (tracks m) @ map extent_record (extents m)"
  let ?h = "retail_magic @ put32 3 @ put32 4096 @ put32 c @ wire_body m"
  have "wire_image c m = ?h @ wire_records m @ replicate (3776 - length (wire_records m)) 0" by (simp add: wire_image_def)
  moreover have "length ?h = 320" using length_wire_body [OF assms(1)] by simp
  moreover have "i * 12 + 12 \<le> length (wire_records m)" using assms(2) by (simp add: length_wire_records)
  ultimately have "wire_record (wire_image c m) i = window (wire_records m) (i * 12) 12"
    by (simp add: wire_record_def window_append window_prefix del: append_assoc)
  also have "\<dots> = ?r ! i" unfolding wire_records_def by (rule window_concat) (use assms(2) in auto)
  finally show ?thesis .
qed

lemma wire_image_tail:
  assumes "texts_sized m"
  shows "zeroes (drop (320 + (length (tracks m) + length (extents m)) * 12) (wire_image c m))"
proof -
  let ?h = "retail_magic @ put32 3 @ put32 4096 @ put32 c @ wire_body m"
  have "wire_image c m = (?h @ wire_records m) @ replicate (3776 - length (wire_records m)) 0" by (simp add: wire_image_def)
  moreover have "length (?h @ wire_records m) = 320 + (length (tracks m) + length (extents m)) * 12"
    using length_wire_body [OF assms(1)] by (simp add: length_wire_records)
  ultimately show ?thesis by (simp del: append_assoc)
qed

lemma length_wire_image:
  assumes "texts_sized m" "length (tracks m) + length (extents m) \<le> 256"
  shows "length (wire_image c m) = 4096"
  using assms length_wire_body [OF assms(1)] by (simp add: wire_image_def length_wire_records)

lemma first_extent_rebuilt:
  assumes "first_extent t < 65536" "kui_retail_track_first_extent t = k"
  shows "unat ((of_nat k :: u16) OR push_bit 8 (ucast (of_nat (kui_retail_track_file_offset t) :: u8))) = first_extent t"
proof -
  let ?f = "first_extent t"
  have k: "k = take_bit 8 ?f" using assms(2) by (simp add: kui_retail_track_first_extent_def take_bit_eq_mod)
  have o: "(of_nat (kui_retail_track_file_offset t) :: u8) = of_nat (drop_bit 8 ?f)"
    by (simp add: kui_retail_track_file_offset_def drop_bit_eq_div)
  have "(of_nat k :: u16) OR push_bit 8 (ucast (of_nat (kui_retail_track_file_offset t) :: u8)) = of_nat ?f"
  proof (rule bit_word_eqI)
    fix n assume "n < LENGTH(16)"
    then show "bit ((of_nat k :: u16) OR push_bit 8 (ucast (of_nat (kui_retail_track_file_offset t) :: u8))) n = bit (of_nat ?f :: u16) n"
      unfolding k o
      by (auto simp: bit_or_iff bit_push_bit_iff bit_unsigned_iff bit_of_nat_iff bit_take_bit_iff bit_drop_bit_eq)
  qed
  then show ?thesis using assms(1) by (simp add: unat_of_nat)
qed

lemma decode_track_records:
  assumes "\<forall>i<length ts. track_stored m (ts ! i) (k + sum_list (map extent_count (take i ts)))"
    and "\<forall>t\<in>set ts. first_extent t < 65536 \<and> start_lba t < 2 ^ 32 \<and> end_lba t < 2 ^ 32 \<and> extent_count t < 256"
  shows "decode_tracks (map track_record ts) k = Some ts"
  using assms
proof (induction ts arbitrary: k)
  case (Cons t ts)
  have st: "track_stored m t k" using Cons.prems(1) by (auto dest: spec [of _ 0])
  have "\<forall>i<length ts. track_stored m (ts ! i) (k + extent_count t + sum_list (map extent_count (take i ts)))"
    using Cons.prems(1) by (auto simp: add.assoc dest: spec [of _ "Suc _"])
  then have IH: "decode_tracks (map track_record ts) (k + extent_count t) = Some ts"
    using Cons.IH Cons.prems(2) by simp
  have b: "track_record t ! 11 = 0" "track_record t ! 10 = of_nat (kui_retail_track_file_offset t)"
    "track_record t ! 9 = of_nat (extent_count t)" "track_record t ! 8 = control t"
    by (simp_all add: track_record_def nth_append)
  have "window (track_record t) 0 4 = put32 (of_nat (start_lba t))" "window (track_record t) 4 4 = put32 (of_nat (end_lba t))"
    by (simp_all add: track_record_def window_def)
  then have "unat (get32 (track_record t) 0) = start_lba t" "unat (get32 (track_record t) 4) = end_lba t"
    using Cons.prems(2) by (auto intro!: unat_get32_at)
  moreover have "unat (of_nat (extent_count t) :: u8) = extent_count t" using Cons.prems(2) by (simp add: unat_of_nat)
  ultimately show ?case using b IH first_extent_rebuilt [of t k] st Cons.prems(2)
    by (simp add: track_stored_def)
qed simp

definition fields_typed :: "retail_manifest \<Rightarrow> bool" where
  "fields_typed m = (texts_sized m \<and> (\<forall>t\<in>set (tracks m). first_extent t < 65536))"

lemma sum_take_le: "i < length xs \<Longrightarrow> sum_list (take i xs) + xs ! i \<le> sum_list (xs :: nat list)"
  by (induction xs arbitrary: i) (auto simp: take_Cons nth_Cons split: nat.splits)

text \<open>Every slot after the tracks is an extent of some track.\<close>

lemma slot_owned:
  assumes "k \<le> i" "i < k + sum_list (map extent_count ts)"
  shows "\<exists>j<length ts. k + sum_list (map extent_count (take j ts)) \<le> i \<and> i < k + sum_list (map extent_count (take j ts)) + extent_count (ts ! j)"
  using assms
proof (induction ts arbitrary: k)
  case (Cons t ts)
  show ?case
  proof (cases "i < k + extent_count t")
    case False
    then obtain j where "j < length ts" "k + extent_count t + sum_list (map extent_count (take j ts)) \<le> i"
      "i < k + extent_count t + sum_list (map extent_count (take j ts)) + extent_count (ts ! j)"
      using Cons.IH [of "k + extent_count t"] Cons.prems by auto
    then show ?thesis by (intro exI [of _ "Suc j"]) simp
  qed (use Cons.prems in \<open>auto intro: exI [of _ 0]\<close>)
qed simp

lemma manifest_extent_bounds:
  assumes v: "kui_retail_manifest_validate cap m = Game_OK" and ty: "fields_typed m" and e: "e \<in> set (extents m)"
  shows "file_block e < 2 ^ 32" "card_lba e < 2 ^ 32" "blocks e < 2 ^ 32" "blocks e \<noteq> 0"
    "partition_start m \<le> card_lba e" "card_lba e + blocks e \<le> partition_end m"
proof -
  let ?n = "length (tracks m)"
  note parts = manifest_valid_parts [OF v]
  then have ct: "check_tracks m (tracks m) ?n False = Inr (?n + length (extents m), True)"
    and mf: "manifest_fields_ok cap m" by blast+
  note cs = check_tracks_sound [OF ct]
  obtain i where i: "i < length (extents m)" "e = extents m ! i" using e by (auto simp: in_set_conv_nth)
  have "?n \<le> ?n + i" "?n + i < ?n + sum_list (map extent_count (tracks m))" using cs i by auto
  from slot_owned [OF this] obtain j where j: "j < ?n" "?n + sum_list (map extent_count (take j (tracks m))) \<le> ?n + i"
    "?n + i < ?n + sum_list (map extent_count (take j (tracks m))) + extent_count (tracks m ! j)" by blast
  define t where "t = tracks m ! j"
  let ?k = "?n + sum_list (map extent_count (take j (tracks m)))" and ?w = "(track_bytes t + 511) div 512"
  have st: "track_stored m t ?k" using cs j(1) by (auto simp: t_def)
  have ne: "extent_count t \<noteq> 0" using j by (auto simp: t_def)
  then have fit: "extents_fit m (track_extents m t) ?w 0 = Inr ?w" and k: "kui_retail_track_first_extent t = ?k"
    using st by (auto simp: track_stored_def)
  define x where "x = ?n + i - ?k"
  have x: "x < length (track_extents m t)" "track_extents m t ! x = e"
    using j k i by (simp_all add: track_extents_def x_def t_def slot_extent_def)
  note f = extents_fit_sound [OF fit]
  have fx: "file_block e = sum_list (map blocks (take x (track_extents m t)))" "blocks e \<noteq> 0"
    "partition_start m \<le> card_lba e" "card_lba e + blocks e \<le> partition_end m"
    using f x by auto
  have "sum_list (map blocks (take x (track_extents m t))) + blocks e \<le> ?w"
    using f x sum_take_le [of x "map blocks (track_extents m t)"] by (simp add: take_map)
  then have w: "file_block e + blocks e \<le> ?w" using fx by simp
  have tv: "tracks_valid cap m" using mf by (simp add: manifest_fields_ok_def)
  have tm: "t \<in> set (tracks m)" using j(1) by (simp add: t_def)
  have "track_bytes t < 2 ^ 32" using layout_bounds(4) [OF tracks_valid_track [OF tv tm]] ty tm by (auto simp: fields_typed_def)
  then have "?w < 2 ^ 32" by simp
  then show "file_block e < 2 ^ 32" "blocks e < 2 ^ 32" using w by linarith+
  have "partition_end m \<le> 0x100000000" using mf by (auto simp: manifest_fields_ok_def)
  then show "card_lba e < 2 ^ 32" using fx by simp
  show "blocks e \<noteq> 0" "partition_start m \<le> card_lba e" "card_lba e + blocks e \<le> partition_end m" using fx by blast+
qed

lemma range_check_bounds:
  assumes "range_check m lba count format = Game_OK"
  shows "lba < 719850" "count \<noteq> 0" "lba + count \<le> 719850"
  using assms by (auto simp: range_check_def split: if_splits)

lemma manifest_number_bounds:
  assumes v: "kui_retail_manifest_validate cap m = Game_OK" and cap: "cap \<le> 256"
  shows "length (tracks m) \<le> 99" "length (tracks m) \<le> cap" "length (extents m) \<le> cap - length (tracks m)" "tracks m \<noteq> []"
    "length (tracks m) + length (extents m) \<le> 256"
    "storage_transport m < 2 ^ 32" "reader m < 2 ^ 32" "card_sectors m < 2 ^ 64" "partition_start m < 2 ^ 64" "partition_end m < 2 ^ 64"
    "session_lba m < 2 ^ 32" "boot_lba m < 2 ^ 32" "boot_bytes m < 2 ^ 32"
    "\<And>t. t \<in> set (tracks m) \<Longrightarrow> start_lba t < 2 ^ 32 \<and> end_lba t < 2 ^ 32 \<and> extent_count t < 256"
proof -
  note parts = manifest_valid_parts [OF v]
  have mf: "manifest_fields_ok cap m" using parts by blast
  then have tv: "tracks_valid cap m" by (simp add: manifest_fields_ok_def)
  show n: "length (tracks m) \<le> 99" "length (tracks m) \<le> cap" "tracks m \<noteq> []" using tv by (auto simp: tracks_valid_def Let_def)
  show x: "length (extents m) \<le> cap - length (tracks m)" using mf by (auto simp: manifest_fields_ok_def)
  show "length (tracks m) + length (extents m) \<le> 256" using n x cap by linarith
  show "storage_transport m < 2 ^ 32" "reader m < 2 ^ 32" "card_sectors m < 2 ^ 64" "partition_start m < 2 ^ 64" "partition_end m < 2 ^ 64"
    using mf by (auto simp: manifest_fields_ok_def)
  show "boot_lba m < 2 ^ 32" "boot_bytes m < 2 ^ 32" "session_lba m < 2 ^ 32"
    using parts range_check_bounds [of m "boot_lba m"] by fastforce+
  fix t assume t: "t \<in> set (tracks m)"
  have "layout_ok (flags m) t" using tracks_valid_track [OF tv t] .
  then have "start_lba t < end_lba t" "end_lba t \<le> 719850" by (auto simp: layout_ok_def)
  moreover have "extent_count t < 256"
  proof -
    obtain i where i: "i < length (tracks m)" "t = tracks m ! i" using t by (auto simp: in_set_conv_nth)
    then have "track_stored m t (length (tracks m) + sum_list (map extent_count (take i (tracks m))))"
      using check_tracks_sound [of m "tracks m" "length (tracks m)" False] parts by auto
    then have "extent_count t \<le> length (extents m)" by (auto simp: track_stored_def)
    moreover have "length (tracks m) \<noteq> 0" using n(3) by simp
    ultimately show ?thesis using x n(2) cap by linarith
  qed
  ultimately show "start_lba t < 2 ^ 32 \<and> end_lba t < 2 ^ 32 \<and> extent_count t < 256" by simp
qed

lemma decode_extent_record:
  assumes "file_block e < 2 ^ 32" "card_lba e < 2 ^ 32" "blocks e < 2 ^ 32"
  shows "decode_extent (extent_record e) = e"
proof -
  have "window (extent_record e) 0 4 = put32 (of_nat (file_block e))" "window (extent_record e) 4 4 = put32 (of_nat (card_lba e))"
    "window (extent_record e) 8 4 = put32 (of_nat (blocks e))"
    by (simp_all add: extent_record_def window_def)
  then have "unat (get32 (extent_record e) 0) = file_block e" "unat (get32 (extent_record e) 4) = card_lba e"
    "unat (get32 (extent_record e) 8) = blocks e"
    using assms by (simp_all add: unat_get32_at)
  then show ?thesis by (simp add: decode_extent_def)
qed

lemma decode_wire_image:
  assumes v: "kui_retail_manifest_validate cap m = Game_OK" and cap: "cap \<le> 256" and ty: "fields_typed m"
    and crc: "wire_crc (wire_image c m) = c"
  shows "kui_retail_manifest_decode cap (wire_image c m) = Inr m"
proof -
  let ?w = "wire_image c m"
  note b = manifest_number_bounds [OF v cap]
  have tx: "texts_sized m" using ty by (simp add: fields_typed_def)
  note f = wire_fields [OF tx, of c]
  have len: "length ?w = 4096" by (rule length_wire_image [OF tx b(5)])
  have rec: "wire_record ?w i = (map track_record (tracks m) @ map extent_record (extents m)) ! i" if "i < length (tracks m) + length (extents m)" for i
    using wire_image_record [OF tx that b(5)] .
  have ts: "map (wire_record ?w) [0..<length (tracks m)] = map track_record (tracks m)"
    by (rule nth_equalityI) (auto simp: rec nth_append)
  have dt: "decode_tracks (map track_record (tracks m)) (length (tracks m)) = Some (tracks m)"
  proof (rule decode_track_records)
    show "\<forall>i<length (tracks m). track_stored m (tracks m ! i) (length (tracks m) + sum_list (map extent_count (take i (tracks m))))"
      using check_tracks_sound [of m "tracks m" "length (tracks m)" False] manifest_valid_parts [OF v] by auto
    show "\<forall>t\<in>set (tracks m). first_extent t < 65536 \<and> start_lba t < 2 ^ 32 \<and> end_lba t < 2 ^ 32 \<and> extent_count t < 256"
      using b(14) ty by (auto simp: fields_typed_def)
  qed
  have es: "map (\<lambda>j. decode_extent (wire_record ?w (length (tracks m) + j))) [0..<length (extents m)] = extents m"
  proof (rule nth_equalityI)
    fix i assume "i < length (map (\<lambda>j. decode_extent (wire_record ?w (length (tracks m) + j))) [0..<length (extents m)])"
    then have i: "i < length (extents m)" by simp
    then have "extents m ! i \<in> set (extents m)" by simp
    from manifest_extent_bounds [OF v ty this] i
    show "map (\<lambda>j. decode_extent (wire_record ?w (length (tracks m) + j))) [0..<length (extents m)] ! i = extents m ! i"
      by (simp add: rec nth_append decode_extent_record)
  qed simp
  have g: "get32 ?w 8 = 3" "get32 ?w 12 = 4096" "get32 ?w 16 = c" "get32 ?w 68 = gdi_crc32 m" "get32 ?w 256 = boot_crc32 m"
    "get32 ?w 260 = ip_crc32 m" "get32 ?w 268 = flags m"
    by (simp_all add: get32_put32_at f len)
  have "length (tracks m) < 2 ^ 32" "length (extents m) < 2 ^ 32" using b(5) by simp_all
  then have u: "unat (get32 ?w 20) = length (tracks m)" "unat (get32 ?w 24) = length (extents m)" "unat (get32 ?w 28) = storage_transport m"
    "unat (get32 ?w 56) = session_lba m" "unat (get32 ?w 60) = boot_lba m" "unat (get32 ?w 64) = boot_bytes m" "unat (get32 ?w 264) = reader m"
    using b by (auto intro!: unat_get32_at simp: f len)
  have u64: "unat (get64 ?w 32) = card_sectors m" "unat (get64 ?w 40) = partition_start m" "unat (get64 ?w 48) = partition_end m"
    using b by (auto intro!: unat_get64_at simp: f len)
  have whole: "\<lparr>card_sectors = card_sectors m, partition_start = partition_start m, partition_end = partition_end m,
      session_lba = session_lba m, boot_lba = boot_lba m, boot_bytes = boot_bytes m, storage_transport = storage_transport m, reader = reader m,
      flags = flags m, boot_crc32 = boot_crc32 m, ip_crc32 = ip_crc32 m, gdi_crc32 = gdi_crc32 m, title = title m, product = product m,
      bootfile = bootfile m, region = region m, tracks = tracks m, extents = extents m\<rparr> = m" by simp
  have "\<not> (window ?w 0 8 \<noteq> retail_magic \<or> get32 ?w 8 \<noteq> 3 \<or> get32 ?w 12 \<noteq> 4096 \<or> get32 ?w 16 \<noteq> wire_crc ?w \<or> \<not> zeroes (window ?w 272 48))"
    by (simp add: f g crc)
  note d1 = this
  have "\<not> (length (tracks m) > 99 \<or> length (tracks m) > cap \<or> length (extents m) > cap - length (tracks m))" using b by simp
  note d2 = this
  show ?thesis
    unfolding kui_retail_manifest_decode_def if_not_P [OF d1] Let_def u if_not_P [OF d2]
    using wire_image_tail [OF tx, of c] v by (simp only: ts dt es g u64 f whole u not_not if_False if_True option.case simp_thms)
qed

lemma decoded_offset_byte:
  assumes "k < 256"
  shows "(of_nat (unat ((of_nat k :: u16) OR push_bit 8 (ucast (b :: u8))) div 256) :: u8) = b"
proof (rule bit_word_eqI)
  fix n assume n: "n < LENGTH(8)"
  have "\<not> bit k (n + 8)"
  proof -
    have "k = take_bit 8 k" using assms by (simp add: take_bit_nat_eq_self)
    then show ?thesis by (metis bit_take_bit_iff not_add_less2)
  qed
  then show "bit (of_nat (unat ((of_nat k :: u16) OR push_bit 8 (ucast b)) div 256) :: u8) n = bit b n"
    using n by (simp add: bit_of_nat_iff bit_unsigned_iff bit_or_iff bit_push_bit_iff bit_drop_bit_eq add.commute
        flip: drop_bit_eq_div [where n = 8 and 'a = nat, simplified])
qed

lemma decode_tracks_records:
  assumes "decode_tracks ps k = Some ts" "\<forall>p\<in>set ps. length p = 12"
    and "\<forall>i<length ts. kui_retail_track_first_extent (ts ! i) = k + sum_list (map extent_count (take i ts))"
  shows "map track_record ts = ps \<and> (\<forall>t\<in>set ts. first_extent t < 65536)"
  using assms
proof (induction ps k arbitrary: ts rule: decode_tracks.induct)
  case (2 p ps k)
  let ?f = "unat ((of_nat k :: u16) OR push_bit 8 (ucast (p ! 10)))"
  obtain us where z: "p ! 11 = 0" and us: "decode_tracks ps (k + unat (p ! 9)) = Some us"
    and ts: "ts = \<lparr>start_lba = unat (get32 p 0), end_lba = unat (get32 p 4), first_extent = ?f, extent_count = unat (p ! 9), control = p ! 8\<rparr> # us"
    using "2.prems"(1) by (auto split: if_splits option.splits)
  let ?t = "hd ts"
  have rest: "\<forall>i<length us. kui_retail_track_first_extent (us ! i) = k + unat (p ! 9) + sum_list (map extent_count (take i us))"
  proof (intro allI impI)
    fix i assume "i < length us"
    then show "kui_retail_track_first_extent (us ! i) = k + unat (p ! 9) + sum_list (map extent_count (take i us))"
      using "2.prems"(3) [rule_format, of "Suc i"] by (simp add: ts add.assoc)
  qed
  have IH: "map track_record us = ps \<and> (\<forall>t\<in>set us. first_extent t < 65536)"
    using "2.IH" [OF _ us _ rest] z "2.prems"(2) by simp
  have k: "k < 256" using "2.prems"(3) [rule_format, of 0] 
    by (simp add: ts kui_retail_track_first_extent_def)
  have l: "length p = 12" using "2.prems"(2) by simp
  have off: "(of_nat (kui_retail_track_file_offset ?t) :: u8) = p ! 10"
    using decoded_offset_byte [OF k, of "p ! 10"] by (simp add: kui_retail_track_file_offset_def ts)
  have "p = window p 0 4 @ window p 4 4 @ [p ! 8, p ! 9, p ! 10, p ! 11]"
    using l by (auto intro!: nth_equalityI simp: window_def nth_append nth_Cons numeral_eq_Suc less_Suc_eq)
  then have "track_record ?t = p"
    using off z l by (simp add: track_record_def ts put32_get32)
  moreover have "?f < 65536" using unsigned_less [of "(of_nat k :: u16) OR push_bit 8 (ucast (p ! 10))"] by simp
  ultimately show ?case using IH by (simp add: ts)
qed simp

lemma decode_accepts:
  assumes "kui_retail_manifest_decode cap wire = Inr m"
  shows "window wire 0 8 = retail_magic \<and> get32 wire 8 = 3 \<and> get32 wire 12 = 4096 \<and> get32 wire 16 = wire_crc wire
    \<and> zeroes (window wire 272 48) \<and> unat (get32 wire 20) \<le> 99 \<and> unat (get32 wire 20) \<le> cap \<and> unat (get32 wire 24) \<le> cap - unat (get32 wire 20)
    \<and> zeroes (drop (320 + (unat (get32 wire 20) + unat (get32 wire 24)) * 12) wire)
    \<and> decode_tracks (map (wire_record wire) [0..<unat (get32 wire 20)]) (unat (get32 wire 20)) = Some (tracks m)
    \<and> extents m = map (\<lambda>j. decode_extent (wire_record wire (unat (get32 wire 20) + j))) [0..<unat (get32 wire 24)]
    \<and> kui_retail_manifest_validate cap m = Game_OK"
    and "card_sectors m = unat (get64 wire 32)" "partition_start m = unat (get64 wire 40)" "partition_end m = unat (get64 wire 48)"
    "session_lba m = unat (get32 wire 56)" "boot_lba m = unat (get32 wire 60)" "boot_bytes m = unat (get32 wire 64)"
    "storage_transport m = unat (get32 wire 28)" "reader m = unat (get32 wire 264)" "flags m = get32 wire 268"
    "boot_crc32 m = get32 wire 256" "ip_crc32 m = get32 wire 260" "gdi_crc32 m = get32 wire 68" "title m = window wire 72 128"
    "product m = window wire 200 16" "bootfile m = window wire 216 24" "region m = window wire 240 16"
  using assms unfolding kui_retail_manifest_decode_def Let_def by (auto split: if_splits option.splits)

lemma length_decode_tracks: "decode_tracks ps k = Some ts \<Longrightarrow> length ts = length ps"
  by (induction ps k arbitrary: ts rule: decode_tracks.induct) (auto split: if_splits option.splits)

lemma extent_record_decode:
  assumes "length p = 12"
  shows "extent_record (decode_extent p) = p"
proof -
  have "window p 0 4 @ window p 4 4 @ window p 8 4 = window p 0 12" by (simp add: window_joins)
  then have "p = window p 0 4 @ window p 4 4 @ window p 8 4"
    using assms by (simp add: window_def [of p 0 12])
  then show ?thesis using assms by (simp add: extent_record_def decode_extent_def put32_get32)
qed

lemma decode_canonical:
  assumes d: "kui_retail_manifest_decode cap wire = Inr m" and len: "length wire = 4096" and cap: "cap \<le> 256"
  shows "wire = wire_image (wire_crc wire) m \<and> fields_typed m"
proof -
  note a = decode_accepts [OF d]
  let ?n = "unat (get32 wire 20)" and ?k = "unat (get32 wire 24)"
  have nk: "?n + ?k \<le> 256" using a(1) cap by linarith
  have rl: "length (wire_record wire i) = 12" if "i < 256" for i
    using that len by (simp add: wire_record_def length_window)
  have tl: "length (tracks m) = ?n" using a(1) length_decode_tracks [of _ _ "tracks m"] by fastforce
  have el: "length (extents m) = ?k" using a(1) by simp
  have "check_tracks m (tracks m) (length (tracks m)) False = Inr (length (tracks m) + length (extents m), True)"
    using a(1) manifest_valid_parts by blast
  from check_tracks_sound [OF this] tl
  have fe: "\<forall>i<length (tracks m). kui_retail_track_first_extent (tracks m ! i) = ?n + sum_list (map extent_count (take i (tracks m)))"
    by (auto simp: track_stored_def)
  have "\<forall>p\<in>set (map (wire_record wire) [0..<?n]). length p = 12" using nk rl by auto
  with decode_tracks_records [OF _ this fe] a(1)
  have tr: "map track_record (tracks m) = map (wire_record wire) [0..<?n]" "\<forall>t\<in>set (tracks m). first_extent t < 65536" by blast+
  have er: "map extent_record (extents m) = map (wire_record wire) [?n..<?n + ?k]"
    using a(1) nk rl by (auto intro!: nth_equalityI simp: extent_record_decode)
  have recs: "wire_records m = concat (map (wire_record wire) [0..<?n + ?k])"
    unfolding wire_records_def tr er by (simp add: upt_add_eq_append [of 0 ?n ?k] flip: map_append)
  have tail: "drop 320 wire = wire_records m @ replicate (3776 - length (wire_records m)) 0"
  proof -
    have "drop 320 wire = wire_records m @ drop (320 + (?n + ?k) * 12) wire"
      unfolding recs wire_record_def by (rule drop_windows)
    moreover have "drop (320 + (?n + ?k) * 12) wire = replicate (3776 - length (wire_records m)) 0"
      using a(1) len by (simp add: zeroes_iff_replicate length_wire_records tl el)
    ultimately show ?thesis by simp
  qed
  have z: "window wire 272 48 = replicate 48 0" using a(1) len by (simp add: zeroes_iff_replicate length_window)
  have body: "wire_body m = window wire 20 300"
    unfolding wire_body_def tl el a(2-) of_nat_unat unfolding z [symmetric]
    using len by (simp add: put32_get32 put64_get64 window_joins)
  have "put32 3 = window wire 8 4" "put32 4096 = window wire 12 4" "put32 (wire_crc wire) = window wire 16 4"
    using a(1) len put32_get32 [of 8 wire] put32_get32 [of 12 wire] put32_get32 [of 16 wire] by auto
  moreover have "retail_magic = window wire 0 8" using a(1) by simp
  ultimately have "wire_image (wire_crc wire) m = window wire 0 8 @ window wire 8 4 @ window wire 12 4 @ window wire 16 4 @ window wire 20 300 @ drop 320 wire"
    by (simp add: wire_image_def body tail)
  also have "\<dots> = wire"
    using drop_window [of 0 wire 8] drop_window [of 8 wire 4] drop_window [of 12 wire 4] drop_window [of 16 wire 4] drop_window [of 20 wire 300] by simp
  finally show ?thesis using tr(2) len by (simp add: fields_typed_def texts_sized_def a(2-) length_window)
qed

text \<open>
  C27.  The 4096-byte wire form of a disc map is canonical.  Encoding an admitted map and decoding the result gives the map
  back, field by field and slot by slot; and every 4096 bytes that the decoder accepts are exactly what the encoder produces for
  the decoded map, so no two wire images stand for the same map and no accepted byte is ignored.
\<close>

theorem retail_manifest_canonical:
  assumes "cap \<le> 256"
  shows "(kui_retail_manifest_encode cap m = Inr wire \<and> fields_typed m)
    \<longleftrightarrow> (kui_retail_manifest_decode cap wire = Inr m \<and> length wire = 4096)"
proof
  assume e: "kui_retail_manifest_encode cap m = Inr wire \<and> fields_typed m"
  then have tx: "texts_sized m" and v: "kui_retail_manifest_validate cap m = Game_OK"
    by (auto simp: fields_typed_def kui_retail_manifest_encode_def Let_def split: if_splits)
  have w: "wire = wire_image (wire_crc wire) m" using encode_image e tx by blast
  then have "wire_crc (wire_image (wire_crc wire) m) = wire_crc wire" by simp
  from decode_wire_image [OF v assms _ this] e w have "kui_retail_manifest_decode cap wire = Inr m" by simp
  moreover have "length wire = 4096" using w length_wire_image [OF tx manifest_number_bounds(5) [OF v assms]] by metis
  ultimately show "kui_retail_manifest_decode cap wire = Inr m \<and> length wire = 4096" by simp
next
  assume d: "kui_retail_manifest_decode cap wire = Inr m \<and> length wire = 4096"
  then have w: "wire = wire_image (wire_crc wire) m" and ty: "fields_typed m" using decode_canonical assms by blast+
  have v: "kui_retail_manifest_validate cap m = Game_OK" using decode_accepts(1) d by blast
  obtain wire' where e: "kui_retail_manifest_encode cap m = Inr wire'" using v by (simp add: kui_retail_manifest_encode_def Let_def)
  have tx: "texts_sized m" using ty by (simp add: fields_typed_def)
  have "wire' = wire_image (wire_crc wire') m" using encode_image [OF e tx] .
  then have "wire' = wire" using w wire_image_crc [OF tx] by metis
  then show "kui_retail_manifest_encode cap m = Inr wire \<and> fields_typed m" using e ty by simp
qed

subsection \<open>Where the bytes of a track are stored\<close>

text \<open>
  The specification of the reader.  \<open>file_blocks\<close> lists the card blocks that store a track, in file order; \<open>stored\<close> reads bytes of the
  track's file straight from the card.
\<close>

definition extent_blocks :: "retail_extent \<Rightarrow> nat list" where
  "extent_blocks e = [card_lba e..<card_lba e + blocks e]"

definition file_blocks :: "retail_manifest \<Rightarrow> retail_track \<Rightarrow> nat list" where
  "file_blocks m t = concat (map extent_blocks (track_extents m t))"

definition stored :: "retail_manifest \<Rightarrow> (nat \<Rightarrow> bytes) \<Rightarrow> retail_track \<Rightarrow> nat \<Rightarrow> nat \<Rightarrow> bytes" where
  "stored m sd t p n = map (\<lambda>q. sd (file_blocks m t ! (q div 512)) ! (q mod 512)) [p..<p + n]"

lemma concat_nth_at:
  assumes "x < length xs" "r < length (xs ! x)"
  shows "concat xs ! (sum_list (map length (take x xs)) + r) = xs ! x ! r"
  using assms
proof (induction xs arbitrary: x)
  case (Cons a xs)
  then show ?case by (cases x) (auto simp: nth_append add.assoc)
qed simp

lemma length_extent_blocks [simp]: "length (extent_blocks e) = blocks e"
  by (simp add: extent_blocks_def)

definition track_mapped :: "retail_manifest \<Rightarrow> retail_track \<Rightarrow> bool" where
  "track_mapped m t =
     (extent_count t \<noteq> 0 \<and> extents_fit m (track_extents m t) ((track_bytes t + 511) div 512) 0 = Inr ((track_bytes t + 511) div 512))"

lemma manifest_track_mapped:
  assumes "kui_retail_manifest_validate cap m = Game_OK" "t \<in> set (tracks m)" "extent_count t \<noteq> 0"
  shows "track_mapped m t"
proof -
  obtain i where "i < length (tracks m)" "t = tracks m ! i" using assms(2) by (auto simp: in_set_conv_nth)
  then show ?thesis
    using check_tracks_sound [of m "tracks m" "length (tracks m)" False] manifest_valid_parts [OF assms(1)] assms(3)
    by (auto simp: track_stored_def track_mapped_def)
qed

lemma length_track_extents [simp]: "length (track_extents m t) = extent_count t"
  by (simp add: track_extents_def)

lemma nth_track_extents:
  "x < extent_count t \<Longrightarrow> track_extents m t ! x = slot_extent m (kui_retail_track_first_extent t + x)"
  by (simp add: track_extents_def)

lemma mapped_extent:
  assumes "track_mapped m t" "x < extent_count t"
  shows "file_block (slot_extent m (kui_retail_track_first_extent t + x)) = sum_list (map blocks (take x (track_extents m t)))"
    "blocks (slot_extent m (kui_retail_track_first_extent t + x)) \<noteq> 0"
    "partition_start m \<le> card_lba (slot_extent m (kui_retail_track_first_extent t + x))"
    "card_lba (slot_extent m (kui_retail_track_first_extent t + x)) + blocks (slot_extent m (kui_retail_track_first_extent t + x)) \<le> partition_end m"
  using extents_fit_sound [of m "track_extents m t" "(track_bytes t + 511) div 512" 0 "(track_bytes t + 511) div 512"] assms
  by (auto simp: track_mapped_def nth_track_extents)

lemma mapped_total:
  assumes "track_mapped m t"
  shows "sum_list (map blocks (track_extents m t)) = (track_bytes t + 511) div 512"
  using extents_fit_sound [of m "track_extents m t" "(track_bytes t + 511) div 512" 0 "(track_bytes t + 511) div 512"] assms
  by (auto simp: track_mapped_def)

lemma file_blocks_nth:
  assumes "track_mapped m t" "x < extent_count t"
    and "file_block (slot_extent m (kui_retail_track_first_extent t + x)) \<le> fb"
    and "fb - file_block (slot_extent m (kui_retail_track_first_extent t + x)) < blocks (slot_extent m (kui_retail_track_first_extent t + x))"
  shows "file_blocks m t ! fb = card_lba (slot_extent m (kui_retail_track_first_extent t + x)) + (fb - file_block (slot_extent m (kui_retail_track_first_extent t + x)))"
proof -
  let ?e = "slot_extent m (kui_retail_track_first_extent t + x)"
  let ?xs = "map extent_blocks (track_extents m t)"
  have e: "track_extents m t ! x = ?e" using assms(2) by (rule nth_track_extents)
  have "sum_list (map length (take x ?xs)) = file_block ?e"
    using mapped_extent(1) [OF assms(1,2)] by (simp add: take_map comp_def)
  then have "file_blocks m t ! fb = concat ?xs ! (sum_list (map length (take x ?xs)) + (fb - file_block ?e))"
    using assms(3) by (simp add: file_blocks_def)
  also have "\<dots> = ?xs ! x ! (fb - file_block ?e)"
    by (rule concat_nth_at) (use assms e in auto)
  also have "\<dots> = card_lba ?e + (fb - file_block ?e)" using assms(2,4) e by (simp add: extent_blocks_def)
  finally show ?thesis .
qed

text \<open>The binary search finds the extent that holds a file block.\<close>

lemma extent_search_finds:
  assumes tm: "track_mapped m t" and fb: "fb < (track_bytes t + 511) div 512"
  shows "\<exists>x<extent_count t. extent_search m fb (kui_retail_track_first_extent t) (kui_retail_track_first_extent t + extent_count t)
        = kui_retail_track_first_extent t + x
      \<and> file_block (slot_extent m (kui_retail_track_first_extent t + x)) \<le> fb
      \<and> fb - file_block (slot_extent m (kui_retail_track_first_extent t + x)) < blocks (slot_extent m (kui_retail_track_first_extent t + x))"
proof -
  let ?k = "kui_retail_track_first_extent t" and ?c = "extent_count t"
  let ?start = "\<lambda>x. sum_list (map blocks (take x (track_extents m t)))"
  have fblk: "file_block (slot_extent m (?k + x)) = ?start x" if "x < ?c" for x using mapped_extent(1) [OF tm that] .
  have step: "?start (Suc x) = ?start x + blocks (slot_extent m (?k + x))" if "x < ?c" for x
    using that by (simp add: take_Suc_conv_app_nth nth_track_extents)
  have search: "\<exists>x<?c. extent_search m fb (?k + lo) (?k + hi) = ?k + x \<and> ?start x \<le> fb \<and> fb < ?start (Suc x)"
    if "lo < hi" "hi \<le> ?c" "?start lo \<le> fb" "fb < ?start hi" for lo hi
    using that
  proof (induction "hi - lo" arbitrary: lo hi rule: less_induct)
    case less
    show ?case
    proof (cases "lo + 1 < hi")
      case False
      then have "hi = Suc lo" using less.prems(1) by simp
      then show ?thesis using less.prems by (subst extent_search.simps) (auto intro!: exI [of _ lo])
    next
      case True
      define mid where "mid = lo + (hi - lo) div 2"
      have mid: "lo < mid" "mid < hi" using True by (auto simp: mid_def)
      have unf: "extent_search m fb (?k + lo) (?k + hi) =
          (if ?start mid \<le> fb then extent_search m fb (?k + mid) (?k + hi) else extent_search m fb (?k + lo) (?k + mid))"
        using True mid less.prems(2) fblk [of mid]
        by (subst extent_search.simps) (simp add: Let_def mid_def add.assoc)
      show ?thesis
      proof (cases "?start mid \<le> fb")
        case True
        then show ?thesis using less.hyps [of hi mid] less.prems mid by (simp add: unf)
      next
        case False
        then show ?thesis using less.hyps [of mid lo] less.prems mid by (simp add: unf)
      qed
    qed
  qed
  have "?c \<noteq> 0" using tm by (simp add: track_mapped_def)
  moreover have "?start ?c = (track_bytes t + 511) div 512" using mapped_total [OF tm] by simp
  ultimately obtain x where x: "x < ?c" "extent_search m fb ?k (?k + ?c) = ?k + x" "?start x \<le> fb" "fb < ?start (Suc x)"
    using search [of 0 ?c] fb by auto
  then show ?thesis using fblk [OF x(1)] step [OF x(1)] by (intro exI [of _ x]) auto
qed

subsection \<open>The reader returns the stored bytes\<close>

text \<open>
  What the reader relies on: a callback that reports success has delivered the card's block.  It is assumed only for blocks of
  the partition, and for runs that stay inside it, so the theorems also show that the reader asks for nothing else that it uses.
\<close>

definition card_callbacks ::
  "retail_manifest \<Rightarrow> ('s \<Rightarrow> nat \<Rightarrow> bool \<times> bytes \<times> 's) \<Rightarrow> ('s \<Rightarrow> nat \<Rightarrow> nat \<Rightarrow> bool \<times> bytes \<times> 's) option \<Rightarrow> (nat \<Rightarrow> bytes) \<Rightarrow> bool" where
  "card_callbacks m rb rr sd =
     ((\<forall>ctx lba bs ctx'. partition_start m \<le> lba \<and> lba < partition_end m \<and> rb ctx lba = (False, bs, ctx') \<longrightarrow> bs = sd lba)
      \<and> (\<forall>run ctx lba n bs ctx'. rr = Some run \<and> partition_start m \<le> lba \<and> 0 < n \<and> lba + n \<le> partition_end m
           \<and> run ctx lba n = (False, bs, ctx') \<longrightarrow> bs = sd lba)
      \<and> (\<forall>lba. length (sd lba) = 512))"

definition reads_card :: "'s retail_image \<Rightarrow> (nat \<Rightarrow> bytes) \<Rightarrow> bool" where
  "reads_card img sd = card_callbacks (manifest img) (read_block img) (read_run img) sd"

lemma card_callbacksD:
  assumes "card_callbacks m rb rr sd" "partition_start m \<le> lba" "0 < n" "lba + n \<le> partition_end m"
    and "(case rr of Some run \<Rightarrow> run ctx lba n | None \<Rightarrow> rb ctx lba) = (False, bs, ctx')"
  shows "bs = sd lba"
proof (cases rr)
  case None
  then show ?thesis using assms unfolding card_callbacks_def by fastforce
next
  case (Some run)
  then show ?thesis using assms unfolding card_callbacks_def by fastforce
qed

lemma reads_card_length: "reads_card img sd \<Longrightarrow> length (sd lba) = 512"
  by (simp add: reads_card_def card_callbacks_def)

definition coherent :: "'s retail_image \<Rightarrow> (nat \<Rightarrow> bytes) \<Rightarrow> bool" where
  "coherent img sd = (cache_valid img \<longrightarrow> block img = sd (cached_lba img))"

definition same_reader :: "'s retail_image \<Rightarrow> 's retail_image \<Rightarrow> bool" where
  "same_reader img img' = (manifest img' = manifest img \<and> read_block img' = read_block img \<and> read_run img' = read_run img)"

lemma same_reader_refl [simp]: "same_reader img img"
  by (simp add: same_reader_def)

lemma same_reader_trans: "same_reader a b \<Longrightarrow> same_reader b c \<Longrightarrow> same_reader a c"
  by (simp add: same_reader_def)

lemma reads_card_same: "same_reader img img' \<Longrightarrow> reads_card img sd \<Longrightarrow> reads_card img' sd"
  by (simp add: same_reader_def reads_card_def)

lemma fetch_correct:
  assumes "reads_card img sd" "coherent img sd" "fetch img e fb limit = (r, img')"
    and "file_block e \<le> fb" "fb - file_block e < blocks e" "fb < limit"
    and "partition_start (manifest img) \<le> card_lba e" "card_lba e + blocks e \<le> partition_end (manifest img)"
  shows "coherent img' sd \<and> same_reader img img' \<and> (r = Game_OK \<or> r = Game_IO)
    \<and> (r = Game_OK \<longrightarrow> block img' = sd (card_lba e + (fb - file_block e)))"
proof -
  define lba where "lba = card_lba e + fb - file_block e"
  define n where "n = min (limit - fb) (blocks e - (fb - file_block e))"
  have lba: "card_lba e + (fb - file_block e) = lba" "partition_start (manifest img) \<le> lba" "lba + n \<le> partition_end (manifest img)"
    "lba < partition_end (manifest img)" "0 < n"
    using assms(4-8) by (auto simp: lba_def n_def)
  obtain failed bs ctx where o: "(case read_run img of Some run \<Rightarrow> run (card_context img) lba n
      | None \<Rightarrow> read_block img (card_context img) lba) = (failed, bs, ctx)" by (metis prod_cases3)
  have ok: "bs = sd lba" if "\<not> failed"
    using card_callbacksD [OF _ lba(2,5,3), of "read_block img" "read_run img" sd "card_context img" bs ctx] assms(1) o that
    by (simp add: reads_card_def)
  show ?thesis
  proof (cases "cache_valid img \<and> cached_lba img = lba")
    case True
    then have "img' = img" "r = Game_OK" using assms(3) by (simp_all add: fetch_def flip: lba_def)
    then show ?thesis using True assms(2) lba(1) by (simp add: coherent_def)
  next
    case False
    have "(r, img') = (let i = img\<lparr>cache_valid := False, card_context := ctx, block := bs\<rparr> in
        if failed then (Game_IO, i) else (Game_OK, i\<lparr>blocks_read := blocks_read i + 1, cached_lba := lba, cache_valid := True\<rparr>))"
      using assms(3) False o assms(6) unfolding fetch_def Let_def lba_def [symmetric] n_def [symmetric]
      by (auto split: option.splits)
    then show ?thesis using ok lba(1) by (auto simp: Let_def coherent_def same_reader_def split: if_splits)
  qed
qed

lemma stored_split: "stored m sd t p (a + b) = stored m sd t p a @ stored m sd t (p + a) b"
proof -
  have "[p..<p + (a + b)] = [p..<p + a] @ [p + a..<p + a + b]" using upt_add_eq_append [of p "p + a" b] by (simp add: add.assoc)
  then show ?thesis by (simp only: stored_def map_append)
qed

lemma stored_block:
  assumes "p mod 512 + n \<le> 512" "\<And>lba. length (sd lba) = 512"
  shows "stored m sd t p n = window (sd (file_blocks m t ! (p div 512))) (p mod 512) n"
proof (rule nth_equalityI)
  show "length (stored m sd t p n) = length (window (sd (file_blocks m t ! (p div 512))) (p mod 512) n)"
    using assms by (simp add: stored_def length_window)
  fix i assume "i < length (stored m sd t p n)"
  then have i: "i < n" by (simp add: stored_def)
  have "512 * (p div 512) + (p mod 512 + i) = p + i" "p mod 512 + i < 512" using i assms(1) by simp_all
  then have d: "(p + i) div 512 = p div 512" by (metis div_less div_mult_self4 add.right_neutral zero_neq_numeral)
  moreover have "(p + i) mod 512 = p mod 512 + i"
    using d mult_div_mod_eq [of 512 p] mult_div_mod_eq [of 512 "p + i"] by linarith
  ultimately show "stored m sd t p n ! i = window (sd (file_blocks m t ! (p div 512))) (p mod 512) n ! i"
    using i assms by (simp add: stored_def nth_window)
qed

lemma file_loop_correct:
  assumes "track_mapped (manifest img) t" "reads_card img sd" "coherent img sd"
    and "offset + n \<le> 512 * ((track_bytes t + 511) div 512)" "offset + n \<le> 512 * limit"
    and "file_loop img t offset n limit = (r, out, img')"
  shows "coherent img' sd \<and> same_reader img img' \<and> (r = Game_OK \<or> r = Game_IO)
    \<and> (r = Game_OK \<longrightarrow> out = stored (manifest img) sd t offset n)"
  using assms
proof (induction n arbitrary: img offset r out img' rule: less_induct)
  case (less n)
  show ?case
  proof (cases "n = 0")
    case True
    then show ?thesis using less.prems by (simp add: stored_def file_loop.simps)
  next
    case False
    define fb where "fb = offset div 512"
    define tk where "tk = min (512 - offset mod 512) n"
    let ?m = "manifest img" and ?k = "kui_retail_track_first_extent t"
    have fb: "fb < (track_bytes t + 511) div 512" "fb < limit" using less.prems(4,5) False by (auto simp: fb_def)
    obtain x where x: "x < extent_count t" "extent_search ?m fb ?k (?k + extent_count t) = ?k + x"
      "file_block (slot_extent ?m (?k + x)) \<le> fb" "fb - file_block (slot_extent ?m (?k + x)) < blocks (slot_extent ?m (?k + x))"
      using extent_search_finds [OF less.prems(1) fb(1)] by blast
    define e where "e = slot_extent ?m (?k + x)"
    obtain r1 i1 where f: "fetch img e fb limit = (r1, i1)" by fastforce
    have fc: "coherent i1 sd \<and> same_reader img i1 \<and> (r1 = Game_OK \<or> r1 = Game_IO)
        \<and> (r1 = Game_OK \<longrightarrow> block i1 = sd (card_lba e + (fb - file_block e)))"
      by (rule fetch_correct [OF less.prems(2,3) f]) (use x fb mapped_extent [OF less.prems(1) x(1)] in \<open>auto simp: e_def\<close>)
    have body: "(r, out, img') = (if r1 \<noteq> Game_OK then (r1, [], i1)
        else case file_loop i1 t (offset + tk) (n - tk) limit of (r, out, j) \<Rightarrow> (r, window (block i1) (offset mod 512) tk @ out, j))"
      using less.prems(6) False x f unfolding e_def [symmetric]
      by (subst (asm) file_loop.simps) (auto simp: Let_def x(2) e_def [symmetric] simp flip: fb_def tk_def)
    show ?thesis
    proof (cases "r1 = Game_OK")
      case False
      then show ?thesis using body fc by simp
    next
      case True
      obtain r2 o2 i2 where l: "file_loop i1 t (offset + tk) (n - tk) limit = (r2, o2, i2)" by (metis prod_cases3)
      have m: "manifest i1 = ?m" using fc by (simp add: same_reader_def)
      have tk: "0 < tk" "tk \<le> n" "offset mod 512 + tk \<le> 512" using False by (auto simp: tk_def)
      have "coherent i2 sd \<and> same_reader i1 i2 \<and> (r2 = Game_OK \<or> r2 = Game_IO) \<and> (r2 = Game_OK \<longrightarrow> o2 = stored (manifest i1) sd t (offset + tk) (n - tk))"
        using less.prems fc tk reads_card_same [of img i1 sd] m by (intro less.IH [OF _ _ _ _ _ _ l]) auto
      moreover have "window (block i1) (offset mod 512) tk = stored ?m sd t offset tk"
      proof -
        have "block i1 = sd (file_blocks ?m t ! fb)"
          using fc True file_blocks_nth [OF less.prems(1) x(1,3,4)] by (simp add: e_def)
        then show ?thesis using stored_block [OF tk(3), of sd ?m t] less.prems(2) by (simp add: fb_def reads_card_length)
      qed
      ultimately show ?thesis
        using body True l m fc tk stored_split [of ?m sd t offset tk "n - tk"] by (auto intro: same_reader_trans)
    qed
  qed
qed

text \<open>
  The sectors of the disc as the card stores them: the payload of a sector, and whether its header is one the reader accepts.
\<close>

definition track_at :: "retail_manifest \<Rightarrow> nat \<Rightarrow> retail_track" where
  "track_at m lba = hd (filter (\<lambda>t. start_lba t \<le> lba \<and> lba < end_lba t) (tracks m))"

definition header_size :: "sector_format \<Rightarrow> retail_track \<Rightarrow> nat" where
  "header_size format t = (if format = Sector_Mode1 then kui_retail_track_header_bytes t else 0)"

definition sector_start :: "retail_track \<Rightarrow> nat \<Rightarrow> nat" where
  "sector_start t lba = kui_retail_track_file_offset t + (lba - start_lba t) * kui_retail_track_sector_bytes t"

definition disc_payload :: "retail_manifest \<Rightarrow> (nat \<Rightarrow> bytes) \<Rightarrow> sector_format \<Rightarrow> nat \<Rightarrow> bytes" where
  "disc_payload m sd format lba =
     (let t = track_at m lba in stored m sd t (sector_start t lba + header_size format t) (sector_size format))"

definition disc_header_ok :: "retail_manifest \<Rightarrow> (nat \<Rightarrow> bytes) \<Rightarrow> sector_format \<Rightarrow> nat \<Rightarrow> bool" where
  "disc_header_ok m sd format lba =
     (let t = track_at m lba in
      header_size format t = 0 \<or> header_ok t (stored m sd t (sector_start t lba) (header_size format t)))"

definition readable :: "sector_format \<Rightarrow> retail_track \<Rightarrow> bool" where
  "readable format t = (extent_count t \<noteq> 0 \<and> (format = Sector_Mode1 \<longrightarrow> data_track t)
     \<and> (format = Sector_Raw \<longrightarrow> \<not> track_cooked t \<and> \<not> track_2336 t))"

lemma readable_fits: "readable format t \<Longrightarrow> header_size format t + sector_size format \<le> kui_retail_track_sector_bytes t"
  by (cases format) (auto simp: readable_def header_size_def sector_size_def kui_retail_track_header_bytes_def kui_retail_track_sector_bytes_def)

lemma length_stored [simp]: "length (stored m sd t p n) = n"
  by (simp add: stored_def)

lemma range_scan_ok:
  assumes "range_scan ts cursor stop format = Game_OK" "cursor \<le> lba" "lba < stop"
  shows "\<exists>t\<in>set ts. start_lba t \<le> lba \<and> lba < end_lba t \<and> readable format t"
  using assms
proof (induction ts cursor stop format rule: range_scan.induct)
  case (2 t ts cursor stop format)
  show ?case
  proof (cases "end_lba t \<le> cursor")
    case True
    then show ?thesis using "2.IH"(1) "2.prems" by auto
  next
    case False
    then have c: "start_lba t \<le> cursor" "readable format t" and r: "range_scan ts (if end_lba t < stop then end_lba t else stop) stop format = Game_OK"
      using "2.prems" by (auto simp: readable_def split: if_splits)
    show ?thesis
    proof (cases "lba < end_lba t")
      case True
      then show ?thesis using c "2.prems"(2) by auto
    next
      case False
      then show ?thesis using "2.IH"(2) r c "2.prems" \<open>\<not> end_lba t \<le> cursor\<close> by (auto simp: readable_def)
    qed
  qed
qed (auto split: if_splits)

lemma tracks_ordered:
  assumes "tracks_valid cap m" "i < j" "j < length (tracks m)"
  shows "end_lba (tracks m ! i) \<le> start_lba (tracks m ! j)"
  using assms(2,3)
proof (induction j)
  case (Suc j)
  have s: "end_lba (tracks m ! j) \<le> start_lba (tracks m ! Suc j)" "start_lba (tracks m ! j) < end_lba (tracks m ! j)"
    using assms(1) Suc.prems by (auto simp: tracks_valid_def Let_def layout_ok_def dest: spec [of _ "Suc j"] spec [of _ j])
  show ?case
  proof (cases "i = j")
    case False
    then show ?thesis using Suc s by simp
  qed (use s in simp)
qed simp

lemma track_at_eq:
  assumes "tracks_valid cap m" "j < length (tracks m)" "start_lba (tracks m ! j) \<le> lba" "lba < end_lba (tracks m ! j)"
  shows "track_at m lba = tracks m ! j"
proof -
  let ?P = "\<lambda>t. start_lba t \<le> lba \<and> lba < end_lba t"
  have "x = tracks m ! j" if x: "x \<in> set (tracks m)" "?P x" for x
  proof -
    obtain i where i: "i < length (tracks m)" "x = tracks m ! i" using x(1) by (auto simp: in_set_conv_nth)
    have "\<not> i < j" using tracks_ordered [OF assms(1), of i j] i x assms by auto
    moreover have "\<not> j < i" using tracks_ordered [OF assms(1), of j i] i x assms by auto
    ultimately show ?thesis using i by simp
  qed
  moreover have "filter ?P (tracks m) \<noteq> []" using assms by (auto simp: filter_empty_conv)
  ultimately show ?thesis unfolding track_at_def using hd_in_set [of "filter ?P (tracks m)"] by auto
qed

lemma track_seek_finds:
  assumes "tracks_valid cap m" "j < length (tracks m)" "start_lba (tracks m ! j) \<le> lba" "lba < end_lba (tracks m ! j)" "k \<le> j"
  shows "track_seek m lba k = j"
  using assms(5)
proof (induction "j - k" arbitrary: k)
  case 0
  then show ?case using assms by (subst track_seek.simps) auto
next
  case (Suc d)
  then have "k < j" by simp
  then have "end_lba (tracks m ! k) \<le> lba" using tracks_ordered [OF assms(1), of k j] assms by auto
  then show ?case using Suc assms \<open>k < j\<close> by (subst track_seek.simps) auto
qed

lemma sector_read_correct:
  assumes v: "track_mapped (manifest img) t" "reads_card img sd" "coherent img sd"
    and t: "t = tracks (manifest img) ! k" "track_at (manifest img) lba = t" "readable format t"
    and lba: "start_lba t \<le> lba" "lba < end_lba t" "lba < stop"
    and n: "skip + n \<le> sector_size format"
    and r: "sector_read img format k lba stop skip n = (r, out, img')"
  shows "coherent img' sd \<and> same_reader img img' \<and> (r = Game_IO
    \<or> r = (if disc_header_ok (manifest img) sd format lba then Game_OK else Game_Mode))
    \<and> (r = Game_OK \<longrightarrow> disc_header_ok (manifest img) sd format lba \<and> out = window (disc_payload (manifest img) sd format lba) skip n)"
proof -
  let ?m = "manifest img"
  define h where "h = header_size format t"
  define pos where "pos = sector_start t lba"
  define offset where "offset = (lba - start_lba t) * kui_retail_track_sector_bytes t"
  define ll where "ll = (if stop > end_lba t then end_lba t else stop)"
  define lb where "lb = kui_retail_track_file_offset t + (ll - 1 - start_lba t) * kui_retail_track_sector_bytes t + h + sector_size format"
  define limit where "limit = (lb + 511) div 512"
  have ps: "offset + kui_retail_track_file_offset t = pos" by (simp add: offset_def pos_def sector_start_def)
  have ll: "lba \<le> ll - 1" "start_lba t < ll" "ll \<le> end_lba t" using lba by (auto simp: ll_def)
  have fit: "h + sector_size format \<le> kui_retail_track_sector_bytes t" using readable_fits [OF t(3)] by (simp add: h_def)
  have "(lba - start_lba t) * kui_retail_track_sector_bytes t \<le> (ll - 1 - start_lba t) * kui_retail_track_sector_bytes t"
    using ll by (intro mult_le_mono1) simp
  then have "pos + h + sector_size format \<le> lb" by (simp add: lb_def pos_def sector_start_def)
  then have lim: "pos + h + sector_size format \<le> 512 * limit" by (simp add: limit_def)
  have "Suc (lba - start_lba t) * kui_retail_track_sector_bytes t \<le> (end_lba t - start_lba t) * kui_retail_track_sector_bytes t"
    using lba by (intro mult_le_mono1) simp
  then have "(lba - start_lba t) * kui_retail_track_sector_bytes t + kui_retail_track_sector_bytes t
      \<le> (end_lba t - start_lba t) * kui_retail_track_sector_bytes t" by (simp only: mult_Suc add.commute)
  then have "pos + h + sector_size format \<le> track_bytes t" using fit by (simp add: pos_def sector_start_def track_bytes_def)
  then have whole: "pos + h + sector_size format \<le> 512 * ((track_bytes t + 511) div 512)" by linarith
  have hok: "disc_header_ok ?m sd format lba = (h = 0 \<or> header_ok t (stored ?m sd t pos h))"
    by (simp add: disc_header_ok_def t(2) h_def pos_def Let_def)
  have pay: "window (disc_payload ?m sd format lba) skip n = stored ?m sd t (pos + h + skip) n"
  proof -
    have "disc_payload ?m sd format lba = stored ?m sd t (pos + h) (skip + (n + (sector_size format - (skip + n))))"
      using n by (simp add: disc_payload_def t(2) h_def pos_def Let_def)
    then show ?thesis by (simp add: stored_split window_def)
  qed
  obtain r1 i1 where d: "(if h \<noteq> 0 then data_header img t offset limit else (Game_OK, img)) = (r1, i1)" by fastforce
  have dh: "coherent i1 sd \<and> same_reader img i1 \<and> (r1 = Game_IO \<or> r1 = (if disc_header_ok ?m sd format lba then Game_OK else Game_Mode))"
  proof (cases "h = 0")
    case True
    then show ?thesis using d v hok by auto
  next
    case False
    then have hb: "h = kui_retail_track_header_bytes t" by (simp add: h_def header_size_def split: if_splits)
    obtain r2 hd i2 where f: "file_read img t offset h limit = (r2, hd, i2)" by (metis prod_cases3)
    then have "file_loop img t pos h limit = (r2, hd, i2)" by (simp add: file_read_def ps)
    from file_loop_correct [OF v _ _ this] whole lim
    have c: "coherent i2 sd \<and> same_reader img i2 \<and> (r2 = Game_OK \<or> r2 = Game_IO) \<and> (r2 = Game_OK \<longrightarrow> hd = stored ?m sd t pos h)" by simp
    have "(r1, i1) = (if r2 \<noteq> Game_OK then (r2, i2) else (if header_ok t hd then Game_OK else Game_Mode, i2))"
      using d False f by (simp add: data_header_def flip: hb)
    then show ?thesis using c False hok by (auto split: if_splits)
  qed
  have unf: "sector_read img format k lba stop skip n = (if r1 \<noteq> Game_OK then (r1, [], i1) else file_read i1 t (offset + h + skip) n limit)"
    unfolding sector_read_def Let_def t(1) [symmetric] offset_def [symmetric] ll_def [symmetric] header_size_def [symmetric] h_def [symmetric]
      lb_def [symmetric] limit_def [symmetric] d by simp
  show ?thesis
  proof (cases "r1 = Game_OK")
    case False
    then show ?thesis using unf r dh by (auto split: if_splits)
  next
    case True
    then have f: "file_loop i1 t (pos + h + skip) n limit = (r, out, img')" using unf r by (simp add: file_read_def ac_simps flip: ps)
    have m: "manifest i1 = ?m" using dh by (simp add: same_reader_def)
    have c: "coherent img' sd \<and> same_reader i1 img' \<and> (r = Game_OK \<or> r = Game_IO) \<and> (r = Game_OK \<longrightarrow> out = stored ?m sd t (pos + h + skip) n)"
      using file_loop_correct [of i1 t sd "pos + h + skip" n limit, OF _ _ _ _ _ f] v dh reads_card_same [of img i1 sd] m n whole lim by simp
    then show ?thesis using dh True pay by (auto intro: same_reader_trans split: if_splits)
  qed
qed

definition disc_status :: "retail_manifest \<Rightarrow> (nat \<Rightarrow> bytes) \<Rightarrow> sector_format \<Rightarrow> nat list \<Rightarrow> game_result" where
  "disc_status m sd format lbas = (if list_all (disc_header_ok m sd format) lbas then Game_OK else Game_Mode)"

definition disc_bytes :: "retail_manifest \<Rightarrow> (nat \<Rightarrow> bytes) \<Rightarrow> sector_format \<Rightarrow> nat list \<Rightarrow> bytes" where
  "disc_bytes m sd format lbas = concat (map (disc_payload m sd format) lbas)"

text \<open>All the sectors of a list lie on readable tracks from the \<open>k\<close>-th on.\<close>

definition on_tracks :: "retail_manifest \<Rightarrow> sector_format \<Rightarrow> nat \<Rightarrow> nat list \<Rightarrow> bool" where
  "on_tracks m format k lbas = (\<forall>lba\<in>set lbas. \<exists>j. k \<le> j \<and> j < length (tracks m) \<and> start_lba (tracks m ! j) \<le> lba
     \<and> lba < end_lba (tracks m ! j) \<and> readable format (tracks m ! j))"

lemma on_tracks_step:
  assumes tv: "tracks_valid cap m" and on: "on_tracks m format k (lba # rest)" and srt: "sorted (lba # rest)"
  obtains j where "track_seek m lba k = j" "j < length (tracks m)" "track_at m lba = tracks m ! j" "start_lba (tracks m ! j) \<le> lba"
    "lba < end_lba (tracks m ! j)" "readable format (tracks m ! j)" "on_tracks m format j rest"
proof -
  obtain j where j: "k \<le> j" "j < length (tracks m)" "start_lba (tracks m ! j) \<le> lba" "lba < end_lba (tracks m ! j)" "readable format (tracks m ! j)"
    using on by (auto simp: on_tracks_def)
  have "on_tracks m format j rest"
    unfolding on_tracks_def
  proof
    fix x assume x: "x \<in> set rest"
    then obtain i where i: "i < length (tracks m)" "start_lba (tracks m ! i) \<le> x" "x < end_lba (tracks m ! i)" "readable format (tracks m ! i)"
      using on by (auto simp: on_tracks_def)
    have "lba \<le> x" using srt x by simp
    then have "\<not> i < j" using tracks_ordered [OF tv, of i j] i j by auto
    then show "\<exists>i. j \<le> i \<and> i < length (tracks m) \<and> start_lba (tracks m ! i) \<le> x \<and> x < end_lba (tracks m ! i) \<and> readable format (tracks m ! i)"
      using i by (intro exI [of _ i]) auto
  qed
  then show ?thesis using that [of j] track_seek_finds [OF tv j(2,3,4,1)] track_at_eq [OF tv j(2,3,4)] j by blast
qed

lemma tracks_valid_manifest: "kui_retail_manifest_validate cap m = Game_OK \<Longrightarrow> tracks_valid cap m"
  using manifest_valid_parts [of cap m] by (simp add: manifest_fields_ok_def)

text \<open>The whole-sector loop and the byte-range loop are the same loop; \<open>skip\<close> is spent on the first sector and \<open>n\<close> runs out on the last.\<close>

lemma part_loop_correct:
  assumes v: "kui_retail_manifest_validate cap (manifest img) = Game_OK"
    and "reads_card img sd" "coherent img sd" "on_tracks (manifest img) format k lbas" "sorted lbas" "\<forall>lba\<in>set lbas. lba < stop"
    and "skip \<le> sector_size format" "part_loop img format k lbas stop skip n = (r, out, img')"
  shows "coherent img' sd \<and> same_reader img img' \<and> (r = Game_IO \<or> r = disc_status (manifest img) sd format lbas)
    \<and> (r = Game_OK \<longrightarrow> disc_status (manifest img) sd format lbas = Game_OK \<and> out = window (disc_bytes (manifest img) sd format lbas) skip n)"
  using assms
proof (induction img format k lbas stop skip n arbitrary: r out img' rule: part_loop.induct)
  case (1 img format k stop skip n)
  then show ?case by (simp add: disc_status_def disc_bytes_def window_def)
next
  case (2 img format k lba rest stop skip n)
  let ?m = "manifest img" and ?tk = "min (sector_size format - skip) n"
  note tv = tracks_valid_manifest [OF "2.prems"(1)]
  obtain j where j: "track_seek ?m lba k = j" "j < length (tracks ?m)" "track_at ?m lba = tracks ?m ! j" "start_lba (tracks ?m ! j) \<le> lba"
    "lba < end_lba (tracks ?m ! j)" "readable format (tracks ?m ! j)" "on_tracks ?m format j rest"
    using on_tracks_step [OF tv "2.prems"(4,5)] .
  obtain r1 bs i1 where s: "sector_read img format j lba stop skip ?tk = (r1, bs, i1)" by (metis prod_cases3)
  have tm: "track_mapped ?m (tracks ?m ! j)"
    using manifest_track_mapped [OF "2.prems"(1)] j by (auto simp: readable_def)
  have c: "coherent i1 sd \<and> same_reader img i1 \<and> (r1 = Game_IO \<or> r1 = (if disc_header_ok ?m sd format lba then Game_OK else Game_Mode))
      \<and> (r1 = Game_OK \<longrightarrow> disc_header_ok ?m sd format lba \<and> bs = window (disc_payload ?m sd format lba) skip ?tk)"
    by (rule sector_read_correct [OF tm "2.prems"(2,3) refl j(3,6,4,5) _ _ s]) (use "2.prems"(6,7) in auto)
  show ?case
  proof (cases "r1 = Game_OK")
    case False
    then have "(r, out, img') = (r1, [], i1)" using "2.prems"(8) by (simp add: Let_def j(1) s)
    then show ?thesis using c False by (cases "disc_header_ok ?m sd format lba") (auto simp: disc_status_def)
  next
    case True
    obtain r2 o2 i2 where l: "part_loop i1 format j rest stop 0 (n - ?tk) = (r2, o2, i2)" by (metis prod_cases3)
    have m: "manifest i1 = ?m" using c by (simp add: same_reader_def)
    have IH: "coherent i2 sd \<and> same_reader i1 i2 \<and> (r2 = Game_IO \<or> r2 = disc_status ?m sd format rest)
        \<and> (r2 = Game_OK \<longrightarrow> disc_status ?m sd format rest = Game_OK \<and> o2 = window (disc_bytes ?m sd format rest) 0 (n - ?tk))"
      using "2.IH" [OF j(1) [symmetric] refl s [symmetric] refl, of r2 o2 i2] True m l c j(7) "2.prems"
        reads_card_same [of img i1 sd] by simp
    have "(r, out, img') = (r2, bs @ o2, i2)" using "2.prems"(8) True by (simp add: Let_def j(1) s l)
    moreover have "length (disc_payload ?m sd format lba) = sector_size format" by (simp add: disc_payload_def Let_def)
    then have "window (disc_payload ?m sd format lba) skip ?tk @ window (disc_bytes ?m sd format rest) 0 (n - ?tk)
        = window (disc_bytes ?m sd format (lba # rest)) skip n"
      using "2.prems"(7) by (auto simp: window_def disc_bytes_def min_def)
    ultimately show ?thesis using c IH True by (auto simp: disc_status_def intro: same_reader_trans split: if_splits)
  qed
qed

lemma read_loop_part:
  "read_loop img format k lbas stop = part_loop img format k lbas stop 0 (length lbas * sector_size format)"
  by (induction img format k lbas stop rule: read_loop.induct) (simp_all add: Let_def split: prod.splits)


lemma checked_on_tracks:
  assumes "kui_retail_image_check_validated m lba count format = Game_OK"
  shows "on_tracks m format 0 [lba..<lba + count]"
proof -
  have "range_scan (tracks m) lba (lba + count) format = Game_OK"
    using assms by (auto simp: kui_retail_image_check_validated_def range_check_def split: if_splits)
  note scan = range_scan_ok [OF this]
  show ?thesis
    unfolding on_tracks_def
  proof
    fix x assume "x \<in> set [lba..<lba + count]"
    then obtain t where t: "t \<in> set (tracks m)" "start_lba t \<le> x \<and> x < end_lba t \<and> readable format t" using scan [of x] by auto
    then obtain j where "j < length (tracks m)" "t = tracks m ! j" by (auto simp: in_set_conv_nth)
    then show "\<exists>j. 0 \<le> j \<and> j < length (tracks m) \<and> start_lba (tracks m ! j) \<le> x \<and> x < end_lba (tracks m ! j) \<and> readable format (tracks m ! j)"
      using t(2) by auto
  qed
qed

text \<open>
  C26.  Reading sectors of an admitted disc map.  A request outside the map, over a gap, of an unmapped or wrong-typed
  track, or larger than the buffer is refused before any card access.  Otherwise the reader - binary search over the extents,
  one-block cache and streamed runs included - returns exactly the user bytes that the card stores for those sectors,
  whatever the cache held before, or reports MODE because the stored header of a requested sector is not acceptable, or IO because a card
  access failed; and its cache stays coherent with the card.
\<close>

theorem retail_read_correct:
  assumes "kui_retail_manifest_validate cap (manifest img) = Game_OK" and "reads_card img sd" and "coherent img sd"
    and "kui_retail_image_read img lba count format capacity = (r, out, img')"
  shows "coherent img' sd \<and> same_reader img img'
    \<and> (if kui_retail_image_check_validated (manifest img) lba count format \<noteq> Game_OK
       then r = kui_retail_image_check_validated (manifest img) lba count format \<and> img' = img
       else if capacity < sector_size format * count then r = Game_Range \<and> img' = img
       else (r = Game_IO \<or> r = disc_status (manifest img) sd format [lba..<lba + count])
         \<and> (if r = Game_OK then disc_status (manifest img) sd format [lba..<lba + count] = Game_OK
              \<and> out = disc_bytes (manifest img) sd format [lba..<lba + count] else True))"
proof -
  let ?c = "kui_retail_image_check_validated (manifest img) lba count format"
  show ?thesis
  proof (cases "?c \<noteq> Game_OK \<or> capacity < sector_size format * count")
    case True
    then show ?thesis using assms(3,4) by (auto simp: kui_retail_image_read_def Let_def)
  next
    case False
    then have l: "part_loop img format 0 [lba..<lba + count] (lba + count) 0 (count * sector_size format) = (r, out, img')"
      using assms(4) by (simp add: kui_retail_image_read_def Let_def read_loop_part)
    have "length (disc_bytes (manifest img) sd format [lba..<lba + count]) = count * sector_size format"
      unfolding disc_bytes_def by (subst length_concat_const [of _ "sector_size format"]) (auto simp: disc_payload_def Let_def)
    then have "window (disc_bytes (manifest img) sd format [lba..<lba + count]) 0 (count * sector_size format)
        = disc_bytes (manifest img) sd format [lba..<lba + count]" by (metis window_all)
    then show ?thesis
      using part_loop_correct [OF assms(1-3) checked_on_tracks _ _ _ l] False by auto
  qed
qed

text \<open>
  C30.  Byte-range reads agree with sector reads: \<open>kui_retail_image_read_part\<close> returns the requested slice of the bytes
  that reading the touched sectors whole returns, under the same checks.
\<close>

theorem retail_read_part_correct:
  assumes "kui_retail_manifest_validate cap (manifest img) = Game_OK" and "reads_card img sd" and "coherent img sd"
    and "kui_retail_image_read_part img lba skip n format = (Game_OK, out, img')"
  shows "coherent img' sd \<and> same_reader img img' \<and> length out = n
    \<and> (let first = lba + skip div sector_size format; inside = skip mod sector_size format;
           count = (inside + n + sector_size format - 1) div sector_size format
       in count \<le> 64 \<and> out = window (disc_bytes (manifest img) sd format [first..<first + count]) inside n)"
proof -
  define sb where "sb = sector_size format"
  define first where "first = lba + skip div sb"
  define inside where "inside = skip mod sb"
  define count where "count = (inside + n + sb - 1) div sb"
  have sb: "0 < sb" by (cases format) (simp_all add: sb_def sector_size_def)
  have u: "n \<noteq> 0" "kui_retail_image_check_validated (manifest img) first count format = Game_OK"
    "part_loop img format 0 [first..<first + count] (first + count) inside n = (Game_OK, out, img')"
    using assms(4) unfolding kui_retail_image_read_part_def Let_def sb_def [symmetric] inside_def [symmetric] first_def [symmetric] count_def [symmetric]
    by (auto split: if_splits)
  have "inside \<le> sector_size format" using sb by (simp add: inside_def sb_def [symmetric] less_imp_le)
  from part_loop_correct [OF assms(1-3) checked_on_tracks [OF u(2)] _ _ this u(3)]
  have p: "coherent img' sd \<and> same_reader img img' \<and> out = window (disc_bytes (manifest img) sd format [first..<first + count]) inside n" by auto
  have "length (disc_bytes (manifest img) sd format [first..<first + count]) = count * sb"
    unfolding disc_bytes_def by (subst length_concat_const [of _ "sector_size format"]) (auto simp: disc_payload_def Let_def sb_def)
  moreover have "inside + n \<le> count * sb"
    using sb dividend_less_times_div [of sb "inside + n + sb - 1"] by (simp add: count_def algebra_simps)
  ultimately have "length out = n" using p by (simp add: length_window)
  moreover have "count \<le> 64" using u(2) by (auto simp: kui_retail_image_check_validated_def split: if_splits)
  ultimately show ?thesis using p by (simp add: Let_def sb_def first_def inside_def count_def)
qed

subsection \<open>A concrete disc\<close>

text \<open>One cooked data track of two sectors, stored in two extents.\<close>

definition sample_text :: "nat \<Rightarrow> bytes" where
  "sample_text n = 0x41 # replicate (n - 1) 0"

definition sample_track :: retail_track where
  "sample_track = \<lparr>start_lba = 45000, end_lba = 45002, first_extent = 1, extent_count = 2, control = 0x84\<rparr>"

definition sample_map :: retail_manifest where
  "sample_map = \<lparr>card_sectors = 1000, partition_start = 50, partition_end = 900, session_lba = 45000, boot_lba = 45000, boot_bytes = 2048,
     storage_transport = 1, reader = 0, flags = 0, boot_crc32 = 1, ip_crc32 = 2, gdi_crc32 = 3,
     title = sample_text 128, product = sample_text 16, bootfile = sample_text 24, region = sample_text 16,
     tracks = [sample_track],
     extents = [\<lparr>file_block = 0, card_lba = 100, blocks = 5\<rparr>, \<lparr>file_block = 5, card_lba = 200, blocks = 3\<rparr>]\<rparr>"

definition sample_disc :: "nat \<Rightarrow> bytes" where
  "sample_disc lba = replicate 512 (of_nat lba)"

definition sample_reader :: "unit retail_image" where
  "sample_reader = \<lparr>manifest = sample_map, read_block = (\<lambda>s lba. (False, sample_disc lba, s)), read_run = None, card_context = (),
     blocks_read = 0, cached_lba = 0, cache_valid = False, block = replicate 512 0\<rparr>"

lemma sample_text_valid: "1 < n \<Longrightarrow> text_valid (sample_text n) req"
  by (cases "n - 1") (auto simp: text_valid_def sample_text_def)

lemma sample_control [simp]: "bit (0x84 :: u8) 2" "bit (0x84 :: u8) 7" "\<not> bit (0x84 :: u8) 3" "\<not> bit (0x84 :: u8) 4" "\<not> bit (0x84 :: u8) 5"
  "\<not> bit (0x84 :: u8) 6"
  by simp_all

lemma sample_fields: "manifest_fields_ok 160 sample_map"
  by (simp add: manifest_fields_ok_def sample_text_valid tracks_valid_def layout_ok_def sample_map_def sample_track_def Let_def)

lemmas sample_layout = track_bytes_def kui_retail_track_first_extent_def kui_retail_track_file_offset_def kui_retail_track_sector_bytes_def
  kui_retail_track_header_bytes_def slot_extent_def

lemma sample_tracks: "check_tracks sample_map (tracks sample_map) 1 False = Inr (3, True)"
  by (simp add: sample_map_def sample_track_def track_extents_def sample_layout upt_rec)

lemma sample_apart: "\<not> card_meet (slot_extent sample_map 2) (slot_extent sample_map 1)"
  by (simp add: sample_map_def card_meet_def slot_extent_def)

lemma sample_boot: "range_check sample_map 45000 1 Sector_Mode1 = Game_OK"
  by (simp add: sample_map_def sample_track_def range_check_def)

lemma sample_map_admitted: "kui_retail_manifest_validate 160 sample_map = Game_OK"
proof -
  have n: "length (tracks sample_map) = 1" "length (extents sample_map) = 2" "boot_bytes sample_map = 2048" "boot_lba sample_map = 45000"
    "session_lba sample_map = 45000" by (simp_all add: sample_map_def)
  have "\<not> (\<exists>i\<in>set [1..<1 + 2]. \<exists>j\<in>set [1..<i]. card_meet (slot_extent sample_map i) (slot_extent sample_map j) \<and> \<not> shared_boundary sample_map i j)"
  proof (rule notI, elim bexE conjE)
    fix i j assume "i \<in> set [1..<1 + 2]" "j \<in> set [1..<i]" "card_meet (slot_extent sample_map i) (slot_extent sample_map j)"
    moreover from this have "i = 2" "j = 1" by auto
    ultimately show False using sample_apart by simp
  qed
  then show ?thesis
    unfolding kui_retail_manifest_validate_def Let_def n using sample_fields sample_tracks sample_boot by simp
qed

lemma sample_map_typed: "fields_typed sample_map"
  by (simp add: fields_typed_def texts_sized_def sample_map_def sample_text_def sample_track_def)

lemma sample_reader_ready: "reads_card sample_reader sample_disc" "coherent sample_reader sample_disc" "manifest sample_reader = sample_map"
  by (simp_all add: sample_reader_def reads_card_def card_callbacks_def coherent_def sample_disc_def)

theorem retail_manifest_canonical_witness:
  "\<exists>wire. kui_retail_manifest_encode 160 sample_map = Inr wire \<and> kui_retail_manifest_decode 160 wire = Inr sample_map \<and> length wire = 4096"
proof -
  obtain wire where e: "kui_retail_manifest_encode 160 sample_map = Inr wire"
    using sample_map_admitted by (simp add: kui_retail_manifest_encode_def Let_def)
  then show ?thesis using retail_manifest_canonical [of 160 sample_map wire] sample_map_typed by simp
qed

lemma sample_read_checked: "kui_retail_image_check_validated sample_map 45000 2 Sector_Mode1 = Game_OK"
  by (simp add: kui_retail_image_check_validated_def range_check_def sample_map_def sample_track_def)

theorem retail_read_correct_witness:
  "\<exists>r out img'. kui_retail_image_read sample_reader 45000 2 Sector_Mode1 4096 = (r, out, img') \<and> coherent img' sample_disc
    \<and> (r = Game_IO \<or> r = disc_status sample_map sample_disc Sector_Mode1 [45000..<45002])"
proof -
  obtain r out img' where e: "kui_retail_image_read sample_reader 45000 2 Sector_Mode1 4096 = (r, out, img')" by (metis prod_cases3)
  from retail_read_correct [OF _ sample_reader_ready(1,2) e, of 160] sample_map_admitted sample_read_checked
  have "coherent img' sample_disc \<and> (r = Game_IO \<or> r = disc_status sample_map sample_disc Sector_Mode1 [45000..<45002])"
    by (simp add: sample_reader_ready sector_size_def)
  then show ?thesis using e by blast
qed

lemma sample_part: "kui_retail_image_read_part sample_reader 45000 2559 4 Sector_Mode1
    = (Game_OK, [104, 200, 200, 200], sample_reader\<lparr>blocks_read := 2, cached_lba := 200, cache_valid := True, block := sample_disc 200\<rparr>)"
  by (simp add: kui_retail_image_read_part_def sector_size_def Let_def upt_rec kui_retail_image_check_validated_def range_check_def
      sample_reader_def sample_map_def sample_track_def track_seek.simps sector_read_def sample_layout file_read_def
      file_loop.simps extent_search.simps fetch_def sample_disc_def window_def min_def numeral_3_eq_3)

theorem retail_read_part_correct_witness:
  "[104, 200, 200, 200] = window (disc_bytes sample_map sample_disc Sector_Mode1 [45001..<45002]) 511 4"
  using retail_read_part_correct [OF _ sample_reader_ready(1,2) sample_part, of 160] sample_map_admitted
  by (simp add: sample_reader_ready sector_size_def)

subsection \<open>No byte of the card belongs to two places of the disc\<close>

lemma slots_ordered:
  assumes "a < b" "b < length ts"
  shows "sum_list (map extent_count (take a ts)) + extent_count (ts ! a) \<le> sum_list (map extent_count (take b ts))"
proof -
  have "sum_list (map extent_count (take (Suc a) ts)) \<le> sum_list (map extent_count (take b ts))"
    using assms by (metis Suc_leI le_add1 le_add_diff_inverse map_append sum_list_append take_add)
  then show ?thesis using assms by (simp add: take_Suc_conv_app_nth)
qed

lemma manifest_first_extent:
  assumes "kui_retail_manifest_validate cap m = Game_OK" "a < length (tracks m)"
  shows "kui_retail_track_first_extent (tracks m ! a) = length (tracks m) + sum_list (map extent_count (take a (tracks m)))"
    "kui_retail_track_first_extent (tracks m ! a) + extent_count (tracks m ! a) \<le> length (tracks m) + length (extents m)"
proof -
  have "check_tracks m (tracks m) (length (tracks m)) False = Inr (length (tracks m) + length (extents m), True)"
    using manifest_valid_parts [OF assms(1)] by blast
  from check_tracks_sound [OF this] assms(2)
  have "track_stored m (tracks m ! a) (length (tracks m) + sum_list (map extent_count (take a (tracks m))))" by simp
  then show "kui_retail_track_first_extent (tracks m ! a) = length (tracks m) + sum_list (map extent_count (take a (tracks m)))"
    "kui_retail_track_first_extent (tracks m ! a) + extent_count (tracks m ! a) \<le> length (tracks m) + length (extents m)"
    unfolding track_stored_def by simp_all
qed

lemma owns_unique:
  assumes "kui_retail_manifest_validate cap m = Game_OK" "a < length (tracks m)" "b < length (tracks m)"
    and "owns (tracks m ! a) i" "owns (tracks m ! b) i"
  shows "a = b"
proof (rule ccontr)
  assume "a \<noteq> b"
  then consider "a < b" | "b < a" by linarith
  then show False
    by cases (use assms slots_ordered [of a b "tracks m"] slots_ordered [of b a "tracks m"] in
      \<open>auto simp: owns_def manifest_first_extent [OF assms(1)]\<close>)
qed

lemma owner_from_eq:
  assumes "\<And>b. b < length ts \<Longrightarrow> owns (ts ! b) i \<Longrightarrow> b = a" "a < length ts" "owns (ts ! a) i"
  shows "owner_from ts k i = Some (k + a)"
  using assms
proof (induction ts arbitrary: a k)
  case (Cons t ts)
  show ?case
  proof (cases a)
    case (Suc c)
    then have "\<not> owns t i" using Cons.prems(1) [of 0] by auto
    moreover have "owner_from ts (Suc k) i = Some (Suc k + c)"
      using Cons.IH [of c "Suc k"] Cons.prems Suc by (metis Suc_less_eq length_Cons nth_Cons_Suc old.nat.inject)
    ultimately show ?thesis using Suc by simp
  qed (use Cons.prems in auto)
qed simp

lemma extent_owner_eq:
  assumes "kui_retail_manifest_validate cap m = Game_OK" "a < length (tracks m)" "owns (tracks m ! a) i"
  shows "extent_owner m i = Some a"
proof -
  have "owner_from (tracks m) 0 i = Some (0 + a)"
    by (rule owner_from_eq [OF _ assms(2,3)]) (rule owns_unique [OF assms(1) _ assms(2) _ assms(3)])
  then show ?thesis by (simp add: extent_owner_def)
qed

text \<open>A file block of a track, with the slot that stores it.\<close>

definition stored_at :: "retail_manifest \<Rightarrow> nat \<Rightarrow> nat \<Rightarrow> nat \<Rightarrow> bool" where
  "stored_at m a fb i = (owns (tracks m ! a) i \<and> file_block (slot_extent m i) \<le> fb \<and> fb - file_block (slot_extent m i) < blocks (slot_extent m i)
     \<and> file_blocks m (tracks m ! a) ! fb = card_lba (slot_extent m i) + (fb - file_block (slot_extent m i)))"

lemma stored_at_ex:
  assumes "track_mapped m (tracks m ! a)" "fb < (track_bytes (tracks m ! a) + 511) div 512"
  shows "\<exists>i. stored_at m a fb i"
proof -
  let ?k = "kui_retail_track_first_extent (tracks m ! a)"
  obtain x where x: "x < extent_count (tracks m ! a)" "file_block (slot_extent m (?k + x)) \<le> fb"
    "fb - file_block (slot_extent m (?k + x)) < blocks (slot_extent m (?k + x))"
    using extent_search_finds [OF assms] by blast
  then have "stored_at m a fb (?k + x)" using file_blocks_nth [OF assms(1) x] by (simp add: stored_at_def owns_def)
  then show ?thesis by blast
qed

lemma meeting_blocks:
  assumes v: "kui_retail_manifest_validate cap m = Game_OK" and ab: "a < length (tracks m)" "b < length (tracks m)"
    and s: "stored_at m a fa i" "stored_at m b fb j" and eq: "file_blocks m (tracks m ! a) ! fa = file_blocks m (tracks m ! b) ! fb" and "j < i"
  shows "a \<noteq> b \<and> (if a < b then fb = 0 \<and> fa = (track_bytes (tracks m ! a) - 1) div 512
        \<and> track_bytes (tracks m ! a) mod 512 \<noteq> 0 \<and> track_bytes (tracks m ! a) mod 512 \<le> kui_retail_track_file_offset (tracks m ! b)
      else fa = 0 \<and> fb = (track_bytes (tracks m ! b) - 1) div 512
        \<and> track_bytes (tracks m ! b) mod 512 \<noteq> 0 \<and> track_bytes (tracks m ! b) mod 512 \<le> kui_retail_track_file_offset (tracks m ! a))"
proof -
  let ?e = "slot_extent m i" and ?q = "slot_extent m j"
  define c where "c = file_blocks m (tracks m ! a) ! fa"
  have ce: "c = card_lba ?e + (fa - file_block ?e)" "file_block ?e \<le> fa" "fa - file_block ?e < blocks ?e" "owns (tracks m ! a) i"
    using s(1) by (auto simp: stored_at_def c_def)
  have cq: "c = card_lba ?q + (fb - file_block ?q)" "file_block ?q \<le> fb" "fb - file_block ?q < blocks ?q" "owns (tracks m ! b) j"
    using s(2) eq by (auto simp: stored_at_def c_def)
  have meet: "card_meet ?e ?q" using ce cq unfolding card_meet_def by linarith
  have "length (tracks m) \<le> j" "i < length (tracks m) + length (extents m)"
    using ce(4) cq(4) manifest_first_extent [OF v ab(1)] manifest_first_extent [OF v ab(2)] by (auto simp: owns_def)
  from manifest_overlaps [OF v this(1) \<open>j < i\<close> this(2) meet]
  have sb: "shared_boundary m i j" .
  define first where "first = (if card_lba ?e > card_lba ?q then card_lba ?e else card_lba ?q)"
  define stop where "stop = (if card_lba ?e + blocks ?e > card_lba ?q + blocks ?q then card_lba ?q + blocks ?q else card_lba ?e + blocks ?e)"
  have o: "extent_owner m i = Some a" "extent_owner m j = Some b" using extent_owner_eq v ab ce(4) cq(4) by blast+
  have d: "stop - first = 1" "a + 1 = b \<or> b + 1 = a"
    "if a > b then boundary_block (tracks m ! b) (tracks m ! a) ?q ?e first else boundary_block (tracks m ! a) (tracks m ! b) ?e ?q first"
    using sb unfolding shared_boundary_def Let_def first_def [symmetric] stop_def [symmetric] o by (auto split: if_splits)
  have "first \<le> c" "c < stop" using ce cq by (auto simp: first_def stop_def)
  then have "c = first" using d(1) by linarith
  then have f: "file_block ?e + (first - card_lba ?e) = fa" "file_block ?q + (first - card_lba ?q) = fb" using ce cq by auto
  show ?thesis using d(2,3) f by (auto simp: boundary_block_def Let_def split: if_splits)
qed

lemma boundary_bytes_apart:
  assumes "p div 512 = (stop - 1) div 512" "p < stop" "stop mod 512 \<noteq> 0" "stop mod 512 \<le> off" "off \<le> q" "q div 512 = 0"
  shows "p mod 512 \<noteq> q mod (512::nat)"
proof -
  have "stop - 1 = (stop mod 512 - 1) + stop div 512 * 512" using mult_div_mod_eq [of 512 stop] assms(3) by linarith
  moreover have "stop mod 512 - 1 < 512" by (simp add: less_imp_diff_less)
  ultimately have "(stop - 1) div 512 = stop div 512" by simp
  then have "p mod 512 < stop mod 512" using assms(1,2) by (metis div_mult_mod_eq nat_add_left_cancel_less)
  moreover have "q mod 512 = q" using assms(6) by simp
  ultimately show ?thesis using assms(4,5) by simp
qed


text \<open>
  C28.  An admitted disc map never aliases: two different stored bytes of the disc - of one track or of two - lie at different
  places of the card, even where two tracks share the block in which one ends and the next begins; and every one of them lies in the image's partition.
\<close>

theorem retail_map_separates:
  assumes v: "kui_retail_manifest_validate cap m = Game_OK" and ab: "a < length (tracks m)" "b < length (tracks m)"
    and mapped: "extent_count (tracks m ! a) \<noteq> 0" "extent_count (tracks m ! b) \<noteq> 0"
    and p: "kui_retail_track_file_offset (tracks m ! a) \<le> p" "p < track_bytes (tracks m ! a)"
    and q: "kui_retail_track_file_offset (tracks m ! b) \<le> q" "q < track_bytes (tracks m ! b)"
    and ne: "(a, p) \<noteq> (b, q)"
  shows "(file_blocks m (tracks m ! a) ! (p div 512), p mod 512) \<noteq> (file_blocks m (tracks m ! b) ! (q div 512), q mod 512)
    \<and> partition_start m \<le> file_blocks m (tracks m ! a) ! (p div 512) \<and> file_blocks m (tracks m ! a) ! (p div 512) < partition_end m"
proof -
  have tm: "track_mapped m (tracks m ! a)" "track_mapped m (tracks m ! b)" using manifest_track_mapped [OF v] ab mapped by auto
  have "p div 512 < (track_bytes (tracks m ! a) + 511) div 512" "q div 512 < (track_bytes (tracks m ! b) + 511) div 512" using p(2) q(2) by linarith+
  then obtain i j where s: "stored_at m a (p div 512) i" "stored_at m b (q div 512) j" using stored_at_ex tm by meson
  have o: "owns (tracks m ! a) i" "owns (tracks m ! b) j" using s by (simp_all add: stored_at_def)
  have "\<not> (file_blocks m (tracks m ! a) ! (p div 512) = file_blocks m (tracks m ! b) ! (q div 512) \<and> p mod 512 = q mod 512)"
  proof
    assume "file_blocks m (tracks m ! a) ! (p div 512) = file_blocks m (tracks m ! b) ! (q div 512) \<and> p mod 512 = q mod 512"
    then have eq: "file_blocks m (tracks m ! a) ! (p div 512) = file_blocks m (tracks m ! b) ! (q div 512)" and md: "p mod 512 = q mod 512" by auto
    consider (same) "i = j" | (less) "j < i" | (greater) "i < j" by linarith
    then show False
    proof cases
      case same
      then have "a = b" using owns_unique [OF v ab o(1)] o(2) by simp
      moreover have "p div 512 = q div 512" using s eq unfolding same stored_at_def by linarith
      ultimately show False using md ne by (metis div_mult_mod_eq)
    next
      case less
      from meeting_blocks [OF v ab s eq less] boundary_bytes_apart [of p _ _ q] boundary_bytes_apart [of q _ _ p] p q md
      show False by (auto split: if_splits)
    next
      case greater
      from meeting_blocks [OF v ab(2,1) s(2,1) eq [symmetric] greater] boundary_bytes_apart [of p _ _ q] boundary_bytes_apart [of q _ _ p] p q md
      show False by (auto split: if_splits)
    qed
  qed
  moreover have "partition_start m \<le> file_blocks m (tracks m ! a) ! (p div 512) \<and> file_blocks m (tracks m ! a) ! (p div 512) < partition_end m"
  proof -
    obtain x where x: "x < extent_count (tracks m ! a)" "i = kui_retail_track_first_extent (tracks m ! a) + x"
      using o(1) by (auto simp: owns_def intro: that [of "i - kui_retail_track_first_extent (tracks m ! a)"])
    from mapped_extent [OF tm(1) x(1)] s(1) x(2) show ?thesis by (auto simp: stored_at_def)
  qed
  ultimately show ?thesis by simp
qed

theorem retail_map_separates_witness:
  "(file_blocks sample_map (tracks sample_map ! 0) ! (2559 div 512), (2559::nat) mod 512) \<noteq> (file_blocks sample_map (tracks sample_map ! 0) ! (2560 div 512), 2560 mod 512)
   \<and> 50 \<le> file_blocks sample_map (tracks sample_map ! 0) ! (2559 div 512) \<and> file_blocks sample_map (tracks sample_map ! 0) ! (2559 div 512) < 900"
proof -
  have t: "tracks sample_map ! 0 = sample_track" "length (tracks sample_map) = 1" "partition_start sample_map = 50" "partition_end sample_map = 900"
    by (simp_all add: sample_map_def)
  have h: "extent_count sample_track = 2" "kui_retail_track_file_offset sample_track = 0" "track_bytes sample_track = 4096"
    by (simp_all add: sample_track_def sample_layout)
  show ?thesis
    using retail_map_separates [OF sample_map_admitted, of 0 0 2559 2560, unfolded t h] unfolding t by simp
qed

end
