(* ===== verification/Readahead.thy ===== *)
theory Readahead
  imports Retail_Image
begin

text \<open>
  The read-ahead cache of the native loader (src/core/native\_readahead\_cache.c): a ring of 384 blocks in a leased arena that holds
  one contiguous interval of the card.  Memory is a function from addresses to bytes on a 32-bit machine, so that the hand-written
  overlapping copy is modelled as it runs; the metadata record lives at the address \<open>me\<close>, which the checks of the code keep
  apart from everything that is written.
\<close>

unbundle bit_operations_syntax

type_synonym memory = "nat \<Rightarrow> u8"

abbreviation (input) uintptr_max :: nat where "uintptr_max \<equiv> 0xffffffff"
abbreviation (input) ra_blocks :: nat where "ra_blocks \<equiv> 384"
abbreviation (input) ra_bytes :: nat where "ra_bytes \<equiv> 196608"
abbreviation (input) ra_metadata :: nat where "ra_metadata \<equiv> 20"

record ra_cache =
  ra_data :: nat
  ra_base :: u32
  ra_head :: u32
  ra_count :: u32
  ra_end :: u32

definition arena_valid :: "nat \<Rightarrow> nat \<Rightarrow> nat \<Rightarrow> bool" where
  "arena_valid me data n =
     (me \<noteq> 0 \<and> data \<noteq> 0 \<and> n = ra_bytes \<and> data mod 32 = 0 \<and> data \<le> uintptr_max - n \<and> me \<le> uintptr_max - ra_metadata
      \<and> (me + ra_metadata \<le> data \<or> me \<ge> data + n))"

definition ra_valid :: "nat \<Rightarrow> ra_cache \<Rightarrow> bool" where
  "ra_valid me c =
     (arena_valid me (ra_data c) ra_bytes \<and> ra_head c < 384 \<and> ra_count c \<le> 384
      \<and> ra_base c \<le> ra_end c \<and> ra_count c \<le> ra_end c - ra_base c)"

definition kui_native_ra_cache_init :: "nat \<Rightarrow> nat \<Rightarrow> nat \<Rightarrow> ra_cache option" where
  "kui_native_ra_cache_init me data n =
     (if \<not> arena_valid me data n then None
      else Some \<lparr>ra_data = data, ra_base = 0, ra_head = 0, ra_count = 0, ra_end = 0\<rparr>)"

definition kui_native_ra_cache_rebase :: "nat \<Rightarrow> ra_cache \<Rightarrow> u32 \<Rightarrow> u32 \<Rightarrow> ra_cache option" where
  "kui_native_ra_cache_rebase me c b e =
     (if \<not> ra_valid me c \<or> b \<ge> e then None
      else Some (c\<lparr>ra_base := b, ra_end := e, ra_head := 0, ra_count := 0\<rparr>))"

definition ring_add :: "u32 \<Rightarrow> u32 \<Rightarrow> u32" where
  "ring_add h n = (let s = h + n in if s \<ge> 384 then s - 384 else s)"

definition kui_native_ra_cache_lookup :: "nat \<Rightarrow> ra_cache \<Rightarrow> u32 \<Rightarrow> (ra_cache \<times> nat) option" where
  "kui_native_ra_cache_lookup me c lba =
     (if \<not> ra_valid me c \<or> lba < ra_base c \<or> lba - ra_base c \<ge> ra_count c then None
      else let skip = lba - ra_base c;
               c = c\<lparr>ra_head := ring_add (ra_head c) skip, ra_base := lba, ra_count := ra_count c - skip\<rparr>
           in Some (c, ra_data c + unat (ra_head c) * 512))"

definition kui_native_ra_cache_next :: "nat \<Rightarrow> ra_cache \<Rightarrow> u32 option" where
  "kui_native_ra_cache_next me c =
     (if \<not> ra_valid me c \<or> ra_count c = 384 \<or> ra_count c = ra_end c - ra_base c then None
      else Some (ra_base c + ra_count c))"

text \<open>The copy: units of four bytes or of one, upwards or downwards.\<close>

definition copy_unit :: "nat \<Rightarrow> nat \<Rightarrow> nat \<Rightarrow> nat \<Rightarrow> memory \<Rightarrow> memory" where
  "copy_unit w to from i m = (\<lambda>a. if to + w * i \<le> a \<and> a < to + w * i + w then m (from + (a - to)) else m a)"

definition copy_up :: "nat \<Rightarrow> nat \<Rightarrow> nat \<Rightarrow> nat \<Rightarrow> memory \<Rightarrow> memory" where
  "copy_up w n to from m = fold (copy_unit w to from) [0..<n] m"

definition copy_down :: "nat \<Rightarrow> nat \<Rightarrow> nat \<Rightarrow> nat \<Rightarrow> memory \<Rightarrow> memory" where
  "copy_down w n to from m = fold (copy_unit w to from) (rev [0..<n]) m"

definition copy_block :: "nat \<Rightarrow> nat \<Rightarrow> memory \<Rightarrow> memory" where
  "copy_block to from m =
     (let backward = (to > from \<and> to - from < 512) in
      if (to OR from) AND 3 = 0 then (if backward then copy_down 4 128 to from m else copy_up 4 128 to from m)
      else if backward then copy_down 1 512 to from m else copy_up 1 512 to from m)"

definition kui_native_ra_cache_append :: "nat \<Rightarrow> ra_cache \<Rightarrow> memory \<Rightarrow> u32 \<Rightarrow> nat \<Rightarrow> (ra_cache \<times> memory) option" where
  "kui_native_ra_cache_append me c m lba checked =
     (if checked = 0 \<or> kui_native_ra_cache_next me c \<noteq> Some lba then None
      else let to = ra_data c + unat (ring_add (ra_head c) (ra_count c)) * 512 in
        if checked > uintptr_max - 512 \<or> (checked < me + ra_metadata \<and> me < checked + 512) then None
        else Some (c\<lparr>ra_count := ra_count c + 1\<rparr>, copy_block to checked m))"

subsection \<open>The copy moves a block whatever overlaps\<close>

lemma copy_unit_in: "to + w * i \<le> a \<Longrightarrow> a < to + w * i + w \<Longrightarrow> copy_unit w to from i m a = m (from + (a - to))"
  by (simp add: copy_unit_def)

lemma copy_unit_out: "a < to + w * i \<or> to + w * i + w \<le> a \<Longrightarrow> copy_unit w to from i m a = m a"
  by (auto simp: copy_unit_def)

definition move_bytes :: "nat \<Rightarrow> nat \<Rightarrow> nat \<Rightarrow> memory \<Rightarrow> memory" where
  "move_bytes n to from m = (\<lambda>a. if to \<le> a \<and> a < to + n then m (from + (a - to)) else m a)"

lemma copy_up_bytes:
  assumes "to \<le> from \<or> from + w * n \<le> to"
  shows "copy_up w n to from m = move_bytes (w * n) to from m"
  using assms
proof (induction n)
  case (Suc n)
  have IH: "copy_up w n to from m = move_bytes (w * n) to from m"
    using Suc by auto
  have step: "copy_up w (Suc n) to from m = copy_unit w to from n (copy_up w n to from m)"
    by (simp add: copy_up_def)
  show ?case
  proof
    fix a
    consider (unit) "to + w * n \<le> a" "a < to + w * n + w" | (other) "a < to + w * n \<or> to + w * n + w \<le> a" by linarith
    then show "copy_up w (Suc n) to from m a = move_bytes (w * Suc n) to from m a"
    proof cases
      case unit
      then have "\<not> (to \<le> from + (a - to) \<and> from + (a - to) < to + w * n)" using Suc.prems by auto
      then have "copy_up w n to from m (from + (a - to)) = m (from + (a - to))"
        unfolding IH move_bytes_def by (simp only: if_False)
      then show ?thesis using unit unfolding step by (simp add: copy_unit_in move_bytes_def)
    next
      case other
      then show ?thesis unfolding step by (auto simp: copy_unit_out IH move_bytes_def)
    qed
  qed
qed (auto simp: copy_up_def move_bytes_def fun_eq_iff)

lemma copy_down_bytes:
  assumes "from \<le> to"
  shows "copy_down w n to from m = move_bytes (w * n) to from m"
  using assms
proof (induction n arbitrary: m)
  case (Suc n)
  have step: "copy_down w (Suc n) to from m = copy_down w n to from (copy_unit w to from n m)"
    by (simp add: copy_down_def)
  show ?case
  proof
    fix a
    show "copy_down w (Suc n) to from m a = move_bytes (w * Suc n) to from m a"
      using Suc.prems unfolding step Suc.IH [OF Suc.prems] by (auto simp: move_bytes_def copy_unit_def)
  qed
qed (auto simp: copy_down_def move_bytes_def fun_eq_iff)

lemma copy_block_moves: "copy_block to from m = move_bytes 512 to from m"
proof (cases "to > from \<and> to - from < 512")
  case True
  then show ?thesis by (simp add: copy_block_def copy_down_bytes Let_def)
next
  case False
  then have "to \<le> from \<or> from + 512 \<le> to" by linarith
  moreover have "(to > from \<and> to - from < 512) = False" using False by blast
  ultimately show ?thesis unfolding copy_block_def Let_def by (simp only: if_False) (simp add: copy_up_bytes)
qed

subsection \<open>The cache as a map from card blocks to their bytes\<close>

text \<open>
  \<open>block_at m a\<close> is the block at an address; \<open>ra_content\<close> is what the cache holds.  A cache is \<^emph>\<open>coherent\<close> with a card when every
  block it claims to hold is the card's.
\<close>

definition block_at :: "memory \<Rightarrow> nat \<Rightarrow> bytes" where
  "block_at m a = map (\<lambda>i. m (a + i)) [0..<512]"

definition ra_slot :: "ra_cache \<Rightarrow> nat \<Rightarrow> nat" where
  "ra_slot c k = ra_data c + ((unat (ra_head c) + k) mod 384) * 512"

definition ra_content :: "ra_cache \<Rightarrow> memory \<Rightarrow> (nat \<rightharpoonup> bytes)" where
  "ra_content c m = (\<lambda>lba. if unat (ra_base c) \<le> lba \<and> lba < unat (ra_base c) + unat (ra_count c)
     then Some (block_at m (ra_slot c (lba - unat (ra_base c)))) else None)"

lemma ra_valid_bounds:
  assumes "ra_valid me c"
  shows "unat (ra_head c) < 384" "unat (ra_count c) \<le> 384" "unat (ra_base c) + unat (ra_count c) \<le> unat (ra_end c)"
    "unat (ra_end c) < 4294967296" "ra_data c + 196608 \<le> 4294967295"
    "me + 20 \<le> ra_data c \<or> ra_data c + 196608 \<le> me"
proof -
  have b: "ra_base c \<le> ra_end c" "ra_count c \<le> ra_end c - ra_base c" using assms by (auto simp: ra_valid_def)
  then have "unat (ra_count c) \<le> unat (ra_end c) - unat (ra_base c)" "unat (ra_base c) \<le> unat (ra_end c)"
    by (auto simp: word_le_nat_alt unat_sub)
  then show "unat (ra_base c) + unat (ra_count c) \<le> unat (ra_end c)" by linarith
  show "unat (ra_end c) < 4294967296" using unsigned_less [of "ra_end c"] by simp
  show "unat (ra_head c) < 384" "unat (ra_count c) \<le> 384"
    using assms by (auto simp: ra_valid_def word_less_nat_alt word_le_nat_alt)
  show "ra_data c + 196608 \<le> 4294967295" "me + 20 \<le> ra_data c \<or> ra_data c + 196608 \<le> me"
    using assms by (auto simp: ra_valid_def arena_valid_def)
qed

lemma ra_validI:
  assumes "arena_valid me (ra_data c) 196608" "unat (ra_head c) < 384" "unat (ra_count c) \<le> 384"
    "unat (ra_base c) + unat (ra_count c) \<le> unat (ra_end c)"
  shows "ra_valid me c"
  using assms by (auto simp: ra_valid_def word_le_nat_alt word_less_nat_alt unat_sub)

lemma unat_ring_add:
  assumes "unat h < 384" and "unat n \<le> 384"
  shows "unat (ring_add h n) = (unat h + unat n) mod 384"
proof -
  have s: "unat (h + n) = unat h + unat n"
    using assms by (intro unat_add_lem [THEN iffD1]) simp
  show ?thesis
  proof (cases "h + n \<ge> 384")
    case True
    then have "384 \<le> unat h + unat n" using s by (simp add: word_le_nat_alt)
    moreover have "(unat h + unat n - 384) < 384" using assms by linarith
    ultimately show ?thesis using True s by (simp add: ring_add_def unat_sub mod_if)
  next
    case False
    then have "unat h + unat n < 384" using s by (simp add: word_le_nat_alt)
    then show ?thesis using False s by (simp add: ring_add_def)
  qed
qed

lemma ring_distinct: "h < 384 \<Longrightarrow> i < 384 \<Longrightarrow> j < 384 \<Longrightarrow> (h + i) mod 384 = (h + j) mod (384::nat) \<Longrightarrow> i = j"
  by (auto simp: mod_if split: if_splits)

lemma ra_slot_disjoint:
  assumes "unat (ra_head c) < 384" "i < 384" "j < 384" "i \<noteq> j"
  shows "ra_slot c i + 512 \<le> ra_slot c j \<or> ra_slot c j + 512 \<le> ra_slot c i"
proof -
  have "(unat (ra_head c) + i) mod 384 \<noteq> (unat (ra_head c) + j) mod 384"
    using assms ring_distinct by blast
  then show ?thesis unfolding ra_slot_def by linarith
qed

lemma block_at_move_other: "a + 512 \<le> to \<or> to + 512 \<le> a \<Longrightarrow> block_at (move_bytes 512 to from m) a = block_at m a"
  by (auto simp: block_at_def move_bytes_def)

lemma block_at_move: "block_at (move_bytes 512 to from m) to = block_at m from"
  by (auto simp: block_at_def move_bytes_def)

lemma ra_lookup_some:
  assumes v: "ra_valid me c" and r: "kui_native_ra_cache_lookup me c lba = Some (c', a)"
  shows "ra_valid me c' \<and> ra_content c m (unat lba) = Some (block_at m a)
    \<and> ra_content c' m = ra_content c m |` {l. unat lba \<le> l}"
proof -
  note vb = ra_valid_bounds [OF v]
  let ?k = "unat lba - unat (ra_base c)"
  have le: "ra_base c \<le> lba" "lba - ra_base c < ra_count c"
    and c': "c' = c\<lparr>ra_head := ring_add (ra_head c) (lba - ra_base c), ra_base := lba, ra_count := ra_count c - (lba - ra_base c)\<rparr>"
    and a: "a = ra_data c + unat (ring_add (ra_head c) (lba - ra_base c)) * 512"
    using v r by (auto simp: kui_native_ra_cache_lookup_def Let_def split: if_splits)
  have k: "unat (lba - ra_base c) = ?k" "unat (ra_base c) \<le> unat lba"
    using le by (auto simp: unat_sub word_le_nat_alt)
  have kc: "?k < unat (ra_count c)" using le(2) k(1) by (simp add: word_less_nat_alt)
  have rest: "unat (ra_count c - (lba - ra_base c)) = unat (ra_count c) - ?k"
    using kc k by (simp add: unat_sub word_le_nat_alt)
  have head: "unat (ring_add (ra_head c) (lba - ra_base c)) = (unat (ra_head c) + ?k) mod 384"
    using vb kc k by (simp add: unat_ring_add)
  have "ra_valid me c'"
  proof (rule ra_validI)
    show "unat (ra_head c') < 384" by (simp add: c' head)
    show "unat (ra_base c') + unat (ra_count c') \<le> unat (ra_end c')" using vb kc k rest by (simp add: c')
  qed (use v vb rest in \<open>auto simp: c' ra_valid_def\<close>)
  moreover have "ra_slot c' (l - unat lba) = ra_slot c (l - unat (ra_base c))" if "unat lba \<le> l" for l
  proof -
    have "l - unat (ra_base c) = ?k + (l - unat lba)" using that k by simp
    then show ?thesis by (simp add: ra_slot_def c' head mod_add_left_eq add.assoc)
  qed
  ultimately show ?thesis using kc k rest
    by (auto simp: ra_content_def a head ra_slot_def [of c "?k"] fun_eq_iff restrict_map_def c' [THEN arg_cong [where f = ra_base]]
        c' [THEN arg_cong [where f = ra_count]])
qed

lemma ra_append_some:
  assumes v: "ra_valid me c" and r: "kui_native_ra_cache_append me c m lba checked = Some (c', m')"
  shows "ra_valid me c' \<and> ra_content c' m' = (ra_content c m)(unat lba \<mapsto> block_at m checked)
    \<and> (\<forall>a. a < ra_data c \<or> ra_data c + 196608 \<le> a \<longrightarrow> m' a = m a)"
proof -
  note vb = ra_valid_bounds [OF v]
  let ?n = "unat (ra_count c)" and ?b = "unat (ra_base c)"
  have lba: "lba = ra_base c + ra_count c" and full: "ra_count c \<noteq> 384" "ra_count c \<noteq> ra_end c - ra_base c"
    and c': "c' = c\<lparr>ra_count := ra_count c + 1\<rparr>"
    and m': "m' = copy_block (ra_data c + unat (ring_add (ra_head c) (ra_count c)) * 512) checked m"
    using v r by (auto simp: kui_native_ra_cache_append_def kui_native_ra_cache_next_def Let_def split: if_splits)
  have len: "unat (ra_end c - ra_base c) = unat (ra_end c) - ?b"
    using vb by (intro unat_sub) (simp add: word_le_nat_alt)
  have n: "?n < 384" "?n < unat (ra_end c) - ?b"
    using full vb(2,3) len by (auto simp: word_unat_eq_iff)
  have lba_nat: "unat lba = ?b + ?n"
    unfolding lba using vb by (intro unat_add_lem [THEN iffD1]) simp
  have count: "unat (ra_count c + 1) = ?n + 1"
    using n(1) unat_add_lem [THEN iffD1, of "ra_count c" 1] by simp
  have slot: "ra_data c + unat (ring_add (ra_head c) (ra_count c)) * 512 = ra_slot c ?n"
    using vb by (simp add: ra_slot_def unat_ring_add)
  have mv: "m' = move_bytes 512 (ra_slot c ?n) checked m"
    unfolding m' slot by (rule copy_block_moves)
  have "ra_valid me c'" using v n count len by (simp add: ra_valid_def c' word_le_nat_alt)
  moreover have "ra_content c' m' = (ra_content c m)(unat lba \<mapsto> block_at m checked)"
  proof
    fix l
    have other: "block_at m' (ra_slot c (l - ?b)) = block_at m (ra_slot c (l - ?b))" if "l - ?b < ?n" for l
      unfolding mv using that n(1) ra_slot_disjoint [OF vb(1), of "l - ?b" ?n] by (intro block_at_move_other) auto
    have "ra_slot c' k = ra_slot c k" for k by (simp add: ra_slot_def c')
    then show "ra_content c' m' l = ((ra_content c m)(unat lba \<mapsto> block_at m checked)) l"
      using other [of l] by (auto simp: ra_content_def lba_nat count c' mv block_at_move)
  qed
  moreover have "m' a = m a" if "a < ra_data c \<or> ra_data c + 196608 \<le> a" for a
  proof -
    have "(unat (ra_head c) + ?n) mod 384 < 384" by simp
    then have "ra_data c \<le> ra_slot c ?n" "ra_slot c ?n + 512 \<le> ra_data c + 196608" unfolding ra_slot_def by linarith+
    then show ?thesis using that unfolding mv move_bytes_def by auto
  qed
  ultimately show ?thesis by blast
qed


subsection \<open>The bound of a prefetch\<close>

text \<open>
  \<open>kui_native_ra_extent_end\<close> re-checks the geometry of the retained map, which has at most 64 slots, before it lets the cache read past a
  request.  The table \<open>owners\<close> of the C code holds, for every extent slot, the index of the track whose turn of the loop
  visited it; here it is a list that grows with the loop.
\<close>

definition ra_shared_boundary :: "retail_manifest \<Rightarrow> nat \<Rightarrow> nat \<Rightarrow> nat \<Rightarrow> nat \<Rightarrow> bool" where
  "ra_shared_boundary m ai bi aowner bowner =
     (if aowner + 1 \<noteq> bowner \<and> bowner + 1 \<noteq> aowner then False
      else let (a, b, aowner, bowner) = (if aowner > bowner then (slot_extent m bi, slot_extent m ai, bowner, aowner)
                                         else (slot_extent m ai, slot_extent m bi, aowner, bowner));
               ta = tracks m ! aowner; tb = tracks m ! bowner;
               first = (if card_lba a > card_lba b then card_lba a else card_lba b);
               stop = (if card_lba a + blocks a > card_lba b + blocks b then card_lba b + blocks b else card_lba a + blocks a);
               finish = track_bytes ta; start = kui_retail_track_file_offset tb
           in stop - first = 1 \<and> finish mod 512 \<noteq> 0 \<and> start \<noteq> 0 \<and> finish mod 512 \<le> start
              \<and> file_block a + first - card_lba a = (finish - 1) div 512 \<and> file_block b + first - card_lba b = 0)"

fun ra_extents :: "retail_manifest \<Rightarrow> nat \<Rightarrow> retail_extent list \<Rightarrow> nat \<Rightarrow> nat \<Rightarrow> nat \<Rightarrow> (nat \<times> nat) option" where
  "ra_extents m lba [] whole file bound = Some (file, bound)"
| "ra_extents m lba (e # es) whole file bound =
     (let stop = card_lba e + blocks e in
      if file_block e \<noteq> file \<or> blocks e = 0 \<or> file > whole \<or> blocks e > whole - file
         \<or> card_lba e < partition_start m \<or> stop > partition_end m \<or> stop > 0xffffffff then None
      else ra_extents m lba es whole (file + blocks e)
             (if lba \<ge> card_lba e \<and> lba - card_lba e < blocks e \<and> (bound = 0 \<or> stop < bound) then stop else bound))"

definition ra_track_ok :: "retail_manifest \<Rightarrow> nat \<Rightarrow> retail_track \<Rightarrow> nat \<Rightarrow> bool" where
  "ra_track_ok m i t next =
     (\<not> (start_lba t \<ge> end_lba t \<or> end_lba t > lba_limit \<or> (i \<noteq> 0 \<and> end_lba (tracks m ! (i - 1)) > start_lba t)
         \<or> control t AND 3 \<noteq> 0
         \<or> (\<not> data_track t \<and> (track_cooked t \<or> track_mode2 t \<or> track_2336 t))
         \<or> (track_cooked t \<and> (track_2336 t \<or> track_2448 t))
         \<or> (track_2336 t \<and> (\<not> track_mode2 t \<or> track_2448 t))
         \<or> kui_retail_track_first_extent t \<noteq> next \<or> extent_count t > length (tracks m) + length (extents m) - next
         \<or> (extent_count t = 0 \<and> data_track t)))"

fun ra_tracks :: "retail_manifest \<Rightarrow> nat \<Rightarrow> nat \<Rightarrow> retail_track list \<Rightarrow> nat \<Rightarrow> nat list \<Rightarrow> nat \<Rightarrow> (nat \<times> nat list \<times> nat) option" where
  "ra_tracks m lba i [] next owners bound = Some (next, owners, bound)"
| "ra_tracks m lba i (t # ts) next owners bound =
     (if \<not> ra_track_ok m i t next then None
      else let whole = (track_bytes t + 511) div 512 in
        if whole > 0xffffffff then None
        else case ra_extents m lba (track_extents m t) whole 0 bound of None \<Rightarrow> None
        | Some (file, bound) \<Rightarrow>
            if extent_count t \<noteq> 0 \<and> file \<noteq> whole then None
            else ra_tracks m lba (Suc i) ts (next + extent_count t) (owners @ replicate (extent_count t) i) bound)"

definition kui_native_ra_extent_end :: "retail_manifest \<Rightarrow> nat \<Rightarrow> nat" where
  "kui_native_ra_extent_end m lba =
     (let n = length (tracks m); k = length (extents m); used = n + k in
      if n = 0 \<or> n > 64 \<or> n > 99 \<or> k = 0 \<or> k > 64 - n \<or> card_sectors m = 0 \<or> card_sectors m > 0x100000000
         \<or> partition_start m \<ge> partition_end m \<or> partition_end m > card_sectors m then 0
      else case ra_tracks m lba 0 (tracks m) n [] 0 of None \<Rightarrow> 0
      | Some (next, owners, bound) \<Rightarrow>
          if next \<noteq> used then 0
          else if \<exists>i\<in>set [n + 1..<used]. \<exists>j\<in>set [n..<i].
                    card_meet (slot_extent m i) (slot_extent m j)
                    \<and> \<not> ra_shared_boundary m i j (owners ! (i - n)) (owners ! (j - n)) then 0
          else bound)"

text \<open>
  C29.  The read-ahead cache is a map from card blocks to their bytes.  Rebasing empties it; a lookup returns the address of the very
  block the map holds and forgets only the blocks before it, and misses exactly outside the map; appending the next block adds it and
  nothing else - though the ring wraps and the hand-written copy may overlap its source - writes only inside the arena, and keeps the
  cache valid; it refuses exactly when the block is not the next one, the cache or its range is full, or the source is null, runs off the
  address space or meets the metadata.
\<close>

theorem ra_cache_refines:
  assumes "ra_valid me c"
  shows "(case kui_native_ra_cache_rebase me c b e of None \<Rightarrow> e \<le> b | Some c' \<Rightarrow> b < e \<and> ra_base c' = b \<and> ra_end c' = e \<and> ra_valid me c' \<and> ra_content c' m = Map.empty)
    \<and> (case kui_native_ra_cache_lookup me c lba of None \<Rightarrow> ra_content c m (unat lba) = None
       | Some (c', a) \<Rightarrow> ra_valid me c' \<and> ra_content c m (unat lba) = Some (block_at m a) \<and> ra_content c' m = ra_content c m |` {l. unat lba \<le> l})
    \<and> (case kui_native_ra_cache_append me c m lba checked of None \<Rightarrow> \<not> (lba = ra_base c + ra_count c \<and> unat (ra_count c) < 384 \<and> lba < ra_end c
             \<and> checked \<noteq> 0 \<and> checked + 512 \<le> 0xffffffff \<and> (checked + 512 \<le> me \<or> me + 20 \<le> checked))
       | Some (c', m') \<Rightarrow> ra_valid me c' \<and> unat lba = unat (ra_base c) + unat (ra_count c) \<and> lba < ra_end c
           \<and> checked \<noteq> 0 \<and> checked + 512 \<le> 0xffffffff \<and> (checked + 512 \<le> me \<or> me + 20 \<le> checked)
           \<and> ra_content c' m' = (ra_content c m)(unat lba \<mapsto> block_at m checked)
           \<and> (\<lambda>a. if ra_data c \<le> a \<and> a < ra_data c + 196608 then 0 else m' a) = (\<lambda>a. if ra_data c \<le> a \<and> a < ra_data c + 196608 then 0 else m a))"
proof (intro conjI)
  note vb = ra_valid_bounds [OF assms]
  have "ra_valid me (c\<lparr>ra_base := b, ra_end := e, ra_head := 0, ra_count := 0\<rparr>)" if "b < e"
    using assms that by (intro ra_validI) (auto simp: ra_valid_def word_less_nat_alt)
  then show "case kui_native_ra_cache_rebase me c b e of None \<Rightarrow> e \<le> b | Some c' \<Rightarrow> b < e \<and> ra_base c' = b \<and> ra_end c' = e \<and> ra_valid me c' \<and> ra_content c' m = Map.empty"
    using assms by (auto simp: kui_native_ra_cache_rebase_def ra_content_def fun_eq_iff)
  show "case kui_native_ra_cache_lookup me c lba of None \<Rightarrow> ra_content c m (unat lba) = None
       | Some (c', a) \<Rightarrow> ra_valid me c' \<and> ra_content c m (unat lba) = Some (block_at m a) \<and> ra_content c' m = ra_content c m |` {l. unat lba \<le> l}"
  proof (cases "kui_native_ra_cache_lookup me c lba")
    case None
    then have "lba < ra_base c \<or> lba - ra_base c \<ge> ra_count c" using assms by (auto simp: kui_native_ra_cache_lookup_def Let_def split: if_splits)
    then have "\<not> (unat (ra_base c) \<le> unat lba \<and> unat lba < unat (ra_base c) + unat (ra_count c))"
      by (auto simp: word_less_nat_alt word_le_nat_alt unat_sub)
    then show ?thesis using None by (simp add: ra_content_def)
  next
    case (Some p)
    then show ?thesis using ra_lookup_some [OF assms, of lba] by (cases p) auto
  qed
  show "case kui_native_ra_cache_append me c m lba checked of None \<Rightarrow> \<not> (lba = ra_base c + ra_count c \<and> unat (ra_count c) < 384 \<and> lba < ra_end c
             \<and> checked \<noteq> 0 \<and> checked + 512 \<le> 0xffffffff \<and> (checked + 512 \<le> me \<or> me + 20 \<le> checked))
       | Some (c', m') \<Rightarrow> ra_valid me c' \<and> unat lba = unat (ra_base c) + unat (ra_count c) \<and> lba < ra_end c
           \<and> checked \<noteq> 0 \<and> checked + 512 \<le> 0xffffffff \<and> (checked + 512 \<le> me \<or> me + 20 \<le> checked)
           \<and> ra_content c' m' = (ra_content c m)(unat lba \<mapsto> block_at m checked)
           \<and> (\<lambda>a. if ra_data c \<le> a \<and> a < ra_data c + 196608 then 0 else m' a) = (\<lambda>a. if ra_data c \<le> a \<and> a < ra_data c + 196608 then 0 else m a)"
  proof (cases "kui_native_ra_cache_append me c m lba checked")
    case (Some p)
    then obtain c' m' where p: "kui_native_ra_cache_append me c m lba checked = Some (c', m')" by (cases p) auto
    then have n: "lba = ra_base c + ra_count c" "ra_count c \<noteq> ra_end c - ra_base c"
      using assms by (auto simp: kui_native_ra_cache_append_def kui_native_ra_cache_next_def Let_def split: if_splits)
    have u: "unat lba = unat (ra_base c) + unat (ra_count c)"
      unfolding n(1) using vb by (intro unat_add_lem [THEN iffD1]) simp
    have "unat (ra_end c - ra_base c) = unat (ra_end c) - unat (ra_base c)" using vb by (intro unat_sub) (simp add: word_le_nat_alt)
    then have "lba < ra_end c" using n(2) u vb(3) by (auto simp: word_less_nat_alt word_unat_eq_iff)
    moreover have "checked \<noteq> 0 \<and> checked + 512 \<le> 0xffffffff \<and> (checked + 512 \<le> me \<or> me + 20 \<le> checked)"
      using p by (auto simp: kui_native_ra_cache_append_def Let_def split: if_splits)
    ultimately show ?thesis using ra_append_some [OF assms p] u p by (auto simp: fun_eq_iff)
  next
    case None
    have "ra_count c \<noteq> ra_end c - ra_base c" if "lba = ra_base c + ra_count c" "lba < ra_end c" using that by auto
    moreover have "ra_count c \<noteq> 384" if "unat (ra_count c) < 384" using that by auto
    ultimately show ?thesis using None assms
      by (auto simp: kui_native_ra_cache_append_def kui_native_ra_cache_next_def Let_def split: if_splits)
  qed
qed

definition sample_cache :: ra_cache where
  "sample_cache = \<lparr>ra_data = 4096, ra_base = 1000, ra_head = 383, ra_count = 1, ra_end = 2000\<rparr>"

lemma sample_cache_valid: "ra_valid 32 sample_cache"
  by (simp add: ra_valid_def arena_valid_def sample_cache_def)

theorem ra_cache_refines_witness:
  "ra_valid 32 sample_cache \<and> (case kui_native_ra_cache_append 32 sample_cache (\<lambda>a. of_nat a) 1001 300000 of None \<Rightarrow> False
     | Some (c', m') \<Rightarrow> ra_content c' m' = (ra_content sample_cache (\<lambda>a. of_nat a))(1001 \<mapsto> block_at (\<lambda>a. of_nat a) 300000))"
proof -
  have "kui_native_ra_cache_append 32 sample_cache (\<lambda>a. of_nat a) 1001 300000 \<noteq> None"
    using sample_cache_valid by (simp add: kui_native_ra_cache_append_def kui_native_ra_cache_next_def Let_def sample_cache_def)
  then show ?thesis
    using ra_cache_refines [OF sample_cache_valid, of 0 1 "\<lambda>a. of_nat a" 1001 300000] sample_cache_valid by (auto split: option.splits)
qed

lemma ra_extents_bound:
  assumes "ra_extents m lba es whole fl b = Some (fl', b')"
  shows "(b' = b \<or> (\<exists>e\<in>set es. b' = card_lba e + blocks e \<and> card_lba e \<le> lba \<and> lba < b'))
    \<and> (b \<noteq> 0 \<longrightarrow> b' \<noteq> 0 \<and> b' \<le> b)
    \<and> (\<forall>e\<in>set es. card_lba e \<le> lba \<and> lba < card_lba e + blocks e \<longrightarrow> b' \<noteq> 0 \<and> b' \<le> card_lba e + blocks e)
    \<and> (\<forall>e\<in>set es. blocks e \<noteq> 0 \<and> partition_start m \<le> card_lba e \<and> card_lba e + blocks e \<le> partition_end m \<and> card_lba e + blocks e < 2 ^ 32)"
  using assms
proof (induction es arbitrary: fl b)
  case (Cons e es)
  let ?stop = "card_lba e + blocks e"
  let ?b = "if lba \<ge> card_lba e \<and> lba - card_lba e < blocks e \<and> (b = 0 \<or> ?stop < b) then ?stop else b"
  have c: "blocks e \<noteq> 0" "partition_start m \<le> card_lba e" "?stop \<le> partition_end m" "?stop < 2 ^ 32"
    and r: "ra_extents m lba es whole (fl + blocks e) ?b = Some (fl', b')"
    using Cons.prems by (auto simp: Let_def split: if_splits)
  define b1 where "b1 = ?b"
  have b1: "b \<noteq> 0 \<longrightarrow> b1 \<noteq> 0 \<and> b1 \<le> b" "card_lba e \<le> lba \<and> lba < ?stop \<longrightarrow> b1 \<noteq> 0 \<and> b1 \<le> ?stop"
    "b1 = b \<or> (b1 = ?stop \<and> card_lba e \<le> lba \<and> lba < ?stop)"
    using c(1) by (auto simp: b1_def)
  note IH = Cons.IH [OF r, folded b1_def]
  show ?case
  proof (intro conjI)
    show "b' = b \<or> (\<exists>e\<in>set (e # es). b' = card_lba e + blocks e \<and> card_lba e \<le> lba \<and> lba < b')" using IH b1(3) by auto
    show "b \<noteq> 0 \<longrightarrow> b' \<noteq> 0 \<and> b' \<le> b" using IH b1(1) by (meson le_trans)
    show "\<forall>e\<in>set (e # es). card_lba e \<le> lba \<and> lba < card_lba e + blocks e \<longrightarrow> b' \<noteq> 0 \<and> b' \<le> card_lba e + blocks e"
      using IH b1(2) by (metis le_trans set_ConsD)
    show "\<forall>e\<in>set (e # es). blocks e \<noteq> 0 \<and> partition_start m \<le> card_lba e \<and> card_lba e + blocks e \<le> partition_end m \<and> card_lba e + blocks e < 2 ^ 32"
      using IH c by auto
  qed
qed simp

lemma ra_tracks_bound:
  assumes "ra_tracks m lba i ts next owners b = Some (next', owners', b')"
  shows "(b' = b \<or> (\<exists>t\<in>set ts. \<exists>e\<in>set (track_extents m t). b' = card_lba e + blocks e \<and> card_lba e \<le> lba \<and> lba < b'))
    \<and> (b \<noteq> 0 \<longrightarrow> b' \<noteq> 0 \<and> b' \<le> b)
    \<and> (\<forall>t\<in>set ts. \<forall>e\<in>set (track_extents m t). card_lba e \<le> lba \<and> lba < card_lba e + blocks e \<longrightarrow> b' \<noteq> 0 \<and> b' \<le> card_lba e + blocks e)
    \<and> (\<forall>t\<in>set ts. \<forall>e\<in>set (track_extents m t). partition_start m \<le> card_lba e \<and> card_lba e + blocks e \<le> partition_end m \<and> card_lba e + blocks e < 2 ^ 32)"
  using assms
proof (induction ts arbitrary: i "next" owners b)
  case (Cons t ts)
  obtain fl b1 where e: "ra_extents m lba (track_extents m t) ((track_bytes t + 511) div 512) 0 b = Some (fl, b1)"
    and r: "ra_tracks m lba (Suc i) ts (next + extent_count t) (owners @ replicate (extent_count t) i) b1 = Some (next', owners', b')"
    using Cons.prems by (auto simp: Let_def split: if_splits option.splits)
  note a = ra_extents_bound [OF e] and IH = Cons.IH [OF r]
  show ?case
  proof (intro conjI)
    show "b' = b \<or> (\<exists>t\<in>set (t # ts). \<exists>e\<in>set (track_extents m t). b' = card_lba e + blocks e \<and> card_lba e \<le> lba \<and> lba < b')"
      using a IH by auto
    show "b \<noteq> 0 \<longrightarrow> b' \<noteq> 0 \<and> b' \<le> b" using a IH by (meson le_trans)
    show "\<forall>t\<in>set (t # ts). \<forall>e\<in>set (track_extents m t). card_lba e \<le> lba \<and> lba < card_lba e + blocks e \<longrightarrow> b' \<noteq> 0 \<and> b' \<le> card_lba e + blocks e"
      using a IH by (metis le_trans set_ConsD)
    show "\<forall>t\<in>set (t # ts). \<forall>e\<in>set (track_extents m t). partition_start m \<le> card_lba e \<and> card_lba e + blocks e \<le> partition_end m \<and> card_lba e + blocks e < 2 ^ 32"
      using a IH by auto
  qed
qed simp

text \<open>
  A prefetch bound that is not refused is the end of a card extent that holds the block, the nearest one if two tracks share it;
  it lies inside the image's partition and fits 32 bits, so the cache is never filled past the stored file.
\<close>

theorem ra_extent_end_bound:
  assumes "kui_native_ra_extent_end m lba \<noteq> 0"
  shows "lba < kui_native_ra_extent_end m lba \<and> kui_native_ra_extent_end m lba \<le> partition_end m \<and> kui_native_ra_extent_end m lba < 2 ^ 32
    \<and> (\<exists>t\<in>set (tracks m). \<exists>e\<in>set (track_extents m t). kui_native_ra_extent_end m lba = card_lba e + blocks e \<and> card_lba e \<le> lba)
    \<and> \<not> (\<exists>t\<in>set (tracks m). \<exists>e\<in>set (track_extents m t). card_lba e \<le> lba \<and> lba < card_lba e + blocks e
          \<and> card_lba e + blocks e < kui_native_ra_extent_end m lba)"
proof -
  obtain nx ow b where r: "ra_tracks m lba 0 (tracks m) (length (tracks m)) [] 0 = Some (nx, ow, b)"
  proof (cases "ra_tracks m lba 0 (tracks m) (length (tracks m)) [] 0")
    case None
    have "kui_native_ra_extent_end m lba = 0"
      unfolding kui_native_ra_extent_end_def Let_def None option.case by (rule if_cancel)
    then show ?thesis using assms by simp
  qed (use that in auto)
  have "(if c1 then 0 else if c2 then 0 else if c3 then 0 else b) \<noteq> 0 \<Longrightarrow> (if c1 then 0 else if c2 then 0 else if c3 then 0 else b) = b" for c1 c2 c3
    by (simp split: if_splits)
  then have b: "kui_native_ra_extent_end m lba = b"
    using assms unfolding kui_native_ra_extent_end_def Let_def r option.case prod.case by blast
  have nz: "b \<noteq> 0" using assms b by simp
  note f = ra_tracks_bound [OF r]
  then obtain t e where te: "t \<in> set (tracks m)" "e \<in> set (track_extents m t)" "b = card_lba e + blocks e" "card_lba e \<le> lba" "lba < b"
    using nz by blast
  have "b \<le> partition_end m" "b < 2 ^ 32" using f te(1,2) unfolding te(3) by blast+
  moreover have "\<not> (\<exists>t\<in>set (tracks m). \<exists>e\<in>set (track_extents m t). card_lba e \<le> lba \<and> lba < card_lba e + blocks e \<and> card_lba e + blocks e < b)"
    using f by (metis not_le)
  ultimately show ?thesis unfolding b using te by blast
qed

theorem ra_extent_end_bound_witness:
  "kui_native_ra_extent_end sample_map 103 = 105 \<and> 103 < kui_native_ra_extent_end sample_map 103 \<and> kui_native_ra_extent_end sample_map 103 \<le> 900"
proof -
  have t: "tracks sample_map = [sample_track]" "length (extents sample_map) = 2" "partition_start sample_map = 50" "partition_end sample_map = 900"
    "card_sectors sample_map = 1000" by (simp_all add: sample_map_def)
  have r: "ra_tracks sample_map 103 0 [sample_track] 1 [] 0 = Some (3, [0, 0], 105)"
    by (simp add: ra_track_ok_def t track_extents_def sample_layout sample_track_def upt_rec sample_map_def numeral_2_eq_2)
  have "\<not> (\<exists>i\<in>set [1 + 1..<1 + 2]. \<exists>j\<in>set [1..<i]. card_meet (slot_extent sample_map i) (slot_extent sample_map j)
        \<and> \<not> ra_shared_boundary sample_map i j ([0, 0] ! (i - 1)) ([0, 0] ! (j - 1)))"
  proof (rule notI, elim bexE conjE)
    fix i j assume "i \<in> set [1 + 1..<1 + 2]" "j \<in> set [1..<i]" "card_meet (slot_extent sample_map i) (slot_extent sample_map j)"
    moreover from this have "i = 2" "j = 1" by auto
    ultimately show False using sample_apart by simp
  qed
  then have "kui_native_ra_extent_end sample_map 103 = 105"
    unfolding kui_native_ra_extent_end_def t Let_def using r by (simp del: set_upt)
  then show ?thesis using ra_extent_end_bound [of sample_map 103] t by simp
qed

end
