(* ===== verification/Card_Paths.thy ===== *)
theory Card_Paths
  imports Kui_Checksums
begin

text \<open>
  Names and paths on the card (src/core/destination.c): UTF-8 decoding, the test for a safe name, normalisation of
  destinations, the sanitizer of disc titles, the numbering of folders and the records the destination is kept in.

  A C string is the list of its bytes before the terminating NUL; a buffer that the code fills is the result, \<open>None\<close> where it
  returns false.  Null pointers, which the code refuses first, are not represented.  \<open>char\<close> is signed on the target, but every
  comparison below goes through \<open>unsigned char\<close> or gives the same answer for bytes above 127.
\<close>

unbundle bit_operations_syntax

section \<open>Names\<close>

definition ascii :: "string \<Rightarrow> bytes" where
  "ascii s = map of_char s"

abbreviation (input) slash :: u8 where "slash \<equiv> 0x2f"
abbreviation (input) dot :: u8 where "dot \<equiv> 0x2e"
abbreviation (input) blank :: u8 where "blank \<equiv> 0x20"
abbreviation (input) dest_root_cap :: nat where "dest_root_cap \<equiv> 128"
abbreviation (input) dest_title_cap :: nat where "dest_title_cap \<equiv> 96"
abbreviation (input) dest_name_cap :: nat where "dest_name_cap \<equiv> 128"
abbreviation (input) dest_job_cap :: nat where "dest_job_cap \<equiv> 256"
abbreviation (input) path_cap :: nat where "path_cap \<equiv> 384"

definition lower :: "u8 \<Rightarrow> u8" where
  "lower c = (if 0x41 \<le> c \<and> c \<le> 0x5a then c + 32 else c)"

definition ascii_equal :: "bytes \<Rightarrow> bytes \<Rightarrow> nat \<Rightarrow> bool" where
  "ascii_equal a b n = (map lower (take n a) = map lower (take n b))"

definition bounded :: "bytes \<Rightarrow> nat \<Rightarrow> nat" where
  "bounded text limit = min (length text) limit"

definition reserved :: "bytes \<Rightarrow> bool" where
  "reserved text =
     (let stem = length (takeWhile (\<lambda>c. c \<noteq> dot) text) in
      stem = 3 \<and> (ascii_equal text (ascii ''con'') 3 \<or> ascii_equal text (ascii ''prn'') 3
                  \<or> ascii_equal text (ascii ''aux'') 3 \<or> ascii_equal text (ascii ''nul'') 3)
      \<or> stem = 4 \<and> (ascii_equal text (ascii ''com'') 3 \<or> ascii_equal text (ascii ''lpt'') 3) \<and> 0x31 \<le> text ! 3 \<and> text ! 3 \<le> 0x39)"

text \<open>The continuation bytes of a character.\<close>

fun utf8_tail :: "bytes \<Rightarrow> u32 \<Rightarrow> u32 option" where
  "utf8_tail [] v = Some v"
| "utf8_tail (c # cs) v = (if c AND 0xc0 \<noteq> 0x80 then None else utf8_tail cs (push_bit 6 v OR ucast (c AND 63)))"

definition utf8_lead :: "u8 \<Rightarrow> (nat \<times> u32 \<times> u32) option" where
  "utf8_lead c =
     (if c < 0x80 then Some (1, ucast c, 0)
      else if 0xc2 \<le> c \<and> c \<le> 0xdf then Some (2, ucast (c AND 31), 0x80)
      else if 0xe0 \<le> c \<and> c \<le> 0xef then Some (3, ucast (c AND 15), 0x800)
      else if 0xf0 \<le> c \<and> c \<le> 0xf4 then Some (4, ucast (c AND 7), 0x10000)
      else None)"

definition utf8 :: "bytes \<Rightarrow> (nat \<times> u32) option" where
  "utf8 text =
     (if text = [] then None
      else case utf8_lead (hd text) of None \<Rightarrow> None
      | Some (n, v, minimum) \<Rightarrow>
        if n > length text then None
        else case utf8_tail (take (n - 1) (tl text)) v of None \<Rightarrow> None
        | Some v \<Rightarrow> if v < minimum \<or> v > 0x10ffff \<or> (0xd800 \<le> v \<and> v \<le> 0xdfff) then None else Some (n, v))"

lemma utf8_length: "utf8 text = Some (n, v) \<Longrightarrow> 0 < n \<and> n \<le> length text"
  by (cases "text") (auto simp: utf8_def utf8_lead_def Suc_le_eq split: if_splits option.splits)

text \<open>The characters a FAT name cannot hold.\<close>

definition invalid_code :: "u32 \<Rightarrow> bool" where
  "invalid_code code = (code < 32 \<or> (0x7f \<le> code \<and> code \<le> 0x9f) \<or> code \<in> {0x3c, 0x3e, 0x3a, 0x5c, 0x7c, 0x3f, 0x2a, 0x2f, 0x22})"

function codes_ok :: "bytes \<Rightarrow> bool" where
  "codes_ok [] = True"
| "codes_ok (c # cs) =
     (case utf8 (c # cs) of None \<Rightarrow> False | Some (n, code) \<Rightarrow> \<not> invalid_code code \<and> codes_ok (drop n (c # cs)))"
  by pat_completeness auto
termination
  by (relation "measure length") (use utf8_length in fastforce)+

definition component :: "bytes \<Rightarrow> bool" where
  "component name =
     (\<not> (name = [] \<or> name = [dot] \<or> name = [dot, dot] \<or> last name = dot \<or> last name = blank \<or> reserved name) \<and> codes_ok name)"

definition kui_destination_name_valid :: "bytes \<Rightarrow> bool" where
  "kui_destination_name_valid name = (bounded name dest_name_cap < dest_name_cap \<and> component name)"

section \<open>Destinations\<close>

definition kui_destination_default :: bytes where
  "kui_destination_default = ascii ''/Games''"

text \<open>The tail of a path after its leading slashes, cut at the next slash.\<close>

definition next_part :: "bytes \<Rightarrow> bytes \<times> bytes" where
  "next_part rest = (let rest = dropWhile (\<lambda>c. c = slash) rest in (takeWhile (\<lambda>c. c \<noteq> slash) rest, dropWhile (\<lambda>c. c \<noteq> slash) rest))"

lemma next_part_shorter: "next_part rest = (part, rest') \<Longrightarrow> rest \<noteq> [] \<Longrightarrow> length rest' < length rest"
proof -
  assume n: "next_part rest = (part, rest')" and r: "rest \<noteq> []"
  let ?r = "dropWhile (\<lambda>c. c = slash) rest"
  have le: "length ?r \<le> length rest" by (rule length_dropWhile_le)
  show ?thesis
  proof (cases "?r")
    case Nil
    then have "rest' = []" using n unfolding next_part_def Let_def by (simp only: dropWhile.simps prod.inject)
    then show ?thesis using r by simp
  next
    case (Cons c cs)
    then have "c \<noteq> slash" using hd_dropWhile [of "\<lambda>c. c = slash" rest] by simp
    then have "rest' = dropWhile (\<lambda>c. c \<noteq> slash) cs" using n Cons by (auto simp: next_part_def Let_def)
    then have "length rest' \<le> length cs" by (simp add: length_dropWhile_le)
    then show ?thesis using le Cons by simp
  qed
qed

definition add_part :: "bytes \<Rightarrow> bytes \<Rightarrow> bytes" where
  "add_part result part = (if length result > 1 then result @ [slash] else result) @ part"

text \<open>The loop over the components of a destination or, with its own length test \<open>refuse\<close>, of a job path.\<close>

function walk_parts :: "(bytes \<Rightarrow> nat \<Rightarrow> bool) \<Rightarrow> bytes \<Rightarrow> bytes \<Rightarrow> bytes option" where
  "walk_parts refuse rest result =
     (if rest = [] then Some result
      else case next_part rest of (part, rest') \<Rightarrow>
        if part = [] \<or> part = [dot] then walk_parts refuse rest' result
        else if refuse part (length result) then None
        else walk_parts refuse rest' (add_part result part))"
  by pat_completeness auto
termination
  by (relation "measure (\<lambda>(refuse, rest, result). length rest)") (use next_part_shorter in \<open>simp_all, metis+\<close>)

declare walk_parts.simps [simp del]

definition refuse_root :: "bytes \<Rightarrow> nat \<Rightarrow> bool" where
  "refuse_root part used = (\<not> component part \<or> used + (if used > 1 then 1 else 0) + length part \<ge> dest_root_cap)"

definition kui_destination_normalize :: "bytes \<Rightarrow> bytes option" where
  "kui_destination_normalize path =
     (let n = bounded path path_cap in
      if n = 0 \<or> n = path_cap \<or> hd path \<noteq> slash then None else walk_parts refuse_root (tl path) [slash])"

text \<open>A path up to its last slash.\<close>

definition before_slash :: "bytes \<Rightarrow> bytes" where
  "before_slash path = rev (tl (dropWhile (\<lambda>c. c \<noteq> slash) (rev path)))"

definition kui_destination_parent :: "bytes \<Rightarrow> bytes option" where
  "kui_destination_parent path =
     (case kui_destination_normalize path of None \<Rightarrow> None
      | Some path \<Rightarrow> Some (if before_slash path = [] then [slash] else before_slash path))"

definition kui_destination_join :: "bytes \<Rightarrow> bytes \<Rightarrow> bytes option" where
  "kui_destination_join parent name =
     (if bounded name dest_name_cap = dest_name_cap \<or> \<not> component name then None
      else case kui_destination_normalize parent of None \<Rightarrow> None
      | Some root \<Rightarrow>
        let path = root @ (if root \<noteq> [slash] then [slash] else []) @ name in
        if length path \<ge> path_cap then None else kui_destination_normalize path)"

section \<open>Titles and numbered folders\<close>

text \<open>The next whole character of a title if it is allowed in a name; otherwise one byte is replaced.\<close>

definition title_char :: "bytes \<Rightarrow> bool \<times> nat" where
  "title_char rest =
     (case utf8 rest of None \<Rightarrow> (False, 1) | Some (n, code) \<Rightarrow> if invalid_code code then (False, 1) else (True, n))"

lemma title_char_length: "title_char (c # cs) = (valid, n) \<Longrightarrow> 0 < n"
  using utf8_length [of "c # cs"] by (auto simp: title_char_def split: option.splits if_splits)

function title_loop :: "bytes \<Rightarrow> bytes \<Rightarrow> bool \<Rightarrow> bytes" where
  "title_loop [] result space = result"
| "title_loop (c # cs) result space =
     (if c = blank \<or> (9 \<le> c \<and> c \<le> 13) then title_loop cs result (result \<noteq> [])
      else case title_char (c # cs) of (valid, n) \<Rightarrow>
        if length result + (if space then 1 else 0) + n \<ge> dest_title_cap then result
        else title_loop (drop n (c # cs))
               ((if space then result @ [blank] else result) @ (if valid then take n (c # cs) else [0x5f])) False)"
  by pat_completeness auto

termination
proof (relation "measure (\<lambda>(rest, result, space). length rest)")
  fix c :: u8 and cs result :: bytes and space valid :: bool and n
  assume "(valid, n) = title_char (c # cs)"
  then have "0 < n" using title_char_length by metis
  then have "length (drop n (c # cs)) < length (c # cs)" by simp
  then show "((drop n (c # cs), (if space then result @ [blank] else result) @ (if valid then take n (c # cs) else [0x5f]), False),
      (c # cs, result, space)) \<in> measure (\<lambda>(rest, result, space). length rest)" by simp
qed simp_all

definition trim_end :: "bytes \<Rightarrow> bytes" where
  "trim_end s = rev (dropWhile (\<lambda>c. c = blank \<or> c = dot) (rev s))"

definition kui_destination_title :: "bytes \<Rightarrow> bytes" where
  "kui_destination_title title =
     (let result = title_loop (take path_cap title) [] False;
          result = trim_end result;
          result = dropWhile (\<lambda>c. c = dot \<or> c = blank) result
      in if result = [] \<or> reserved result \<or> result = [dot] \<or> result = [dot, dot] then ascii ''DreamcastDisc'' else result)"

definition valid_title :: "bytes \<Rightarrow> bool" where
  "valid_title title =
     (let n = bounded title dest_title_cap in
      \<not> (n = 0 \<or> n = dest_title_cap) \<and> kui_destination_title title = title \<and> component title)"

text \<open>An unsigned number printed in decimal.\<close>

fun decimal :: "nat \<Rightarrow> bytes" where
  "decimal n = (if n < 10 then [] else decimal (n div 10)) @ [of_nat (0x30 + n mod 10)]"

declare decimal.simps [simp del]

definition numbered :: "bytes \<Rightarrow> nat \<Rightarrow> bytes" where
  "numbered stem number = stem @ [blank, 0x28] @ decimal number @ [0x29]"

definition kui_destination_folder_name :: "bytes \<Rightarrow> nat \<Rightarrow> bytes option" where
  "kui_destination_folder_name title index =
     (if \<not> valid_title title \<or> index = 0 \<or> index > 9999 then None
      else let name = (if index = 1 then title else numbered title index) in
        if length name \<ge> dest_name_cap then None else Some name)"

fun index_digits :: "bytes \<Rightarrow> nat \<Rightarrow> nat option" where
  "index_digits [] value = Some value"
| "index_digits (c # cs) value =
     (if c < 0x30 \<or> c > 0x39 then None
      else let value = value * 10 + unat (c - 0x30) in
        if value > 9999 then None else index_digits cs value)"

definition kui_destination_folder_index :: "bytes \<Rightarrow> bytes \<Rightarrow> nat option" where
  "kui_destination_folder_index name title =
     (if \<not> valid_title title then None
      else let n = bounded name dest_name_cap; base = length title in
        if n = dest_name_cap \<or> n < base \<or> \<not> ascii_equal name title base then None
        else if n = base then Some 1
        else if n < base + 4 \<or> name ! base \<noteq> blank \<or> name ! (base + 1) \<noteq> 0x28 \<or> name ! (n - 1) \<noteq> 0x29 \<or> name ! (base + 2) = 0x30 then None
        else case index_digits (window name (base + 2) (n - 1 - (base + 2))) 0 of None \<Rightarrow> None
        | Some value \<Rightarrow> if value < 2 then None else Some value)"

section \<open>Job paths and the record of the destination\<close>

definition kui_destination_job_path :: "bytes \<Rightarrow> bytes \<Rightarrow> bytes option" where
  "kui_destination_job_path root folder =
     (if bounded folder dest_name_cap = dest_name_cap \<or> \<not> component folder then None
      else case kui_destination_normalize root of None \<Rightarrow> None
      | Some normalized \<Rightarrow>
        let path = ascii ''0:'' @ normalized @ (if normalized \<noteq> [slash] then [slash] else []) @ folder in
        if length path \<ge> dest_job_cap then None else Some path)"

definition refuse_job :: "bytes \<Rightarrow> nat \<Rightarrow> bool" where
  "refuse_job part used =
     (length part \<ge> dest_name_cap \<or> \<not> component part \<or> used + (if used > 1 then 1 else 0) + length part \<ge> dest_job_cap - 2)"

definition kui_destination_job_normalize :: "bytes \<Rightarrow> bytes option" where
  "kui_destination_job_normalize path =
     (let n = bounded path path_cap in
      if n = 0 \<or> n = path_cap then None
      else let at = (if n \<ge> 2 \<and> path ! 0 = 0x30 \<and> path ! 1 = 0x3a then 2 else 0) in
        if at \<ge> n \<or> path ! at \<noteq> slash then None
        else case walk_parts refuse_job (drop (at + 1) path) [slash] of None \<Rightarrow> None
        | Some result \<Rightarrow> if length result = 1 then None else Some result)"

abbreviation (input) dest_record_size :: nat where "dest_record_size \<equiv> dest_root_cap + 28"

definition kui_destination_encode :: "bytes \<Rightarrow> u64 \<Rightarrow> bytes option" where
  "kui_destination_encode root sequence =
     (if sequence = 0 then None
      else case kui_destination_normalize root of None \<Rightarrow> None
      | Some normalized \<Rightarrow>
        let out = replicate dest_record_size 0;
            out = patch out 0 (ascii ''KUIDEST1'');
            out = patch out 8 (put32 1);
            out = patch out 12 (put32 (of_nat dest_record_size));
            out = patch out 16 (put64 sequence);
            out = patch out 24 (normalized @ [0])
        in Some (patch out (dest_record_size - 4) (put32 (kui_crc32 0 (take (dest_record_size - 4) out)))))"

definition kui_destination_decode :: "bytes \<Rightarrow> (bytes \<times> u64) option" where
  "kui_destination_decode record =
     (if length record \<noteq> dest_record_size then None
      else if take 8 record \<noteq> ascii ''KUIDEST1'' \<or> get32 record 8 \<noteq> 1 \<or> get32 record 12 \<noteq> of_nat dest_record_size \<or> get64 record 16 = 0
        \<or> get32 record (dest_record_size - 4) \<noteq> kui_crc32 0 (take (dest_record_size - 4) record) then None
      else let field = window record 24 dest_root_cap; path = takeWhile (\<lambda>c. c \<noteq> 0) field in
        if length path = dest_root_cap \<or> kui_destination_normalize path \<noteq> Some path then None
        else if \<not> zeroes (drop (length path + 1) field) then None
        else Some (path, get64 record 16))"

section \<open>Paths as lists of names\<close>

text \<open>The abstract path: the names between the slashes, without empty ones and \<open>.\<close>.\<close>

fun split_slash :: "bytes \<Rightarrow> bytes list" where
  "split_slash [] = [[]]"
| "split_slash (c # cs) = (if c = slash then [] # split_slash cs else case split_slash cs of p # ps \<Rightarrow> (c # p) # ps | [] \<Rightarrow> [[c]])"

definition path_parts :: "bytes \<Rightarrow> bytes list" where
  "path_parts path = filter (\<lambda>p. p \<noteq> [] \<and> p \<noteq> [dot]) (split_slash path)"

definition render :: "bytes list \<Rightarrow> bytes" where
  "render ps = (if ps = [] then [slash] else concat (map ((#) slash) ps))"

definition names_ok :: "bytes list \<Rightarrow> bool" where
  "names_ok ps = list_all component ps"

lemma split_slash_ne [simp]: "split_slash path \<noteq> []"
  by (cases path) (auto split: list.splits)

lemma split_slash_append:
  assumes "slash \<notin> set p"
  shows "split_slash (p @ slash # rest) = p # split_slash rest" "split_slash p = [p]"
  using assms by (induction p) auto

lemma split_slash_takeWhile:
  "split_slash path = takeWhile (\<lambda>c. c \<noteq> slash) path # (case dropWhile (\<lambda>c. c \<noteq> slash) path of [] \<Rightarrow> [] | c # cs \<Rightarrow> split_slash cs)"
  by (induction path) (auto split: list.splits)

lemma path_parts_slash [simp]: "path_parts (slash # rest) = path_parts rest"
  by (simp add: path_parts_def)

lemma path_parts_Nil [simp]: "path_parts [] = []"
  by (simp add: path_parts_def)

lemma path_parts_next:
  assumes "next_part rest = (part, rest')"
  shows "path_parts rest = (if part = [] \<or> part = [dot] then [] else [part]) @ path_parts rest'" "slash \<notin> set part"
proof -
  have skip: "path_parts rest = path_parts (dropWhile (\<lambda>c. c = slash) rest)"
    by (induction rest) auto
  let ?r = "dropWhile (\<lambda>c. c = slash) rest"
  have p: "part = takeWhile (\<lambda>c. c \<noteq> slash) ?r" "rest' = dropWhile (\<lambda>c. c \<noteq> slash) ?r"
    using assms by (simp_all add: next_part_def Let_def)
  show "slash \<notin> set part" unfolding p using set_takeWhileD by fastforce
  have "path_parts ?r = filter (\<lambda>p. p \<noteq> [] \<and> p \<noteq> [dot]) (part # (case rest' of [] \<Rightarrow> [] | c # cs \<Rightarrow> split_slash cs))"
    unfolding path_parts_def p using split_slash_takeWhile [of ?r] by simp
  also have "(case rest' of [] \<Rightarrow> [] | c # cs \<Rightarrow> split_slash cs) = (if rest' = [] then [] else split_slash (tl rest'))" by (cases rest') auto
  finally have q: "path_parts ?r = (if part = [] \<or> part = [dot] then [] else [part]) @ (if rest' = [] then [] else path_parts (tl rest'))"
    by (simp add: path_parts_def)
  have "path_parts rest' = (if rest' = [] then [] else path_parts (tl rest'))"
  proof (cases rest')
    case (Cons c cs)
    then have "c = slash" using p(2) hd_dropWhile [of "\<lambda>c. c \<noteq> slash" ?r] by simp
    then show ?thesis using Cons by simp
  qed simp
  then show "path_parts rest = (if part = [] \<or> part = [dot] then [] else [part]) @ path_parts rest'" using skip q by simp
qed

lemma component_facts: "component p \<Longrightarrow> p \<noteq> [] \<and> p \<noteq> [dot] \<and> p \<noteq> [dot, dot]"
  by (simp add: component_def)

lemma render_snoc: "\<forall>p\<in>set ps. p \<noteq> [] \<Longrightarrow> add_part (render ps) q = render (ps @ [q])"
  by (cases ps) (auto simp: add_part_def render_def neq_Nil_conv)

lemma length_render_le: "length (render ps) \<le> length (render (ps @ qs))" if "\<forall>p\<in>set ps. p \<noteq> []"
  using that by (cases ps) (auto simp: render_def, cases qs, auto)

lemma walk_parts_render:
  assumes "walk_parts refuse rest (render ps) = Some out" "names_ok ps" "\<forall>p n. \<not> refuse p n \<longrightarrow> component p"
  shows "out = render (ps @ path_parts rest) \<and> names_ok (ps @ path_parts rest)"
  using assms
proof (induction refuse rest "render ps" arbitrary: ps rule: walk_parts.induct)
  case (1 refuse rest)
  show ?case
  proof (cases "rest = []")
    case True
    then show ?thesis using 1(3,4) by (simp add: walk_parts.simps)
  next
    case False
    obtain part rest' where n: "next_part rest = (part, rest')" by fastforce
    note pp = path_parts_next(1) [OF n]
    show ?thesis
    proof (cases "part = [] \<or> part = [dot]")
      case True
      then have w: "walk_parts refuse rest' (render ps) = Some out" using 1(3) False n by (auto simp: walk_parts.simps [of refuse rest])
      then show ?thesis using 1(1) [OF False n [symmetric] True refl w 1(4,5)] pp True by auto
    next
      case nt: False
      then have r: "\<not> refuse part (length (render ps))" "walk_parts refuse rest' (add_part (render ps) part) = Some out"
        using 1(3) False n by (auto simp: walk_parts.simps [of refuse rest] split: if_splits)
      have ne: "\<forall>p\<in>set ps. p \<noteq> []" using 1(4) component_facts by (auto simp: names_ok_def list_all_iff)
      have ok: "names_ok (ps @ [part])" using 1(4,5) r(1) unfolding names_ok_def by (simp, blast)
      note sn = render_snoc [OF ne, of part]
      show ?thesis using 1(2) [OF False n [symmetric] nt r(1) sn r(2) [unfolded sn] ok 1(5)] pp nt by simp
    qed
  qed
qed

lemma utf8_tail_high: "utf8_tail cs v = Some w \<Longrightarrow> b \<in> set cs \<Longrightarrow> 0x80 \<le> b"
proof (induction cs arbitrary: v)
  case (Cons c cs)
  then have "c AND 0xc0 = 0x80" "utf8_tail cs (push_bit 6 v OR ucast (c AND 63)) = Some w" by (auto split: if_splits)
  moreover have "c AND 0xc0 \<le> c" by (rule word_and_le2)
  ultimately show ?case using Cons by auto
qed simp

lemma utf8_bytes:
  assumes "utf8 (c # cs) = Some (n, code)"
  shows "n = 1 \<and> c < 0x80 \<and> code = ucast c \<or> (\<forall>b\<in>set (take n (c # cs)). 0x80 \<le> b)"
proof (cases "c < 0x80")
  case True
  then show ?thesis using assms by (auto simp: utf8_def utf8_lead_def split: if_splits)
next
  case False
  obtain v m where t: "utf8_lead c = Some (n, v, m)" "\<exists>w. utf8_tail (take (n - 1) cs) v = Some w" "0 < n"
    using assms False utf8_length [OF assms] by (auto simp: utf8_def split: option.splits if_splits)
  then have "0x80 \<le> b" if "b \<in> set (take (n - 1) cs)" for b using utf8_tail_high that by blast
  moreover have "take n (c # cs) = c # take (n - 1) cs" using t(3) by (cases n) auto
  ultimately show ?thesis using False by auto
qed

lemma codes_ok_byte: "codes_ok s \<Longrightarrow> b \<in> set s \<Longrightarrow> b < 0x80 \<Longrightarrow> \<not> invalid_code (ucast b)"
proof (induction s rule: codes_ok.induct)
  case (2 c cs)
  obtain n code where u: "utf8 (c # cs) = Some (n, code)" "\<not> invalid_code code" "codes_ok (drop n (c # cs))"
    using 2(2) by (auto split: option.splits prod.splits)
  have "set (c # cs) = set (take n (c # cs)) \<union> set (drop n (c # cs))" by (metis append_take_drop_id set_append)
  then consider "b \<in> set (take n (c # cs))" | "b \<in> set (drop n (c # cs))" using 2(3) by blast
  then show ?case
  proof cases
    case 1
    then show ?thesis using utf8_bytes [OF u(1)] u(2) 2(4) by auto
  next
    case 2
    then show ?thesis using "2.IH" [OF u(1) refl u(3)] "2.prems"(3) by blast
  qed
qed simp

lemma component_bytes:
  assumes "component p"
  shows "0 \<notin> set p" "slash \<notin> set p" "0x5c \<notin> set p" "0x3a \<notin> set p"
proof -
  have ok: "codes_ok p" using assms by (simp add: component_def)
  show "0 \<notin> set p" "slash \<notin> set p" "0x5c \<notin> set p" "0x3a \<notin> set p"
    using codes_ok_byte [of p 0, OF ok] codes_ok_byte [of p slash, OF ok] codes_ok_byte [of p "0x5c", OF ok] codes_ok_byte [of p "0x3a", OF ok]
    by (auto simp: invalid_code_def)
qed

lemma next_part_skip: "next_part (slash # rest) = next_part rest"
  by (simp add: next_part_def)

lemma walk_parts_slash: "walk_parts refuse (slash # rest) result = walk_parts refuse rest result"
proof (cases "rest = []")
  case True
  then show ?thesis by (simp add: walk_parts.simps next_part_def)
next
  case False
  then show ?thesis by (simp add: walk_parts.simps [of refuse "slash # rest"] walk_parts.simps [of refuse rest] next_part_skip)
qed

lemma next_part_name: "slash \<notin> set p \<Longrightarrow> p \<noteq> [] \<Longrightarrow> next_part (p @ concat (map ((#) slash) qs)) = (p, concat (map ((#) slash) qs))"
proof -
  assume p: "slash \<notin> set p" "p \<noteq> []"
  let ?r = "concat (map ((#) slash) qs)"
  have "dropWhile (\<lambda>c. c = slash) (p @ ?r) = p @ ?r" using p by (cases p) auto
  moreover have "takeWhile (\<lambda>c. c \<noteq> slash) (p @ ?r) = p @ takeWhile (\<lambda>c. c \<noteq> slash) ?r" using p(1) by (intro takeWhile_append2) auto
  moreover have "dropWhile (\<lambda>c. c \<noteq> slash) (p @ ?r) = dropWhile (\<lambda>c. c \<noteq> slash) ?r" using p(1) by (intro dropWhile_append2) auto
  moreover have "takeWhile (\<lambda>c. c \<noteq> slash) ?r = []" "dropWhile (\<lambda>c. c \<noteq> slash) ?r = ?r" by (cases qs; simp)+
  ultimately show ?thesis by (simp add: next_part_def Let_def)
qed

lemma length_render_mono: "names_ok ps \<Longrightarrow> length (render ps) + (if length (render ps) > 1 then 1 else 0) + length q \<le> length (render (ps @ q # qs))"
proof -
  assume "names_ok ps"
  then have "\<forall>p\<in>set ps. p \<noteq> []" using component_facts by (auto simp: names_ok_def list_all_iff)
  then have "length (add_part (render ps) q) = length (render (ps @ [q]))" using render_snoc by metis
  moreover have "length (render (ps @ [q])) \<le> length (render (ps @ q # qs))" by (simp add: render_def)
  ultimately show ?thesis by (simp add: add_part_def split: if_splits)
qed

lemma walk_parts_complete:
  "names_ok ps \<Longrightarrow> names_ok qs \<Longrightarrow> length (render (ps @ qs)) < dest_root_cap
    \<Longrightarrow> walk_parts refuse_root (concat (map ((#) slash) qs)) (render ps) = Some (render (ps @ qs))"
proof (induction qs arbitrary: ps)
  case Nil
  then show ?case by (simp add: walk_parts.simps)
next
  case (Cons q qs)
  let ?r = "concat (map ((#) slash) qs)"
  have q: "component q" "q \<noteq> []" "q \<noteq> [dot]" "slash \<notin> set q" and qs: "names_ok qs"
    using Cons.prems(2) component_facts component_bytes by (auto simp: names_ok_def)
  have ne: "\<forall>p\<in>set ps. p \<noteq> []" using Cons.prems(1) component_facts by (auto simp: names_ok_def list_all_iff)
  have "length (render ps) + (if length (render ps) > 1 then 1 else 0) + length q < dest_root_cap"
    using length_render_mono [OF Cons.prems(1), of q qs] Cons.prems(3) by linarith
  then have nr: "\<not> refuse_root q (length (render ps))" using q(1) unfolding refuse_root_def not_le by simp
  have "walk_parts refuse_root (concat (map ((#) slash) (q # qs))) (render ps) = walk_parts refuse_root (q @ ?r) (render ps)"
    by (simp add: walk_parts_slash)
  also have "\<dots> = walk_parts refuse_root ?r (add_part (render ps) q)"
    using q nr by (subst walk_parts.simps) (simp add: next_part_name)
  also have "\<dots> = walk_parts refuse_root ?r (render (ps @ [q]))" using render_snoc [OF ne] by simp
  also have "\<dots> = Some (render ((ps @ [q]) @ qs))"
    using Cons.prems q(1) qs by (intro Cons.IH) (simp_all add: names_ok_def)
  finally show ?case by simp
qed

lemma names_ok_path_parts_render: "names_ok ps \<Longrightarrow> path_parts (render ps) = ps"
proof (cases "ps = []")
  case False
  assume ok: "names_ok ps"
  have "path_parts (concat (map ((#) slash) ps)) = ps" using ok
  proof (induction ps)
    case (Cons p ps)
    then have p: "component p" "p \<noteq> []" "p \<noteq> [dot]" "slash \<notin> set p" using component_facts component_bytes by (auto simp: names_ok_def)
    show ?case using path_parts_next(1) [OF next_part_name [OF p(4,2), of ps]] p(2,3) Cons by (simp add: names_ok_def)
  qed simp
  then show ?thesis using False by (simp add: render_def)
qed (simp add: render_def path_parts_def)

text \<open>Normalisation computes the list of the names of the path, and refuses exactly when one of them is no safe name or the result is
  too long.\<close>

lemma refuse_root_component: "\<forall>p n. \<not> refuse_root p n \<longrightarrow> component p"
  by (simp add: refuse_root_def)

lemma normalize_eq:
  assumes "kui_destination_normalize path = Some out"
  shows "out = render (path_parts path) \<and> names_ok (path_parts path)"
proof -
  have w: "walk_parts refuse_root (tl path) (render []) = Some out" and p: "path \<noteq> []" "hd path = slash"
    using assms by (auto simp: kui_destination_normalize_def bounded_def Let_def render_def split: if_splits)
  have "path_parts path = path_parts (tl path)" using p by (cases path) auto
  then show ?thesis using walk_parts_render [OF w _ refuse_root_component] by (simp add: names_ok_def)
qed

lemma walk_parts_length: "walk_parts refuse_root rest result = Some out \<Longrightarrow> length result < dest_root_cap \<Longrightarrow> length out < dest_root_cap"
proof (induction refuse_root rest result rule: walk_parts.induct)
  case (1 rest result)
  then show ?case
  proof (cases "rest = []")
    case False
    obtain part rest' where n: "next_part rest = (part, rest')" by fastforce
    show ?thesis
    proof (cases "part = [] \<or> part = [dot]")
      case True
      then have "walk_parts refuse_root rest' result = Some out" using 1(3) False n by (auto simp: walk_parts.simps [of refuse_root rest])
      then show ?thesis using 1(1) [OF False n [symmetric] True] 1(4) by blast
    next
      case nt: False
      then have r: "\<not> refuse_root part (length result)" "walk_parts refuse_root rest' (add_part result part) = Some out"
        using 1(3) False n by (auto simp: walk_parts.simps [of refuse_root rest] split: if_splits)
      have "length (add_part result part) < dest_root_cap" using r(1) by (auto simp: refuse_root_def add_part_def not_le split: if_splits)
      then show ?thesis using 1(2) [OF False n [symmetric] nt r] by blast
    qed
  qed (simp add: walk_parts.simps)
qed

lemma normalize_render:
  assumes "names_ok ps" "length (render ps) < dest_root_cap"
  shows "kui_destination_normalize (render ps) = Some (render ps)"
proof -
  have hd: "render ps = slash # tl (render ps)" by (cases ps) (auto simp: render_def)
  have "walk_parts refuse_root (tl (render ps)) [slash] = walk_parts refuse_root (slash # tl (render ps)) (render [])"
    by (simp add: walk_parts_slash render_def)
  also have "\<dots> = walk_parts refuse_root (concat (map ((#) slash) ps)) (render [])"
    using hd by (cases ps) (auto simp: render_def walk_parts.simps next_part_def)
  also have "\<dots> = Some (render ps)" using walk_parts_complete [of "[]" ps] assms by (simp add: names_ok_def)
  finally have w: "walk_parts refuse_root (tl (render ps)) [slash] = Some (render ps)" .
  have "bounded (render ps) path_cap = length (render ps)" "length (render ps) \<noteq> 0" "hd (render ps) = slash"
    using assms(2) hd by (simp_all add: bounded_def) (metis list.sel(1) length_0_conv list.distinct(1))+
  then show ?thesis using w assms(2) by (simp add: kui_destination_normalize_def Let_def)
qed

lemma normalize_fixpoint:
  assumes "kui_destination_normalize path = Some out"
  shows "kui_destination_normalize out = Some out" "length out < dest_root_cap" "0 \<notin> set out"
proof -
  note n = normalize_eq [OF assms]
  show l: "length out < dest_root_cap" using assms by (auto simp: kui_destination_normalize_def Let_def split: if_splits dest: walk_parts_length)
  show "kui_destination_normalize out = Some out" using normalize_render n l by metis
  show "0 \<notin> set out" using n component_bytes(1) by (auto simp: names_ok_def list_all_iff render_def)
qed

section \<open>The record is canonical\<close>

definition record_body :: "bytes \<Rightarrow> u64 \<Rightarrow> bytes" where
  "record_body root sequence =
     ascii ''KUIDEST1'' @ put32 1 @ put32 (of_nat dest_record_size) @ put64 sequence @ root @ replicate (dest_root_cap - length root) 0"

definition destination_record :: "bytes \<Rightarrow> u64 \<Rightarrow> bytes" where
  "destination_record root sequence = record_body root sequence @ put32 (kui_crc32 0 (record_body root sequence))"

lemma length_ascii [simp]: "length (ascii s) = length s"
  by (simp add: ascii_def)

lemma patch_append: "length p = i \<Longrightarrow> patch (p @ q) i r = p @ r @ drop (length r) q"
  by (simp add: patch_def)

lemma encode_eq:
  "kui_destination_encode path sequence =
     (if sequence = 0 then None else map_option (\<lambda>root. destination_record root sequence) (kui_destination_normalize path))"
proof (cases "kui_destination_normalize path")
  case (Some root)
  have l: "length root < dest_root_cap" by (rule normalize_fixpoint(2) [OF Some])
  let ?h = "ascii ''KUIDEST1''" and ?n = "of_nat dest_record_size :: u32"
  have a: "patch (replicate dest_record_size 0) 0 ?h = ?h @ replicate 148 0" by (simp add: patch_def)
  have b: "patch (?h @ replicate 148 0) 8 (put32 1) = (?h @ put32 1) @ replicate 144 0" by (simp add: patch_append)
  have c: "patch ((?h @ put32 1) @ replicate 144 0) 12 (put32 ?n) = (?h @ put32 1 @ put32 ?n) @ replicate 140 0" by (subst patch_append) simp_all
  have d: "patch ((?h @ put32 1 @ put32 ?n) @ replicate 140 0) 16 (put64 sequence) = (?h @ put32 1 @ put32 ?n @ put64 sequence) @ replicate 132 0"
    by (subst patch_append) simp_all
  have e: "patch ((?h @ put32 1 @ put32 ?n @ put64 sequence) @ replicate 132 0) 24 (root @ [0])
      = (?h @ put32 1 @ put32 ?n @ put64 sequence) @ (root @ [0]) @ replicate (131 - length root) 0"
    using l by (subst patch_append) simp_all
  have "[0] @ replicate (131 - length root) 0 = replicate (128 - length root) (0 :: u8) @ replicate 4 0"
    using l by (simp flip: replicate_Suc replicate_add add: Suc_diff_le)
  then have f: "(?h @ put32 1 @ put32 ?n @ put64 sequence) @ (root @ [0]) @ replicate (131 - length root) 0 = record_body root sequence @ replicate 4 0"
    by (simp add: record_body_def)
  have lb: "length (record_body root sequence) = 152" using l by (simp add: record_body_def)
  have "patch (record_body root sequence @ replicate 4 0) 152 (put32 k) = record_body root sequence @ put32 k" for k
    using patch_append [OF lb, of "replicate 4 0" "put32 k"] by simp
  then show ?thesis using lb unfolding kui_destination_encode_def Some option.case Let_def a b c d e f by (simp add: destination_record_def)
qed (simp add: kui_destination_encode_def)

lemma window_append_skip: "length p = k \<Longrightarrow> k \<le> i \<Longrightarrow> window (p @ q) i n = window q (i - k) n"
  by (simp add: window_def)

lemma record_fields:
  assumes "length root < dest_root_cap"
  shows "length (destination_record root sequence) = dest_record_size" "take 8 (destination_record root sequence) = ascii ''KUIDEST1''"
    "get32 (destination_record root sequence) 8 = 1" "get32 (destination_record root sequence) 12 = of_nat dest_record_size"
    "get64 (destination_record root sequence) 16 = sequence" "window (destination_record root sequence) 24 128 = root @ replicate (128 - length root) 0"
    "take 152 (destination_record root sequence) = record_body root sequence"
    "get32 (destination_record root sequence) 152 = kui_crc32 0 (record_body root sequence)"
proof -
  have lb: "length (record_body root sequence) = 152" using assms by (simp add: record_body_def)
  show l: "length (destination_record root sequence) = dest_record_size" using lb by (simp add: destination_record_def)
  show "take 8 (destination_record root sequence) = ascii ''KUIDEST1''" by (simp add: destination_record_def record_body_def)
  show "take 152 (destination_record root sequence) = record_body root sequence" using lb by (simp add: destination_record_def)
  show "get32 (destination_record root sequence) 8 = 1"
    by (rule get32_put32_at) (use l in \<open>simp_all add: destination_record_def record_body_def window_def\<close>)
  show "get32 (destination_record root sequence) 12 = of_nat dest_record_size"
    by (rule get32_put32_at) (use l in \<open>simp_all add: destination_record_def record_body_def window_def\<close>)
  show "get64 (destination_record root sequence) 16 = sequence"
    by (rule get64_put64_at) (use l in \<open>simp_all add: destination_record_def record_body_def window_def\<close>)
  show "window (destination_record root sequence) 24 128 = root @ replicate (128 - length root) 0"
    using assms by (simp add: destination_record_def record_body_def window_def)
  show "get32 (destination_record root sequence) 152 = kui_crc32 0 (record_body root sequence)"
    by (rule get32_put32_at) (use lb l in \<open>simp_all add: destination_record_def window_def\<close>)
qed

lemma decode_record:
  assumes "kui_destination_normalize root = Some root" "sequence \<noteq> 0"
  shows "kui_destination_decode (destination_record root sequence) = Some (root, sequence)"
proof -
  note n = normalize_fixpoint(2,3) [OF assms(1)]
  note f = record_fields [OF n(1), of sequence]
  have "takeWhile (\<lambda>c. c \<noteq> 0) (root @ replicate (128 - length root) 0) = root @ takeWhile (\<lambda>c. c \<noteq> 0) (replicate (128 - length root) 0)"
    using n(2) by (intro takeWhile_append2) auto
  then have t: "takeWhile (\<lambda>c. c \<noteq> 0) (root @ replicate (128 - length root) 0) = root" by simp
  have z: "zeroes (drop (length root + 1) (root @ replicate (128 - length root) 0))" by simp
  show ?thesis unfolding kui_destination_decode_def Let_def
    using f assms n by (simp add: t z)
qed

lemma decode_sound:
  assumes "kui_destination_decode record = Some (root, sequence)"
  shows "kui_destination_normalize root = Some root \<and> sequence \<noteq> 0 \<and> record = destination_record root sequence"
proof -
  define field where "field = window record 24 128"
  note d = assms [unfolded kui_destination_decode_def Let_def, folded field_def]
  have na: "\<not> length record \<noteq> dest_record_size" using d by (metis option.distinct(1))
  note d = d [unfolded if_not_P [OF na]]
  have nb: "\<not> (take 8 record \<noteq> ascii ''KUIDEST1'' \<or> get32 record 8 \<noteq> 1 \<or> get32 record 12 \<noteq> of_nat dest_record_size \<or> get64 record 16 = 0
        \<or> get32 record (dest_record_size - 4) \<noteq> kui_crc32 0 (take (dest_record_size - 4) record))"
    by (rule notI) (use d in \<open>simp only: if_True option.distinct\<close>)
  note d = d [unfolded if_not_P [OF nb]]
  let ?p = "takeWhile (\<lambda>c. c \<noteq> 0) field"
  have nc: "\<not> (length ?p = dest_root_cap \<or> kui_destination_normalize ?p \<noteq> Some ?p)"
    by (rule notI) (use d in \<open>simp only: if_True option.distinct\<close>)
  note d = d [unfolded if_not_P [OF nc]]
  have nd: "\<not> \<not> zeroes (drop (length ?p + 1) field)" by (rule notI) (use d in \<open>simp only: if_True option.distinct not_False_eq_True\<close>)
  note d = d [unfolded if_not_P [OF nd]]
  have r: "length record = 156" "take 8 record = ascii ''KUIDEST1''" "get32 record 8 = 1" "get32 record 12 = of_nat dest_record_size"
    "get64 record 16 = sequence" "sequence \<noteq> 0" "get32 record 152 = kui_crc32 0 (take 152 record)"
    "root = ?p" "length root \<noteq> 128" "kui_destination_normalize root = Some root" "zeroes (drop (length root + 1) field)"
    using na nb nc nd d by (simp_all only: option.inject prod.inject de_Morgan_disj not_not) simp_all
  have lf: "length field = 128" unfolding field_def using r(1) by (simp add: length_window)
  have "length root \<le> 128" using r(8) lf length_takeWhile_le by metis
  then have lr: "length root < 128" using r(9) by linarith
  have "field = root @ dropWhile (\<lambda>c. c \<noteq> 0) field" unfolding r(8) by simp
  moreover have "dropWhile (\<lambda>c. c \<noteq> 0) field = drop (length root) field" unfolding r(8) by (rule dropWhile_eq_drop)
  ultimately have fd: "field = root @ drop (length root) field" by simp
  have "\<not> field ! length ?p \<noteq> 0" using lr lf unfolding r(8) by (intro nth_length_takeWhile) simp
  then have "field ! length root = 0" unfolding r(8) by simp
  then have "drop (length root) field = 0 # drop (length root + 1) field" using lr lf by (simp add: Cons_nth_drop_Suc [symmetric])
  also have "drop (length root + 1) field = replicate (127 - length root) 0" using r(11) lf by (simp add: zeroes_iff_replicate)
  finally have "drop (length root) field = replicate (128 - length root) 0" using lr by (simp flip: replicate_Suc add: Suc_diff_le)
  with fd have field: "field = root @ replicate (128 - length root) 0" by simp
  have "put32 (get32 record 8) = window record 8 4" "put32 (get32 record 12) = window record 12 4" "put64 (get64 record 16) = window record 16 8"
    "put32 (get32 record 152) = window record 152 4" using r(1) by (simp_all add: put32_get32 put64_get64)
  then have w: "window record 8 4 = put32 1" "window record 12 4 = put32 (of_nat dest_record_size)" "window record 16 8 = put64 sequence"
    "window record 152 4 = put32 (kui_crc32 0 (take 152 record))" using r(3-5,7) by simp_all
  have "take 152 record = take 8 record @ window record 8 4 @ window record 12 4 @ window record 16 8 @ field"
  proof -
    have "window record 0 8 @ window record 8 4 @ window record 12 4 @ window record 16 8 @ window record 24 128 = window record 0 152"
      by (simp add: window_joins)
    then show ?thesis unfolding field_def by (simp add: window_def)
  qed
  then have body: "take 152 record = record_body root sequence" unfolding r(2) w field record_body_def by simp
  have "record = take 152 record @ window record 152 4" using r(1) by (simp add: window_def)
  then show ?thesis using r(6,10) w(4) body by (simp add: destination_record_def)
qed

text \<open>C40. The record of the destination is canonical: a record decodes to a path exactly when that path is its own normal form and
  the record is the encoding of it, so no two records stand for one setting and no damaged or hand-made record is taken; and what is
  decoded from an encoding is the normal form of the path that was encoded.\<close>

theorem destination_record_canonical:
  "(kui_destination_decode record = Some (root, sequence) \<longleftrightarrow>
      kui_destination_normalize root = Some root \<and> kui_destination_encode root sequence = Some record)
   \<and> (case kui_destination_encode path sequence of None \<Rightarrow> sequence = 0 \<or> kui_destination_normalize path = None
      | Some r \<Rightarrow> kui_destination_decode r = map_option (\<lambda>root. (root, sequence)) (kui_destination_normalize path))"
proof -
  have "kui_destination_decode record = Some (root, sequence) \<longleftrightarrow>
      kui_destination_normalize root = Some root \<and> kui_destination_encode root sequence = Some record"
  proof
    assume "kui_destination_decode record = Some (root, sequence)"
    then show "kui_destination_normalize root = Some root \<and> kui_destination_encode root sequence = Some record"
      using decode_sound [of "record" root sequence] by (simp add: encode_eq)
  next
    assume n: "kui_destination_normalize root = Some root \<and> kui_destination_encode root sequence = Some record"
    then have "sequence \<noteq> 0" "record = destination_record root sequence" by (auto simp: encode_eq split: if_splits)
    then show "kui_destination_decode record = Some (root, sequence)" using decode_record n by blast
  qed
  moreover have "case kui_destination_encode path sequence of None \<Rightarrow> sequence = 0 \<or> kui_destination_normalize path = None
      | Some r \<Rightarrow> kui_destination_decode r = map_option (\<lambda>root. (root, sequence)) (kui_destination_normalize path)"
    using decode_record [OF normalize_fixpoint(1), of path _ sequence] by (auto simp: encode_eq split: option.splits)
  ultimately show ?thesis by blast
qed

section \<open>Sanitized titles\<close>

text \<open>A title is looked at as the list of its whole characters.\<close>

definition whole :: "bytes \<Rightarrow> bool" where
  "whole c = (case utf8 c of None \<Rightarrow> False | Some (n, code) \<Rightarrow> n = length c \<and> \<not> invalid_code code)"

lemma utf8_append: "utf8 c = Some (n, code) \<Longrightarrow> utf8 (c @ rest) = Some (n, code)"
proof -
  assume u: "utf8 c = Some (n, code)"
  then have "c \<noteq> []" by (auto simp: utf8_def)
  then show ?thesis using u by (auto simp: utf8_def hd_append split: option.splits if_splits)
qed

lemma utf8_take: "utf8 s = Some (n, code) \<Longrightarrow> utf8 (take n s) = Some (n, code)"
proof -
  assume u: "utf8 s = Some (n, code)"
  then have "0 < n" "n \<le> length s" using utf8_length by blast+
  then show ?thesis using u by (cases s; cases n) (auto simp: utf8_def min_def split: option.splits if_splits)
qed

lemma whole_facts:
  assumes "whole c"
  shows "c \<noteq> []" "title_char (c @ rest) = (True, length c)" "codes_ok (c @ rest) = codes_ok rest"
    "hd c \<noteq> 0x20 \<Longrightarrow> \<not> (9 \<le> hd c \<and> hd c \<le> 13)" "b \<in> {blank, dot} \<Longrightarrow> b \<in> set c \<Longrightarrow> c = [b]"
proof -
  obtain code where u: "utf8 c = Some (length c, code)" "\<not> invalid_code code" using assms by (auto simp: whole_def split: option.splits)
  note ua = utf8_append [OF u(1), of rest]
  show ne: "c \<noteq> []" using u(1) by (auto simp: utf8_def)
  show "title_char (c @ rest) = (True, length c)" using ua u(2) by (simp add: title_char_def)
  have "codes_ok (c @ rest) = (case utf8 (c @ rest) of None \<Rightarrow> False | Some (n, code) \<Rightarrow> \<not> invalid_code code \<and> codes_ok (drop n (c @ rest)))"
    using ne by (cases c) (simp_all only: codes_ok.simps append_Cons append_Nil simp_thms)
  then show "codes_ok (c @ rest) = codes_ok rest" using ua u(2) by simp
  obtain x xs where c: "c = x # xs" using ne by (cases c) auto
  have bt: "length c = 1 \<and> x < 0x80 \<and> code = ucast x \<or> (\<forall>b\<in>set c. 0x80 \<le> b)" using utf8_bytes [of x xs "length c" code] u(1) c by simp
  show "\<not> (9 \<le> hd c \<and> hd c \<le> 13)" if "hd c \<noteq> 0x20"
  proof
    assume h: "9 \<le> hd c \<and> hd c \<le> 13"
    then have x: "x \<le> 13" using c by simp
    then have "\<not> 0x80 \<le> x" by (simp add: word_le_nat_alt)
    note x = x this
    then have "code = ucast x" using bt c x(2) by auto
    moreover have "(ucast x :: u32) < 32" using x(1) by (simp add: word_le_nat_alt word_less_nat_alt unsigned_ucast_eq take_bit_nat_eq_self)
    ultimately show False using u(2) by (simp add: invalid_code_def)
  qed
  show "c = [b]" if "b \<in> {blank, dot}" "b \<in> set c"
  proof -
    have "\<not> 0x80 \<le> b" using that(1) by auto
    then have "length c = 1" using bt that(2) by blast
    then show ?thesis using that(2) c by auto
  qed
qed

lemma whole_last: "whole c \<Longrightarrow> b \<in> {blank, dot} \<Longrightarrow> last c = b \<longleftrightarrow> c = [b]"
  using whole_facts(1,5) by (metis last_in_set last.simps)

lemma whole_hd: "whole c \<Longrightarrow> b \<in> {blank, dot} \<Longrightarrow> hd c = b \<longleftrightarrow> c = [b]"
  using whole_facts(1,5) by (metis hd_in_set list.sel(1))

lemma codes_ok_whole: "\<forall>c\<in>set cs. whole c \<Longrightarrow> codes_ok (concat cs)"
  by (induction cs) (simp_all add: whole_facts(3))

abbreviation (input) gap :: "bytes \<Rightarrow> bytes \<Rightarrow> bool" where
  "gap a b \<equiv> a \<noteq> [blank] \<or> b \<noteq> [blank]"

definition tidy :: "bytes list \<Rightarrow> bool" where
  "tidy cs = ((\<forall>c\<in>set cs. whole c) \<and> successively (\<lambda>a b. gap a b) cs \<and> (cs \<noteq> [] \<longrightarrow> hd cs \<noteq> [blank] \<and> last cs \<noteq> [blank]))"

lemma whole_blank: "whole [blank]" "whole [0x5f]"
  by (simp_all add: whole_def utf8_def utf8_lead_def invalid_code_def)

lemma title_char_whole:
  assumes "title_char (c # cs) = (valid, n)" "c \<noteq> blank"
  shows "whole (if valid then take n (c # cs) else [0x5f]) \<and> (if valid then take n (c # cs) else [0x5f]) \<noteq> [blank]
    \<and> length (if valid then take n (c # cs) else [0x5f]) = n"
proof (cases valid)
  case True
  then obtain code where u: "utf8 (c # cs) = Some (n, code)" "\<not> invalid_code code"
    using assms(1) by (auto simp: title_char_def split: option.splits if_splits)
  note l = utf8_length [OF u(1)]
  have "whole (take n (c # cs))" using utf8_take [OF u(1)] u(2) l by (simp add: whole_def min_def)
  moreover have "take n (c # cs) \<noteq> [blank]" using l assms(2) by (cases n) auto
  ultimately show ?thesis using True l by (simp add: min_def)
next
  case False
  then have "n = 1" using assms(1) by (auto simp: title_char_def split: option.splits if_splits)
  then show ?thesis using False whole_blank(2) by simp
qed

lemma title_loop_tidy:
  assumes "tidy rs" "length (concat rs) < dest_title_cap" "space \<longrightarrow> rs \<noteq> []"
  shows "\<exists>rs'. title_loop rest (concat rs) space = concat rs' \<and> tidy rs' \<and> length (concat rs') < dest_title_cap"
  using assms
proof (induction rest "concat rs" space arbitrary: rs rule: title_loop.induct)
  case (1 space)
  then show ?case by auto
next
  case (2 c cs space)
  have ne: "concat rs \<noteq> [] \<longleftrightarrow> rs \<noteq> []" using 2(3) whole_facts(1) by (cases rs) (auto simp: tidy_def)
  show ?case
  proof (cases "c = blank \<or> (9 \<le> c \<and> c \<le> 13)")
    case True
    then show ?thesis using 2(1) [OF True refl 2(3,4)] ne by auto
  next
    case False
    obtain valid n where t: "title_char (c # cs) = (valid, n)" by fastforce
    let ?new = "if valid then take n (c # cs) else [0x5f]"
    have w: "whole ?new" "?new \<noteq> [blank]" "length ?new = n" using title_char_whole [OF t] False by auto
    show ?thesis
    proof (cases "length (concat rs) + (if space then 1 else 0) + n \<ge> dest_title_cap")
      case True
      then show ?thesis using False t 2(3,4) by auto
    next
      case small: False
      let ?rs = "rs @ (if space then [[blank]] else []) @ [?new]"
      have eq: "(if space then concat rs @ [blank] else concat rs) @ ?new = concat ?rs" by simp
      have td: "tidy ?rs" using 2(3,5) w whole_blank by (auto simp: tidy_def successively_append_iff hd_append)
      have ln: "length (concat ?rs) < dest_title_cap" using small w(3) by (cases space) simp_all
      have "title_loop (c # cs) (concat rs) space = title_loop (drop n (c # cs)) (concat ?rs) False"
        unfolding eq [symmetric] by (simp only: title_loop.simps if_not_P [OF False] t prod.case if_not_P [OF small])
      then show ?thesis using 2(2) [OF False t [symmetric] small eq td ln] by simp
    qed
  qed
qed

abbreviation (input) edge :: "bytes \<Rightarrow> bool" where "edge c \<equiv> c = [blank] \<or> c = [dot]"

lemma trim_front: "\<forall>c\<in>set cs. whole c \<Longrightarrow> dropWhile (\<lambda>c. c = dot \<or> c = blank) (concat cs) = concat (dropWhile edge cs)"
proof (induction cs)
  case (Cons c cs)
  then have w: "whole c" by simp
  then obtain x xs where c: "c = x # xs" using whole_facts(1) by (cases c) auto
  then have "x = blank \<longleftrightarrow> c = [blank]" "x = dot \<longleftrightarrow> c = [dot]" using whole_hd [OF w, of blank] whole_hd [OF w, of dot] by auto
  then show ?case using Cons c by auto
qed simp

lemma trim_back: "\<forall>c\<in>set cs. whole c \<Longrightarrow> trim_end (concat cs) = concat (rev (dropWhile edge (rev cs)))"
proof (induction cs rule: rev_induct)
  case (snoc c cs)
  then have w: "whole c" by simp
  then obtain xs x where c: "c = xs @ [x]" using whole_facts(1) by (cases c rule: rev_cases) auto
  then have "x = blank \<longleftrightarrow> c = [blank]" "x = dot \<longleftrightarrow> c = [dot]" using whole_last [OF w, of blank] whole_last [OF w, of dot] by auto
  then show ?case using snoc c by (auto simp: trim_end_def)
qed (simp add: trim_end_def)

text \<open>The characters of a sanitized title.\<close>

definition title_chars :: "bytes list \<Rightarrow> bool" where
  "title_chars cs = (tidy cs \<and> cs \<noteq> [] \<and> \<not> edge (hd cs) \<and> \<not> edge (last cs) \<and> length (concat cs) < dest_title_cap)"

lemma tidy_suffix: "tidy (cs @ ds) \<Longrightarrow> ds \<noteq> [] \<Longrightarrow> hd ds \<noteq> [blank] \<Longrightarrow> tidy ds"
  by (auto simp: tidy_def successively_append_iff)

lemma tidy_prefix: "tidy (cs @ ds) \<Longrightarrow> cs \<noteq> [] \<Longrightarrow> last cs \<noteq> [blank] \<Longrightarrow> tidy cs"
  by (auto simp: tidy_def successively_append_iff)

lemma title_trimmed:
  assumes "tidy cs" "length (concat cs) < dest_title_cap"
  shows "dropWhile (\<lambda>c. c = dot \<or> c = blank) (trim_end (concat cs)) = []
    \<or> (\<exists>ds. dropWhile (\<lambda>c. c = dot \<or> c = blank) (trim_end (concat cs)) = concat ds \<and> title_chars ds)"
proof -
  define es where "es = rev (dropWhile edge (rev cs))"
  define ds where "ds = dropWhile edge es"
  have w: "\<forall>c\<in>set cs. whole c" using assms(1) by (simp add: tidy_def)
  have cs: "cs = es @ rev (takeWhile edge (rev cs))" unfolding es_def by (simp flip: rev_append)
  have es: "es = takeWhile edge es @ ds" unfolding ds_def by simp
  have we: "\<forall>c\<in>set es. whole c" using w unfolding es_def by (auto dest: set_dropWhileD)
  have eq: "dropWhile (\<lambda>c. c = dot \<or> c = blank) (trim_end (concat cs)) = concat ds"
    unfolding trim_back [OF w] es_def [symmetric] ds_def by (rule trim_front [OF we])
  show ?thesis
  proof (cases "ds = []")
    case False
    then have ne: "es \<noteq> []" using es by auto
    have hd: "\<not> edge (hd ds)" using False unfolding ds_def by (rule hd_dropWhile)
    have "last (takeWhile edge es @ ds) = last ds" using False by simp
    then have le: "last es = last ds" unfolding es [symmetric] .
    have rne: "dropWhile edge (rev cs) \<noteq> []" using ne unfolding es_def by simp
    have last: "\<not> edge (last ds)" using hd_dropWhile [OF rne] rne unfolding le [symmetric] es_def by (simp add: last_rev)
    have "tidy es" using tidy_prefix [of es "rev (takeWhile edge (rev cs))"] assms(1) cs ne last le by metis
    then have "tidy ds" using tidy_suffix [of "takeWhile edge es" ds] es False hd by metis
    moreover have "length (concat ds) \<le> length (concat cs)" by (subst cs, subst es) simp
    ultimately show ?thesis using False hd last assms(2) eq by (auto simp: title_chars_def)
  qed (simp add: eq)
qed

lemma title_chars_component:
  assumes "title_chars cs" "\<not> reserved (concat cs)"
  shows "component (concat cs)"
proof -
  have w: "\<forall>c\<in>set cs. whole c" "cs \<noteq> []" "\<not> edge (last cs)" using assms(1) by (simp_all add: title_chars_def tidy_def)
  obtain ds c where cs: "cs = ds @ [c]" using w(2) by (cases cs rule: rev_cases) auto
  then have c: "whole c" "\<not> edge c" "c \<noteq> []" using w whole_facts(1) by auto
  then have "last c \<noteq> dot" "last c \<noteq> blank" using whole_last [OF c(1)] by auto
  then have l: "last (concat cs) \<noteq> dot" "last (concat cs) \<noteq> blank" "concat cs \<noteq> []" using cs c(3) by auto
  then have "concat cs \<noteq> [dot]" "concat cs \<noteq> [dot, dot]" by auto
  then show ?thesis using l assms(2) codes_ok_whole [OF w(1)] by (simp add: component_def)
qed

lemma title_loop_keeps:
  assumes "\<forall>c\<in>set cs. whole c" "successively (\<lambda>a b. gap a b) cs" "cs \<noteq> [] \<longrightarrow> last cs \<noteq> [blank]"
    "result = [] \<or> space \<longrightarrow> cs \<noteq> [] \<longrightarrow> hd cs \<noteq> [blank]"
    "length result + (if space \<and> cs \<noteq> [] then 1 else 0) + length (concat cs) < dest_title_cap"
  shows "title_loop (concat cs) result space = result @ (if space \<and> cs \<noteq> [] then [blank] else []) @ concat cs"
  using assms
proof (induction cs arbitrary: result space)
  case (Cons c cs)
  have w: "whole c" using Cons.prems(1) by simp
  obtain x xs where c: "c = x # xs" using whole_facts(1) [OF w] by (cases c) auto
  show ?case
  proof (cases "c = [blank]")
    case True
    then have b: "result \<noteq> []" "\<not> space" "cs \<noteq> []" "hd cs \<noteq> [blank]"
      using Cons.prems by (auto simp: successively_Cons split: if_splits)
    have "title_loop (concat (c # cs)) result space = title_loop (concat cs) result True" using True b by simp
    also have "\<dots> = result @ [blank] @ concat cs"
      using Cons.IH [of result True] Cons.prems True b by (auto simp: successively_Cons)
    finally show ?thesis using True b by simp
  next
    case False
    then have x: "x \<noteq> blank" "\<not> (9 \<le> x \<and> x \<le> 13)" using whole_hd [OF w, of blank] whole_facts(4) [OF w] c by auto
    have t: "title_char (x # xs @ concat cs) = (True, length c)" using whole_facts(2) [OF w, of "concat cs"] c by simp
    have len: "\<not> length result + (if space then 1 else 0) + length c \<ge> dest_title_cap" using Cons.prems(5) by (cases space) simp_all
    have "title_loop (concat (c # cs)) result space = title_loop (concat cs) ((if space then result @ [blank] else result) @ c) False"
    proof -
      have "\<not> (x = blank \<or> (9 \<le> x \<and> x \<le> 13))" using x by blast
      note nb = if_not_P [OF this] and nl = if_not_P [OF len]
      have e: "concat (c # cs) = x # (xs @ concat cs)" by (simp add: c)
      have "drop (length c) (x # (xs @ concat cs)) = concat cs" "take (length c) (x # (xs @ concat cs)) = c" by (simp_all add: c)
      then show ?thesis unfolding e title_loop.simps nb t prod.case nl by (simp only: if_True)
    qed
    also have "\<dots> = ((if space then result @ [blank] else result) @ c) @ concat cs"
      using Cons.IH [of "(if space then result @ [blank] else result) @ c" False] Cons.prems c by (auto simp: successively_Cons split: if_splits)
    finally show ?thesis by simp
  qed
qed simp

lemma title_fixpoint:
  assumes "title_chars cs" "\<not> reserved (concat cs)"
  shows "kui_destination_title (concat cs) = concat cs"
proof -
  have w: "\<forall>c\<in>set cs. whole c" "successively (\<lambda>a b. gap a b) cs" "cs \<noteq> []" "hd cs \<noteq> [blank]" "last cs \<noteq> [blank]" "\<not> edge (hd cs)" "\<not> edge (last cs)"
    "length (concat cs) < dest_title_cap" using assms(1) by (simp_all add: title_chars_def tidy_def)
  have tk: "take path_cap (concat cs) = concat cs" using w(8) by (intro take_all) simp
  have "title_loop (concat cs) [] False = concat cs" using title_loop_keeps [of cs "[]" False] w by simp
  moreover have "trim_end (concat cs) = concat cs"
  proof -
    have "dropWhile edge (rev cs) = rev cs" using w(3,7) by (cases cs rule: rev_cases) auto
    then show ?thesis by (simp add: trim_back [OF w(1)])
  qed
  moreover have "dropWhile (\<lambda>c. c = dot \<or> c = blank) (concat cs) = concat cs"
  proof -
    have "dropWhile edge cs = cs" using w(3,6) by (cases cs) auto
    then show ?thesis by (simp add: trim_front [OF w(1)])
  qed
  moreover have "\<not> (concat cs = [] \<or> reserved (concat cs) \<or> concat cs = [dot] \<or> concat cs = [dot, dot])"
    using title_chars_component [OF assms, unfolded component_def] assms(2) by blast
  ultimately show ?thesis unfolding kui_destination_title_def Let_def tk by (simp only: if_False)
qed

lemma default_title: "title_chars (map (\<lambda>c. [c]) (ascii ''DreamcastDisc''))" "\<not> reserved (ascii ''DreamcastDisc'')"
  by (simp_all add: title_chars_def tidy_def ascii_def whole_def utf8_def utf8_lead_def invalid_code_def reserved_def Let_def)

text \<open>C38. Whatever bytes a disc holds as its title, the sanitizer gives a title that is a safe name for the card (a FAT-safe component of
  valid UTF-8, no dot alias and no reserved device name), that fits its buffer, and that the sanitizer itself leaves alone, so that the
  folder helpers accept it.\<close>

theorem destination_title_safe:
  "valid_title (kui_destination_title title) \<and> kui_destination_name_valid (kui_destination_title title)
   \<and> kui_destination_title (kui_destination_title title) = kui_destination_title title"
proof -
  have "tidy []" by (simp add: tidy_def)
  then obtain rs where rs: "title_loop (take path_cap title) [] False = concat rs" "tidy rs" "length (concat rs) < dest_title_cap"
    using title_loop_tidy [of "[]" False "take path_cap title"] by auto
  let ?r = "dropWhile (\<lambda>c. c = dot \<or> c = blank) (trim_end (concat rs))"
  have t: "kui_destination_title title = (if ?r = [] \<or> reserved ?r \<or> ?r = [dot] \<or> ?r = [dot, dot] then ascii ''DreamcastDisc'' else ?r)"
    unfolding kui_destination_title_def Let_def rs(1) by (rule refl)
  have "\<exists>cs. kui_destination_title title = concat cs \<and> title_chars cs \<and> \<not> reserved (concat cs)"
  proof (cases "?r = [] \<or> reserved ?r \<or> ?r = [dot] \<or> ?r = [dot, dot]")
    case True
    then have "kui_destination_title title = concat (map (\<lambda>c. [c]) (ascii ''DreamcastDisc''))" unfolding t if_P [OF True] by simp
    then show ?thesis using default_title by (intro exI [of _ "map (\<lambda>c. [c]) (ascii ''DreamcastDisc'')"]) simp
  next
    case False
    then obtain ds where "?r = concat ds" "title_chars ds" using title_trimmed [OF rs(2,3)] by blast
    then show ?thesis using False unfolding t if_not_P [OF False] by auto
  qed
  then obtain cs where cs: "kui_destination_title title = concat cs" "title_chars cs" "\<not> reserved (concat cs)" by blast
  have "0 < length (concat cs)" "length (concat cs) < dest_title_cap" using title_chars_component [OF cs(2,3)] cs(2) by (auto simp: component_def title_chars_def)
  then show ?thesis unfolding cs(1) valid_title_def Let_def kui_destination_name_valid_def bounded_def
    using title_chars_component [OF cs(2,3)] title_fixpoint [OF cs(2,3)] by auto
qed

section \<open>Numbered folders\<close>

lemma digit_value: "d < 10 \<Longrightarrow> unat ((of_nat (0x30 + d) :: u8) - 0x30) = d \<and> \<not> ((of_nat (0x30 + d) :: u8) < 0x30 \<or> (of_nat (0x30 + d) :: u8) > 0x39)"
proof -
  assume d: "d < 10"
  then have u: "unat (of_nat (0x30 + d) :: u8) = 0x30 + d" by (simp add: unat_of_nat del: of_nat_add)
  have "unat ((of_nat (0x30 + d) :: u8) - 0x30) = d"
    using u by (subst unat_sub) (simp_all add: word_le_nat_alt del: of_nat_add)
  then show ?thesis using d u by (simp add: word_less_nat_alt del: of_nat_add)
qed

lemma index_digits_decimal: "n \<le> 9999 \<Longrightarrow> index_digits (decimal n @ rest) 0 = index_digits rest n"
proof (induction n arbitrary: rest rule: decimal.induct)
  case (1 n)
  have v: "unat ((of_nat (0x30 + n mod 10) :: u8) - 0x30) = n mod 10 \<and> \<not> ((of_nat (0x30 + n mod 10) :: u8) < 0x30 \<or> (of_nat (0x30 + n mod 10) :: u8) > 0x39)"
    by (rule digit_value) simp
  have step: "index_digits (of_nat (0x30 + n mod 10) # rest) (n div 10) = index_digits rest n"
    using v "1.prems" by (simp add: Let_def del: of_nat_add)
  show ?case
  proof (cases "n < 10")
    case True
    then show ?thesis using step by (simp add: decimal.simps [of n] del: of_nat_add)
  next
    case False
    then show ?thesis using "1.IH" [OF False, of "of_nat (0x30 + n mod 10) # rest"] "1.prems" step by (simp add: decimal.simps [of n] del: of_nat_add)
  qed
qed

lemma decimal_hd: "0 < n \<Longrightarrow> decimal n \<noteq> [] \<and> hd (decimal n) \<noteq> 0x30"
proof (induction n rule: decimal.induct)
  case (1 n)
  show ?case
  proof (cases "n < 10")
    case True
    then have "unat (of_nat (0x30 + n mod 10) :: u8) = 0x30 + n" by (simp add: unat_of_nat del: of_nat_add)
    moreover have "unat (0x30 :: u8) = 0x30" by simp
    ultimately have "(of_nat (0x30 + n mod 10) :: u8) \<noteq> 0x30" using "1.prems" by (metis add_cancel_left_right less_numeral_extra(3))
    then show ?thesis using True by (simp add: decimal.simps [of n] del: of_nat_add)
  next
    case False
    then show ?thesis using "1.IH" [OF False] by (simp add: decimal.simps [of n])
  qed
qed

lemma length_decimal: "n < 10 ^ k \<Longrightarrow> 0 < k \<Longrightarrow> length (decimal n) \<le> k"
proof (induction k arbitrary: n)
  case (Suc k)
  show ?case
  proof (cases "n < 10")
    case False
    then have "0 < k" using Suc.prems(1) by (cases k) auto
    moreover have "n div 10 < 10 ^ k" using Suc.prems(1) by (simp add: less_mult_imp_div_less mult.commute)
    ultimately show ?thesis using Suc.IH False by (simp add: decimal.simps [of n])
  qed (simp add: decimal.simps [of n])
qed simp

lemma decimal_digits: "c \<in> set (decimal n) \<Longrightarrow> 0x30 \<le> c \<and> c \<le> 0x39"
proof (induction n rule: decimal.induct)
  case (1 n)
  have "\<not> ((of_nat (0x30 + n mod 10) :: u8) < 0x30 \<or> (of_nat (0x30 + n mod 10) :: u8) > 0x39)" using digit_value [of "n mod 10"] by simp
  moreover have "c \<in> set ((if n < 10 then [] else decimal (n div 10)) @ [of_nat (0x30 + n mod 10)])"
    using "1.prems" unfolding decimal.simps [of n] .
  ultimately show ?case using "1.IH" by (auto simp: not_less simp del: of_nat_add split: if_splits)
qed

lemma codes_ok_ascii: "\<forall>c\<in>set s. 0x20 \<le> c \<and> c < 0x7f \<and> \<not> invalid_code (ucast c) \<Longrightarrow> codes_ok s"
proof (induction s)
  case (Cons c cs)
  then have c: "c < 0x7f" "\<not> invalid_code (ucast c)" by auto
  then have "c < 0x80" by (simp add: word_less_nat_alt)
  moreover have "ucast c \<le> (0x10ffff :: u32)" "\<not> 0xd800 \<le> (ucast c :: u32)"
    using c(1) by (simp_all add: word_le_nat_alt word_less_nat_alt unsigned_ucast_eq take_bit_nat_eq_self)
  ultimately have "utf8 (c # cs) = Some (1, ucast c)" by (simp add: utf8_def utf8_lead_def)
  then show ?case using c Cons by simp
qed simp

lemma codes_ok_append: "codes_ok s \<Longrightarrow> codes_ok t \<Longrightarrow> codes_ok (s @ t)"
proof (induction s rule: codes_ok.induct)
  case (2 c cs)
  then obtain n code where u: "utf8 (c # cs) = Some (n, code)" "\<not> invalid_code code" "codes_ok (drop n (c # cs))"
    by (auto split: option.splits prod.splits)
  have "n \<le> length (c # cs)" using utf8_length [OF u(1)] by blast
  then have "drop n ((c # cs) @ t) = drop n (c # cs) @ t" by (subst drop_append) simp
  moreover have "codes_ok (drop n (c # cs) @ t)" using "2.IH" [OF u(1) refl u(3) "2.prems"(2)] .
  ultimately show ?case using utf8_append [OF u(1), of t] u(2) by simp
qed simp

lemma numbered_component:
  assumes "component title"
  shows "component (numbered title i)"
proof -
  let ?t = "[blank, 0x28] @ decimal i @ [0x29]"
  have "codes_ok ?t"
  proof (rule codes_ok_ascii, rule ballI)
    fix c assume "c \<in> set ?t"
    then consider "c = blank" | "c = 0x28" | "c = 0x29" | "0x30 \<le> c" "c \<le> 0x39" using decimal_digits by auto
    then show "0x20 \<le> c \<and> c < 0x7f \<and> \<not> invalid_code (ucast c)"
    proof cases
      case 4
      then have n: "48 \<le> unat c" "unat c \<le> 57" by (simp_all add: word_le_nat_alt)
      have "take_bit 32 (unat c) = unat c" by (rule take_bit_nat_eq_self) (use n in simp)
      then have u: "unat (ucast c :: u32) = unat c" by (simp add: unsigned_ucast_eq)
      have "(ucast c :: u32) \<noteq> v" if "unat v < 48 \<or> 57 < unat v" for v using that u n by auto
      then have "(ucast c :: u32) \<notin> {0x3c, 0x3e, 0x3a, 0x5c, 0x7c, 0x3f, 0x2a, 0x2f, 0x22}" by simp
      then show ?thesis using n u by (simp add: invalid_code_def word_le_nat_alt word_less_nat_alt)
    qed (simp_all add: invalid_code_def)
  qed
  then have ok: "codes_ok (numbered title i)" using codes_ok_append assms by (simp add: numbered_def component_def)
  have nr: "\<not> reserved (numbered title i)"
  proof (cases "dot \<in> set title")
    case True
    then have "takeWhile (\<lambda>c. c \<noteq> dot) (numbered title i) = takeWhile (\<lambda>c. c \<noteq> dot) title"
      unfolding numbered_def by (intro takeWhile_append1) auto
    moreover have "length (takeWhile (\<lambda>c. c \<noteq> dot) title) < length title"
    proof -
      have "dropWhile (\<lambda>c. c \<noteq> dot) title \<noteq> []" using True by auto
      then have "0 < length (dropWhile (\<lambda>c. c \<noteq> dot) title)" by blast
      moreover have "length (takeWhile (\<lambda>c. c \<noteq> dot) title) + length (dropWhile (\<lambda>c. c \<noteq> dot) title) = length title"
        by (metis length_append takeWhile_dropWhile_id)
      ultimately show ?thesis by linarith
    qed
    moreover have "\<not> reserved title" using assms by (simp add: component_def)
    ultimately show ?thesis unfolding reserved_def Let_def numbered_def ascii_equal_def by (auto simp: nth_append)
  next
    case False
    have dec: "decimal i \<noteq> []" by (simp add: decimal.simps [of i])
    have "dot \<notin> set (numbered title i)" using False decimal_digits [of dot i] by (auto simp: numbered_def)
    then have tw: "takeWhile (\<lambda>c. c \<noteq> dot) (numbered title i) = numbered title i" by (auto simp: takeWhile_eq_all_conv)
    have "length (numbered title i) > 4" using assms dec by (cases title; cases "decimal i") (auto simp: numbered_def component_def)
    then show ?thesis unfolding reserved_def Let_def tw by simp
  qed
  have "last (numbered title i) = 0x29" "length (numbered title i) > 2" by (simp_all add: numbered_def)
  then show ?thesis using ok nr unfolding component_def by auto
qed

text \<open>C39. Every folder number from 1 to 9999 of an accepted title has a name that is safe for the card, and parsing that name against the
  title gives the number back, so that different numbers have different folders.\<close>

theorem destination_folder_roundtrip:
  assumes "valid_title title" and "1 \<le> i" and "i \<le> 9999"
  shows "\<exists>name. kui_destination_folder_name title i = Some name \<and> kui_destination_name_valid name
    \<and> kui_destination_folder_index name title = Some i"
proof -
  have t: "length title < dest_title_cap" "component title" using assms(1) by (auto simp: valid_title_def Let_def bounded_def)
  show ?thesis
  proof (cases "i = 1")
    case True
    then show ?thesis using assms t
      by (simp add: kui_destination_folder_name_def kui_destination_name_valid_def kui_destination_folder_index_def bounded_def ascii_equal_def Let_def)
  next
    case False
    let ?name = "numbered title i"
    have d: "length (decimal i) \<le> 4" using length_decimal [of i 4] assms(3) by simp
    have dh: "decimal i \<noteq> []" "hd (decimal i) \<noteq> 0x30" using decimal_hd assms(2) by auto
    then obtain x xs where dx: "decimal i = x # xs" by (cases "decimal i") auto
    have l: "length ?name = length title + 3 + length (decimal i)" by (simp add: numbered_def)
    have name: "kui_destination_folder_name title i = Some ?name"
      using assms False t d l by (simp add: kui_destination_folder_name_def Let_def)
    have valid: "kui_destination_name_valid ?name" using numbered_component [OF t(2)] t(1) d l by (simp add: kui_destination_name_valid_def bounded_def)
    have w: "window ?name (length title + 2) (length ?name - 1 - (length title + 2)) = decimal i" unfolding l by (simp add: numbered_def window_def)
    have b: "bounded ?name dest_name_cap = length ?name" "length ?name \<noteq> dest_name_cap" using t(1) d l by (simp_all add: bounded_def)
    have i: "index_digits (decimal i) 0 = Some i" using index_digits_decimal [OF assms(3), of "[]"] by simp
    have n: "?name ! length title = blank" "?name ! (length title + 1) = 0x28" "?name ! (length title + 2) \<noteq> 0x30" "?name ! (length ?name - 1) = 0x29"
      using dh unfolding l by (simp_all add: numbered_def nth_append dx)
    have a: "ascii_equal ?name title (length title)" by (simp add: ascii_equal_def numbered_def)
    have "kui_destination_folder_index ?name title = Some i"
      unfolding kui_destination_folder_index_def Let_def b(1) using assms False b(2) n a w i l dx by simp
    then show ?thesis using name valid by blast
  qed
qed

lemma sample_title: "valid_title (ascii ''Power Stone'')"
  using title_fixpoint [of "map (\<lambda>c. [c]) (ascii ''Power Stone'')"] title_chars_component [of "map (\<lambda>c. [c]) (ascii ''Power Stone'')"]
  by (simp add: valid_title_def Let_def bounded_def title_chars_def tidy_def ascii_def whole_def utf8_def utf8_lead_def invalid_code_def reserved_def)

theorem destination_folder_roundtrip_witness:
  "\<exists>name. kui_destination_folder_name (ascii ''Power Stone'') 12 = Some name \<and> kui_destination_folder_index name (ascii ''Power Stone'') = Some 12"
  using destination_folder_roundtrip [OF sample_title, of 12] by auto

end
