(* ===== verification/File_Paths.thy ===== *)
theory File_Paths
  imports Card_Paths
begin

text \<open>
  The paths of the file browser (src/core/files\_path.c), shared by the FTP and the HTTP server: validity, joining and splitting,
  containment, the files that must not be deleted, numbered copies, kinds, the order of listings and the texts of sizes and dates.
\<close>

unbundle bit_operations_syntax

section \<open>Operations\<close>

definition same_letters :: "bytes \<Rightarrow> bytes \<Rightarrow> nat \<Rightarrow> bool" where
  "same_letters a b n = (map lower (take n a) = map lower (take n b))"

definition ends_with :: "bytes \<Rightarrow> bytes \<Rightarrow> bool" where
  "ends_with name suffix =
     (let n = length name; m = length suffix in n > m \<and> same_letters (drop (n - m) name) suffix m)"

text \<open>The loop over the components, at the text after a slash.\<close>

lemma dropWhile_tl_shorter: "dropWhile P xs \<noteq> [] \<Longrightarrow> length (tl (dropWhile P xs)) < length xs"
  using length_dropWhile_le [of P xs] by (cases "dropWhile P xs") auto

function path_loop :: "bytes \<Rightarrow> bool" where
  "path_loop at =
     (let name = takeWhile (\<lambda>c. c \<noteq> slash) at; rest = dropWhile (\<lambda>c. c \<noteq> slash) at in
      if name = [] \<or> length name \<ge> dest_name_cap then False
      else if \<not> kui_destination_name_valid name then False
      else if rest = [] then True
      else path_loop (tl rest))"
  by pat_completeness auto

termination
  by (relation "measure length") (simp_all add: dropWhile_tl_shorter del: length_tl)

declare path_loop.simps [simp del]

definition kui_files_path_valid :: "bytes \<Rightarrow> bool" where
  "kui_files_path_valid path =
     (let n = bounded path path_cap in
      if n = 0 \<or> n = path_cap \<or> hd path \<noteq> slash then False else if n = 1 then True else path_loop (tl path))"

definition kui_files_join :: "bytes \<Rightarrow> bytes \<Rightarrow> bytes option" where
  "kui_files_join folder name =
     (if \<not> kui_files_path_valid folder \<or> \<not> kui_destination_name_valid name then None
      else let joined = folder @ (if length folder > 1 then [slash] else []) @ name in
        if length joined \<ge> path_cap then None else Some joined)"

definition kui_files_parent :: "bytes \<Rightarrow> bytes option" where
  "kui_files_parent path =
     (if \<not> kui_files_path_valid path then None
      else Some (if before_slash path = [] then take 1 path else before_slash path))"

definition kui_files_leaf :: "bytes \<Rightarrow> bytes" where
  "kui_files_leaf path = rev (takeWhile (\<lambda>c. c \<noteq> slash) (rev path))"

definition kui_files_within :: "bytes \<Rightarrow> bytes \<Rightarrow> bool" where
  "kui_files_within path folder =
     (if \<not> kui_files_path_valid path \<or> \<not> kui_files_path_valid folder then False
      else if length folder = 1 then True
      else let n = length folder in length path \<ge> n \<and> same_letters path folder n \<and> (length path = n \<or> path ! n = slash))"

definition needed_paths :: "bytes list" where
  "needed_paths = [ascii ''/KUI/runtime.kui'', ascii ''/KUI/apps/games/retail-boot.kui'']"

definition kui_files_protected :: "bytes \<Rightarrow> bool" where
  "kui_files_protected path = list_ex (\<lambda>needed. kui_files_within needed path) needed_paths"

text \<open>The position of the last dot, if there is one.\<close>

definition last_dot :: "bytes \<Rightarrow> nat option" where
  "last_dot name = (if dot \<in> set name then Some (length name - 1 - length (takeWhile (\<lambda>c. c \<noteq> dot) (rev name))) else None)"

definition kui_files_numbered :: "bytes \<Rightarrow> bool \<Rightarrow> nat \<Rightarrow> bytes option" where
  "kui_files_numbered name directory number =
     (if \<not> kui_destination_name_valid name \<or> number < 2 then None
      else let split = (if directory then None else last_dot name);
               split = (if split = Some 0 then None else split);
               stem = (case split of None \<Rightarrow> length name | Some n \<Rightarrow> n);
               result = numbered (take stem name) number @ (case split of None \<Rightarrow> [] | Some n \<Rightarrow> drop n name)
           in if length result \<ge> dest_name_cap \<or> \<not> kui_destination_name_valid result then None else Some result)"

definition kui_files_part_name :: "bytes \<Rightarrow> bool" where
  "kui_files_part_name name = ends_with name (ascii ''.kui-part'')"

datatype files_kind = Kind_Folder | Kind_Gdi | Kind_Audio | Kind_Picture | Kind_Other

definition kui_files_kind :: "bytes \<Rightarrow> bool \<Rightarrow> files_kind" where
  "kui_files_kind name directory =
     (if directory then Kind_Folder
      else if ends_with name (ascii ''.gdi'') then Kind_Gdi
      else if ends_with name (ascii ''.wav'') \<or> ends_with name (ascii ''.ogg'') then Kind_Audio
      else if ends_with name (ascii ''.png'') \<or> ends_with name (ascii ''.jpg'') \<or> ends_with name (ascii ''.jpeg'')
        \<or> ends_with name (ascii ''.pvr'') \<or> ends_with name (ascii ''.bmp'') then Kind_Picture
      else Kind_Other)"

text \<open>\<open>strcmp\<close>, of which only the sign is used, and the loop that compares folded letters up to the NUL of both names.\<close>

fun strcmp_sign :: "bytes \<Rightarrow> bytes \<Rightarrow> int" where
  "strcmp_sign [] [] = 0"
| "strcmp_sign [] (y # ys) = -1"
| "strcmp_sign (x # xs) [] = 1"
| "strcmp_sign (x # xs) (y # ys) = (if x < y then -1 else if y < x then 1 else strcmp_sign xs ys)"

fun letter_order :: "bytes \<Rightarrow> bytes \<Rightarrow> int" where
  "letter_order [] [] = 0"
| "letter_order [] (y # ys) = -1"
| "letter_order (x # xs) [] = 1"
| "letter_order (x # xs) (y # ys) = (if lower x \<noteq> lower y then (if lower x < lower y then -1 else 1) else letter_order xs ys)"

definition kui_files_compare :: "bool \<Rightarrow> bytes \<Rightarrow> bool \<Rightarrow> bytes \<Rightarrow> int" where
  "kui_files_compare a_directory a b_directory b =
     (if a_directory \<noteq> b_directory then (if a_directory then -1 else 1)
      else if letter_order a b \<noteq> 0 then letter_order a b
      else strcmp_sign a b)"

text \<open>The scale of a size: powers of 1024 up to the largest unit.\<close>

fun size_scale :: "nat \<Rightarrow> nat \<Rightarrow> nat \<Rightarrow> nat \<Rightarrow> nat \<times> nat" where
  "size_scale bytes 0 unit scale = (unit, scale)"
| "size_scale bytes (Suc left) unit scale =
     (if bytes div scale \<ge> 1024 then size_scale bytes left (unit + 1) (scale * 1024) else (unit, scale))"

definition size_units :: "bytes list" where
  "size_units = [ascii ''B'', ascii ''KB'', ascii ''MB'', ascii ''GB'', ascii ''TB'']"

definition kui_files_size_text :: "u64 \<Rightarrow> bytes" where
  "kui_files_size_text bytes64 =
     (let bytes = unat bytes64 in
      if bytes < 1024 then decimal bytes @ ascii '' B''
      else case size_scale bytes 4 0 1 of (unit, scale) \<Rightarrow>
        let tenths = bytes div scale * 10 + ((bytes mod scale) * 10 + scale div 2) div scale in
        if tenths < 1000 then decimal (tenths div 10) @ [dot] @ decimal (tenths mod 10) @ [blank] @ size_units ! unit
        else decimal ((tenths + 5) div 10) @ [blank] @ size_units ! unit)"

text \<open>A number padded with zeros, as \<open>%04u\<close> and \<open>%02u\<close> print it.\<close>

definition padded :: "nat \<Rightarrow> nat \<Rightarrow> bytes" where
  "padded width n = replicate (width - length (decimal n)) 0x30 @ decimal n"

definition kui_files_date_text :: "u16 \<Rightarrow> u16 \<Rightarrow> bytes" where
  "kui_files_date_text date time =
     (let year = 1980 + unat (drop_bit 9 date); month = unat (drop_bit 5 date AND 15); day = unat (date AND 31);
          hour = unat (drop_bit 11 time); minute = unat (drop_bit 5 time AND 63)
      in if date = 0 \<or> month < 1 \<or> month > 12 \<or> day < 1 \<or> hour > 23 \<or> minute > 59 then ascii ''No date''
         else padded 4 year @ [0x2d] @ padded 2 month @ [0x2d] @ padded 2 day @ [blank] @ padded 2 hour @ [0x3a] @ padded 2 minute)"

section \<open>Valid paths are lists of names\<close>

definition names_valid :: "bytes list \<Rightarrow> bool" where
  "names_valid ps = list_all kui_destination_name_valid ps"

lemma name_valid_facts:
  assumes "kui_destination_name_valid p"
  shows "component p" "length p < dest_name_cap" "p \<noteq> []" "slash \<notin> set p" "p \<noteq> [dot]" "p \<noteq> [dot, dot]"
proof -
  show c: "component p" "length p < dest_name_cap" using assms by (auto simp: kui_destination_name_valid_def bounded_def)
  show "slash \<notin> set p" by (rule component_bytes(2) [OF c(1)])
  show "p \<noteq> []" "p \<noteq> [dot]" "p \<noteq> [dot, dot]" using component_facts [OF c(1)] by simp_all
qed

lemma names_valid_ok: "names_valid ps \<Longrightarrow> names_ok ps"
  by (auto simp: names_valid_def names_ok_def list_all_iff name_valid_facts)

lemma cut_name:
  assumes "slash \<notin> set q"
  shows "takeWhile (\<lambda>c. c \<noteq> slash) (q @ concat (map ((#) slash) qs)) = q"
    "dropWhile (\<lambda>c. c \<noteq> slash) (q @ concat (map ((#) slash) qs)) = concat (map ((#) slash) qs)"
proof -
  let ?r = "concat (map ((#) slash) qs)"
  have "takeWhile (\<lambda>c. c \<noteq> slash) (q @ ?r) = q @ takeWhile (\<lambda>c. c \<noteq> slash) ?r" using assms by (intro takeWhile_append2) auto
  moreover have "dropWhile (\<lambda>c. c \<noteq> slash) (q @ ?r) = dropWhile (\<lambda>c. c \<noteq> slash) ?r" using assms by (intro dropWhile_append2) auto
  ultimately show "takeWhile (\<lambda>c. c \<noteq> slash) (q @ ?r) = q" "dropWhile (\<lambda>c. c \<noteq> slash) (q @ ?r) = ?r" by (cases qs; simp)+
qed

lemma path_loop_names: "names_valid (q # qs) \<Longrightarrow> path_loop (q @ concat (map ((#) slash) qs))"
proof (induction qs arbitrary: q)
  case Nil
  then have q: "kui_destination_name_valid q" by (simp add: names_valid_def)
  note f = name_valid_facts [OF q] and c = cut_name [OF name_valid_facts(4) [OF q], of "[]"]
  show ?case unfolding path_loop.simps [of "q @ _"] Let_def c using q f by simp
next
  case (Cons p ps)
  then have q: "kui_destination_name_valid q" by (simp add: names_valid_def)
  note f = name_valid_facts [OF q] and c = cut_name [OF name_valid_facts(4) [OF q], of "p # ps"]
  have "path_loop (tl (concat (map ((#) slash) (p # ps))))" using Cons by (simp add: names_valid_def)
  then show ?case unfolding path_loop.simps [of "q @ _"] Let_def c using q f by simp
qed

lemma path_loop_sound: "path_loop at \<Longrightarrow> \<exists>q qs. at = q @ concat (map ((#) slash) qs) \<and> names_valid (q # qs)"
proof (induction at rule: path_loop.induct)
  case (1 at)
  let ?n = "takeWhile (\<lambda>c. c \<noteq> slash) at" and ?r = "dropWhile (\<lambda>c. c \<noteq> slash) at"
  have s: "\<not> (?n = [] \<or> length ?n \<ge> dest_name_cap)" "\<not> \<not> kui_destination_name_valid ?n"
    using "1.prems" unfolding path_loop.simps [of at] Let_def by (auto split: if_splits)
  show ?case
  proof (cases "?r = []")
    case True
    then have "at = ?n @ concat (map ((#) slash) [])" by (metis append_Nil2 concat.simps(1) list.simps(8) takeWhile_dropWhile_id)
    then show ?thesis using s(2) by (intro exI [of _ ?n] exI [of _ "[]"]) (simp add: names_valid_def)
  next
    case False
    have "path_loop (tl ?r)" using "1.prems" s False unfolding path_loop.simps [of at] Let_def by (simp split: if_splits)
    then obtain q qs where q: "tl ?r = q @ concat (map ((#) slash) qs)" "names_valid (q # qs)"
      using "1.IH" [OF refl refl s False] by blast
    have "hd ?r = slash" using hd_dropWhile [of "\<lambda>c. c \<noteq> slash" at] False by simp
    then have "?r = slash # tl ?r" using False by (metis list.collapse)
    then have "at = ?n @ concat (map ((#) slash) (q # qs))" using q(1) by (metis append_Cons concat.simps(2) list.simps(9) takeWhile_dropWhile_id)
    then show ?thesis using s(2) q(2) by (intro exI [of _ ?n] exI [of _ "q # qs"]) (simp add: names_valid_def)
  qed
qed

lemma render_Cons: "render (q # qs) = slash # q @ concat (map ((#) slash) qs)"
  by (simp add: render_def)

lemma path_valid_render: "names_valid ps \<Longrightarrow> length (render ps) < path_cap \<Longrightarrow> kui_files_path_valid (render ps)"
  using path_loop_names by (cases ps) (auto simp: kui_files_path_valid_def bounded_def Let_def render_Cons render_def [of "[]"])

lemma path_valid_iff: "kui_files_path_valid path \<longleftrightarrow> (\<exists>ps. path = render ps \<and> names_valid ps \<and> length path < path_cap)"
proof
  assume v: "kui_files_path_valid path"
  then have l: "length path < path_cap" "path \<noteq> []" "hd path = slash" by (auto simp: kui_files_path_valid_def bounded_def Let_def split: if_splits)
  then obtain at where p: "path = slash # at" by (cases path) auto
  show "\<exists>ps. path = render ps \<and> names_valid ps \<and> length path < path_cap"
  proof (cases "at = []")
    case True
    then show ?thesis using p l by (intro exI [of _ "[]"]) (simp add: render_def names_valid_def)
  next
    case False
    then have "path_loop at" using v p l by (simp add: kui_files_path_valid_def bounded_def Let_def split: if_splits)
    then show ?thesis using path_loop_sound p l render_Cons by metis
  qed
next
  assume "\<exists>ps. path = render ps \<and> names_valid ps \<and> length path < path_cap"
  then show "kui_files_path_valid path" using path_valid_render by blast
qed

lemma names_ne: "names_valid ps \<Longrightarrow> \<forall>p\<in>set ps. p \<noteq> []"
  using name_valid_facts(3) by (auto simp: names_valid_def list_all_iff)

lemma length_render_gt: "names_valid ps \<Longrightarrow> length (render ps) > 1 \<longleftrightarrow> ps \<noteq> []"
  using names_ne by (cases ps) (auto simp: render_def)

lemma cut_last_slash:
  assumes "slash \<notin> set q"
  shows "dropWhile (\<lambda>c. c \<noteq> slash) (rev (xs @ slash # q)) = slash # rev xs" "takeWhile (\<lambda>c. c \<noteq> slash) (rev (xs @ slash # q)) = rev q"
  using assms by (auto simp: takeWhile_append dropWhile_append)

lemma before_slash_snoc: "slash \<notin> set q \<Longrightarrow> before_slash (xs @ slash # q) = xs"
  unfolding before_slash_def using cut_last_slash(1) by simp

lemma leaf_snoc: "slash \<notin> set q \<Longrightarrow> kui_files_leaf (xs @ slash # q) = q"
  unfolding kui_files_leaf_def using cut_last_slash(2) by simp

lemma render_snoc_slash: "render (ps @ [q]) = (if ps = [] then [] else render ps) @ slash # q"
  by (simp add: render_def)

lemma cut_render:
  assumes "names_valid ps"
  shows "(if before_slash (render ps) = [] then take 1 (render ps) else before_slash (render ps)) = render (butlast ps)"
proof (cases ps rule: rev_cases)
  case Nil
  then show ?thesis by (simp add: render_def before_slash_def)
next
  case (snoc qs q)
  have q: "slash \<notin> set q" using assms snoc name_valid_facts(4) by (auto simp: names_valid_def)
  have b: "before_slash (render ps) = (if qs = [] then [] else render qs)" unfolding snoc render_snoc_slash using before_slash_snoc [OF q] by simp
  have ne: "render qs \<noteq> []" by (cases qs) (simp_all add: render_def)
  show ?thesis
  proof (cases "qs = []")
    case True
    then show ?thesis unfolding b unfolding snoc by (simp add: render_def)
  next
    case False
    then have "before_slash (render ps) = render qs" unfolding b by simp
    then show ?thesis using ne snoc by simp
  qed
qed

text \<open>Joining a name to a folder is undone by the parent and the leaf, and stays inside the folder.\<close>

lemma files_join_inverse:
  assumes "kui_files_join folder name = Some path"
  shows "kui_files_path_valid path \<and> kui_files_parent path = Some folder \<and> kui_files_leaf path = name \<and> kui_files_within path folder"
proof -
  have v: "kui_files_path_valid folder" "kui_destination_name_valid name" and l: "length path < path_cap"
    and p: "path = folder @ (if length folder > 1 then [slash] else []) @ name"
    using assms by (auto simp: kui_files_join_def Let_def split: if_splits)
  obtain ps where ps: "folder = render ps" "names_valid ps" using v(1) path_valid_iff by blast
  have path: "path = render (ps @ [name])" using p length_render_gt [OF ps(2)] unfolding ps(1) by (auto simp: render_def)
  have nv: "names_valid (ps @ [name])" using ps(2) v(2) by (simp add: names_valid_def)
  have pv: "kui_files_path_valid path" using path_valid_render [OF nv] l path by simp
  have "kui_files_parent path = Some folder" using cut_render [OF nv] pv by (simp add: kui_files_parent_def path ps(1))
  moreover have "kui_files_leaf path = name" unfolding path render_snoc_slash using name_valid_facts(4) [OF v(2)] by (rule leaf_snoc)
  moreover have "kui_files_within path folder"
  proof (cases "ps = []")
    case True
    then show ?thesis using pv v(1) ps(1) by (simp add: kui_files_within_def render_def)
  next
    case False
    then show ?thesis using pv v(1) length_render_gt [OF ps(2)] path ps(1)
      by (simp add: kui_files_within_def same_letters_def render_snoc_slash nth_append)
  qed
  ultimately show ?thesis using pv by blast
qed

end
