(* ===== verification/Ftp_Protocol.thy ===== *)
theory Ftp_Protocol
  imports File_Paths
begin

text \<open>
  The protocol pieces of the FTP server (src/core/ftp\_protocol.c): commands, the resolution of a path against the working folder,
  options and patterns of listings, the wildcard matcher, the addresses of PORT and EPRT, and the lines of LIST and MLSD.
\<close>

unbundle bit_operations_syntax

section \<open>Operations\<close>

definition letter :: "u8 \<Rightarrow> bool" where
  "letter c = ((0x41 \<le> c \<and> c \<le> 0x5a) \<or> (0x61 \<le> c \<and> c \<le> 0x7a))"

definition upper :: "u8 \<Rightarrow> u8" where
  "upper c = (if c \<ge> 0x61 then c - 32 else c)"

definition kui_ftp_parse :: "bytes \<Rightarrow> (bytes \<times> bytes) option" where
  "kui_ftp_parse line =
     (let verb = takeWhile (\<lambda>c. c \<noteq> blank) line; rest = dropWhile (\<lambda>c. c \<noteq> blank) line in
      if length verb > 7 \<or> \<not> list_all letter verb then None
      else if verb = [] then None
      else Some (map upper verb, tl rest))"

text \<open>The loop over the words of a path argument; \<open>..\<close> cuts the last name off.\<close>

definition cut_last :: "bytes \<Rightarrow> bytes" where
  "cut_last result = (if before_slash result = [] then take 1 result else before_slash result)"

lemma next_part_progress: "(part, rest) = next_part at \<Longrightarrow> part \<noteq> [] \<Longrightarrow> length rest < length at"
  using next_part_shorter [of at part rest] by (cases "at = []") (auto simp: next_part_def)

function resolve_loop :: "bytes \<Rightarrow> bytes \<Rightarrow> bytes option" where
  "resolve_loop at result =
     (case next_part at of (part, rest) \<Rightarrow>
      if part = [] then Some result
      else if part = [dot] then resolve_loop rest result
      else if part = [dot, dot] then resolve_loop rest (cut_last result)
      else if length part \<ge> dest_name_cap then None
      else if \<not> kui_destination_name_valid part then None
      else if length result + (if length result > 1 then 1 else 0) + length part \<ge> path_cap then None
      else resolve_loop rest (add_part result part))"
  by pat_completeness auto

termination
  by (relation "measure (\<lambda>(at, result). length at)") (simp_all add: next_part_progress)

declare resolve_loop.simps [simp del]

definition kui_ftp_resolve :: "bytes \<Rightarrow> bytes \<Rightarrow> bytes option" where
  "kui_ftp_resolve folder argument =
     (if \<not> kui_files_path_valid folder then None
      else case resolve_loop argument (if argument \<noteq> [] \<and> hd argument = slash then [slash] else folder) of None \<Rightarrow> None
      | Some result \<Rightarrow> if kui_files_path_valid result then Some result else None)"

function kui_ftp_list_path :: "bytes \<Rightarrow> bytes" where
  "kui_ftp_list_path argument =
     (if argument \<noteq> [] \<and> hd argument = 0x2d then
        let rest = dropWhile (\<lambda>c. c \<noteq> blank) argument in
        if rest = [] then [] else kui_ftp_list_path (dropWhile (\<lambda>c. c = blank) (tl rest))
      else argument)"
  by pat_completeness auto
termination
proof (relation "measure length")
  fix argument rest :: bytes
  assume "rest = dropWhile (\<lambda>c. c \<noteq> blank) argument" "rest \<noteq> []"
  then have "length (tl rest) < length argument" using dropWhile_tl_shorter by blast
  moreover have "length (dropWhile (\<lambda>c. c = blank) (tl rest)) \<le> length (tl rest)" by (rule length_dropWhile_le)
  ultimately show "(dropWhile (\<lambda>c. c = blank) (tl rest), argument) \<in> measure length" by simp
qed simp

declare kui_ftp_list_path.simps [simp del]

abbreviation (input) ftp_line_cap :: nat where "ftp_line_cap \<equiv> 512"

definition kui_ftp_split_pattern :: "bytes \<Rightarrow> (bytes \<times> bytes) option" where
  "kui_ftp_split_pattern path =
     (let leaf = kui_files_leaf path; before = length path - length leaf in
      if \<not> list_ex (\<lambda>c. c = 0x2a \<or> c = 0x3f) leaf \<or> length leaf \<ge> dest_name_cap \<or> before \<ge> ftp_line_cap then None
      else Some (take before path, leaf))"

text \<open>
  The matcher walks the pattern and the name once and falls back to the last star; \<open>star\<close> holds the pattern after that star and the
  text where it was last resumed.
\<close>

partial_function (option) glob_loop :: "bytes \<Rightarrow> bytes \<Rightarrow> (bytes \<times> bytes) option \<Rightarrow> bool option" where
  "glob_loop pattern name star =
     (case name of [] \<Rightarrow> Some (dropWhile (\<lambda>c. c = 0x2a) pattern = [])
      | c # rest \<Rightarrow>
        if pattern \<noteq> [] \<and> hd pattern = 0x2a then glob_loop (tl pattern) name (Some (tl pattern, name))
        else if pattern \<noteq> [] \<and> (hd pattern = 0x3f \<or> lower (hd pattern) = lower c) then glob_loop (tl pattern) rest star
        else (case star of Some (after, resume) \<Rightarrow> glob_loop after (tl resume) (Some (after, tl resume)) | None \<Rightarrow> Some False))"

definition kui_ftp_glob :: "bytes \<Rightarrow> bytes \<Rightarrow> bool option" where
  "kui_ftp_glob pattern name = glob_loop pattern name None"

text \<open>Addresses.\<close>

fun number_loop :: "nat \<Rightarrow> bytes \<Rightarrow> nat \<Rightarrow> nat \<Rightarrow> (nat \<times> nat \<times> bytes) option" where
  "number_loop limit [] n digits = Some (n, digits, [])"
| "number_loop limit (c # cs) n digits =
     (if 0x30 \<le> c \<and> c \<le> 0x39 then
        let n = n * 10 + unat (c - 0x30); digits = digits + 1 in
        if digits > 5 \<or> n > limit then None else number_loop limit cs n digits
      else Some (n, digits, c # cs))"

definition ftp_number :: "nat \<Rightarrow> bytes \<Rightarrow> (nat \<times> bytes) option" where
  "ftp_number limit at =
     (case number_loop limit at 0 0 of None \<Rightarrow> None | Some (n, digits, rest) \<Rightarrow> if digits > 0 then Some (n, rest) else None)"

text \<open>A number, then the byte that must follow it.\<close>

definition number_then :: "nat \<Rightarrow> u8 \<Rightarrow> bytes \<Rightarrow> (nat \<times> bytes) option" where
  "number_then limit follow at =
     (case ftp_number limit at of None \<Rightarrow> None
      | Some (n, rest) \<Rightarrow> if rest \<noteq> [] \<and> hd rest = follow then Some (n, tl rest) else None)"

fun port_numbers :: "nat \<Rightarrow> bytes \<Rightarrow> (nat list \<times> bytes) option" where
  "port_numbers 0 at = Some ([], at)"
| "port_numbers (Suc k) at =
     (case (if k = 0 then ftp_number 255 at else number_then 255 0x2c at) of None \<Rightarrow> None
      | Some (n, at) \<Rightarrow> (case port_numbers k at of None \<Rightarrow> None | Some (ns, at) \<Rightarrow> Some (n # ns, at)))"

definition kui_ftp_parse_port :: "bytes \<Rightarrow> (bytes \<times> u16) option" where
  "kui_ftp_parse_port argument =
     (case port_numbers 6 argument of None \<Rightarrow> None
      | Some (v, at) \<Rightarrow>
        if at \<noteq> [] then None
        else Some (map of_nat (take 4 v), push_bit 8 (of_nat (v ! 4)) OR of_nat (v ! 5)))"

datatype eprt_result = Eprt_Bad | Eprt_Ipv6 | Eprt bytes u16

fun eprt_address :: "nat \<Rightarrow> u8 \<Rightarrow> bytes \<Rightarrow> (nat list \<times> bytes) option" where
  "eprt_address 0 d at = Some ([], at)"
| "eprt_address (Suc k) d at =
     (case number_then 255 (if k > 0 then dot else d) at of None \<Rightarrow> None
      | Some (n, at) \<Rightarrow> (case eprt_address k d at of None \<Rightarrow> None | Some (ns, at) \<Rightarrow> Some (n # ns, at)))"

definition kui_ftp_parse_eprt :: "bytes \<Rightarrow> eprt_result" where
  "kui_ftp_parse_eprt argument =
     (if argument = [] then Eprt_Bad
      else let d = hd argument in
        if d < 33 \<or> d > 126 \<or> (0x30 \<le> d \<and> d \<le> 0x39) then Eprt_Bad
        else case number_then 2 d (tl argument) of None \<Rightarrow> Eprt_Bad
        | Some (family, at) \<Rightarrow>
          if family = 0 then Eprt_Bad
          else if family = 2 then Eprt_Ipv6
          else case eprt_address 4 d at of None \<Rightarrow> Eprt_Bad
          | Some (ip, at) \<Rightarrow>
            (case number_then 65535 d at of None \<Rightarrow> Eprt_Bad
             | Some (port, at) \<Rightarrow> if at \<noteq> [] \<or> port = 0 then Eprt_Bad else Eprt (map of_nat ip) (of_nat port)))"

text \<open>Dates and listing lines.\<close>

definition date_parts :: "u16 \<Rightarrow> u16 \<Rightarrow> nat list \<times> bool" where
  "date_parts date time =
     (let part = [1980 + unat (drop_bit 9 date), unat (drop_bit 5 date AND 15), unat (date AND 31),
                  unat (drop_bit 11 time), unat (drop_bit 5 time AND 63), unat (time AND 31) * 2]
      in (part, date \<noteq> 0 \<and> part ! 1 \<ge> 1 \<and> part ! 1 \<le> 12 \<and> part ! 2 \<ge> 1 \<and> part ! 3 < 24 \<and> part ! 4 < 60 \<and> part ! 5 < 60))"

definition kui_ftp_timestamp :: "u16 \<Rightarrow> u16 \<Rightarrow> bytes \<times> bool" where
  "kui_ftp_timestamp date time =
     (case date_parts date time of (p, valid) \<Rightarrow>
      let p = (if valid then p else [1980, 1, 1, 0, 0, 0]) in
      (padded 4 (p ! 0 mod 10000) @ padded 2 (p ! 1 mod 100) @ padded 2 (p ! 2 mod 100)
         @ padded 2 (p ! 3 mod 100) @ padded 2 (p ! 4 mod 100) @ padded 2 (p ! 5 mod 100), valid))"

definition spaced :: "nat \<Rightarrow> bytes \<Rightarrow> bytes" where
  "spaced width s = replicate (width - length s) blank @ s"

definition month_names :: "bytes list" where
  "month_names = map ascii [''Jan'', ''Feb'', ''Mar'', ''Apr'', ''May'', ''Jun'', ''Jul'', ''Aug'', ''Sep'', ''Oct'', ''Nov'', ''Dec'']"

definition kui_ftp_list_line :: "nat \<Rightarrow> bytes \<Rightarrow> u64 \<Rightarrow> u16 \<Rightarrow> u16 \<Rightarrow> bool \<Rightarrow> bool \<Rightarrow> u16 \<Rightarrow> bytes option" where
  "kui_ftp_list_line cap name bytes64 date time directory read_only today =
     (if name = [] then None
      else case date_parts date time of (p, valid) \<Rightarrow>
        let p = (if valid then p else [1980, 1, 1, 0, 0, p ! 5]);
            moment = (if p ! 0 = 1980 + unat (drop_bit 9 today) then padded 2 (p ! 3 mod 100) @ [0x3a] @ padded 2 (p ! 4 mod 100)
                      else [blank] @ padded 4 (p ! 0 mod 10000));
            mode = (if directory then (if read_only then ascii ''dr-xr-xr-x'' else ascii ''drwxr-xr-x'')
                    else (if read_only then ascii ''-r--r--r--'' else ascii ''-rw-r--r--''));
            line = mode @ ascii '' 1 kui kui '' @ spaced 13 (decimal (if directory then 0 else unat bytes64)) @ [blank]
              @ month_names ! (p ! 1 - 1) @ [blank] @ spaced 2 (decimal (p ! 2)) @ [blank] @ spaced 5 moment @ [blank] @ name @ [13, 10]
        in if length line < cap then Some line else None)"

definition kui_ftp_mlsd_line :: "nat \<Rightarrow> bytes \<Rightarrow> u64 \<Rightarrow> u16 \<Rightarrow> u16 \<Rightarrow> bool \<Rightarrow> bytes option" where
  "kui_ftp_mlsd_line cap name bytes64 date time directory =
     (if name = [] then None
      else let modify = fst (kui_ftp_timestamp date time);
               line = (if directory then ascii ''type=dir;modify='' @ modify @ ascii ''; '' @ name @ [13, 10]
                       else ascii ''type=file;size='' @ decimal (unat bytes64) @ ascii '';modify='' @ modify @ ascii ''; '' @ name @ [13, 10])
           in if length line < cap then Some line else None)"

section \<open>Resolving a path is walking down and up a list of names\<close>

text \<open>One step of the abstract walk: \<open>..\<close> leaves the last folder and stays at the root; any other name is entered if it is safe for the card
  and the path stays within the limit.\<close>

definition cd_step :: "bytes \<Rightarrow> bytes list option \<Rightarrow> bytes list option" where
  "cd_step part state =
     (case state of None \<Rightarrow> None
      | Some ps \<Rightarrow>
        if part = [dot, dot] then Some (butlast ps)
        else if kui_destination_name_valid part \<and> length (render (ps @ [part])) < path_cap then Some (ps @ [part])
        else None)"

lemma fold_cd_None: "fold cd_step parts None = None"
  by (induction parts) (simp_all add: cd_step_def)

lemma names_valid_butlast: "names_valid ps \<Longrightarrow> names_valid (butlast ps)"
  by (auto simp: names_valid_def list_all_iff dest: in_set_butlastD)

lemma length_render_butlast: "names_valid ps \<Longrightarrow> length (render (butlast ps)) \<le> length (render ps)"
proof (cases ps rule: rev_cases)
  case (snoc qs q)
  assume "names_valid ps"
  then have "q \<noteq> []" using snoc name_valid_facts(3) by (auto simp: names_valid_def)
  then show ?thesis unfolding snoc render_snoc_slash by (cases "qs = []") (auto simp: render_def)
qed simp

lemma next_part_empty: "next_part at = ([], rest) \<Longrightarrow> path_parts at = []"
proof -
  assume n: "next_part at = ([], rest)"
  have "dropWhile (\<lambda>c. c = slash) at = []"
  proof (rule ccontr)
    assume d: "dropWhile (\<lambda>c. c = slash) at \<noteq> []"
    then have "hd (dropWhile (\<lambda>c. c = slash) at) \<noteq> slash" by (rule hd_dropWhile)
    then show False using n d by (cases "dropWhile (\<lambda>c. c = slash) at") (auto simp: next_part_def Let_def)
  qed
  then have "rest = []" using n unfolding next_part_def Let_def by (simp only: dropWhile.simps prod.inject)
  then show ?thesis using path_parts_next(1) [OF n] by simp
qed

lemma resolve_loop_walk:
  "names_valid ps \<Longrightarrow> length (render ps) < path_cap \<Longrightarrow> resolve_loop at (render ps) = map_option render (fold cd_step (path_parts at) (Some ps))
    \<and> (\<forall>qs. fold cd_step (path_parts at) (Some ps) = Some qs \<longrightarrow> names_valid qs \<and> length (render qs) < path_cap)"
proof (induction "length at" arbitrary: at ps rule: less_induct)
  case less
  obtain part rest where n: "next_part at = (part, rest)" by fastforce
  show ?case
  proof (cases "part = []")
    case True
    then show ?thesis using next_part_empty n less.prems by (simp add: resolve_loop.simps [of at])
  next
    case ne: False
    have lt: "length rest < length at" using next_part_progress [OF n [symmetric] ne] .
    note pp = path_parts_next(1) [OF n]
    show ?thesis
    proof (cases "part = [dot]")
      case True
      then show ?thesis using less.hyps [OF lt less.prems] n pp by (simp add: resolve_loop.simps [of at])
    next
      case nd: False
      then have parts: "path_parts at = part # path_parts rest" using pp ne by simp
      show ?thesis
      proof (cases "part = [dot, dot]")
        case True
        have "cut_last (render ps) = render (butlast ps)" unfolding cut_last_def by (rule cut_render [OF less.prems(1)])
        moreover have "length (render (butlast ps)) < path_cap" using length_render_butlast [OF less.prems(1)] less.prems(2) by linarith
        ultimately show ?thesis using less.hyps [OF lt names_valid_butlast [OF less.prems(1)]] True n parts
          by (simp add: resolve_loop.simps [of at] cd_step_def)
      next
        case up: False
        have sn: "add_part (render ps) part = render (ps @ [part])" by (rule render_snoc [OF names_ne [OF less.prems(1)]])
        have ln: "length (render (ps @ [part])) = length (render ps) + (if length (render ps) > 1 then 1 else 0) + length part"
          unfolding sn [symmetric] by (simp add: add_part_def)
        have r: "resolve_loop at (render ps) = (if length part \<ge> dest_name_cap then None else if \<not> kui_destination_name_valid part then None
            else if length (render (ps @ [part])) \<ge> path_cap then None else resolve_loop rest (render (ps @ [part])))"
          unfolding resolve_loop.simps [of at] n prod.case ln sn by (simp only: ne nd up if_False)
        show ?thesis
        proof (cases "kui_destination_name_valid part \<and> length (render (ps @ [part])) < path_cap")
          case True
          then have "names_valid (ps @ [part])" using less.prems(1) by (simp add: names_valid_def)
          moreover have "\<not> dest_name_cap \<le> length part" using name_valid_facts(2) True by (simp add: not_le)
          ultimately show ?thesis using less.hyps [OF lt, of "ps @ [part]"] True r parts up by (simp add: cd_step_def)
        next
          case False
          then have "fold cd_step (path_parts at) (Some ps) = None" using parts up by (auto simp: cd_step_def fold_cd_None)
          moreover have "resolve_loop at (render ps) = None" using r False by auto
          ultimately show ?thesis by simp
        qed
      qed
    qed
  qed
qed

text \<open>C34. Path resolution of the FTP server refines walking in a tree of names: for every working folder the server can be in, and
  every argument a client may send, the answer is the path of the list of names reached by entering and leaving folders one word at a
  time, from the root for an absolute argument; the root has no parent, an unsafe or too long name refuses the whole argument, and every
  path that is given out is valid, so no argument leads outside the card or to a forbidden name.\<close>

theorem ftp_resolve_refines:
  assumes "names_valid cwd" and "length (render cwd) < path_cap"
  shows "kui_ftp_resolve (render cwd) argument
      = map_option render (fold cd_step (path_parts argument) (Some (if argument \<noteq> [] \<and> hd argument = slash then [] else cwd)))
    \<and> (\<forall>out. kui_ftp_resolve (render cwd) argument = Some out \<longrightarrow> kui_files_path_valid out \<and> [dot, dot] \<notin> set (path_parts out))"
proof -
  let ?start = "if argument \<noteq> [] \<and> hd argument = slash then [] else cwd"
  have s: "names_valid ?start" "length (render ?start) < path_cap" using assms by (auto simp: names_valid_def render_def)
  have st: "(if argument \<noteq> [] \<and> hd argument = slash then [slash] else render cwd) = render ?start" by (simp add: render_def)
  note w = resolve_loop_walk [OF s, of argument]
  have v: "kui_files_path_valid (render cwd)" by (rule path_valid_render [OF assms])
  show ?thesis
  proof (cases "fold cd_step (path_parts argument) (Some ?start)")
    case None
    then have "kui_ftp_resolve (render cwd) argument = None" using v w by (simp add: kui_ftp_resolve_def st)
    then show ?thesis using None by simp
  next
    case (Some qs)
    then have q: "names_valid qs" "length (render qs) < path_cap" using w by blast+
    then have "kui_ftp_resolve (render cwd) argument = Some (render qs)"
      using v w Some path_valid_render [OF q] by (simp add: kui_ftp_resolve_def st)
    moreover have "[dot, dot] \<notin> set (path_parts (render qs))"
      using names_ok_path_parts_render [OF names_valid_ok [OF q(1)]] q(1) name_valid_facts(6) by (auto simp: names_valid_def list_all_iff)
    ultimately show ?thesis using Some path_valid_render [OF q] by simp
  qed
qed

lemma sample_folder: "names_valid [ascii ''KUI'', ascii ''apps'']" "length (render [ascii ''KUI'', ascii ''apps'']) < path_cap"
  by (simp_all add: names_valid_def kui_destination_name_valid_def bounded_def component_def reserved_def Let_def ascii_equal_def ascii_def
      utf8_def utf8_lead_def invalid_code_def lower_def render_def)

theorem ftp_resolve_refines_witness:
  "kui_ftp_resolve (render [ascii ''KUI'', ascii ''apps'']) (ascii ''../../../KUI/.'') = Some (render [ascii ''KUI''])"
proof -
  have p: "path_parts (ascii ''../../../KUI/.'') = [[dot, dot], [dot, dot], [dot, dot], ascii ''KUI'']" by (simp add: path_parts_def ascii_def)
  have "kui_destination_name_valid (ascii ''KUI'')" using sample_folder(1) by (simp add: names_valid_def)
  then have "fold cd_step [[dot, dot], [dot, dot], [dot, dot], ascii ''KUI''] (Some [ascii ''KUI'', ascii ''apps'']) = Some [ascii ''KUI'']"
    by (simp add: cd_step_def ascii_def render_def)
  moreover have "\<not> hd (ascii ''../../../KUI/.'') = slash" by (simp add: ascii_def)
  ultimately show ?thesis using ftp_resolve_refines [OF sample_folder, of "ascii ''../../../KUI/.''"] p by simp
qed

section \<open>The wildcard matcher always returns, with the right answer\<close>

text \<open>The reference: what a pattern means, by recursion on it.\<close>

definition glob_byte :: "u8 \<Rightarrow> u8 \<Rightarrow> bool" where
  "glob_byte p c = (p = 0x3f \<or> lower p = lower c)"

fun glob_means :: "bytes \<Rightarrow> bytes \<Rightarrow> bool" where
  "glob_means [] name = (name = [])"
| "glob_means (p # ps) [] = (p = 0x2a \<and> glob_means ps [])"
| "glob_means (p # ps) (c # cs) =
     (if p = 0x2a then glob_means ps (c # cs) \<or> glob_means (p # ps) cs else glob_byte p c \<and> glob_means ps cs)"

lemma glob_plain:
  "0x2a \<notin> set w \<Longrightarrow> glob_means (w @ ps) name \<longleftrightarrow>
    length w \<le> length name \<and> list_all2 glob_byte w (take (length w) name) \<and> glob_means ps (drop (length w) name)"
proof (induction w arbitrary: name)
  case (Cons p w)
  then show ?case by (cases name) auto
qed simp

lemma glob_star: "glob_means (0x2a # ps) name \<longleftrightarrow> (\<exists>n\<le>length name. glob_means ps (drop n name))"
proof (induction name)
  case (Cons c cs)
  have "glob_means (0x2a # ps) (c # cs) \<longleftrightarrow> glob_means ps (c # cs) \<or> (\<exists>n\<le>length cs. glob_means ps (drop n cs))" using Cons by simp
  also have "\<dots> \<longleftrightarrow> (\<exists>n\<le>length (c # cs). glob_means ps (drop n (c # cs)))"
  proof (intro iffI)
    assume "glob_means ps (c # cs) \<or> (\<exists>n\<le>length cs. glob_means ps (drop n cs))"
    then show "\<exists>n\<le>length (c # cs). glob_means ps (drop n (c # cs))"
    proof
      assume "glob_means ps (c # cs)"
      then show ?thesis by (intro exI [of _ 0]) simp
    next
      assume "\<exists>n\<le>length cs. glob_means ps (drop n cs)"
      then obtain n where "n \<le> length cs" "glob_means ps (drop n cs)" by blast
      then show ?thesis by (intro exI [of _ "Suc n"]) simp
    qed
  next
    assume "\<exists>n\<le>length (c # cs). glob_means ps (drop n (c # cs))"
    then obtain n where n: "n \<le> length (c # cs)" "glob_means ps (drop n (c # cs))" by blast
    then show "glob_means ps (c # cs) \<or> (\<exists>n\<le>length cs. glob_means ps (drop n cs))" by (cases n) auto
  qed
  finally show ?case .
qed simp

lemma glob_star_drop: "glob_means (0x2a # ps) (drop n name) \<Longrightarrow> glob_means (0x2a # ps) name"
proof -
  assume "glob_means (0x2a # ps) (drop n name)"
  then obtain m where "m \<le> length (drop n name)" "glob_means ps (drop m (drop n name))" unfolding glob_star by blast
  then have m: "m \<le> length name - n" "glob_means ps (drop (m + n) name)" by simp_all
  show ?thesis
  proof (cases "n \<le> length name")
    case True
    then show ?thesis unfolding glob_star using m by (intro exI [of _ "m + n"]) linarith
  next
    case False
    then show ?thesis unfolding glob_star using m(2) by (intro exI [of _ "length name"]) simp
  qed
qed

lemma glob_end: "glob_means ps [] \<longleftrightarrow> dropWhile (\<lambda>c. c = 0x2a) ps = []"
  by (induction ps) auto

text \<open>What the state of the loop stands for: the rest of the pattern matches the rest of the name, or the last star can still take more.
  The text between the two, \<open>w\<close> of the pattern and as much of the name, has no star and is matched.\<close>

fun star_state :: "bytes \<Rightarrow> bytes \<Rightarrow> (bytes \<times> bytes) option \<Rightarrow> bool" where
  "star_state pattern name None = True"
| "star_state pattern name (Some (after, resume)) =
     (\<exists>w. 0x2a \<notin> set w \<and> after = w @ pattern \<and> length w \<le> length resume \<and> name = drop (length w) resume)"

fun star_more :: "(bytes \<times> bytes) option \<Rightarrow> bool" where
  "star_more None = False"
| "star_more (Some (after, resume)) = (resume \<noteq> [] \<and> glob_means (0x2a # after) (tl resume))"

lemma star_more_step: "resume \<noteq> [] \<Longrightarrow> glob_means (0x2a # after) (tl resume)
    \<longleftrightarrow> glob_means after (tl resume) \<or> star_more (Some (after, tl resume))"
  by (cases "tl resume") simp_all

text \<open>A new star makes the old one useless.\<close>

lemma star_more_absorbed:
  assumes "star_state (0x2a # ps) name star" "star_more star"
  shows "glob_means (0x2a # ps) name"
proof -
  obtain after resume w where s: "star = Some (after, resume)" "0x2a \<notin> set w" "after = w @ 0x2a # ps" "length w \<le> length resume" "name = drop (length w) resume"
    using assms by (cases star) auto
  have "resume \<noteq> []" "glob_means (0x2a # w @ 0x2a # ps) (tl resume)" using assms(2) s by auto
  then obtain n where n: "glob_means (w @ 0x2a # ps) (drop n (tl resume))" unfolding glob_star by blast
  then have "glob_means (0x2a # ps) (drop (length w) (drop n (tl resume)))" unfolding glob_plain [OF s(2)] by blast
  moreover have "drop (length w) (drop n (tl resume)) = drop (Suc n) (drop (length w) resume)" by (simp add: drop_Suc [symmetric] add.commute)
  ultimately show ?thesis using glob_star_drop s(5) by metis
qed

lemma star_more_end:
  assumes "star_state pattern [] star" "star_more star"
  shows "glob_means pattern []"
proof -
  obtain after resume w where s: "star = Some (after, resume)" "0x2a \<notin> set w" "after = w @ pattern" "length w \<le> length resume" "drop (length w) resume = []"
    using assms by (cases star) auto
  have r: "resume \<noteq> []" "glob_means (0x2a # w @ pattern) (tl resume)" using assms(2) s by auto
  then obtain n where "glob_means (w @ pattern) (drop n (tl resume))" unfolding glob_star by blast
  then have "length w \<le> length (drop n (tl resume))" unfolding glob_plain [OF s(2)] by blast
  then show ?thesis using s(4,5) r(1) by (cases resume) auto
qed

definition glob_rank :: "bytes \<Rightarrow> (bytes \<times> bytes) option \<Rightarrow> nat" where
  "glob_rank name star = (case star of None \<Rightarrow> Suc (length name) | Some (after, resume) \<Rightarrow> length resume)"

lemma glob_loop_means:
  "star_state pattern name star \<longrightarrow> glob_loop pattern name star = Some (glob_means pattern name \<or> star_more star)"
proof -
  let ?m = "[\<lambda>(pattern, name, star). glob_rank name star, \<lambda>(pattern, name, star). length name, \<lambda>(pattern, name, star). length pattern]
    :: (bytes \<times> bytes \<times> (bytes \<times> bytes) option \<Rightarrow> nat) list"
  let ?r = "measures ?m"
  let ?P = "\<lambda>(pattern, name, star). star_state pattern name star \<longrightarrow> glob_loop pattern name star = Some (glob_means pattern name \<or> star_more star)"
  have "?P st" for st
  proof (induction st rule: wf_induct_rule [OF wf_measures [of ?m]])
    case (1 st)
    obtain pattern name star where st: "st = (pattern, name, star)" by (metis prod_cases3)
    have IH: "star_state p n s \<Longrightarrow> glob_loop p n s = Some (glob_means p n \<or> star_more s)"
      if "((p, n, s), (pattern, name, star)) \<in> ?r" for p n s using 1 [of "(p, n, s)"] that st by simp
    have "glob_loop pattern name star = Some (glob_means pattern name \<or> star_more star)" if ss: "star_state pattern name star"
    proof (cases name)
      case Nil
      then show ?thesis using star_more_end ss by (auto simp: glob_loop.simps [of pattern] glob_end)
    next
      case (Cons c cs)
      show ?thesis
      proof (cases "pattern \<noteq> [] \<and> hd pattern = 0x2a")
        case True
        then obtain ps where p: "pattern = 0x2a # ps" by (cases pattern) auto
        have rank: "glob_rank name (Some (ps, name)) \<le> glob_rank name star"
          using ss by (cases star) (auto simp: glob_rank_def)
        have "glob_loop ps name (Some (ps, name)) = Some (glob_means ps name \<or> star_more (Some (ps, name)))"
          using rank p by (intro IH) (auto simp: Cons intro!: exI [of _ "[]"])
        moreover have "glob_loop pattern name star = glob_loop ps name (Some (ps, name))"
          by (subst glob_loop.simps) (simp add: p Cons)
        ultimately have "glob_loop pattern name star = Some (glob_means ps name \<or> star_more (Some (ps, name)))" by simp
        moreover have "glob_means ps name \<or> star_more (Some (ps, name)) \<longleftrightarrow> glob_means pattern name" using p Cons by simp
        ultimately show ?thesis using star_more_absorbed ss p by auto
      next
        case ns: False
        show ?thesis
        proof (cases "pattern \<noteq> [] \<and> (hd pattern = 0x3f \<or> lower (hd pattern) = lower c)")
          case True
          then obtain x ps where p: "pattern = x # ps" "glob_byte x c" "x \<noteq> 0x2a" using ns by (cases pattern) (auto simp: glob_byte_def)
          have st': "star_state ps cs star"
          proof (cases star)
            case (Some t)
            obtain after resume where t: "t = (after, resume)" by fastforce
            obtain w where w: "0x2a \<notin> set w" "after = w @ pattern" "length w \<le> length resume" "name = drop (length w) resume"
              using ss Some t by auto
            have "cs = drop (length (w @ [x])) resume" using w(4) Cons by (metis drop_Suc drop_drop length_append_singleton list.sel(3) tl_drop)
            moreover have "length (w @ [x]) \<le> length resume" using w(3,4) Cons by (metis length_append_singleton Suc_leI drop_all linorder_not_le list.distinct(1) order_le_less)
            ultimately show ?thesis using w p Some t by (auto intro!: exI [of _ "w @ [x]"])
          qed simp
          have "((ps, cs, star), (pattern, name, star)) \<in> ?r" using Cons by (cases star) (auto simp: glob_rank_def)
          moreover have "glob_loop pattern name star = glob_loop ps cs star"
            using True ns by (subst glob_loop.simps) (simp add: p Cons glob_byte_def)
          ultimately have "glob_loop pattern name star = Some (glob_means ps cs \<or> star_more star)" using IH st' by simp
          then show ?thesis using p Cons by simp
        next
          case nm: False
          then have no: "\<not> glob_means pattern name" using ns Cons by (cases pattern) (auto simp: glob_byte_def)
          show ?thesis
          proof (cases star)
            case None
            have "glob_loop pattern name star = Some False" using ns nm by (subst glob_loop.simps) (auto simp: Cons None)
            then show ?thesis using no None by simp
          next
            case (Some t)
            obtain after resume where t: "t = (after, resume)" by fastforce
            have re: "resume \<noteq> []" using ss Some t Cons by auto
            have l: "glob_loop pattern name star = glob_loop after (tl resume) (Some (after, tl resume))"
              using ns nm by (subst glob_loop.simps) (auto simp: Cons Some t)
            have "glob_loop after (tl resume) (Some (after, tl resume)) = Some (glob_means after (tl resume) \<or> star_more (Some (after, tl resume)))"
              using re Some t by (intro IH) (auto simp: glob_rank_def intro!: exI [of _ "[]"])
            then show ?thesis using l no star_more_step [OF re] re Some t by simp
          qed
        qed
      qed
    qed
    then show ?case by (simp add: st)
  qed
  then show ?thesis by (metis (mono_tags, lifting) prod.case)
qed

text \<open>C35. The backtracking matcher of the FTP server returns for every pattern and every name, and its answer is the meaning of the
  pattern: a star stands for any text, a question mark for one byte, any other byte for itself up to the case of letters. (The loop is
  modelled without assuming that it ends; not returning would be \<open>None\<close>.)\<close>

theorem ftp_glob_returns: "kui_ftp_glob pattern name = Some (glob_means pattern name)"
  unfolding kui_ftp_glob_def using glob_loop_means [of pattern name None] by simp

end
