(* ===== verification/Http_Protocol.thy ===== *)
theory Http_Protocol
  imports File_Paths
begin

text \<open>
  The protocol pieces of the HTTP server (src/core/http\_protocol.c): decoding of request paths, the request parser, the map from URLs to
  card paths, the suffixes that may be downloaded, and the escapers for pages and links.  A request is the list of its bytes; the record
  the parser fills is its result, with the status in place of a refused request.
\<close>

unbundle bit_operations_syntax

section \<open>Operations\<close>

abbreviation (input) request_cap :: nat where "request_cap \<equiv> 2048"

definition hex_value :: "u8 \<Rightarrow> u8 option" where
  "hex_value c =
     (if 0x30 \<le> c \<and> c \<le> 0x39 then Some (c - 0x30)
      else if 0x61 \<le> c \<and> c \<le> 0x66 then Some (c - 0x61 + 10)
      else if 0x41 \<le> c \<and> c \<le> 0x46 then Some (c - 0x41 + 10)
      else None)"

text \<open>A field name against a lower-case literal.\<close>

definition http_equal :: "bytes \<Rightarrow> bytes \<Rightarrow> bool" where
  "http_equal a b = (length b = length a \<and> map lower a = b)"

text \<open>The check that every decoded byte passes, and its place in the buffer.\<close>

definition refused_byte :: "u8 \<Rightarrow> bool" where
  "refused_byte c = (c < 32 \<or> c = 127 \<or> c = 0x5c \<or> c = 0x23 \<or> c = 0x3a)"

fun decode_loop :: "nat \<Rightarrow> bytes \<Rightarrow> bytes \<Rightarrow> bytes option" where
  "decode_loop cap [] out = Some out"
| "decode_loop cap (c # cs) out =
     (if c = 0x25 then
        (case cs of a # b # rest \<Rightarrow>
           (case (hex_value a, hex_value b) of (Some h, Some l) \<Rightarrow>
              let c = h * 16 + l in
              if c = slash \<or> c = 0x5c \<or> c = 0x25 \<or> c = 0x3f \<or> c = 0x23 then None
              else if refused_byte c \<or> length out + 1 \<ge> cap then None
              else decode_loop cap rest (out @ [c])
            | _ \<Rightarrow> None)
         | _ \<Rightarrow> None)
      else if refused_byte c \<or> length out + 1 \<ge> cap then None
      else decode_loop cap cs (out @ [c]))"

definition http_decode :: "nat \<Rightarrow> bytes \<Rightarrow> bytes option" where
  "http_decode cap p =
     (case decode_loop cap p [] of None \<Rightarrow> None
      | Some out \<Rightarrow> if out \<noteq> [] \<and> hd out = slash then Some out else None)"

text \<open>The scan for the end of the header: an error, the end, or no end yet.\<close>

datatype header_scan = Scan_Bad | Scan_End nat | Scan_More

function scan_end :: "bytes \<Rightarrow> nat \<Rightarrow> header_scan" where
  "scan_end data i =
     (if i \<ge> length data then Scan_More
      else let c = data ! i in
        if c = 0 \<or> c = 127 \<or> (c < 32 \<and> c \<noteq> 13 \<and> c \<noteq> 10 \<and> c \<noteq> 9) then Scan_Bad
        else if c = 13 \<and> i + 1 < length data \<and> data ! (i + 1) \<noteq> 10 then Scan_Bad
        else if c = 10 \<and> (i = 0 \<or> data ! (i - 1) \<noteq> 13) then Scan_Bad
        else if i \<ge> 3 \<and> window data (i - 3) 4 = [13, 10, 13, 10] then Scan_End (i + 1)
        else scan_end data (i + 1))"
  by pat_completeness auto
termination
  by (relation "measure (\<lambda>(data, i). length data - i)") auto

function find_crlf :: "bytes \<Rightarrow> nat \<Rightarrow> nat \<Rightarrow> nat" where
  "find_crlf data fin at =
     (if at + 1 < fin \<and> \<not> (data ! at = 13 \<and> data ! (at + 1) = 10) then find_crlf data fin (at + 1) else at)"
  by pat_completeness auto
termination
  by (relation "measure (\<lambda>(data, fin, at). fin - at)") auto

declare scan_end.simps [simp del] find_crlf.simps [simp del]

lemma find_crlf_ge: "at \<le> find_crlf data fin at"
  by (induction data fin at rule: find_crlf.induct) (subst find_crlf.simps, auto)

record browser_request =
  rq_head :: bool
  rq_page :: nat
  rq_path :: bytes

definition field_byte :: "u8 \<Rightarrow> bool" where
  "field_byte c = ((0x61 \<le> c \<and> c \<le> 0x7a) \<or> (0x41 \<le> c \<and> c \<le> 0x5a) \<or> (0x30 \<le> c \<and> c \<le> 0x39) \<or> c = 0x2d)"

definition trim_field :: "bytes \<Rightarrow> bytes" where
  "trim_field s = rev (dropWhile (\<lambda>c. c = blank \<or> c = 9) (rev (dropWhile (\<lambda>c. c = blank \<or> c = 9) s)))"

text \<open>One header line: whether the host and the length have been seen after it, or \<open>None\<close> for a bad request.\<close>

definition header_field :: "bytes \<Rightarrow> bool \<times> bool \<Rightarrow> (bool \<times> bool) option" where
  "header_field line st =
     (case st of (host, len) \<Rightarrow>
      if hd line = blank \<or> hd line = 9 then None
      else let name = takeWhile (\<lambda>c. c \<noteq> 0x3a) line; rest = dropWhile (\<lambda>c. c \<noteq> 0x3a) line in
        if rest = [] \<or> name = [] then None
        else if \<not> list_all field_byte name then None
        else let content = trim_field (tl rest) in
          if http_equal name (ascii ''host'') then (if host \<or> content = [] then None else Some (True, len))
          else if http_equal name (ascii ''content-length'') then (if len \<or> content \<noteq> [0x30] then None else Some (host, True))
          else if http_equal name (ascii ''transfer-encoding'') \<or> http_equal name (ascii ''expect'') then None
          else Some (host, len))"

function header_loop :: "bytes \<Rightarrow> nat \<Rightarrow> nat \<Rightarrow> bool \<times> bool \<Rightarrow> (bool \<times> bool) option" where
  "header_loop data fin at st =
     (if \<not> at + 2 < fin then Some st
      else let stop = find_crlf data fin at in
        if stop = at then Some st
        else case header_field (window data at (stop - at)) st of None \<Rightarrow> None | Some st \<Rightarrow> header_loop data fin (stop + 2) st)"
  by pat_completeness auto
termination
proof (relation "measure (\<lambda>(data, fin, at, st). fin - at)")
  fix data :: bytes and fin at stop :: nat and st st' :: "bool \<times> bool"
  assume "\<not> \<not> at + 2 < fin" "stop = find_crlf data fin at"
  then show "((data, fin, stop + 2, st'), (data, fin, at, st)) \<in> measure (\<lambda>(data, fin, at, st). fin - at)"
    using find_crlf_ge [of at data fin] by simp
qed simp

declare header_loop.simps [simp del]

fun page_digits :: "bytes \<Rightarrow> nat \<Rightarrow> nat option" where
  "page_digits [] page = Some page"
| "page_digits (c # cs) page = (if c < 0x30 \<or> c > 0x39 then None else page_digits cs (page * 10 + unat (c - 0x30)))"

text \<open>The query of a URL, \<open>?page=\<close> and up to three digits, and the path before it.\<close>

definition split_query :: "bytes \<Rightarrow> (bytes \<times> nat) option" where
  "split_query url =
     (let path = takeWhile (\<lambda>c. c \<noteq> 0x3f) url; rest = dropWhile (\<lambda>c. c \<noteq> 0x3f) url in
      if rest = [] then Some (url, 0)
      else let query = tl rest in
        if length query < 6 \<or> take 5 query \<noteq> ascii ''page='' then None
        else let digits = drop 5 query in
          if length digits > 3 then None
          else case page_digits digits 0 of None \<Rightarrow> None | Some page \<Rightarrow> if page > 127 then None else Some (path, page))"

text \<open>The status of a refused request, 0 for one that is not complete yet, or the request.\<close>

definition kui_browser_parse :: "bytes \<Rightarrow> nat + browser_request" where
  "kui_browser_parse data =
     (if length data > request_cap then Inl 431
      else case scan_end data 0 of Scan_Bad \<Rightarrow> Inl 400
      | Scan_More \<Rightarrow> Inl (if length data = request_cap then 431 else 0)
      | Scan_End fin \<Rightarrow>
        if fin \<noteq> length data then Inl 400
        else let line = find_crlf data fin 0; first = take line data;
                 verb = takeWhile (\<lambda>c. c \<noteq> blank) first; rest = dropWhile (\<lambda>c. c \<noteq> blank) first in
          if rest = [] then Inl 400
          else if verb \<noteq> ascii ''HEAD'' \<and> verb \<noteq> ascii ''GET'' then Inl 405
          else let url = takeWhile (\<lambda>c. c \<noteq> blank) (tl rest); version = dropWhile (\<lambda>c. c \<noteq> blank) (tl rest) in
            if version = [] \<or> url = [] then Inl 400
            else if tl version \<noteq> ascii ''HTTP/1.0'' \<and> tl version \<noteq> ascii ''HTTP/1.1'' then Inl 400
            else case split_query url of None \<Rightarrow> Inl 400
            | Some (url, page) \<Rightarrow>
              (case http_decode path_cap url of None \<Rightarrow> Inl 400
               | Some path \<Rightarrow>
                 (case header_loop data fin (line + 2) (False, False) of None \<Rightarrow> Inl 400
                  | Some (host, len) \<Rightarrow>
                    if tl version = ascii ''HTTP/1.1'' \<and> \<not> host then Inl 400
                    else Inr \<lparr>rq_head = (verb = ascii ''HEAD''), rq_page = page, rq_path = path\<rparr>)))"

text \<open>From the URL to the card.\<close>

definition hidden_name :: "bytes \<Rightarrow> bool" where
  "hidden_name name =
     (hd name = dot
      \<or> (length name \<ge> 5 \<and> http_equal (drop (length name - 5) name) (ascii ''.part''))
      \<or> (length name \<ge> 4 \<and> http_equal (drop (length name - 4) name) (ascii ''.tmp''))
      \<or> (length name \<ge> 9 \<and> http_equal (drop (length name - 9) name) (ascii ''.kui-part'')))"

function public_loop :: "bytes \<Rightarrow> nat \<Rightarrow> bool" where
  "public_loop at depth =
     (if at = [] then True
      else let name = takeWhile (\<lambda>c. c \<noteq> slash) at; rest = dropWhile (\<lambda>c. c \<noteq> slash) at in
        if hidden_name name then False
        else if rest = [] then True
        else if depth + 1 > 8 then False
        else public_loop (tl rest) (depth + 1))"
  by pat_completeness auto
termination
  by (relation "measure (\<lambda>(at, depth). length at)") (simp_all add: dropWhile_tl_shorter del: length_tl)

declare public_loop.simps [simp del]

definition browser_roots :: "(bytes \<times> bytes) list" where
  "browser_roots =
     [(ascii ''/screenshots'', ascii ''0:/KUI/screenshots''), (ascii ''/reports'', ascii ''0:/KUI/reports/support''),
      (ascii ''/saves'', ascii ''0:/KUI/exports/saves'')]"

fun find_root :: "bytes \<Rightarrow> (bytes \<times> bytes) list \<Rightarrow> bytes option" where
  "find_root normal [] = None"
| "find_root normal ((url, folder) # roots) =
     (if take (length url) normal \<noteq> url \<or> (length normal \<noteq> length url \<and> normal ! length url \<noteq> slash) then find_root normal roots
      else let out = folder @ drop (length url) normal in if length out < path_cap + 3 then Some out else None)"

definition kui_browser_path :: "bytes \<Rightarrow> bytes option" where
  "kui_browser_path path =
     (if path = [] \<or> length path \<ge> path_cap \<or> hd path \<noteq> slash then None
      else let normal = (if length path > 1 \<and> last path = slash then butlast path else path) in
        if \<not> kui_files_path_valid normal then None
        else if \<not> public_loop (tl normal) 0 then None
        else find_root normal browser_roots)"

definition export_types :: "bytes \<Rightarrow> bytes list" where
  "export_types path =
     (if take 13 path = ascii ''/screenshots/'' then map ascii [''.bmp'', ''.png'', ''.ppm'']
      else if take 9 path = ascii ''/reports/'' then map ascii [''.txt'', ''.json'', ''.zip'', ''.log'', ''.md'', ''.bmp'']
      else if take 7 path = ascii ''/saves/'' then map ascii [''.vms'', ''.vmi'', ''.dci'', ''.vmd'', ''.zip'']
      else [])"

definition kui_browser_export_name :: "bytes \<Rightarrow> bool" where
  "kui_browser_export_name path =
     (case last_dot path of None \<Rightarrow> False
      | Some at \<Rightarrow> let suffix = drop at path in
        if slash \<in> set suffix then False else list_ex (\<lambda>t. length t = length suffix \<and> map lower suffix = t) (export_types path))"

text \<open>The escapers; a text that does not fit leaves the empty string.\<close>

definition html_byte :: "u8 \<Rightarrow> bytes" where
  "html_byte c =
     (if c = 0x26 then ascii ''&amp;'' else if c = 0x3c then ascii ''&lt;'' else if c = 0x3e then ascii ''&gt;''
      else if c = 0x22 then ascii ''&quot;'' else if c = 0x27 then ascii ''&#39;'' else [c])"

fun html_loop :: "nat \<Rightarrow> bytes \<Rightarrow> bytes \<Rightarrow> bytes option" where
  "html_loop cap [] out = Some out"
| "html_loop cap (c # cs) out = (if length out + length (html_byte c) \<ge> cap then None else html_loop cap cs (out @ html_byte c))"

definition kui_browser_html :: "nat \<Rightarrow> bytes \<Rightarrow> bytes option" where
  "kui_browser_html cap source = (if cap = 0 then None else html_loop cap source [])"

definition url_digits :: bytes where
  "url_digits = ascii ''0123456789ABCDEF''"

definition plain_byte :: "u8 \<Rightarrow> bool" where
  "plain_byte c =
     ((0x61 \<le> c \<and> c \<le> 0x7a) \<or> (0x41 \<le> c \<and> c \<le> 0x5a) \<or> (0x30 \<le> c \<and> c \<le> 0x39)
      \<or> c = 0x2d \<or> c = 0x5f \<or> c = dot \<or> c = 0x7e \<or> c = slash)"

definition url_byte :: "u8 \<Rightarrow> bytes" where
  "url_byte c = (if plain_byte c then [c] else [0x25, url_digits ! unat (drop_bit 4 c), url_digits ! unat (c AND 15)])"

fun url_loop :: "nat \<Rightarrow> bytes \<Rightarrow> bytes \<Rightarrow> bytes option" where
  "url_loop cap [] out = Some out"
| "url_loop cap (c # cs) out = (if length out + length (url_byte c) \<ge> cap then None else url_loop cap cs (out @ url_byte c))"

definition kui_browser_url :: "nat \<Rightarrow> bytes \<Rightarrow> bytes option" where
  "kui_browser_url cap source = (if cap = 0 then None else url_loop cap source [])"

section \<open>Links that the server prints lead back to the path\<close>

lemma url_loop_eq: "url_loop cap cs out = Some u \<Longrightarrow> u = out @ concat (map url_byte cs)"
proof (induction cs arbitrary: out)
  case (Cons c cs)
  then have "url_loop cap cs (out @ url_byte c) = Some u" by (simp split: if_splits)
  from Cons.IH [OF this] show ?case by simp
qed simp

lemma hex_value_digit: "n < 16 \<Longrightarrow> hex_value (url_digits ! n) = Some (of_nat n)"
proof -
  have "list_all (\<lambda>n. hex_value (url_digits ! n) = Some (of_nat n)) [0..<16]"
    by (simp add: upt_rec url_digits_def ascii_def hex_value_def)
  then show "n < 16 \<Longrightarrow> hex_value (url_digits ! n) = Some (of_nat n)" by (simp only: list_all_iff set_upt atLeastLessThan_iff) simp
qed

lemma join_nibbles: "of_nat (unat (drop_bit 4 c)) * 16 + of_nat (unat (c AND 15)) = (c :: u8)"
proof -
  have "push_bit 4 (drop_bit 4 c) + take_bit 4 c = c" by (rule bits_ident)
  then show ?thesis by (simp add: push_bit_eq_mult mult.commute and_mask_word)
qed

lemma nibble_lt: "unat (drop_bit 4 (c :: u8)) < 16" "unat (c AND 15) < 16"
proof -
  have "unat c < 256" using unsigned_less [of c, where ?'a = nat] by simp
  then show "unat (drop_bit 4 c) < 16" unfolding unat_drop_bit_eq by (simp add: drop_bit_eq_div less_mult_imp_div_less)
  have "c AND 15 \<le> 15" by (rule word_and_le1)
  then show "unat (c AND 15) < 16" by (simp add: word_le_nat_alt)
qed

text \<open>The bytes of a valid path.\<close>

definition path_byte :: "u8 \<Rightarrow> bool" where
  "path_byte c = (c \<noteq> 0x3f \<and> c \<noteq> 0x5c \<and> (c = 0x23 \<or> \<not> refused_byte c))"

lemma decode_loop_byte:
  assumes "path_byte c" "length out + 1 < cap"
  shows "decode_loop cap (url_byte c @ rest) out = (if c = 0x25 \<or> c = 0x23 then None else decode_loop cap rest (out @ [c]))"
proof (cases "plain_byte c")
  case True
  then have "c \<noteq> 0x25" "c \<noteq> 0x23" by (auto simp: plain_byte_def)
  then show ?thesis using True assms by (simp add: url_byte_def path_byte_def)
next
  case False
  then have ns: "c \<noteq> slash" by (auto simp: plain_byte_def)
  have h: "hex_value (url_digits ! unat (drop_bit 4 c)) = Some (of_nat (unat (drop_bit 4 c)))"
    "hex_value (url_digits ! unat (c AND 15)) = Some (of_nat (unat (c AND 15)))"
    using hex_value_digit nibble_lt by blast+
  have e: "url_byte c @ rest = 0x25 # url_digits ! unat (drop_bit 4 c) # url_digits ! unat (c AND 15) # rest" using False by (simp add: url_byte_def)
  show ?thesis unfolding e using assms ns by (simp only: decode_loop.simps list.case option.case prod.case h join_nibbles Let_def) (auto simp: path_byte_def)
qed

lemma decode_loop_url:
  "\<forall>c\<in>set cs. path_byte c \<Longrightarrow> length out + length cs < cap
    \<Longrightarrow> decode_loop cap (concat (map url_byte cs)) out = (if 0x25 \<in> set cs \<or> 0x23 \<in> set cs then None else Some (out @ cs))"
proof (induction cs arbitrary: out)
  case (Cons c cs)
  then have "decode_loop cap (concat (map url_byte (c # cs))) out
      = (if c = 0x25 \<or> c = 0x23 then None else decode_loop cap (concat (map url_byte cs)) (out @ [c]))"
    by (simp add: decode_loop_byte)
  then show ?case using Cons.IH [of "out @ [c]"] Cons.prems by auto
qed simp

lemma component_path_byte: "component p \<Longrightarrow> c \<in> set p \<Longrightarrow> path_byte c"
proof -
  assume p: "component p" and c: "c \<in> set p"
  show ?thesis
  proof (cases "c < 0x80")
    case True
    have "codes_ok p" using p by (simp add: component_def)
    then have i: "\<not> invalid_code (ucast c)" using codes_ok_byte c True by blast
    have u: "unat (ucast c :: u32) = unat c"
      using unsigned_less [of c, where ?'a = nat] by (simp add: unsigned_ucast_eq take_bit_nat_eq_self)
    have ne: "c \<noteq> v" if "(ucast c :: u32) \<noteq> ucast v" for v :: u8 using that by auto
    have "c \<noteq> 0x3f" "c \<noteq> 0x5c" "c \<noteq> 0x3a" by (rule ne, use i in \<open>simp add: invalid_code_def\<close>)+
    moreover have "\<not> c < 32" "c \<noteq> 127" using i u by (auto simp: invalid_code_def word_less_nat_alt word_le_nat_alt)
    ultimately show ?thesis by (simp add: path_byte_def refused_byte_def)
  next
    case False
    then have "128 \<le> unat c" by (simp add: word_less_nat_alt)
    then have "c \<noteq> v" if "unat v < 128" for v using that by auto
    moreover have "\<not> c < 32" using \<open>128 \<le> unat c\<close> by (simp add: word_less_nat_alt)
    ultimately show ?thesis by (simp add: path_byte_def refused_byte_def)
  qed
qed

lemma path_bytes:
  assumes "kui_files_path_valid path"
  shows "\<forall>c\<in>set path. path_byte c" "path \<noteq> []" "hd path = slash" "length path < path_cap"
proof -
  obtain ps where p: "path = render ps" "names_valid ps" "length path < path_cap" using assms path_valid_iff by blast
  have s: "path_byte slash" by (simp add: path_byte_def refused_byte_def)
  show "\<forall>c\<in>set path. path_byte c" using p(1,2) s component_path_byte name_valid_facts(1) by (auto simp: render_def names_valid_def list_all_iff)
  show "path \<noteq> []" "hd path = slash" using p(1) by (cases ps; simp add: render_def)+
  show "length path < path_cap" by (rule p(3))
qed

text \<open>C37. A link printed for a card path decodes to that path and nothing else, except that a path with a percent or a number sign, which are
  allowed in names, is refused when its link is followed.\<close>

theorem browser_url_roundtrip:
  assumes "kui_files_path_valid path" and "kui_browser_url cap path = Some link"
  shows "http_decode path_cap link = (if 0x25 \<in> set path \<or> 0x23 \<in> set path then None else Some path)"
proof -
  have "link = concat (map url_byte path)" using assms(2) url_loop_eq by (auto simp: kui_browser_url_def split: if_splits)
  then have "decode_loop path_cap link [] = (if 0x25 \<in> set path \<or> 0x23 \<in> set path then None else Some path)"
    using decode_loop_url [of path "[]"] path_bytes [OF assms(1)] by simp
  then show ?thesis using path_bytes [OF assms(1)] by (simp add: http_decode_def)
qed

definition sample_path :: bytes where
  "sample_path = ascii ''/saves/a b''"

lemma sample_path_valid: "kui_files_path_valid sample_path"
proof -
  have "names_valid [ascii ''saves'', ascii ''a b'']"
    by (simp add: names_valid_def kui_destination_name_valid_def bounded_def component_def reserved_def Let_def ascii_equal_def ascii_def
        utf8_def utf8_lead_def invalid_code_def lower_def)
  moreover have "sample_path = render [ascii ''saves'', ascii ''a b'']" by (simp add: sample_path_def render_def ascii_def)
  moreover have "length sample_path < path_cap" by (simp add: sample_path_def)
  ultimately show ?thesis using path_valid_iff by blast
qed

theorem browser_url_roundtrip_witness:
  "kui_browser_url 100 sample_path = Some (ascii ''/saves/a%20b'') \<and> http_decode path_cap (ascii ''/saves/a%20b'') = Some sample_path"
proof -
  have u: "kui_browser_url 100 sample_path = Some (ascii ''/saves/a%20b'')"
    by (simp add: kui_browser_url_def sample_path_def ascii_def url_byte_def plain_byte_def url_digits_def)
  have "0x25 \<notin> set sample_path" "0x23 \<notin> set sample_path" by (simp_all add: sample_path_def ascii_def)
  then show ?thesis using browser_url_roundtrip [OF sample_path_valid u] u by simp
qed

section \<open>Requests stay inside the three public folders\<close>

lemma public_loop_names:
  "names_valid (q # qs) \<Longrightarrow> public_loop (q @ concat (map ((#) slash) qs)) depth
    \<Longrightarrow> (\<forall>p\<in>set (q # qs). \<not> hidden_name p) \<and> (depth + length qs \<le> 8 \<or> qs = [])"
proof (induction qs arbitrary: q depth)
  case Nil
  then have q: "q \<noteq> []" "slash \<notin> set q" using name_valid_facts by (auto simp: names_valid_def)
  note c = cut_name [OF q(2), of "[]"]
  have "\<not> hidden_name q" using Nil(2) q(1) unfolding public_loop.simps [of "q @ _"] Let_def c by (auto split: if_splits)
  then show ?case by simp
next
  case (Cons p ps)
  then have q: "q \<noteq> []" "slash \<notin> set q" using name_valid_facts by (auto simp: names_valid_def)
  note c = cut_name [OF q(2), of "p # ps"]
  have h: "\<not> hidden_name q" "depth + 1 \<le> 8" "public_loop (p @ concat (map ((#) slash) ps)) (depth + 1)"
    using Cons.prems(2) q(1) unfolding public_loop.simps [of "q @ _"] Let_def c by (auto split: if_splits)
  have "names_valid (p # ps)" using Cons.prems(1) by (simp add: names_valid_def)
  from Cons.IH [OF this h(3)] show ?case using h(1,2) by auto
qed

text \<open>A valid path that starts with a root folder, up to a slash or its end, is that folder and a list of names below it.\<close>

lemma render_root:
  assumes "names_valid ps" "slash \<notin> set w" "w \<noteq> []" "take (length (slash # w)) (render ps) = slash # w"
    "length (render ps) = length (slash # w) \<or> render ps ! length (slash # w) = slash"
  shows "\<exists>qs. ps = w # qs \<and> drop (length (slash # w)) (render ps) = concat (map ((#) slash) qs)"
proof (cases ps)
  case Nil
  then show ?thesis using assms(3,4) by (simp add: render_def)
next
  case (Cons q qs)
  then have q: "slash \<notin> set q" using assms(1) name_valid_facts(4) by (auto simp: names_valid_def)
  let ?r = "concat (map ((#) slash) qs)"
  have r: "render ps = slash # (q @ ?r)" by (simp add: Cons render_Cons)
  have t: "take (length w) (q @ ?r) = w" using assms(4) unfolding r by simp
  obtain rest where e: "q @ ?r = w @ rest" using t by (metis append_take_drop_id)
  have rest: "rest = [] \<or> hd rest = slash"
  proof -
    have "length (w @ rest) = length w \<or> (w @ rest) ! length w = slash" using assms(5) unfolding r e by simp
    then show ?thesis by (cases rest) auto
  qed
  have "takeWhile (\<lambda>c. c \<noteq> slash) (w @ rest) = w" "dropWhile (\<lambda>c. c \<noteq> slash) (w @ rest) = rest"
    using assms(2) rest by (cases rest; auto simp: takeWhile_append dropWhile_append)+
  then have "q = w" "?r = rest" using cut_name [OF q, of qs] e by simp_all
  then show ?thesis using Cons r by simp
qed

lemma root_words:
  "(url, folder) \<in> set browser_roots \<Longrightarrow> \<exists>w. url = slash # w \<and> slash \<notin> set w \<and> w \<noteq> []"
  by (auto simp: browser_roots_def ascii_def)

lemma find_root_sound:
  "find_root normal roots = Some out \<Longrightarrow> \<exists>(url, folder)\<in>set roots. take (length url) normal = url
    \<and> (length normal = length url \<or> normal ! length url = slash) \<and> out = folder @ drop (length url) normal"
proof (induction normal roots rule: find_root.induct)
  case (2 normal url folder roots)
  show ?case
  proof (cases "take (length url) normal \<noteq> url \<or> (length normal \<noteq> length url \<and> normal ! length url \<noteq> slash)")
    case True
    then have "find_root normal roots = Some out" using 2(2) by simp
    then show ?thesis using 2(1) [OF True] by auto
  next
    case False
    then have "out = folder @ drop (length url) normal" using 2(2) by (auto simp: Let_def split: if_splits)
    then show ?thesis using False by auto
  qed
qed simp

text \<open>C36. The HTTP server cannot be led out of its public folders: every path that it opens on the card is one of the three exported
  folders, or a path of at most eight further names below it, each of them safe for the card, none starting with a dot (so neither
  \<open>.\<close> nor \<open>..\<close>) and none the name of a temporary or partial file.\<close>

theorem browser_path_confined:
  assumes "kui_browser_path path = Some out"
  shows "\<exists>root\<in>snd ` set browser_roots. \<exists>names. out = root @ (if names = [] then [] else render names) \<and> length names \<le> 8
    \<and> (\<forall>n\<in>set names. kui_destination_name_valid n \<and> hd n \<noteq> dot \<and> \<not> hidden_name n)"
proof -
  define normal where "normal = (if length path > 1 \<and> last path = slash then butlast path else path)"
  have n: "kui_files_path_valid normal" "public_loop (tl normal) 0" "find_root normal browser_roots = Some out"
    using assms unfolding kui_browser_path_def Let_def normal_def [symmetric] by (auto split: if_split_asm)
  obtain ps where ps: "normal = render ps" "names_valid ps" using n(1) path_valid_iff by blast
  obtain url folder where f: "(url, folder) \<in> set browser_roots" "take (length url) normal = url"
    "length normal = length url \<or> normal ! length url = slash" "out = folder @ drop (length url) normal"
    using find_root_sound [OF n(3)] by blast
  obtain w where w: "url = slash # w" "slash \<notin> set w" "w \<noteq> []" using root_words [OF f(1)] by blast
  obtain qs where qs: "ps = w # qs" "drop (length url) normal = concat (map ((#) slash) qs)"
    using render_root [OF ps(2) w(2,3)] f(2,3) unfolding ps(1) w(1) by blast
  have tn: "tl normal = w @ concat (map ((#) slash) qs)" by (simp add: ps(1) qs(1) render_Cons)
  have nv: "names_valid (w # qs)" using ps(2) qs(1) by simp
  have h: "\<forall>p\<in>set qs. \<not> hidden_name p" "length qs \<le> 8" using public_loop_names [OF nv n(2) [unfolded tn]] by auto
  have "out = folder @ (if qs = [] then [] else render qs)" using f(4) qs(2) by (simp add: render_def)
  moreover have "\<forall>p\<in>set qs. kui_destination_name_valid p \<and> hd p \<noteq> dot \<and> \<not> hidden_name p"
    using h(1) nv by (auto simp: names_valid_def list_all_iff hidden_name_def)
  moreover have "folder \<in> snd ` set browser_roots" using image_eqI [OF _ f(1), of folder snd] by simp
  ultimately show ?thesis using h(2) by blast
qed

theorem browser_path_confined_witness:
  "kui_browser_path sample_path = Some (ascii ''0:/KUI/exports/saves/a b'')
   \<and> (\<exists>root\<in>snd ` set browser_roots. \<exists>names. ascii ''0:/KUI/exports/saves/a b'' = root @ (if names = [] then [] else render names) \<and> length names \<le> 8)"
proof -
  have "\<not> (length sample_path > 1 \<and> last sample_path = slash)" by (simp add: sample_path_def ascii_def)
  moreover have "public_loop (tl sample_path) 0" by (simp add: sample_path_def ascii_def public_loop.simps hidden_name_def http_equal_def lower_def)
  ultimately have p: "kui_browser_path sample_path = Some (ascii ''0:/KUI/exports/saves/a b'')"
    using sample_path_valid unfolding kui_browser_path_def Let_def by (simp add: sample_path_def browser_roots_def ascii_def)
  show ?thesis using browser_path_confined [OF p] p by blast
qed

end
