(* ===== verification/Spec2Isabelle.thy ===== *)
theory Spec2Isabelle
  imports Kui_Checksums Vmu_Image Vmu_Store Vmu_Emulation Vmu_Cards Vmu_Durable Vmu_Tools Vmu_Subset Sha256 Disc_Sectors Gd_Service Zso Retail_Image Readahead
    Card_Paths File_Paths Ftp_Protocol Http_Protocol
begin

text \<open>
  K-UI NeXT is a shell and loader for the Dreamcast that boots from an SD card: it captures discs, starts games from disc images on the
  card, replaces the memory cards (VMU) of a game by files on the card, and serves the card over FTP and HTTP.  This library models the
  pure C core of it, src/core, component by component, with the names of the sources.

  \<^bold>\<open>Conventions.\<close>  Byte buffers are lists of 8-bit words, C integers are words where they can wrap and natural numbers where the code
  has checked their range, structures are records, result codes are datatypes, an output that the code fills on success only is an
  \<open>option\<close> or sum.  Callbacks are function arguments on an explicit context, so that every call the code makes, and its order, is in
  the model; what a device promises is a hypothesis of the theorem or the \<open>assumes\<close> of a locale.  Buffers that the code compares by
  address carry that address.  \<open>Kui_Bytes\<close> holds this vocabulary with its rewriting rules (\<open>byte_simps\<close>, \<open>wire_simps\<close>).

  \<^bold>\<open>Checksums and hashes.\<close>  \<open>Kui_Checksums\<close>: the four CRC-32 routines (data.c, recovery\_crc.c, hash.c, loader/stage\_fast\_crc32.h and the
  resident's), the CRC-16 routines of crc16.c and the EDC of a sector.  A locale for registers that are linear over XOR and one for
  reflected table-driven registers carry the lemmas; each table of the sources is an interpretation.  Shown: all routines of a width
  compute the same function, appending and replacing within a checksummed range is exact.  \<open>Sha256\<close>: the streaming hash of hash.c equals
  the one-shot hash however the message is cut.

  \<^bold>\<open>Memory cards.\<close>  \<open>Vmu_Image\<close>: the blank-card formatter and the admission check of vmu\_image.c; only an all-zero card is ever written by the formatter; the check decides the predicate
  \<open>wf_card\<close>, and the locale \<open>honest_reader\<close> extends this to readers that may fail at any call.  \<open>Vmu_Store\<close>: the redo store of
  vmu\_store.c, a marker and payload journal beside the image; a crash at any point of any write, with the sectors written since the last
  barrier kept or lost in any combination, leaves a card that opens with the old or the new block.  \<open>Vmu_Emulation\<close>: the Maple protocol
  of vmu\_emulation.c, whose four write phases are staged and reach the backing store only at SYNC; the locale \<open>block_backing\<close> is what a
  backing store promises.  \<open>Vmu_Cards\<close>: the volatile and the read-only card (vmu\_volatile.c, vmu\_readonly.c), proved to be such backing
  stores over every steady reader.  \<open>Vmu_Durable\<close>: the writable card of vmu\_durable.c, which runs the Maple protocol over the redo store on a
  loan of the SD card: the sealed handoff, the transaction that borrows the card, mounts the store, serves the callback and hands the card
  back, the lease and the request handler.  The SD driver and the lease are parameters; under their laws the card behaves as a plain
  array of blocks, a save that was acknowledged survives any power loss, and on a healthy card the
  only request that brings it into the fault state is a RESET with a response buffer of 4 to 7 bytes.  \<open>Vmu_Tools\<close> and \<open>Vmu_Subset\<close>: packing files into a card, merging two cards, copying a selection of
  saves, and the listing behind it (vmu\_image\_pack.c, vmu\_image\_merge.c, vmu\_image\_subset.c, vmu\_import\_plan.c); results are
  well-formed cards with exactly the intended files, and refusals change nothing.

  \<^bold>\<open>Discs.\<close>  \<open>Disc_Sectors\<close>: partition choice, tables of contents, sample points, sector payloads and the strict sector check with its
  Reed-Solomon parity (data.c, hash.c, recovery\_sector.c).  \<open>Retail_Image\<close>: disc maps, their admission, their wire form and the sector
  reader with its one-block cache (retail\_image.c).  \<open>Readahead\<close>: the ring cache of the native reader (native\_readahead\_cache.c), with its
  overlapping copy as the code makes it, refines a map from blocks to bytes.  \<open>Zso\<close>: the compressed container with the LZ4 and LZO1X
  decoders (zso.c, lzo1x.c).  \<open>Gd_Service\<close>: the system-call service a running game uses instead of the drive (gd\_service.c), as one step
  per call; reachable states are an inductive predicate and the invariants go by rule induction.

  \<^bold>\<open>Names, paths and servers.\<close>  \<open>Card_Paths\<close>: safe names, UTF-8, destinations, disc titles, numbered folders and the stored record
  (destination.c).  \<open>File_Paths\<close>: the paths of the file browser (files\_path.c); a valid path is the rendering of a list of safe names.
  \<open>Ftp_Protocol\<close> and \<open>Http_Protocol\<close>: the protocol pieces of the two servers (ftp\_protocol.c, http\_protocol.c); path resolution refines
  walking in a tree of names, the HTTP server stays inside its three public folders, the wildcard matcher always returns.

  \<^bold>\<open>How the parts meet.\<close>  The tools build on the admission check and its specification; the emulation calls a card through
  \<open>block_backing\<close>; the durable card composes the emulation with the redo store; the volatile and read-only cards read images through \<open>honest_reader\<close>; disc maps and the redo store checksum with \<open>Kui_Checksums\<close>; the
  table of contents that \<open>Gd_Service\<close> writes into guest memory is the one \<open>Disc_Sectors\<close> parses; both servers check with \<open>File_Paths\<close>,
  which checks names with \<open>Card_Paths\<close>.

  \<^bold>\<open>Loops.\<close>  Loops over data are structural recursion or \<open>function\<close> with a measure, most often the bytes that are left.  The wildcard
  matcher is a \<open>partial_function\<close>, in which not returning is a value, and is proved to return.  The decoders of \<open>Zso\<close> recurse on the
  input that is left.  No theorem has a bound on a number of steps.

  \<^bold>\<open>Not modelled.\<close>  The shell, its screens and applications (src/core/shell.c, src/dreamcast, src/apps): drawing, input and hardware
  registers.  The loaders' resident code and assembly (src/loader): hardware, interrupts and code that patches games.  File-system and
  network back ends (destination\_store, sockets, FatFs, lwext4, the Wi-Fi firmware): third-party code or calls of it.  The capture,
  salvage and update pipelines and the remaining retail services of src/core; the KUI\_RETAIL\_MDK2\_CDDA and KUI\_RETAIL\_CE variants of
  retail\_image.c.  Timing, concurrency between the SH-4 and the drive, and undefined behaviour of C outside the checked ranges.
\<close>

end
